(* ===== verification/FS_Prelude.thy ===== *)
theory FS_Prelude
  imports Main "HOL-Library.Word"
begin

text \<open>
  Shared vocabulary of the FileStick development: the widths of the machine integers of the
  rv32imc target, the byte-addressed memory of the machine with its load and store operations,
  little-endian encodings, the errno values of the C library (newlib) that the sources name,
  the faults a C operation can end in, and the generic lemmas on lists and words that the
  component theories rely on.
\<close>

unbundle bit_operations_syntax

section \<open>Machine integers\<close>

type_synonym byte = "8 word"
type_synonym u16 = "16 word"
type_synonym u32 = "32 word"
type_synonym u64 = "64 word"

text \<open>An address of the 32-bit machine; \<open>NULL\<close> is 0.\<close>
type_synonym addr = "32 word"

named_theorems mem_simps \<open>what a load returns after a store\<close>
named_theorems word_nat \<open>words read as natural numbers\<close>

section \<open>Faults\<close>

text \<open>
  What a C operation can do besides returning: read or write outside an array or outside the
  memory it owns, call through or dereference a null pointer, wait for hardware that never
  becomes ready, read a variable that was never written, stop at a breakpoint instruction, or shift
  a word by more than its width.
\<close>

datatype fault = Out_Of_Bounds | Null_Pointer | Blocks_Forever | Uninitialised | Breakpoint | Undefined_Shift

text \<open>Sequencing of operations that may fault.\<close>

definition bindE :: "fault + 'a \<Rightarrow> ('a \<Rightarrow> fault + 'b) \<Rightarrow> fault + 'b" where
  "bindE m k = (case m of Inl e \<Rightarrow> Inl e | Inr x \<Rightarrow> k x)"

lemma bindE_simps [simp]:
  "bindE (Inl e) k = Inl e"
  "bindE (Inr x) k = k x"
  by (simp_all add: bindE_def)

lemma bindE_Inr_iff: "bindE m k = Inr y \<longleftrightarrow> (\<exists>x. m = Inr x \<and> k x = Inr y)"
  by (cases m) auto

lemma bindE_split:
  "P (bindE m k) \<longleftrightarrow> (\<forall>e. m = Inl e \<longrightarrow> P (Inl e)) \<and> (\<forall>x. m = Inr x \<longrightarrow> P (k x))"
  by (cases m) auto

section \<open>Error numbers of the C library\<close>

abbreviation ENOENT :: int where "ENOENT \<equiv> 2"
abbreviation EIO :: int where "EIO \<equiv> 5"
abbreviation ENOEXEC :: int where "ENOEXEC \<equiv> 8"
abbreviation EBADF :: int where "EBADF \<equiv> 9"
abbreviation ENOMEM :: int where "ENOMEM \<equiv> 12"
abbreviation EEXIST :: int where "EEXIST \<equiv> 17"
abbreviation EINVAL :: int where "EINVAL \<equiv> 22"
abbreviation ENFILE :: int where "ENFILE \<equiv> 23"
abbreviation EMFILE :: int where "EMFILE \<equiv> 24"
abbreviation ESPIPE :: int where "ESPIPE \<equiv> 29"
abbreviation EROFS :: int where "EROFS \<equiv> 30"
abbreviation ETIMEDOUT :: int where "ETIMEDOUT \<equiv> 116"
abbreviation EHOSTUNREACH :: int where "EHOSTUNREACH \<equiv> 118"
abbreviation EDESTADDRREQ :: int where "EDESTADDRREQ \<equiv> 121"
abbreviation EMSGSIZE :: int where "EMSGSIZE \<equiv> 122"

section \<open>Words as natural numbers\<close>

lemma unat_of_nat_small [word_nat]:
  "n < 2 ^ LENGTH('a::len) \<Longrightarrow> unat (of_nat n :: 'a word) = n"
  by (simp add: unat_of_nat take_bit_nat_eq_self)

lemma unat_of_nat32 [simp]: "n < 4294967296 \<Longrightarrow> unat (of_nat n :: u32) = n"
  using unat_of_nat_small [of n, where 'a = 32] by simp

lemma unat_lt32 [simp]: "unat (x :: u32) < 4294967296"
  using unsigned_less [of x] by simp

lemma unat_le32 [simp]: "unat (x :: u32) \<le> 4294967296"
  using unat_lt32 [of x] by (rule less_imp_le)

lemma unat_add32 [word_nat]:
  "unat (x :: u32) + unat y < 4294967296 \<Longrightarrow> unat (x + y) = unat x + unat y"
  using unat_add_lem [of x y] by simp

lemma unat_inc16: "unat (n :: u16) + 1 < 65536 \<Longrightarrow> unat (n + 1) = unat n + 1"
  using unat_add_lem [of n 1] by simp

text \<open>A count that fits the positive half of \<open>ssize_t\<close> is returned as it is.\<close>

lemma sint_small [word_nat]: "unat (x :: u32) < 2147483648 \<Longrightarrow> sint x = int (unat x)"
proof -
  assume "unat x < 2147483648"
  moreover have "uint x = int (unat x)" by simp
  ultimately have "0 \<le> uint x" and "uint x < 2147483648" by linarith+
  then show ?thesis by (simp add: sint_uint signed_take_bit_int_eq_self order_trans [of _ 0])
qed

lemma unat_nonneg_sint: "0 \<le> sint (x :: u32) \<Longrightarrow> unat x < 2147483648"
proof -
  assume x: "0 \<le> sint x"
  have u: "uint x < 4294967296" using unsigned_less [of x, where 'a = int] by simp
  then have "take_bit 32 (uint x) = uint x" by (intro take_bit_int_eq_self) simp_all
  then have "sint x = uint x - 4294967296 * of_bool (bit (uint x) 31)"
    by (simp add: sint_uint signed_take_bit_eq_take_bit_minus)
  moreover have "sint x < 2147483648" using signed_take_bit_int_less_exp [of 31 "uint x"] by (simp add: sint_uint)
  ultimately have "uint x < 2147483648" using x u by (cases "bit (uint x) 31") simp_all
  then show ?thesis using uint_nat [of x] by linarith
qed

lemma of_nat_diff_self [simp]: "(p + of_nat i) - (p :: u32) = of_nat i"
  by simp

lemma word_eq_plus_of_nat: "(q :: u32) = p + of_nat (unat (q - p))"
  by simp

text \<open>A \<open>do ... while (--n != 0)\<close> loop makes progress.\<close>

lemma unat_countdown: "(n :: u32) \<noteq> 1 \<Longrightarrow> unat (n - 2) < unat (n - 1)"
  using measure_unat [of "n - 1"] by simp

section \<open>Memory\<close>

text \<open>The memory of the machine: a byte for every address.\<close>

type_synonym mem = "addr \<Rightarrow> byte"

definition load_bytes :: "mem \<Rightarrow> addr \<Rightarrow> nat \<Rightarrow> byte list" where
  "load_bytes m p n = map (\<lambda>i. m (p + of_nat i)) [0..<n]"

primrec store_bytes :: "mem \<Rightarrow> addr \<Rightarrow> byte list \<Rightarrow> mem" where
  "store_bytes m p [] = m"
| "store_bytes m p (b # bs) = store_bytes (m(p := b)) (p + 1) bs"

lemma length_load_bytes [simp]: "length (load_bytes m p n) = n"
  by (simp add: load_bytes_def)

lemma load_bytes_0 [simp]: "load_bytes m p 0 = []"
  by (simp add: load_bytes_def)

lemma nth_load_bytes [simp]: "i < n \<Longrightarrow> load_bytes m p n ! i = m (p + of_nat i)"
  by (simp add: load_bytes_def)

lemma load_bytes_Suc: "load_bytes m p (Suc n) = m p # load_bytes m (p + 1) n"
  by (rule nth_equalityI) (auto simp: nth_Cons' add.assoc of_nat_diff)

lemma load_bytes_add:
  "load_bytes m p (a + b) = load_bytes m p a @ load_bytes m (p + of_nat a) b"
  by (rule nth_equalityI) (auto simp: nth_append add.assoc of_nat_diff)

lemma load_bytes_Suc_last: "load_bytes m p (Suc n) = load_bytes m p n @ [m (p + of_nat n)]"
  using load_bytes_add [of m p n 1] by (simp add: load_bytes_Suc)

text \<open>
  The byte at \<open>q\<close> after storing \<open>bs\<close> at \<open>p\<close>: the distance from \<open>p\<close>, which wraps around
  with the address, selects the byte.
\<close>

lemma store_bytes_apply:
  "length bs \<le> 4294967296 \<Longrightarrow>
   store_bytes m p bs q = (if unat (q - p) < length bs then bs ! unat (q - p) else m q)"
proof (induction bs arbitrary: m p)
  case Nil
  then show ?case by simp
next
  case (Cons b bs)
  have IH: "store_bytes (m(p := b)) (p + 1) bs q =
    (if unat (q - (p + 1)) < length bs then bs ! unat (q - (p + 1)) else (m(p := b)) q)"
    using Cons.prems by (intro Cons.IH) simp
  show ?case
  proof (cases "q = p")
    case True
    have "unat (- 1 :: u32) = 4294967295" by (simp add: unsigned_minus_1_eq_mask mask_eq_exp_minus_1)
    with True IH Cons.prems show ?thesis by simp
  next
    case False
    then have "q - p \<noteq> 0" by simp
    then have "unat (q - p - 1) = unat (q - p) - 1" and "0 < unat (q - p)"
      by (simp_all add: unat_minus_one unat_gt_0)
    then have "unat (q - (p + 1)) = unat (q - p) - 1" by (simp add: diff_diff_eq)
    then show ?thesis
      using IH False \<open>0 < unat (q - p)\<close> by (cases "unat (q - p)") auto
  qed
qed

lemma store_bytes_append:
  "store_bytes m p (xs @ ys) = store_bytes (store_bytes m p xs) (p + of_nat (length xs)) ys"
  by (induction xs arbitrary: m p) (simp_all add: add.assoc)

lemma load_store_same [mem_simps]:
  "length bs \<le> 4294967296 \<Longrightarrow> n = length bs \<Longrightarrow> load_bytes (store_bytes m p bs) p n = bs"
  by (rule nth_equalityI) (auto simp: store_bytes_apply)

text \<open>Two ranges of memory that share no address.\<close>

definition disjoint_range :: "addr \<Rightarrow> nat \<Rightarrow> addr \<Rightarrow> nat \<Rightarrow> bool" where
  "disjoint_range p n q k \<longleftrightarrow> (\<forall>i < n. k \<le> unat (p + of_nat i - q))"

lemma load_store_disjoint [mem_simps]:
  "length bs \<le> 4294967296 \<Longrightarrow> disjoint_range p n q (length bs) \<Longrightarrow>
   load_bytes (store_bytes m q bs) p n = load_bytes m p n"
  by (rule nth_equalityI) (auto simp: store_bytes_apply disjoint_range_def not_less [symmetric])

lemma disjoint_range_sub:
  "disjoint_range p n q k \<Longrightarrow> j + l \<le> n \<Longrightarrow> k' \<le> k \<Longrightarrow> disjoint_range (p + of_nat j) l q k'"
  unfolding disjoint_range_def
proof (intro allI impI)
  fix i assume *: "\<forall>i<n. k \<le> unat (p + of_nat i - q)" "j + l \<le> n" "k' \<le> k" "i < l"
  have "k \<le> unat (p + of_nat (j + i) - q)" using *(1) [rule_format, of "j + i"] *(2,4) by simp
  then show "k' \<le> unat (p + of_nat j + of_nat i - q)" using *(3) by (simp add: add.assoc)
qed

lemma disjoint_range_shift:
  "disjoint_range p n q n \<Longrightarrow> j + l \<le> n \<Longrightarrow> disjoint_range (p + of_nat j) l (q + of_nat j) l"
  unfolding disjoint_range_def
proof (intro allI impI)
  fix i assume *: "\<forall>i<n. n \<le> unat (p + of_nat i - q)" "j + l \<le> n" "i < l"
  have "n \<le> unat (p + of_nat i - q)" using *(1) [rule_format, of i] *(2,3) by simp
  moreover have "p + of_nat j + of_nat i - (q + of_nat j) = p + of_nat i - q" by simp
  ultimately show "l \<le> unat (p + of_nat j + of_nat i - (q + of_nat j))"
    using *(2) by (metis add_leD2 order_trans)
qed

lemma disjoint_range_upd:
  "disjoint_range p n q n \<Longrightarrow> j + l \<le> n \<Longrightarrow>
   load_bytes (m(q := b)) (p + of_nat j) l = load_bytes m (p + of_nat j) l"
proof (rule nth_equalityI; simp)
  fix i assume *: "disjoint_range p n q n" "j + l \<le> n" "i < l"
  have "n \<le> unat (p + of_nat (j + i) - q)"
    using *(1) [unfolded disjoint_range_def, rule_format, of "j + i"] *(2,3) by simp
  then have "p + of_nat j + of_nat i \<noteq> q" using *(2,3) by (auto simp: add.assoc)
  then show "p + of_nat j + of_nat i = q \<longrightarrow> b = m q" by simp
qed

lemma disjoint_rangeI_nat:
  assumes "unat q + k \<le> unat p \<or> unat p + n \<le> unat q"
    and "unat p + n \<le> 4294967296" and "unat q + k \<le> 4294967296"
  shows "disjoint_range p n q k"
  unfolding disjoint_range_def
proof (intro allI impI)
  fix i assume i: "i < n"
  with assms(2) have i32: "unat (of_nat i :: u32) = i" by simp
  have "unat (p + of_nat i) = unat p + i"
    using i assms(2) i32 by (subst unat_add32) simp_all
  then show "k \<le> unat (p + of_nat i - q)"
    using assms i by (auto simp: unat_sub_if_size word_size)
qed

section \<open>Little-endian words\<close>

definition bytes_of_u32 :: "u32 \<Rightarrow> byte list" where
  "bytes_of_u32 w = [ucast w, ucast (drop_bit 8 w), ucast (drop_bit 16 w), ucast (drop_bit 24 w)]"

definition u32_of_bytes :: "byte \<Rightarrow> byte \<Rightarrow> byte \<Rightarrow> byte \<Rightarrow> u32" where
  "u32_of_bytes b0 b1 b2 b3 =
     ucast b0 OR push_bit 8 (ucast b1) OR push_bit 16 (ucast b2) OR push_bit 24 (ucast b3)"

definition u16_of_bytes :: "byte \<Rightarrow> byte \<Rightarrow> u16" where
  "u16_of_bytes b0 b1 = ucast b0 OR push_bit 8 (ucast b1)"

definition load32 :: "mem \<Rightarrow> addr \<Rightarrow> u32" where
  "load32 m p = u32_of_bytes (m p) (m (p + 1)) (m (p + 2)) (m (p + 3))"

definition store32 :: "mem \<Rightarrow> addr \<Rightarrow> u32 \<Rightarrow> mem" where
  "store32 m p w = store_bytes m p (bytes_of_u32 w)"

lemma length_bytes_of_u32 [simp]: "length (bytes_of_u32 w) = 4"
  by (simp add: bytes_of_u32_def)

lemma u32_of_bytes_parts:
  "ucast (u32_of_bytes b0 b1 b2 b3) = b0"
  "ucast (drop_bit 8 (u32_of_bytes b0 b1 b2 b3)) = b1"
  "ucast (drop_bit 16 (u32_of_bytes b0 b1 b2 b3)) = b2"
  "ucast (drop_bit 24 (u32_of_bytes b0 b1 b2 b3)) = b3"
  by (rule bit_word_eqI; auto simp: u32_of_bytes_def bit_simps dest: bit_imp_le_length)+

lemma bytes_u32_of_bytes [simp]:
  "bytes_of_u32 (u32_of_bytes b0 b1 b2 b3) = [b0, b1, b2, b3]"
  by (simp add: bytes_of_u32_def u32_of_bytes_parts)

lemma u32_of_bytes_of_u32:
  "u32_of_bytes (ucast w) (ucast (drop_bit 8 w)) (ucast (drop_bit 16 w)) (ucast (drop_bit 24 w)) = w"
proof (rule bit_word_eqI)
  fix n assume "n < LENGTH(32)"
  then have "n < 8 \<or> (8 \<le> n \<and> n < 16) \<or> (16 \<le> n \<and> n < 24) \<or> (24 \<le> n \<and> n < 32)" by auto
  then show "bit (u32_of_bytes (ucast w) (ucast (drop_bit 8 w)) (ucast (drop_bit 16 w))
      (ucast (drop_bit 24 w))) n = bit w n"
    by (elim disjE) (auto simp: u32_of_bytes_def bit_simps)
qed

text \<open>Copying a word copies its four bytes.\<close>

lemma store32_load32: "store32 m d (load32 m s) = store_bytes m d (load_bytes m s 4)"
  by (simp add: store32_def load32_def numeral_eq_Suc load_bytes_Suc add.assoc)

lemma load32_store32: "load32 (store32 m p w) p = w"
proof -
  have "load32 (store32 m p w) p = u32_of_bytes (ucast w) (ucast (drop_bit 8 w))
      (ucast (drop_bit 16 w)) (ucast (drop_bit 24 w))"
    by (simp add: load32_def store32_def bytes_of_u32_def add.assoc)
  then show ?thesis by (simp add: u32_of_bytes_of_u32)
qed

section \<open>Aligned blocks\<close>

lemma div_eq_aligned:
  fixes p :: nat
  assumes "p mod n = 0" and "0 < n"
  shows "a div n = p div n \<longleftrightarrow> p \<le> a \<and> a < p + n"
proof -
  obtain q where p: "p = n * q" using assms(1) by auto
  have "a div n = q \<longleftrightarrow> n * q \<le> a \<and> a < n * q + n"
    using assms(2) by (metis add.commute div_nat_eqI dividend_less_times_div mult_Suc_right times_div_less_eq_dividend)
  then show ?thesis using p assms(2) by simp
qed

section \<open>Search loops\<close>

text \<open>\<open>for(i = ...; i < n; i++) if(P(i)) return i;\<close>, \<open>None\<close> when the loop runs to its end.\<close>

function for_find :: "(nat \<Rightarrow> bool) \<Rightarrow> nat \<Rightarrow> nat \<Rightarrow> nat option" where
  "for_find P i n = (if i < n then if P i then Some i else for_find P (Suc i) n else None)"
  by pat_completeness auto
termination
  by (relation "measure (\<lambda>(P, i, n). n - i)") auto

declare for_find.simps [simp del]

lemma for_find_Some:
  "for_find P i n = Some j \<longleftrightarrow> i \<le> j \<and> j < n \<and> P j \<and> (\<forall>k. i \<le> k \<and> k < j \<longrightarrow> \<not> P k)"
proof (induction P i n rule: for_find.induct)
  case (1 P i n)
  show ?case
  proof (cases "i < n \<and> \<not> P i")
    case True
    with "1.IH" show ?thesis
      by (auto simp: for_find.simps [of P i n] Suc_le_eq) (metis le_neq_implies_less)
  next
    case False
    then show ?thesis by (auto simp: for_find.simps [of P i n])
  qed
qed

lemma for_find_None: "for_find P i n = None \<longleftrightarrow> (\<forall>k. i \<le> k \<and> k < n \<longrightarrow> \<not> P k)"
proof (induction P i n rule: for_find.induct)
  case (1 P i n)
  then show ?case
    by (auto simp: for_find.simps [of P i n] Suc_le_eq) (metis le_neq_implies_less)
qed

lemma for_find_lt: "for_find P i n = Some j \<Longrightarrow> j < n \<and> P j"
  by (simp add: for_find_Some)

end
