(* ===== verification/CStrings.thy ===== *)
theory CStrings
  imports FS_Prelude
begin

text \<open>
  The string and memory routines of the kernel, system/mem*.c and system/str*.c, over the
  byte-addressed memory. A loop that runs until it meets a NUL byte is a
  \<open>partial_function (option)\<close>: \<open>None\<close> is a call that never returns. A loop that counts down
  a \<open>size_t\<close> is a terminating \<open>function\<close>. The lemmas say what each routine returns on
  NUL-terminated strings, and that repeated \<open>strtok\<close> yields the tokens of a line.
\<close>

section \<open>The routines\<close>

subsection \<open>memcpy.c, memset.c, memcmp.c\<close>

function memcpy_words :: "mem \<Rightarrow> addr \<Rightarrow> addr \<Rightarrow> u32 \<Rightarrow> mem \<times> addr \<times> addr" where
  "memcpy_words m d s aligned =
     (if aligned \<noteq> 0
      then memcpy_words (store32 m d (load32 m s)) (d + 4) (s + 4) (aligned - 1)
      else (m, d, s))"
  by pat_completeness auto
termination
  by (relation "measure (\<lambda>(m, d, s, n). unat n)") (auto simp: measure_unat)

function memcpy_bytes :: "mem \<Rightarrow> addr \<Rightarrow> addr \<Rightarrow> u32 \<Rightarrow> mem" where
  "memcpy_bytes m ud us n =
     (if n \<noteq> 0 then memcpy_bytes (m(ud := m us)) (ud + 1) (us + 1) (n - 1) else m)"
  by pat_completeness auto
termination
  by (relation "measure (\<lambda>(m, d, s, n). unat n)") (auto simp: measure_unat)

text \<open>The result is the memory; the C function returns \<open>dest\<close>.\<close>

definition memcpy :: "mem \<Rightarrow> addr \<Rightarrow> addr \<Rightarrow> u32 \<Rightarrow> mem" where
  "memcpy m dest src n =
     (if (dest AND 3) OR (src AND 3) = 0 \<and> 4 \<le> n
      then case memcpy_words m dest src (drop_bit 2 n) of
             (m', ud, us) \<Rightarrow> memcpy_bytes m' ud us (n AND 3)
      else memcpy_bytes m dest src n)"

function memset_loop :: "mem \<Rightarrow> addr \<Rightarrow> byte \<Rightarrow> u32 \<Rightarrow> mem" where
  "memset_loop m ptr c n =
     (if n \<noteq> 0 then memset_loop (m(ptr := c)) (ptr + 1) c (n - 1) else m)"
  by pat_completeness auto
termination
  by (relation "measure (\<lambda>(m, d, c, n). unat n)") (auto simp: measure_unat)

definition memset :: "mem \<Rightarrow> addr \<Rightarrow> int \<Rightarrow> u32 \<Rightarrow> mem" where
  "memset m s c n = memset_loop m s (word_of_int c) n"

function memcmp_loop :: "mem \<Rightarrow> addr \<Rightarrow> addr \<Rightarrow> u32 \<Rightarrow> int" where
  "memcmp_loop m p1 p2 n =
     (if m p1 \<noteq> m p2 then uint (m p1) - uint (m p2)
      else if n - 1 \<noteq> 0 then memcmp_loop m (p1 + 1) (p2 + 1) (n - 1) else 0)"
  by pat_completeness auto
termination
  by (relation "measure (\<lambda>(m, p, q, n). unat (n - 1))")
    (auto simp: unat_countdown)

definition memcmp :: "mem \<Rightarrow> addr \<Rightarrow> addr \<Rightarrow> u32 \<Rightarrow> int" where
  "memcmp m s1 s2 n = (if n \<noteq> 0 then memcmp_loop m s1 s2 n else 0)"

declare memcpy_words.simps [simp del] memcpy_bytes.simps [simp del]
  memset_loop.simps [simp del] memcmp_loop.simps [simp del]

subsection \<open>strlen.c, strchr.c, strcmp.c, strncmp.c\<close>

partial_function (option) strlen_loop :: "mem \<Rightarrow> addr \<Rightarrow> addr option" where
  "strlen_loop m s = (if m s \<noteq> 0 then strlen_loop m (s + 1) else Some s)"

definition strlen :: "mem \<Rightarrow> addr \<Rightarrow> u32 option" where
  "strlen m str = map_option (\<lambda>s. s - str) (strlen_loop m str)"

partial_function (option) strchr :: "mem \<Rightarrow> addr \<Rightarrow> int \<Rightarrow> addr option" where
  "strchr m s c =
     (if m s \<noteq> 0 then (if uint (m s) = c then Some s else strchr m (s + 1) c)
      else Some 0)"

partial_function (option) strcmp :: "mem \<Rightarrow> addr \<Rightarrow> addr \<Rightarrow> int option" where
  "strcmp m s1 s2 =
     (if m s1 = m s2 then (if m s1 = 0 then Some 0 else strcmp m (s1 + 1) (s2 + 1))
      else Some (uint (m s1) - uint (m s2)))"

function strncmp_loop :: "mem \<Rightarrow> addr \<Rightarrow> addr \<Rightarrow> u32 \<Rightarrow> int" where
  "strncmp_loop m s1 s2 n =
     (if m s1 \<noteq> m s2 then uint (m s1) - uint (m s2)
      else if m s1 = 0 then 0
      else if n - 1 \<noteq> 0 then strncmp_loop m (s1 + 1) (s2 + 1) (n - 1) else 0)"
  by pat_completeness auto
termination
  by (relation "measure (\<lambda>(m, p, q, n). unat (n - 1))")
    (auto simp: unat_countdown)

definition strncmp :: "mem \<Rightarrow> addr \<Rightarrow> addr \<Rightarrow> u32 \<Rightarrow> int" where
  "strncmp m s1 s2 n = (if n = 0 then 0 else strncmp_loop m s1 s2 n)"

declare strncmp_loop.simps [simp del]

subsection \<open>strlcpy.c\<close>

function strlcpy_copy :: "mem \<Rightarrow> addr \<Rightarrow> addr \<Rightarrow> u32 \<Rightarrow> mem \<times> addr \<times> addr \<times> u32" where
  "strlcpy_copy m dst src nleft =
     (if nleft - 1 \<noteq> 0
      then if m src = 0 then (m(dst := 0), dst + 1, src + 1, nleft - 1)
           else strlcpy_copy (m(dst := m src)) (dst + 1) (src + 1) (nleft - 1)
      else (m, dst, src, 0))"
  by pat_completeness auto
termination
  by (relation "measure (\<lambda>(m, p, q, n). unat (n - 1))")
    (auto simp: unat_countdown)

partial_function (option) strlcpy_skip :: "mem \<Rightarrow> addr \<Rightarrow> addr option" where
  "strlcpy_skip m src = (if m src \<noteq> 0 then strlcpy_skip m (src + 1) else Some (src + 1))"

text \<open>The returned length and the memory.\<close>

definition strlcpy :: "mem \<Rightarrow> addr \<Rightarrow> addr \<Rightarrow> u32 \<Rightarrow> (u32 \<times> mem) option" where
  "strlcpy m dst osrc dsize =
     (case (if dsize \<noteq> 0 then strlcpy_copy m dst osrc dsize else (m, dst, osrc, dsize)) of
        (m1, dst1, src1, nleft) \<Rightarrow>
          if nleft = 0
          then let m2 = (if dsize \<noteq> 0 then m1(dst1 := 0) else m1)
               in map_option (\<lambda>src. (src - osrc - 1, m2)) (strlcpy_skip m2 src1)
          else Some (src1 - osrc - 1, m1))"

declare strlcpy_copy.simps [simp del]

subsection \<open>strtok.c\<close>

text \<open>Does the string at \<open>spanp\<close> contain the byte \<open>c\<close> before its NUL?\<close>

partial_function (option) strtok_span :: "mem \<Rightarrow> byte \<Rightarrow> addr \<Rightarrow> bool option" where
  "strtok_span m c spanp =
     (if m spanp \<noteq> 0 then (if c = m spanp then Some True else strtok_span m c (spanp + 1))
      else Some False)"

text \<open>The \<open>cont\<close> loop: skip leading delimiters; the pointer past the byte \<open>c\<close> it stops at.\<close>

partial_function (option) strtok_skip :: "mem \<Rightarrow> addr \<Rightarrow> addr \<Rightarrow> (addr \<times> byte) option" where
  "strtok_skip m s delim =
     Option.bind (strtok_span m (m s) delim)
       (\<lambda>hit. if hit then strtok_skip m (s + 1) delim else Some (s + 1, m s))"

text \<open>Is \<open>c\<close> one of the delimiters or the NUL that ends them?\<close>

partial_function (option) strtok_match :: "mem \<Rightarrow> byte \<Rightarrow> addr \<Rightarrow> bool option" where
  "strtok_match m c spanp =
     (if m spanp = c then Some True
      else if m spanp \<noteq> 0 then strtok_match m c (spanp + 1) else Some False)"

text \<open>The token scan; what is saved in \<open>*last\<close> and the memory.\<close>

partial_function (option) strtok_scan :: "mem \<Rightarrow> addr \<Rightarrow> addr \<Rightarrow> (addr \<times> mem) option" where
  "strtok_scan m s delim =
     Option.bind (strtok_match m (m s) delim)
       (\<lambda>hit. if hit then (if m s = 0 then Some (0, m) else Some (s + 1, m(s := 0)))
              else strtok_scan m (s + 1) delim)"

text \<open>The token pointer, the memory and the new value of \<open>*last\<close>.\<close>

definition strtok_r :: "mem \<Rightarrow> addr \<Rightarrow> addr \<Rightarrow> addr \<Rightarrow> (addr \<times> mem \<times> addr) option" where
  "strtok_r m s delim lst =
     (if s = 0 \<and> lst = 0 then Some (0, m, lst)
      else Option.bind (strtok_skip m (if s = 0 then lst else s) delim)
        (\<lambda>(s1, c). if c = 0 then Some (0, m, 0)
          else Option.bind (strtok_scan m s1 delim) (\<lambda>(l, m'). Some (s1 - 1, m', l))))"

text \<open>\<open>strtok\<close> keeps \<open>last\<close> in a static variable, which the caller threads through here.\<close>

definition strtok :: "mem \<Rightarrow> addr \<Rightarrow> addr \<Rightarrow> addr \<Rightarrow> (addr \<times> mem \<times> addr) option" where
  "strtok m s delim lst = strtok_r m s delim lst"

text \<open>
  The argument loop that the supervisor shell, the ELF loader, the command line and the file
  server share: \<open>while(ptr && argc < MAXARGS) { args[argc++] = ptr; ptr = strtok(NULL, " "); }\<close>.
\<close>

fun strtok_args :: "nat \<Rightarrow> mem \<Rightarrow> addr \<Rightarrow> addr \<Rightarrow> addr \<Rightarrow> (addr list \<times> mem \<times> addr) option" where
  "strtok_args 0 m ptr delim lst = Some ([], m, lst)"
| "strtok_args (Suc k) m ptr delim lst =
     (if ptr = 0 then Some ([], m, lst)
      else Option.bind (strtok m 0 delim lst)
        (\<lambda>(ptr', m', lst'). Option.bind (strtok_args k m' ptr' delim lst')
           (\<lambda>(args, m'', lst''). Some (ptr # args, m'', lst''))))"

definition strtok_line :: "nat \<Rightarrow> mem \<Rightarrow> addr \<Rightarrow> addr \<Rightarrow> addr \<Rightarrow> (addr list \<times> mem \<times> addr) option" where
  "strtok_line maxargs m buf delim lst =
     Option.bind (strtok m buf delim lst)
       (\<lambda>(ptr, m', lst'). strtok_args maxargs m' ptr delim lst')"

section \<open>NUL-terminated strings in memory\<close>

primrec cstr :: "mem \<Rightarrow> addr \<Rightarrow> byte list \<Rightarrow> bool" where
  "cstr m p [] \<longleftrightarrow> m p = 0"
| "cstr m p (c # cs) \<longleftrightarrow> m p = c \<and> c \<noteq> 0 \<and> cstr m (p + 1) cs"

lemma cstr_iff:
  "cstr m p s \<longleftrightarrow> 0 \<notin> set s \<and> load_bytes m p (length s) = s \<and> m (p + of_nat (length s)) = 0"
  by (induction s arbitrary: p) (auto simp: load_bytes_Suc add.assoc)

lemma cstr_nonzero: "cstr m p s \<Longrightarrow> 0 \<notin> set s"
  by (simp add: cstr_iff)

lemma cstr_nth: "cstr m p s \<Longrightarrow> i < length s \<Longrightarrow> m (p + of_nat i) = s ! i"
  by (metis cstr_iff nth_load_bytes)

lemma cstr_end: "cstr m p s \<Longrightarrow> m (p + of_nat (length s)) = 0"
  by (simp add: cstr_iff)

text \<open>A string is shorter than the address space: its NUL is not one of its characters.\<close>

lemma cstr_length: "cstr m p s \<Longrightarrow> length s < 4294967296"
proof (rule ccontr)
  assume s: "cstr m p s" and "\<not> length s < 4294967296"
  define i where "i = unat (of_nat (length s) :: u32)"
  have "i < length s" using \<open>\<not> length s < 4294967296\<close> by (simp add: i_def less_le_trans [OF unat_lt32])
  then have "m (p + of_nat i) = s ! i" using s by (rule cstr_nth [rotated])
  moreover have "m (p + of_nat i) = 0" using cstr_end [OF s] by (simp add: i_def)
  ultimately have "0 \<in> set s" using \<open>i < length s\<close> nth_mem by force
  then show False using cstr_nonzero [OF s] by simp
qed

lemma cstr_append:
  "0 \<notin> set xs \<Longrightarrow> cstr m p (xs @ ys) \<longleftrightarrow> load_bytes m p (length xs) = xs \<and> cstr m (p + of_nat (length xs)) ys"
  by (induction xs arbitrary: p) (auto simp: load_bytes_Suc add.assoc)

section \<open>memcpy, memset and memcmp\<close>

lemma memcpy_bytes_eq:
  "disjoint_range s (unat n) d (unat n) \<Longrightarrow>
   memcpy_bytes m d s n = store_bytes m d (load_bytes m s (unat n))"
proof (induction m d s n rule: memcpy_bytes.induct)
  case (1 m d s n)
  show ?case
  proof (cases "n = 0")
    case True
    then show ?thesis by (simp add: memcpy_bytes.simps)
  next
    case False
    then obtain k where k: "unat n = Suc k" and k': "unat (n - 1) = k"
      by (metis Suc_pred unat_gt_0 unat_minus_one diff_Suc_1)
    have "disjoint_range (s + of_nat 1) k (d + of_nat 1) k"
      using "1.prems" k by (intro disjoint_range_shift) auto
    then have "memcpy_bytes (m(d := m s)) (d + 1) (s + 1) (n - 1) =
        store_bytes (m(d := m s)) (d + 1) (load_bytes (m(d := m s)) (s + 1) k)"
      using "1.IH" False k' by (simp add: fun_upd_def)
    moreover have "load_bytes (m(d := m s)) (s + 1) k = load_bytes m (s + 1) k"
      using disjoint_range_upd [OF "1.prems", of 1 k] k by simp
    ultimately show ?thesis
      using False k by (simp add: memcpy_bytes.simps [of m d s n] load_bytes_Suc)
  qed
qed

lemma memcpy_words_eq:
  "disjoint_range s (4 * unat a) d (4 * unat a) \<Longrightarrow> 4 * unat a < 4294967296 \<Longrightarrow>
   memcpy_words m d s a =
     (store_bytes m d (load_bytes m s (4 * unat a)), d + of_nat (4 * unat a), s + of_nat (4 * unat a))"
proof (induction m d s a rule: memcpy_words.induct)
  case (1 m d s a)
  show ?case
  proof (cases "a = 0")
    case True
    then show ?thesis by (simp add: memcpy_words.simps)
  next
    case False
    then obtain k where k: "unat a = Suc k" and k': "unat (a - 1) = k"
      by (metis Suc_pred unat_gt_0 unat_minus_one diff_Suc_1)
    let ?m = "store_bytes m d (load_bytes m s 4)"
    have "disjoint_range (s + of_nat 4) (4 * k) (d + of_nat 4) (4 * k)"
      using "1.prems" k by (intro disjoint_range_shift) auto
    then have "memcpy_words ?m (d + 4) (s + 4) (a - 1) =
        (store_bytes ?m (d + 4) (load_bytes ?m (s + 4) (4 * k)),
         d + 4 + of_nat (4 * k), s + 4 + of_nat (4 * k))"
      using "1.IH" False k' k "1.prems"(2) by (simp add: store32_load32)
    moreover have "load_bytes ?m (s + 4) (4 * k) = load_bytes m (s + 4) (4 * k)"
      using disjoint_range_sub [OF "1.prems"(1), of 4 "4 * k" 4] k
      by (intro load_store_disjoint) auto
    moreover have "load_bytes m s (4 * unat a) = load_bytes m s 4 @ load_bytes m (s + 4) (4 * k)"
      using load_bytes_add [of m s 4 "4 * k"] k by (simp add: add.commute)
    ultimately show ?thesis
      using False k by (simp add: memcpy_words.simps [of m d s a] store32_load32
          store_bytes_append algebra_simps)
  qed
qed

lemma memcpy_eq:
  assumes d: "disjoint_range src (unat n) dest (unat n)"
  shows "memcpy m dest src n = store_bytes m dest (load_bytes m src (unat n))"
proof (cases "(dest AND 3) OR (src AND 3) = 0 \<and> 4 \<le> n")
  case False
  then show ?thesis using d by (auto simp: memcpy_def memcpy_bytes_eq)
next
  case True
  define a where "a = unat (drop_bit 2 n)"
  define r where "r = unat (n AND 3)"
  have nar: "unat n = 4 * a + r"
  proof -
    have "n AND 3 = take_bit 2 n" by (simp add: take_bit_eq_mask numeral_eq_Suc mask_Suc_exp)
    then have "r = take_bit 2 (unat n)" by (simp only: r_def unsigned_take_bit_eq)
    then have "r = unat n mod 4" by (simp add: take_bit_eq_mod)
    moreover have "a = drop_bit 2 (unat n)" by (simp only: a_def unat_drop_bit_eq)
    then have "a = unat n div 4" by (simp add: drop_bit_eq_div)
    ultimately show ?thesis by simp
  qed
  have "4 * a < 4294967296" using nar unat_lt32 [of n] by linarith
  have words: "memcpy_words m dest src (drop_bit 2 n) =
      (store_bytes m dest (load_bytes m src (4 * a)), dest + of_nat (4 * a), src + of_nat (4 * a))"
    using memcpy_words_eq [of src "drop_bit 2 n" dest m] disjoint_range_shift [OF d, of 0 "4 * a"]
      \<open>4 * a < 4294967296\<close> nar by (simp add: a_def)
  let ?m = "store_bytes m dest (load_bytes m src (4 * a))"
  have "disjoint_range (src + of_nat (4 * a)) r (dest + of_nat (4 * a)) r"
    using d nar by (intro disjoint_range_shift) auto
  then have "memcpy_bytes ?m (dest + of_nat (4 * a)) (src + of_nat (4 * a)) (n AND 3) =
      store_bytes ?m (dest + of_nat (4 * a)) (load_bytes ?m (src + of_nat (4 * a)) r)"
    by (simp add: memcpy_bytes_eq r_def)
  moreover have "load_bytes ?m (src + of_nat (4 * a)) r = load_bytes m (src + of_nat (4 * a)) r"
    using disjoint_range_sub [OF d, of "4 * a" r "4 * a"] nar \<open>4 * a < 4294967296\<close>
    by (intro load_store_disjoint) auto
  ultimately show ?thesis
    using True words by (simp add: memcpy_def nar load_bytes_add store_bytes_append)
qed

definition demo_mem :: mem where
  "demo_mem = store_bytes (\<lambda>a. 0) 0x1000 [108, 115, 32, 32, 97, 46, 116, 120, 116, 0, 32, 0]"

text \<open>C38: \<open>memcpy\<close> stores the source bytes at the destination and nothing else, whether it copies
  words and a remainder (both pointers aligned) or single bytes, as long as the regions are
  disjoint.\<close>

theorem memcpy_correct:
  assumes "disjoint_range src (unat n) dest (unat n)"
  shows "memcpy m dest src n = store_bytes m dest (load_bytes m src (unat n))"
  using assms by (rule memcpy_eq)

theorem memcpy_correct_witness:
  "memcpy demo_mem 0x2000 0x1000 6 = store_bytes demo_mem 0x2000 (load_bytes demo_mem 0x1000 (unat (6 :: u32)))"
  by (rule memcpy_correct) (rule disjoint_rangeI_nat, simp_all)

lemma memset_loop_eq: "memset_loop m p c n = store_bytes m p (replicate (unat n) c)"
proof (induction m p c n rule: memset_loop.induct)
  case (1 m p c n)
  show ?case
  proof (cases "n = 0")
    case False
    then obtain k where "unat n = Suc k" and "unat (n - 1) = k"
      by (metis Suc_pred unat_gt_0 unat_minus_one diff_Suc_1)
    with False "1.IH" show ?thesis by (simp add: memset_loop.simps [of m p c n] fun_upd_def)
  qed (simp add: memset_loop.simps)
qed

lemma memset_correct: "memset m s c n = store_bytes m s (replicate (unat n) (word_of_int c))"
  by (simp add: memset_def memset_loop_eq)

lemma memcmp_loop_eq_0:
  "n \<noteq> 0 \<Longrightarrow> memcmp_loop m p q n = 0 \<longleftrightarrow> load_bytes m p (unat n) = load_bytes m q (unat n)"
proof (induction m p q n rule: memcmp_loop.induct)
  case (1 m p q n)
  then obtain k where k: "unat n = Suc k" and k': "unat (n - 1) = k"
    by (metis Suc_pred unat_gt_0 unat_minus_one diff_Suc_1)
  show ?case
  proof (cases "m p = m q \<and> n - 1 \<noteq> 0")
    case True
    then show ?thesis
      using "1.IH" k k' by (simp add: memcmp_loop.simps [of m p q n] load_bytes_Suc)
  next
    case False
    then have "m p \<noteq> m q \<or> k = 0" using k' by (auto simp: unat_0_iff)
    with False k show ?thesis
      by (auto simp: memcmp_loop.simps [of m p q n] load_bytes_Suc word_uint_eq_iff)
  qed
qed

lemma memcmp_eq_0: "memcmp m p q n = 0 \<longleftrightarrow> load_bytes m p (unat n) = load_bytes m q (unat n)"
  by (cases "n = 0") (simp_all add: memcmp_def memcmp_loop_eq_0)

section \<open>strlen, strchr, strcmp and strncmp\<close>

lemma strlen_loop_cstr: "cstr m p s \<Longrightarrow> strlen_loop m p = Some (p + of_nat (length s))"
  by (induction s arbitrary: p) (simp_all add: strlen_loop.simps add.assoc)

lemma strlen_cstr: "cstr m p s \<Longrightarrow> strlen m p = Some (of_nat (length s))"
  by (simp add: strlen_def strlen_loop_cstr)

text \<open>
  \<open>strchr\<close> finds the first occurrence of a character. The terminating NUL is not considered
  part of the string: \<open>strchr(s, 0)\<close> is \<open>NULL\<close>.
\<close>

lemma strchr_cstr:
  "cstr m p s \<Longrightarrow>
   strchr m p c = Some (if c \<in> uint ` set s
     then p + of_nat (length (takeWhile (\<lambda>b. uint b \<noteq> c) s)) else 0)"
  by (induction s arbitrary: p) (simp_all add: strchr.simps add.assoc)

text \<open>The comparison that \<open>strcmp\<close> computes, on the strings themselves.\<close>

fun strcmp_list :: "byte list \<Rightarrow> byte list \<Rightarrow> int" where
  "strcmp_list [] [] = 0"
| "strcmp_list [] (d # ds) = - uint d"
| "strcmp_list (c # cs) [] = uint c"
| "strcmp_list (c # cs) (d # ds) = (if c = d then strcmp_list cs ds else uint c - uint d)"

lemma strcmp_cstr: "cstr m p s \<Longrightarrow> cstr m q t \<Longrightarrow> strcmp m p q = Some (strcmp_list s t)"
  by (induction s t arbitrary: p q rule: strcmp_list.induct) (simp_all add: strcmp.simps)

lemma strcmp_list_eq_0: "0 \<notin> set s \<Longrightarrow> 0 \<notin> set t \<Longrightarrow> strcmp_list s t = 0 \<longleftrightarrow> s = t"
  by (induction s t rule: strcmp_list.induct) (auto simp: word_uint_eq_iff)

lemma uint_pos_iff: "0 < uint x \<longleftrightarrow> x \<noteq> 0"
  by (metis uint_0_iff uint_ge_0 order_le_less less_irrefl)

lemma strcmp_list_less:
  "0 \<notin> set s \<Longrightarrow> 0 \<notin> set t \<Longrightarrow> strcmp_list s t < 0 \<longleftrightarrow> (s, t) \<in> lexord {(a, b). a < b}"
  by (induction s t rule: strcmp_list.induct)
    (auto simp: uint_pos_iff word_less_def not_less [of 0, simplified])

lemma strncmp_loop_eq_0:
  "cstr m p s \<Longrightarrow> cstr m q t \<Longrightarrow> n \<noteq> 0 \<Longrightarrow>
   strncmp_loop m p q n = 0 \<longleftrightarrow> take (unat n) s = take (unat n) t"
proof (induction s t arbitrary: p q n rule: strcmp_list.induct)
  case (4 c cs d ds)
  then obtain k where k: "unat n = Suc k" and k': "unat (n - 1) = k"
    by (metis Suc_pred unat_gt_0 unat_minus_one diff_Suc_1)
  show ?case
  proof (cases "c = d \<and> n - 1 \<noteq> 0")
    case True
    with "4.IH" [of "p + 1" "q + 1" "n - 1"] "4.prems" k k' show ?thesis
      by (simp add: strncmp_loop.simps [of m p q n])
  next
    case False
    then have "c \<noteq> d \<or> k = 0" using k' by (auto simp: unat_0_iff)
    with False "4.prems" k show ?thesis
      by (auto simp: strncmp_loop.simps [of m p q n] word_uint_eq_iff)
  qed
qed (auto simp: strncmp_loop.simps word_uint_eq_iff unat_0_iff take_Cons' unat_eq_0)

lemma strncmp_cstr:
  "cstr m p s \<Longrightarrow> cstr m q t \<Longrightarrow> strncmp m p q n = 0 \<longleftrightarrow> take (unat n) s = take (unat n) t"
  by (cases "n = 0") (simp_all add: strncmp_def strncmp_loop_eq_0)

section \<open>strlcpy\<close>

lemma strlcpy_skip_cstr:
  "cstr m p s \<Longrightarrow> strlcpy_skip m p = Some (p + of_nat (length s) + 1)"
  by (induction s arbitrary: p) (simp_all add: strlcpy_skip.simps add.assoc)

lemma cstr_cong:
  "(\<And>i. i \<le> length s \<Longrightarrow> m' (p + of_nat i) = m (p + of_nat i)) \<Longrightarrow> cstr m' p s = cstr m p s"
proof (induction s arbitrary: p)
  case Nil
  from Nil [of 0] show ?case by simp
next
  case (Cons c cs)
  have "cstr m' (p + 1) cs = cstr m (p + 1) cs"
    by (rule Cons.IH) (use Cons.prems [of "Suc i" for i] in \<open>simp add: add.assoc\<close>)
  with Cons.prems [of 0] show ?case by simp
qed

lemma cstr_store_disjoint:
  "disjoint_range p (Suc (length s)) q (length bs) \<Longrightarrow> length bs \<le> 4294967296 \<Longrightarrow>
   cstr (store_bytes m q bs) p s = cstr m p s"
  by (rule cstr_cong) (auto simp: store_bytes_apply disjoint_range_def less_Suc_eq_le not_less [symmetric])

lemma strlcpy_copy_eq:
  assumes "cstr m src s" and "disjoint_range src (Suc (length s)) dst (unat n)" and "n \<noteq> 0"
  shows "strlcpy_copy m dst src n =
    (if Suc (length s) < unat n
     then (store_bytes m dst (s @ [0]), dst + of_nat (Suc (length s)), src + of_nat (Suc (length s)),
           n - of_nat (Suc (length s)))
     else (store_bytes m dst (take (unat n - 1) s), dst + of_nat (unat n - 1),
           src + of_nat (unat n - 1), 0))"
  using assms
proof (induction s arbitrary: m dst src n)
  case Nil
  have "n - 1 = 0 \<longleftrightarrow> \<not> Suc 0 < unat n"
    using Nil.prems(3) by (metis One_nat_def Suc_lessI diff_eq_eq add_0 less_irrefl unat_1 unat_gt_0
        word_unat_eq_iff)
  then show ?case
    using Nil.prems by (cases "n - 1 = 0") (auto simp: strlcpy_copy.simps [of m dst src n] strlcpy_copy.simps [of m dst src 1])
next
  case (Cons c cs)
  obtain k where k: "unat n = Suc k" and k': "unat (n - 1) = k"
    using Cons.prems(3) by (metis Suc_pred unat_gt_0 unat_minus_one diff_Suc_1)
  show ?case
  proof (cases "k = 0")
    case True
    then have "n - 1 = 0" using k' by (simp add: unat_0_iff)
    with True k show ?thesis by (simp add: strlcpy_copy.simps [of m dst src 1])
  next
    case False
    then have "n - 1 \<noteq> 0" using k' by (auto simp: unat_0_iff)
    have "disjoint_range (src + of_nat 1) (Suc (length cs)) dst 1"
      using Cons.prems(2) k by (intro disjoint_range_sub) auto
    then have "cstr (store_bytes m dst [c]) (src + 1) cs"
      using Cons.prems(1) by (subst cstr_store_disjoint) auto
    moreover have "disjoint_range (src + 1) (Suc (length cs)) (dst + 1) k"
      unfolding disjoint_range_def
    proof (intro allI impI)
      fix i assume "i < Suc (length cs)"
      then have "Suc k \<le> unat (src + of_nat i - dst)"
        using Cons.prems(2) k by (auto simp: disjoint_range_def)
      moreover have "src + 1 + of_nat i - (dst + 1) = src + of_nat i - dst" by simp
      ultimately show "k \<le> unat (src + 1 + of_nat i - (dst + 1))" by (metis Suc_leD)
    qed
    ultimately have "strlcpy_copy (m(dst := c)) (dst + 1) (src + 1) (n - 1) =
      (if Suc (length cs) < k
       then (store_bytes (m(dst := c)) (dst + 1) (cs @ [0]), dst + 1 + of_nat (Suc (length cs)),
             src + 1 + of_nat (Suc (length cs)), n - 1 - of_nat (Suc (length cs)))
       else (store_bytes (m(dst := c)) (dst + 1) (take (k - 1) cs), dst + 1 + of_nat (k - 1),
             src + 1 + of_nat (k - 1), 0))"
      using Cons.IH [of "m(dst := c)" "src + 1" "dst + 1" "n - 1"] \<open>n - 1 \<noteq> 0\<close> k'
      by (simp add: fun_upd_def)
    moreover have "strlcpy_copy m dst src n = strlcpy_copy (m(dst := c)) (dst + 1) (src + 1) (n - 1)"
      using Cons.prems(1) \<open>n - 1 \<noteq> 0\<close> by (simp add: strlcpy_copy.simps [of m dst src n])
    moreover obtain j where "k = Suc j" using False by (cases k) auto
    ultimately show ?thesis
      using k by (simp add: add.assoc diff_diff_eq)
  qed
qed

text \<open>\<open>strlcpy\<close> returns the length of its source, and the destination holds as much of it as
  fits in \<open>dsize - 1\<close> bytes, followed by a NUL. Nothing else is written.\<close>

theorem strlcpy_correct:
  assumes s: "cstr m src s" and d: "disjoint_range src (Suc (length s)) dst (unat n)" and n: "n \<noteq> 0"
  shows "strlcpy m dst src n =
    Some (of_nat (length s), store_bytes m dst (take (unat n - 1) s @ [0]))"
proof (cases "Suc (length s) < unat n")
  case True
  have "n - of_nat (Suc (length s)) \<noteq> 0"
  proof
    assume "n - of_nat (Suc (length s)) = 0"
    then have "n = of_nat (Suc (length s))" by (simp only: right_minus_eq)
    moreover have "unat (of_nat (Suc (length s)) :: u32) = Suc (length s)"
      using less_trans [OF True unat_lt32] by (rule unat_of_nat32)
    ultimately show False using True by simp
  qed
  with True n show ?thesis
    by (simp add: strlcpy_def strlcpy_copy_eq [OF s d n] take_all)
next
  case False
  define k where "k = unat n - 1"
  have n0: "0 < unat n" using n by (simp add: unat_gt_0)
  have k: "k \<le> length s" and kn: "unat n = Suc k" using False n0 by (simp_all add: k_def)
  let ?m = "store_bytes m dst (take k s @ [0])"
  have m2: "?m = (store_bytes m dst (take k s))(dst + of_nat k := 0)"
    using k by (simp add: store_bytes_append min_absorb2)
  have "cstr ?m src s"
    using s d kn k unat_lt32 [of n] by (subst cstr_store_disjoint) (auto simp: min_absorb2)
  moreover have "0 \<notin> set (take k s)" using cstr_nonzero [OF s] by (auto dest: in_set_takeD)
  ultimately have "cstr ?m (src + of_nat k) (drop k s)"
    using cstr_append [of "take k s" ?m src "drop k s"] k by (simp add: min_absorb2)
  then have "strlcpy_skip ?m (src + of_nat k) = Some (src + of_nat (length s) + 1)"
    using k by (simp add: strlcpy_skip_cstr of_nat_diff)
  then show ?thesis
    using False n m2 by (simp add: strlcpy_def strlcpy_copy_eq [OF s d n] k_def)
qed

theorem strlcpy_correct_witness:
  "strlcpy demo_mem 0x2000 0x1000 4 = Some (9, store_bytes demo_mem 0x2000 [108, 115, 32, 0])"
proof -
  let ?s = "[108, 115, 32, 32, 97, 46, 116, 120, 116]"
  have "disjoint_range 0x1000 (Suc (length ?s)) 0x2000 (unat (4 :: u32))"
    by (rule disjoint_rangeI_nat) simp_all
  moreover have "cstr demo_mem 0x1000 ?s" by (simp add: demo_mem_def)
  ultimately show ?thesis using strlcpy_correct [of demo_mem "0x1000" ?s "0x2000" 4] by simp
qed

section \<open>strtok\<close>

lemma strtok_span_cstr: "cstr m d ds \<Longrightarrow> strtok_span m c d = Some (c \<in> set ds)"
  by (induction ds arbitrary: d) (auto simp: strtok_span.simps)

lemma strtok_match_cstr: "cstr m d ds \<Longrightarrow> strtok_match m c d = Some (c \<in> set ds \<or> c = 0)"
  by (induction ds arbitrary: d) (auto simp: strtok_match.simps)

lemma strtok_skip_cstr:
  assumes d: "cstr m d ds"
  shows "cstr m p s \<Longrightarrow> strtok_skip m p d =
    Some (p + of_nat (length (takeWhile (\<lambda>c. c \<in> set ds) s)) + 1,
          case dropWhile (\<lambda>c. c \<in> set ds) s of [] \<Rightarrow> 0 | c # _ \<Rightarrow> c)"
proof (induction s arbitrary: p)
  case Nil
  then show ?case
    using d cstr_nonzero [OF d] by (simp add: strtok_skip.simps strtok_span_cstr)
next
  case (Cons c cs)
  then show ?case
    using d by (simp add: strtok_skip.simps [of m p d] strtok_span_cstr add.assoc)
qed

lemma strtok_scan_cstr:
  assumes d: "cstr m d ds"
  shows "cstr m p s \<Longrightarrow> strtok_scan m p d =
    (let k = length (takeWhile (\<lambda>c. c \<notin> set ds) s) in
     if k = length s then Some (0, m)
     else Some (p + of_nat k + 1, m(p + of_nat k := 0)))"
proof (induction s arbitrary: p)
  case Nil
  then show ?case using d by (simp add: strtok_scan.simps strtok_match_cstr)
next
  case (Cons c cs)
  then show ?case
    using d by (auto simp: strtok_scan.simps [of m p d] strtok_match_cstr add.assoc Let_def)
qed

text \<open>The tokens of a line, delimited by runs of delimiter characters.\<close>

function tokens :: "byte list \<Rightarrow> byte list \<Rightarrow> byte list list" where
  "tokens ds s =
     (case dropWhile (\<lambda>c. c \<in> set ds) s of
        [] \<Rightarrow> []
      | c # cs \<Rightarrow> takeWhile (\<lambda>c. c \<notin> set ds) (c # cs) # tokens ds (dropWhile (\<lambda>c. c \<notin> set ds) (c # cs)))"
  by pat_completeness auto
termination
proof (relation "measure (\<lambda>(ds, s). length s)", simp)
  fix ds s c cs
  assume *: "dropWhile (\<lambda>c. c \<in> set ds) s = c # cs"
  then have "c \<notin> set ds" using hd_dropWhile [of "\<lambda>c. c \<in> set ds" s] by simp
  then have "length (dropWhile (\<lambda>c. c \<notin> set ds) (c # cs)) < length (c # cs)"
    by (simp add: length_dropWhile_le less_Suc_eq_le)
  also have "\<dots> \<le> length s" using * by (metis length_dropWhile_le)
  finally show "((ds, dropWhile (\<lambda>c. c \<notin> set ds) (c # cs)), ds, s) \<in> measure (\<lambda>(ds, s). length s)"
    by simp
qed

declare tokens.simps [simp del]

lemma tokens_skip: "c \<in> set ds \<Longrightarrow> tokens ds (c # s) = tokens ds s"
  by (simp add: tokens.simps [of ds "c # s"] tokens.simps [of ds s])

lemma tokens_Nil [simp]: "tokens ds [] = []"
  by (simp add: tokens.simps)

lemma tokens_tl: "s \<noteq> [] \<Longrightarrow> hd s \<in> set ds \<Longrightarrow> tokens ds (tl s) = tokens ds s"
  by (cases s) (simp_all add: tokens_skip)

lemma tokens_no_delim: "t \<in> set (tokens ds s) \<Longrightarrow> t \<noteq> [] \<and> set t \<inter> set ds = {}"
proof (induction ds s rule: tokens.induct)
  case (1 ds s)
  show ?case
  proof (cases "dropWhile (\<lambda>c. c \<in> set ds) s")
    case Nil
    with "1.prems" show ?thesis by (simp add: tokens.simps [of ds s])
  next
    case (Cons c cs)
    then have "c \<notin> set ds" using hd_dropWhile [of "\<lambda>c. c \<in> set ds" s] by simp
    with Cons "1.prems" "1.IH" [OF Cons] show ?thesis
      by (auto simp: tokens.simps [of ds s] dest: set_takeWhileD)
  qed
qed

text \<open>Memory changed at most in the addresses from \<open>lo\<close> to \<open>hi\<close> (excluded).\<close>

definition changed_within :: "nat \<Rightarrow> nat \<Rightarrow> mem \<Rightarrow> mem \<Rightarrow> bool" where
  "changed_within lo hi m m' \<longleftrightarrow> (\<forall>a. m' a \<noteq> m a \<longrightarrow> lo \<le> unat a \<and> unat a < hi)"

lemma changed_within_refl [simp]: "changed_within lo hi m m"
  by (simp add: changed_within_def)

lemma changed_within_trans:
  "changed_within lo hi m m1 \<Longrightarrow> changed_within lo' hi' m1 m2 \<Longrightarrow> L \<le> lo \<Longrightarrow> L \<le> lo' \<Longrightarrow>
   hi \<le> H \<Longrightarrow> hi' \<le> H \<Longrightarrow> changed_within L H m m2"
  by (simp add: changed_within_def) (metis le_trans less_le_trans)

lemma unat_plus_of_nat: "unat (p :: u32) + i < 4294967296 \<Longrightarrow> unat (p + of_nat i) = unat p + i"
  by (subst unat_add32) simp_all

lemma cstr_changed_within:
  assumes "changed_within lo hi m m'" and "unat p + length s < 4294967296"
    and "unat p + length s < lo \<or> hi \<le> unat p" and "cstr m p s"
  shows "cstr m' p s"
proof -
  have "m' (p + of_nat i) = m (p + of_nat i)" if "i \<le> length s" for i
  proof (rule ccontr)
    assume "m' (p + of_nat i) \<noteq> m (p + of_nat i)"
    then have "lo \<le> unat (p + of_nat i)" and "unat (p + of_nat i) < hi"
      using assms(1) by (auto simp: changed_within_def)
    moreover have "unat (p + of_nat i) = unat p + i"
      using assms(2) that by (intro unat_plus_of_nat) simp
    ultimately show False using assms(3) that by auto
  qed
  then show ?thesis using assms(4) cstr_cong by blast
qed

lemma tokens_split:
  assumes "tokens ds r \<noteq> []"
  obtains pre t post where "r = pre @ t @ post" "set pre \<subseteq> set ds" "t \<noteq> []" "set t \<inter> set ds = {}"
    "post \<noteq> [] \<Longrightarrow> hd post \<in> set ds" "tokens ds r = t # tokens ds (tl post)"
proof -
  obtain c cs where Cons: "dropWhile (\<lambda>c. c \<in> set ds) r = c # cs"
    using assms by (subst (asm) tokens.simps) (auto split: list.splits)
  define pre where "pre = takeWhile (\<lambda>c. c \<in> set ds) r"
  define t where "t = takeWhile (\<lambda>c. c \<notin> set ds) (c # cs)"
  define post where "post = dropWhile (\<lambda>c. c \<notin> set ds) (c # cs)"
  have c: "c \<notin> set ds" using hd_dropWhile [of "\<lambda>c. c \<in> set ds" r] Cons by simp
  have "r = pre @ (c # cs)" using Cons takeWhile_dropWhile_id [of _ r] unfolding pre_def by metis
  moreover have "c # cs = t @ post" by (simp add: t_def post_def)
  ultimately have "r = pre @ t @ post" by simp
  moreover have "set pre \<subseteq> set ds" by (auto simp: pre_def dest: set_takeWhileD)
  moreover have "t \<noteq> []" using c by (simp add: t_def)
  moreover have "set t \<inter> set ds = {}" by (auto simp: t_def dest: set_takeWhileD)
  moreover have hd: "hd post \<in> set ds" if "post \<noteq> []"
    using hd_dropWhile [of "\<lambda>c. c \<notin> set ds" "c # cs"] that by (auto simp: post_def)
  moreover have "tokens ds r = t # tokens ds post"
    using Cons by (subst tokens.simps) (simp only: list.case t_def post_def)
  moreover have "tokens ds (tl post) = tokens ds post"
    using hd tokens_tl [of post ds] by (cases post) auto
  ultimately show ?thesis using that by metis
qed

lemma tokens_Nil_iff: "tokens ds r = [] \<longleftrightarrow> set r \<subseteq> set ds"
proof
  assume "tokens ds r = []"
  then have "dropWhile (\<lambda>c. c \<in> set ds) r = []"
    by (subst (asm) tokens.simps) (auto split: list.splits)
  then show "set r \<subseteq> set ds" by auto
next
  assume "set r \<subseteq> set ds"
  then have "dropWhile (\<lambda>c. c \<in> set ds) r = []" by auto
  then show "tokens ds r = []" by (subst tokens.simps) (simp only: list.case)
qed

text \<open>
  One call of \<open>strtok\<close> on a string at \<open>q\<close>: the first token, cut off by a NUL, and where the
  search continues (\<open>last\<close> is null once the string is used up).
\<close>

lemma strtok_none:
  assumes q: "cstr m q r" and q0: "q \<noteq> 0" and d: "cstr m d ds" and r: "set r \<subseteq> set ds"
    and s: "s = q \<or> s = 0 \<and> lst = q"
  shows "strtok m s d lst = Some (0, m, 0)"
proof -
  have "takeWhile (\<lambda>c. c \<in> set ds) r = r" "dropWhile (\<lambda>c. c \<in> set ds) r = []" using r by auto
  then have "strtok_skip m q d = Some (q + of_nat (length r) + 1, 0)"
    using strtok_skip_cstr [OF d q] by (simp only: list.case)
  then show ?thesis using s q0 by (auto simp: strtok_def strtok_r_def)
qed

lemma strtok_some:
  assumes q: "cstr m q (pre @ t @ post)" and q0: "q \<noteq> 0" and d: "cstr m d ds"
    and pre: "set pre \<subseteq> set ds" and t: "t \<noteq> []" "set t \<inter> set ds = {}"
    and post: "post \<noteq> [] \<Longrightarrow> hd post \<in> set ds"
    and s: "s = q \<or> s = 0 \<and> lst = q"
  shows "strtok m s d lst =
    (let tok = q + of_nat (length pre); e = tok + of_nat (length t)
     in if post = [] then Some (tok, m, 0) else Some (tok, m(e := 0), e + 1))"
proof -
  obtain c cs where c: "t = c # cs" using t by (cases t) auto
  have cds: "c \<notin> set ds" and cs: "\<forall>x \<in> set cs. x \<notin> set ds" using t c by auto
  have "takeWhile (\<lambda>c. c \<in> set ds) (pre @ t @ post) = pre"
    and "dropWhile (\<lambda>c. c \<in> set ds) (pre @ t @ post) = t @ post"
    using pre cds c by (simp_all add: takeWhile_append2 dropWhile_append2 subset_iff)
  then have skip: "strtok_skip m q d = Some (q + of_nat (length pre) + 1, c)"
    using strtok_skip_cstr [OF d q] c by simp
  have "0 \<notin> set (pre @ t @ post)" using q by (rule cstr_nonzero)
  then have nz: "0 \<notin> set pre" "c \<noteq> 0" using c by auto
  have "cstr m (q + of_nat (length pre) + 1) (cs @ post)"
    using q cstr_append [OF nz(1), of m q "t @ post"] c by simp
  moreover have "takeWhile (\<lambda>c. c \<notin> set ds) (cs @ post) = cs"
    using cs post by (cases post) (auto simp: takeWhile_append2)
  ultimately have "strtok_scan m (q + of_nat (length pre) + 1) d =
     (if post = [] then Some (0, m)
      else let e = q + of_nat (length pre) + 1 + of_nat (length cs) in Some (e + 1, m(e := 0)))"
    using strtok_scan_cstr [OF d, of "q + of_nat (length pre) + 1" "cs @ post"] by (simp add: Let_def)
  then show ?thesis
    using skip s q0 nz(2) c by (auto simp: strtok_def strtok_r_def Let_def add.assoc)
qed

lemma load_bytes_upd_past:
  "unat (p :: u32) + n < 4294967296 \<Longrightarrow> load_bytes (m(p + of_nat n := b)) p n = load_bytes m p n"
  by (rule nth_equalityI) (auto simp: word_unat_eq_iff unat_plus_of_nat)

text \<open>
  What a call that finds a token leaves behind: the token \<open>u\<close> at \<open>tok\<close>, the rest \<open>r'\<close> of the
  line at \<open>l\<close>, and the delimiters untouched.
\<close>

lemma strtok_call:
  assumes q: "cstr m q r" "q \<noteq> 0" "unat q + length r < 4294967296"
    and d: "cstr m d ds" "unat d + length ds < 4294967296"
      "unat d + length ds < unat q \<or> unat q + length r \<le> unat d"
    and s: "s = q \<or> s = 0 \<and> lst = q" and ne: "tokens ds r \<noteq> []"
  obtains tok m' l u r' where "strtok m s d lst = Some (tok, m', l)"
    "tokens ds r = u # tokens ds r'" "tok \<noteq> 0" "cstr m' tok u" "unat q \<le> unat tok"
    "unat tok + length u \<le> unat q + length r"
    "l \<noteq> 0 \<and> cstr m' l r' \<and> unat tok + length u < unat l \<and> unat l + length r' = unat q + length r
     \<or> l = 0 \<and> r' = []"
    "cstr m' d ds" "changed_within (unat q) (unat q + length r) m m'"
proof -
  obtain pre u post where r: "r = pre @ u @ post" "set pre \<subseteq> set ds" "u \<noteq> []"
      "set u \<inter> set ds = {}" "post \<noteq> [] \<Longrightarrow> hd post \<in> set ds"
    and toks: "tokens ds r = u # tokens ds (tl post)"
    using ne by (rule tokens_split) blast
  define tok where "tok = q + of_nat (length pre)"
  define e where "e = tok + of_nat (length u)"
  have utok: "unat tok = unat q + length pre"
    using q(3) r(1) by (simp add: tok_def unat_plus_of_nat)
  then have ue: "unat e = unat q + length pre + length u"
    using q(3) r(1) by (simp add: e_def unat_plus_of_nat)
  have tok0: "tok \<noteq> 0" using utok q(2) by (metis add_is_0 unat_0_iff)
  have nz: "0 \<notin> set pre" "0 \<notin> set u" using cstr_nonzero [OF q(1)] r(1) by auto
  then have at: "cstr m tok (u @ post)" "load_bytes m tok (length u) = u" "cstr m e post"
    using q(1) r(1) cstr_append [of pre m q] cstr_append [of u m tok post]
    by (auto simp: tok_def e_def)
  have call: "strtok m s d lst =
      (if post = [] then Some (tok, m, 0) else Some (tok, m(e := 0), e + 1))"
    using strtok_some [OF _ q(2) d(1) r(2-5) s] q(1) r(1) by (simp add: tok_def e_def Let_def)
  show ?thesis
  proof (cases "post = []")
    case True
    with at(1) have "cstr m tok u" by simp
    with True call toks tok0 d(1) utok r(1) show ?thesis
      by (intro that [of tok m 0 u "[]"]) auto
  next
    case False
    then obtain c cs where post: "post = c # cs" by (cases post) auto
    let ?m = "m(e := 0)"
    have ul: "unat (e + 1) = unat e + 1"
      using q(3) r(1) ue post unat_plus_of_nat [of e 1] by simp
    have ch: "changed_within (unat e) (unat e + 1) m ?m" by (auto simp: changed_within_def)
    have "load_bytes ?m tok (length u) = u"
      using at(2) load_bytes_upd_past [of tok "length u" m 0] utok q(3) r(1) by (simp add: e_def)
    then have "cstr ?m tok u" using nz(2) by (simp add: cstr_iff e_def)
    moreover have "cstr ?m (e + 1) cs"
      using at(3) post ul ue q(3) r(1)
      by (intro cstr_changed_within [OF ch, of "e + 1" cs]) auto
    moreover have "cstr ?m d ds"
      using d ue r(1) post by (intro cstr_changed_within [OF ch d(2) _ d(1)]) auto
    moreover have "changed_within (unat q) (unat q + length r) m ?m"
      using ch ue r(1) post by (auto simp: changed_within_def)
    moreover have "e + 1 \<noteq> 0" using ul by (metis Suc_eq_plus1 nat.distinct(1) unat_0)
    ultimately show ?thesis
      using False call toks tok0 utok ue ul r(1) post
      by (intro that [of tok ?m "e + 1" u cs]) auto
  qed
qed

text \<open>
  The argument loop from a token \<open>t\<close> at \<open>ptr\<close> on, with the rest of the line \<open>r\<close> at \<open>lst\<close>
  (null once it is used up): the pointers collected are those of \<open>t\<close> and of the first tokens of
  \<open>r\<close>, and only the bytes of \<open>r\<close> change.
\<close>

text \<open>A string that lies at or above an address and does not wrap around.\<close>

definition cstr_above :: "nat \<Rightarrow> mem \<Rightarrow> addr \<Rightarrow> byte list \<Rightarrow> bool" where
  "cstr_above lo m a t \<longleftrightarrow> cstr m a t \<and> lo \<le> unat a \<and> unat a + length t < 4294967296"

lemma strtok_args_tokens:
  assumes "cstr m ptr t" "ptr \<noteq> 0" "unat ptr + length t < 4294967296"
    "lst \<noteq> 0 \<and> cstr m lst r \<and> unat ptr + length t < unat lst \<or> lst = 0 \<and> r = []"
    "unat lst + length r < 4294967296"
    "cstr m d ds" "unat d + length ds < 4294967296"
    "unat d + length ds < unat lst \<or> unat lst + length r \<le> unat d" "lo \<le> unat ptr"
  shows "\<exists>args m' l. strtok_args k m ptr d lst = Some (args, m', l)
    \<and> list_all2 (cstr_above lo m') args (take k (t # tokens ds r))
    \<and> changed_within (unat lst) (unat lst + length r) m m'"
  using assms
proof (induction k arbitrary: m ptr t lst r)
  case 0
  then show ?case by simp
next
  case (Suc k)
  note prems = Suc.prems
  show ?case
  proof (cases "tokens ds r = []")
    case True
    have "strtok m 0 d lst = Some (0, m, 0)"
      using prems(4)
    proof
      assume "lst \<noteq> 0 \<and> cstr m lst r \<and> unat ptr + length t < unat lst"
      then show ?thesis
        using True prems(6) by (intro strtok_none [of m lst r]) (auto simp: tokens_Nil_iff)
    qed (simp add: strtok_def strtok_r_def)
    moreover have "strtok_args k m 0 d 0 = Some ([], m, 0)" by (cases k) auto
    ultimately show ?thesis using True prems(1-3,9) by (auto simp: cstr_above_def)
  next
    case False
    then have l: "lst \<noteq> 0" "cstr m lst r" "unat ptr + length t < unat lst" using prems(4) by auto
    obtain tok m1 l1 u r1 where call: "strtok m 0 d lst = Some (tok, m1, l1)"
        "tokens ds r = u # tokens ds r1" "tok \<noteq> 0" "cstr m1 tok u" "unat lst \<le> unat tok"
        "unat tok + length u \<le> unat lst + length r"
        "l1 \<noteq> 0 \<and> cstr m1 l1 r1 \<and> unat tok + length u < unat l1
           \<and> unat l1 + length r1 = unat lst + length r \<or> l1 = 0 \<and> r1 = []"
        "cstr m1 d ds" "changed_within (unat lst) (unat lst + length r) m m1"
      using strtok_call [OF l(2,1) prems(5) prems(6-8) _ False, of 0 lst] by blast
    obtain args m' l' where IH: "strtok_args k m1 tok d l1 = Some (args, m', l')"
        "list_all2 (cstr_above lo m') args (take k (u # tokens ds r1))"
        "changed_within (unat l1) (unat l1 + length r1) m1 m'"
      using Suc.IH [OF call(4,3) _ _ _ call(8) prems(7), of l1 r1] call(5-7) prems(5,8,9) l(3) by auto
    have "changed_within (unat lst) (unat lst + length r) m1 m'"
      using IH(3) call(5-7) by (auto simp: changed_within_def)
    then have ch: "changed_within (unat lst) (unat lst + length r) m m'"
      by (rule changed_within_trans [OF call(9)]) simp_all
    have "cstr m' ptr t" using cstr_changed_within [OF ch prems(3) _ prems(1)] l(3) by blast
    then have "cstr_above lo m' ptr t" using prems(3,9) by (simp add: cstr_above_def)
    then show ?thesis using IH call(1,2) prems(2) ch by auto
  qed
qed

lemma strtok_line_splits:
  assumes buf: "cstr m buf s" "buf \<noteq> 0" "unat buf + length s < 4294967296"
    and d: "cstr m d ds" "unat d + length ds < 4294967296"
      "unat d + length ds < unat buf \<or> unat buf + length s \<le> unat d"
  shows "\<exists>args m' l. strtok_line k m buf d lst = Some (args, m', l)
    \<and> list_all2 (cstr_above (unat buf) m') args (take k (tokens ds s))
    \<and> changed_within (unat buf) (unat buf + length s) m m'"
proof (cases "tokens ds s = []")
  case True
  then have "strtok m buf d lst = Some (0, m, 0)"
    using buf d by (intro strtok_none [of m buf s]) (auto simp: tokens_Nil_iff)
  moreover have "strtok_args k m 0 d 0 = Some ([], m, 0)" by (cases k) auto
  ultimately show ?thesis using True by (simp add: strtok_line_def)
next
  case False
  obtain tok m1 l1 u r1 where call: "strtok m buf d lst = Some (tok, m1, l1)"
      "tokens ds s = u # tokens ds r1" "tok \<noteq> 0" "cstr m1 tok u" "unat buf \<le> unat tok"
      "unat tok + length u \<le> unat buf + length s"
      "l1 \<noteq> 0 \<and> cstr m1 l1 r1 \<and> unat tok + length u < unat l1
         \<and> unat l1 + length r1 = unat buf + length s \<or> l1 = 0 \<and> r1 = []"
      "cstr m1 d ds" "changed_within (unat buf) (unat buf + length s) m m1"
    using strtok_call [OF buf d _ False, of buf lst] by blast
  obtain args m' l' where args: "strtok_args k m1 tok d l1 = Some (args, m', l')"
      "list_all2 (cstr_above (unat buf) m') args (take k (u # tokens ds r1))"
      "changed_within (unat l1) (unat l1 + length r1) m1 m'"
    using strtok_args_tokens [OF call(4,3) _ _ _ call(8) d(2), of l1 r1 "unat buf" k] call(5-7) buf(3) d(3) by auto
  have "changed_within (unat buf) (unat buf + length s) m1 m'"
    using args(3) call(5-7) by (auto simp: changed_within_def)
  then have "changed_within (unat buf) (unat buf + length s) m m'"
    by (rule changed_within_trans [OF call(9)]) simp_all
  then show ?thesis using args call(1,2) by (simp add: strtok_line_def)
qed

text \<open>C13: A line at \<open>buf\<close>, split by repeated \<open>strtok\<close> calls the way the shells and the loader do
  it, with at most \<open>k\<close> arguments collected: the loop ends, the arguments point to the strings of
  the first \<open>k\<close> tokens of the line, and only bytes of the line have changed.\<close>

theorem strtok_line_tokens:
  assumes "cstr m buf s" "buf \<noteq> 0" "unat buf + length s < 4294967296"
    and "cstr m d ds" "unat d + length ds < 4294967296"
      "unat d + length ds < unat buf \<or> unat buf + length s \<le> unat d"
  shows "\<exists>args m' l. strtok_line k m buf d lst = Some (args, m', l)
    \<and> list_all2 (cstr m') args (take k (tokens ds s))
    \<and> changed_within (unat buf) (unat buf + length s) m m'"
  using strtok_line_splits [OF assms] by (metis (mono_tags, lifting) cstr_above_def list_all2_mono)

theorem strtok_line_tokens_witness:
  "\<exists>args m' l. strtok_line 5 demo_mem 0x1000 0x100A 0 = Some (args, m', l)
    \<and> list_all2 (cstr m') args [[108, 115], [97, 46, 116, 120, 116]]
    \<and> changed_within (unat (0x1000 :: u32)) (unat (0x1000 :: u32) + 9) demo_mem m'"
proof -
  have "tokens [32] [108, 115, 32, 32, 97, 46, 116, 120, 116] = [[108, 115], [97, 46, 116, 120, 116]]"
    by (simp add: tokens.simps)
  then show ?thesis
    using strtok_line_tokens [of demo_mem "0x1000" "[108, 115, 32, 32, 97, 46, 116, 120, 116]" "0x100A" "[32]" 5 0]
    by (simp add: demo_mem_def)
qed

end
