(* ===== verification/UserMem.thy ===== *)
theory UserMem
  imports CStrings
begin

text \<open>
  The memory of a user program: the program break of the kernel (system/brk.c) and the \<open>sbrk\<close> of the
  user library on top of it (lib/sbrk.c).
\<close>

section \<open>The program break\<close>

record brk_state =
  program_brk :: addr
  min_brk :: addr

abbreviation GP_SPACE :: u32 where "GP_SPACE \<equiv> 0x800"

definition set_min_brk :: "addr \<Rightarrow> brk_state \<Rightarrow> brk_state" where
  "set_min_brk a b = b\<lparr>min_brk := a, program_brk := a\<rparr>"

text \<open>The global pointer and the saved user stack pointer are read at the call.\<close>

definition SYS_brk :: "addr \<Rightarrow> addr \<Rightarrow> addr \<Rightarrow> brk_state \<Rightarrow> addr \<times> brk_state" where
  "SYS_brk gp user_sp a b0 =
     (let min_gp = gp + GP_SPACE;
          b1 = (if min_brk b0 < min_gp then b0\<lparr>min_brk := min_gp\<rparr> else b0);
          b2 = (if program_brk b1 < min_brk b1 then b1\<lparr>program_brk := min_brk b1\<rparr> else b1);
          max_brk = user_sp - 1024
      in if a > max_brk \<or> a < min_brk b2 then (program_brk b2, b2)
         else (a, b2\<lparr>program_brk := a\<rparr>))"

section \<open>sbrk\<close>

text \<open>The static \<open>memptr\<close> with the kernel's state; \<open>None\<close> is the result -1 with \<open>errno\<close> set to
  \<open>ENOMEM\<close>.\<close>

definition sbrk :: "addr \<Rightarrow> addr \<Rightarrow> u32 \<Rightarrow> addr \<Rightarrow> brk_state \<Rightarrow> addr option \<times> addr \<times> brk_state" where
  "sbrk gp user_sp incr memptr0 b0 =
     (let (memptr, b) = (if memptr0 = 0 then SYS_brk gp user_sp 0 b0 else (memptr0, b0));
          (a, b1) = SYS_brk gp user_sp (memptr + incr) b
      in if a = memptr then (None, memptr, b1) else (Some memptr, a, b1))"

section \<open>The break stays between the program and the stack\<close>

text \<open>The lowest break that is granted: above the program and the space of the global pointer.\<close>

definition low_brk :: "addr \<Rightarrow> brk_state \<Rightarrow> addr" where
  "low_brk gp b = max (min_brk b) (gp + GP_SPACE)"

definition cur_brk :: "addr \<Rightarrow> brk_state \<Rightarrow> addr" where
  "cur_brk gp b = max (program_brk b) (low_brk gp b)"

lemma SYS_brk_eq:
  "SYS_brk gp sp a b =
     (let c = cur_brk gp b; r = (if low_brk gp b \<le> a \<and> a \<le> sp - 1024 then a else c)
      in (r, \<lparr>program_brk = r, min_brk = low_brk gp b\<rparr>))"
  by (cases b) (auto simp: SYS_brk_def cur_brk_def low_brk_def Let_def max_def)

lemma low_brk_settled [simp]: "low_brk gp \<lparr>program_brk = r, min_brk = low_brk gp b\<rparr> = low_brk gp b"
  by (simp add: low_brk_def)

lemma cur_brk_settled [simp]:
  "low_brk gp b \<le> r \<Longrightarrow> cur_brk gp \<lparr>program_brk = r, min_brk = low_brk gp b\<rparr> = r"
  by (simp add: cur_brk_def low_brk_def)

lemma low_le_cur [simp]: "low_brk gp b \<le> cur_brk gp b"
  by (simp add: cur_brk_def)

text \<open>The library's \<open>memptr\<close> is the break, or not yet known.\<close>

definition sbrk_ok :: "addr \<Rightarrow> addr \<Rightarrow> brk_state \<Rightarrow> bool" where
  "sbrk_ok gp memptr b \<longleftrightarrow> memptr = 0 \<or> memptr = cur_brk gp b"

definition sbrk_grants :: "addr \<Rightarrow> addr \<Rightarrow> u32 \<Rightarrow> brk_state \<Rightarrow> bool" where
  "sbrk_grants gp sp incr b \<longleftrightarrow> incr \<noteq> 0 \<and> low_brk gp b \<le> cur_brk gp b + incr \<and> cur_brk gp b + incr \<le> sp - 1024"

lemma sbrk_result:
  assumes "sbrk_ok gp memptr b" and "0 < low_brk gp b"
  shows "\<exists>memptr' b'. sbrk gp sp incr memptr b = (if sbrk_grants gp sp incr b then Some (cur_brk gp b) else None, memptr', b') \<and>
    low_brk gp b' = low_brk gp b \<and> sbrk_ok gp memptr' b' \<and>
    cur_brk gp b' = (if sbrk_grants gp sp incr b then cur_brk gp b + incr else cur_brk gp b)"
proof -
  let ?b1 = "\<lparr>program_brk = cur_brk gp b, min_brk = low_brk gp b\<rparr>"
  have z: "\<not> low_brk gp b \<le> 0" using assms(2) by simp
  have first: "(if memptr = 0 then SYS_brk gp sp 0 b else (memptr, b)) = (cur_brk gp b, if memptr = 0 then ?b1 else b)"
    using assms(1) z by (cases "memptr = 0") (simp_all add: SYS_brk_eq Let_def sbrk_ok_def)
  have same: "low_brk gp (if memptr = 0 then ?b1 else b) = low_brk gp b"
    "cur_brk gp (if memptr = 0 then ?b1 else b) = cur_brk gp b" by simp_all
  let ?g = "low_brk gp b \<le> cur_brk gp b + incr \<and> cur_brk gp b + incr \<le> sp - 1024"
  let ?r = "if ?g then cur_brk gp b + incr else cur_brk gp b"
  have e: "sbrk gp sp incr memptr b =
      (if ?r = cur_brk gp b then None else Some (cur_brk gp b), ?r, \<lparr>program_brk = ?r, min_brk = low_brk gp b\<rparr>)"
    unfolding sbrk_def first Let_def prod.case unfolding SYS_brk_eq Let_def same prod.case by (cases ?g) simp_all
  have r: "low_brk gp b \<le> ?r" by simp
  have "?r = cur_brk gp b \<longleftrightarrow> \<not> sbrk_grants gp sp incr b" by (auto simp: sbrk_grants_def)
  then show ?thesis using e r by (auto simp: sbrk_ok_def sbrk_grants_def)
qed

text \<open>A sequence of calls with the same global pointer and stack pointer.\<close>

primrec sbrk_run :: "addr \<Rightarrow> addr \<Rightarrow> u32 list \<Rightarrow> addr \<Rightarrow> brk_state \<Rightarrow> (addr \<times> u32) list" where
  "sbrk_run gp sp [] memptr b = []"
| "sbrk_run gp sp (i # is) memptr b =
     (case sbrk gp sp i memptr b of
        (None, m, b1) \<Rightarrow> sbrk_run gp sp is m b1
      | (Some p, m, b1) \<Rightarrow> (p, i) # sbrk_run gp sp is m b1)"

text \<open>Blocks of memory laid end to end from an address on.\<close>

primrec blocks_from :: "nat \<Rightarrow> (addr \<times> u32) list \<Rightarrow> nat \<Rightarrow> bool" where
  "blocks_from lo [] hi \<longleftrightarrow> lo \<le> hi"
| "blocks_from lo (blk # bs) hi \<longleftrightarrow> unat (fst blk) = lo \<and> blocks_from (lo + unat (snd blk)) bs hi"

lemma sbrk_grants_unat:
  assumes "sbrk_grants gp sp incr b" and "unat incr < 2147483648" and "unat sp < 2147483648" and "cur_brk gp b \<le> sp - 1024"
    and "1024 \<le> sp"
  shows "unat (cur_brk gp b + incr) = unat (cur_brk gp b) + unat incr" and "unat (cur_brk gp b) + unat incr \<le> unat (sp - 1024)"
proof -
  have "unat (sp - 1024) \<le> unat sp" using assms(5) by (simp add: unat_sub)
  moreover have "unat (cur_brk gp b) \<le> unat (sp - 1024)" using assms(4) by (simp add: word_le_nat_alt)
  ultimately show u: "unat (cur_brk gp b + incr) = unat (cur_brk gp b) + unat incr"
    using assms(2,3) by (intro unat_add32) simp
  show "unat (cur_brk gp b) + unat incr \<le> unat (sp - 1024)"
    using assms(1) u by (simp add: sbrk_grants_def word_le_nat_alt)
qed

lemma sbrk_run_blocks:
  assumes "sbrk_ok gp memptr b" and "0 < low_brk gp b" and "cur_brk gp b \<le> sp - 1024" and "unat sp < 2147483648" and "1024 \<le> sp"
    and "\<forall>i \<in> set is. unat i < 2147483648"
  shows "blocks_from (unat (cur_brk gp b)) (sbrk_run gp sp is memptr b) (unat (sp - 1024))"
  using assms
proof (induction "is" arbitrary: memptr b)
  case Nil
  then show ?case by (simp add: word_le_nat_alt)
next
  case (Cons i "is")
  obtain m b1 where s: "sbrk gp sp i memptr b = (if sbrk_grants gp sp i b then Some (cur_brk gp b) else None, m, b1)"
    "low_brk gp b1 = low_brk gp b" "sbrk_ok gp m b1"
    "cur_brk gp b1 = (if sbrk_grants gp sp i b then cur_brk gp b + i else cur_brk gp b)"
    using sbrk_result [OF Cons.prems(1,2)] by blast
  have le: "cur_brk gp b1 \<le> sp - 1024" using s(4) Cons.prems(3) by (simp add: sbrk_grants_def)
  have IH: "blocks_from (unat (cur_brk gp b1)) (sbrk_run gp sp is m b1) (unat (sp - 1024))"
    using Cons.prems s(2,3) le by (intro Cons.IH) simp_all
  show ?case
  proof (cases "sbrk_grants gp sp i b")
    case True
    then have "unat (cur_brk gp b1) = unat (cur_brk gp b) + unat i"
      using sbrk_grants_unat(1) [OF True _ Cons.prems(4,3,5)] Cons.prems(6) s(4) by simp
    then show ?thesis using True s(1) IH by simp
  next
    case False
    then show ?thesis using s IH by simp
  qed
qed

section \<open>Properties\<close>

definition demo_brk :: brk_state where
  "demo_brk = \<lparr>program_brk = 0x12000, min_brk = 0x12000\<rparr>"

text \<open>C31: The memory that \<open>sbrk\<close> hands out: whatever increments a program asks for, the blocks it is
  given lie end to end, upwards from the program break, and the last one ends at least 1024 bytes
  below the stack pointer of the program; a request that does not fit, and a request for no bytes,
  is refused and changes nothing.\<close>

theorem sbrk_blocks:
  assumes "sbrk_ok gp memptr b" and "0 < low_brk gp b" and "cur_brk gp b \<le> sp - 1024" and "unat sp < 2147483648" and "1024 \<le> sp"
    and "\<forall>i \<in> set is. unat i < 2147483648"
  shows "blocks_from (unat (cur_brk gp b)) (sbrk_run gp sp is memptr b) (unat (sp - 1024)) \<and>
    fst (sbrk gp sp 0 memptr b) = None"
proof -
  obtain m b1 where "sbrk gp sp 0 memptr b = (if sbrk_grants gp sp 0 b then Some (cur_brk gp b) else None, m, b1)"
    using sbrk_result [OF assms(1,2)] by blast
  then show ?thesis using sbrk_run_blocks [OF assms] by (simp add: sbrk_grants_def)
qed

theorem sbrk_blocks_witness:
  "blocks_from 0x12000 (sbrk_run 0x11000 0x21000 [16, 0x10000, 32] 0 demo_brk) (unat (0x21000 - 1024 :: addr))"
proof -
  have "cur_brk 0x11000 demo_brk = 0x12000" "low_brk 0x11000 demo_brk = 0x12000"
    by (simp_all add: cur_brk_def low_brk_def demo_brk_def max_def)
  then show ?thesis
    using sbrk_blocks [of "0x11000" 0 demo_brk "0x21000" "[16, 0x10000, 32]"] by (simp add: sbrk_ok_def)
qed

end
