(* ===== verification/FdTable.thy ===== *)
theory FdTable
  imports FS_Prelude
begin

text \<open>
  The file descriptor table of system/fd.c: the table itself, its allocation and release, and
  the contract of a pool of numbered slots that it shares with the open-file list of the flash
  device and with the directory handles. The contract is the locale \<open>slot_pool\<close>; what a client
  may conclude from it is proved once inside the locale.
\<close>

section \<open>The table\<close>

text \<open>The operation tables a descriptor can point to: the static \<open>FDfunction\<close> of each driver.\<close>

datatype fdclass = Cons_func | Led_func | Spiflash_func | Econet_func | Fileio_func

record FD =
  fd_flags :: u32
  fd_fdfunc :: "fdclass option"
  fd_data :: addr
  fd_fd :: int

abbreviation MAX_FILE_DESCRIPTORS :: nat where "MAX_FILE_DESCRIPTORS \<equiv> 16"
abbreviation MIN_FD_NUMBER :: int where "MIN_FD_NUMBER \<equiv> 3"
abbreviation MAX_FD_COUNT :: nat where "MAX_FD_COUNT \<equiv> 13"
abbreviation FLAG_ALLOCATED :: u32 where "FLAG_ALLOCATED \<equiv> 0x80000000"

type_synonym fdtab = "FD list"

definition zero_FD :: FD where
  "zero_FD = \<lparr>fd_flags = 0, fd_fdfunc = None, fd_data = 0, fd_fd = 0\<rparr>"

text \<open>\<open>memset(fdtable, 0, sizeof(fdtable))\<close>\<close>

definition fdtable_cleared :: fdtab where
  "fdtable_cleared = replicate MAX_FILE_DESCRIPTORS zero_FD"

text \<open>The first free entry is marked; the pointer that is returned is its index.\<close>

definition fd_alloc :: "fdtab \<Rightarrow> (nat \<times> fdtab) option" where
  "fd_alloc tab =
     (case for_find (\<lambda>i. fd_flags (tab ! i) = 0) 0 MAX_FILE_DESCRIPTORS of
        Some i \<Rightarrow> Some (i, tab[i := (tab ! i)\<lparr>fd_flags := FLAG_ALLOCATED, fd_fd := int i\<rparr>])
      | None \<Rightarrow> None)"

definition fd_dealloc :: "nat \<Rightarrow> fdtab \<Rightarrow> fdtab" where
  "fd_dealloc i tab = tab[i := (tab ! i)\<lparr>fd_flags := 0, fd_fdfunc := None, fd_data := 0\<rparr>]"

text \<open>The pointer \<open>&fdtable[fd]\<close>, or null.\<close>

definition get_fdentry :: "int \<Rightarrow> nat option" where
  "get_fdentry fd = (if fd < 0 \<or> int MAX_FILE_DESCRIPTORS < fd then None else Some (nat fd))"

text \<open>Reading \<open>fdtable[fd]\<close>; the C array has sixteen entries.\<close>

definition fd_entry :: "fdtab \<Rightarrow> int \<Rightarrow> fault + FD" where
  "fd_entry tab fd = (if 0 \<le> fd \<and> nat fd < length tab then Inr (tab ! nat fd) else Inl Out_Of_Bounds)"

text \<open>The descriptors in use.\<close>

definition fds_used :: "fdtab \<Rightarrow> nat set" where
  "fds_used tab = {i. i < length tab \<and> fd_flags (tab ! i) \<noteq> 0}"

definition fdtab_ok :: "fdtab \<Rightarrow> bool" where
  "fdtab_ok tab \<longleftrightarrow> length tab = MAX_FILE_DESCRIPTORS \<and>
     (\<forall>i \<in> fds_used tab. fd_fd (tab ! i) = int i)"

section \<open>Pools of numbered slots\<close>

text \<open>
  What a caller of an allocator of numbered slots relies on: allocation takes the lowest free
  slot and fails only when every slot is taken, release frees exactly the slot named.
\<close>

locale slot_pool =
  fixes alloc :: "'t \<Rightarrow> (nat \<times> 't) option"
    and free :: "nat \<Rightarrow> 't \<Rightarrow> 't"
    and used :: "'t \<Rightarrow> nat set"
    and ok :: "'t \<Rightarrow> bool"
    and cap :: nat
  assumes used_bound: "ok t \<Longrightarrow> used t \<subseteq> {..<cap}"
    and alloc_some: "ok t \<Longrightarrow> alloc t = Some (i, t') \<Longrightarrow>
      i \<notin> used t \<and> i < cap \<and> {..<i} \<subseteq> used t \<and> used t' = insert i (used t) \<and> ok t'"
    and alloc_none: "ok t \<Longrightarrow> alloc t = None \<longleftrightarrow> used t = {..<cap}"
    and used_free: "ok t \<Longrightarrow> i < cap \<Longrightarrow> used (free i t) = used t - {i}"
    and ok_free: "ok t \<Longrightarrow> i < cap \<Longrightarrow> ok (free i t)"
begin

lemma finite_used: "ok t \<Longrightarrow> finite (used t)"
  using used_bound finite_subset by blast

lemma alloc_least: "ok t \<Longrightarrow> alloc t = Some (i, t') \<Longrightarrow> i = (LEAST j. j \<notin> used t)"
  using alloc_some [of t i t'] by (intro Least_equality [symmetric]) (auto simp: not_less [symmetric])

text \<open>A failed open that allocates and releases leaves the pool as it was.\<close>

lemma free_alloc: "ok t \<Longrightarrow> alloc t = Some (i, t') \<Longrightarrow> used (free i t') = used t"
  using alloc_some [of t i t'] used_free [of t' i] by auto

lemma card_alloc: "ok t \<Longrightarrow> alloc t = Some (i, t') \<Longrightarrow> card (used t') = Suc (card (used t))"
  using alloc_some [of t i t'] finite_used [of t] by simp

text \<open>Allocation succeeds as long as fewer than \<open>cap\<close> slots are taken.\<close>

lemma alloc_possible: "ok t \<Longrightarrow> alloc t \<noteq> None \<longleftrightarrow> card (used t) < cap"
proof -
  assume t: "ok t"
  have "used t = {..<cap} \<longleftrightarrow> card (used t) = cap"
    using used_bound [OF t] by (metis card_lessThan card_subset_eq finite_lessThan)
  moreover have "card (used t) \<le> cap"
    using used_bound [OF t] by (metis card_lessThan card_mono finite_lessThan)
  ultimately show ?thesis using alloc_none [OF t] by auto
qed

text \<open>A slot that was released is available again.\<close>

lemma alloc_after_free: "ok t \<Longrightarrow> i < cap \<Longrightarrow> \<exists>j t'. alloc (free i t) = Some (j, t') \<and> j \<le> i"
proof -
  assume t: "ok t" and i: "i < cap"
  have "i \<notin> used (free i t)" using used_free [OF t i] by simp
  then have "used (free i t) \<noteq> {..<cap}" using i by auto
  then obtain j t' where "alloc (free i t) = Some (j, t')"
    using alloc_none [OF ok_free [OF t i]] by (metis not_None_eq prod.exhaust)
  then show ?thesis
    using alloc_some [OF ok_free [OF t i]] \<open>i \<notin> used (free i t)\<close> by (metis lessThan_iff not_le subsetD)
qed

end

section \<open>The descriptor table is a pool of sixteen slots\<close>

lemma fd_alloc_cases:
  "fd_alloc tab = Some (j, tab') \<Longrightarrow>
   j < 16 \<and> fd_flags (tab ! j) = 0 \<and> (\<forall>k < j. fd_flags (tab ! k) \<noteq> 0)
   \<and> tab' = tab[j := (tab ! j)\<lparr>fd_flags := FLAG_ALLOCATED, fd_fd := int j\<rparr>]"
  by (auto simp: fd_alloc_def for_find_Some split: option.splits)

lemma fds_used_update:
  "i < length tab \<Longrightarrow>
   fds_used (tab[i := e]) = (if fd_flags e = 0 then fds_used tab - {i} else insert i (fds_used tab))"
  by (auto simp: fds_used_def nth_list_update)

lemma fdtab_ok_update:
  "fdtab_ok tab \<Longrightarrow> fd_flags e = 0 \<or> fd_fd e = int i \<Longrightarrow> fdtab_ok (tab[i := e])"
  by (cases "i < length tab") (auto simp: fdtab_ok_def fds_used_def nth_list_update list_update_beyond)

interpretation fdpool: slot_pool fd_alloc fd_dealloc fds_used fdtab_ok MAX_FILE_DESCRIPTORS
proof unfold_locales
  fix t i t'
  assume ok: "fdtab_ok t" and a: "fd_alloc t = Some (i, t')"
  have len: "length t = 16" using ok by (simp add: fdtab_ok_def)
  show "i \<notin> fds_used t \<and> i < 16 \<and> {..<i} \<subseteq> fds_used t \<and> fds_used t' = insert i (fds_used t) \<and> fdtab_ok t'"
    using fd_alloc_cases [OF a] ok len
    by (auto simp: fds_used_update fds_used_def [of t] intro: fdtab_ok_update)
next
  fix t
  assume "fdtab_ok t"
  then show "fd_alloc t = None \<longleftrightarrow> fds_used t = {..<16}"
    by (auto simp: fd_alloc_def option.case_eq_if for_find_None fds_used_def fdtab_ok_def)
next
  fix t i
  assume "fdtab_ok t" and "i < (16 :: nat)"
  then show "fds_used (fd_dealloc i t) = fds_used t - {i}"
    by (simp add: fd_dealloc_def fds_used_update fdtab_ok_def)
qed (auto simp: fdtab_ok_def fds_used_def fd_dealloc_def nth_list_update)

end
