(* ===== verification/SpiFlash.thy ===== *)
theory SpiFlash
  imports FdTable
begin

text \<open>
  The SPI flash device of system/spi_flashdev.c with the transfer routines of
  system/spi_flash.S: byte and block transfers over the SPI controller, the list of open
  descriptors with their file pointers, the 4096-byte write buffer that stands for one erase
  sector of the chip, and the erase-and-program cycle that writes it back. The SPI controller,
  the chip behind it and the kernel allocator are the parameter \<open>flash_hw\<close>; what the driver
  relies on is the hypothesis \<open>nor_flash\<close>, the command set of a serial NOR flash chip.
  The theorems show that the buffered device behaves as one array of bytes.
\<close>

section \<open>State and hardware\<close>

text \<open>
  The hardware: \<open>*spi_reg_ss = 0\<close>, the exchange of one byte with the slave,
  \<open>*spi_reg_active = 0\<close> (slave select high), and the allocator for the write buffer (a block
  with its initial contents, or nothing).
\<close>

record 'w flash_hw =
  hw_select :: "'w \<Rightarrow> 'w"
  hw_byte :: "byte \<Rightarrow> 'w \<Rightarrow> byte \<times> 'w"
  hw_inactive :: "'w \<Rightarrow> 'w"
  hw_kmalloc :: "nat \<Rightarrow> 'w \<Rightarrow> byte list option \<times> 'w"
  hw_kfree :: "'w \<Rightarrow> 'w"

record OpenFD =
  ofd_fd :: int
  ofd_fileptr :: u32

abbreviation MAX_FLASH_FDS :: nat where "MAX_FLASH_FDS \<equiv> 4"
abbreviation WRITE_SECTOR_SIZE :: nat where "WRITE_SECTOR_SIZE \<equiv> 4096"
abbreviation WRITE_OFFSET_MASK :: u32 where "WRITE_OFFSET_MASK \<equiv> 0xFFFFF000"
abbreviation WRITE_FILEPTR_OFFSET_MASK :: u32 where "WRITE_FILEPTR_OFFSET_MASK \<equiv> 0x00000FFF"
abbreviation FLASH_CMD_WREN :: byte where "FLASH_CMD_WREN \<equiv> 0x06"
abbreviation FLASH_CMD_SE :: byte where "FLASH_CMD_SE \<equiv> 0x20"
abbreviation FLASH_CMD_PP :: byte where "FLASH_CMD_PP \<equiv> 0x02"
abbreviation FLASH_CMD_RDSR :: byte where "FLASH_CMD_RDSR \<equiv> 0x05"
abbreviation FLASH_CMD_READ :: byte where "FLASH_CMD_READ \<equiv> 0x03"

text \<open>The static variables of the driver, \<open>None\<close> for a null \<open>writebuf\<close>.\<close>

record 'w flash_dev =
  fl_list :: "OpenFD list"
  fl_writebuf :: "byte list option"
  fl_blk_offset :: u32
  fl_blk_end :: u32
  fl_hw :: 'w

section \<open>Transfers\<close>

text \<open>A run of \<open>flash_byte\<close> calls whose results are discarded.\<close>

primrec flash_send :: "'w flash_hw \<Rightarrow> byte list \<Rightarrow> 'w \<Rightarrow> 'w" where
  "flash_send hw [] w = w"
| "flash_send hw (b # bs) w = flash_send hw bs (snd (hw_byte hw b w))"

text \<open>A run of transfers that shift in \<open>n\<close> bytes while ones are shifted out.\<close>

primrec flash_recv :: "'w flash_hw \<Rightarrow> nat \<Rightarrow> 'w \<Rightarrow> byte list \<times> 'w" where
  "flash_recv hw 0 w = ([], w)"
| "flash_recv hw (Suc n) w =
     (let (b, w1) = hw_byte hw 0xFF w; (bs, w2) = flash_recv hw n w1 in (b # bs, w2))"

text \<open>
  \<open>flash_memcpy\<close>: the read command and the address leave as one big-endian word, then whole
  words are stored as they arrive, least significant byte first, and the remainder byte by byte.
  The word counter is decremented before it is tested, so that a size below four makes it wrap
  and the copy runs over all of memory.
\<close>

definition flash_memcpy :: "'w flash_hw \<Rightarrow> u32 \<Rightarrow> nat \<Rightarrow> 'w \<Rightarrow> fault + (byte list \<times> 'w)" where
  "flash_memcpy hw src n w =
     (let w1 = hw_select hw w;
          w2 = flash_send hw (rev (bytes_of_u32 (0x03000000 OR src))) w1
      in if n div 4 = 0 then Inl Out_Of_Bounds
         else let (ws, w3) = flash_recv hw (4 * (n div 4)) w2;
                  (bs, w4) = flash_recv hw (n mod 4) w3
              in Inr (ws @ bs, hw_inactive hw w4))"

text \<open>\<open>do status = flash_byte(0xFF); while(status & 1);\<close>\<close>

partial_function (option) flash_wait :: "'w flash_hw \<Rightarrow> 'w \<Rightarrow> 'w option" where
  "flash_wait hw w =
     (let (status, w1) = hw_byte hw 0xFF w in
      if status AND 1 \<noteq> 0 then flash_wait hw w1 else Some w1)"

text \<open>The status command, the wait, and the end of the command.\<close>

definition flash_poll :: "'w flash_hw \<Rightarrow> 'w \<Rightarrow> 'w option" where
  "flash_poll hw w = map_option (hw_inactive hw) (flash_wait hw (flash_send hw [FLASH_CMD_RDSR] w))"

definition addr_bytes :: "u32 \<Rightarrow> byte list" where
  "addr_bytes a = [ucast (drop_bit 16 a), ucast (drop_bit 8 a), ucast a]"

definition flash_command :: "'w flash_hw \<Rightarrow> byte list \<Rightarrow> 'w \<Rightarrow> 'w" where
  "flash_command hw bs w = hw_inactive hw (flash_send hw bs w)"

section \<open>The erase and program cycle\<close>

text \<open>The loop over the pages of the buffer: the page pointer, the flash offset and the count.\<close>

primrec write_pages :: "'w flash_hw \<Rightarrow> nat \<Rightarrow> byte list \<Rightarrow> u32 \<Rightarrow> 'w \<Rightarrow> 'w option" where
  "write_pages hw 0 pageptr off w = Some w"
| "write_pages hw (Suc n) pageptr off w =
     (let w1 = flash_command hw [FLASH_CMD_WREN] w;
          w2 = flash_command hw (FLASH_CMD_PP # addr_bytes off @ take 256 pageptr) w1
      in case flash_poll hw w2 of
           None \<Rightarrow> None
         | Some w3 \<Rightarrow> write_pages hw n (drop 256 pageptr) (off + 256) w3)"

definition spiflash_writebuffer :: "'w flash_hw \<Rightarrow> 'w flash_dev \<Rightarrow> fault + 'w flash_dev" where
  "spiflash_writebuffer hw dev =
     (case fl_writebuf dev of
        None \<Rightarrow> Inl Null_Pointer
      | Some buf \<Rightarrow>
          let off = fl_blk_offset dev;
              w1 = flash_command hw [FLASH_CMD_WREN] (hw_select hw (fl_hw dev));
              w2 = flash_command hw (FLASH_CMD_SE # addr_bytes off) w1
          in case flash_poll hw w2 of
               None \<Rightarrow> Inl Blocks_Forever
             | Some w3 \<Rightarrow>
                 (case write_pages hw 16 buf off w3 of
                    None \<Rightarrow> Inl Blocks_Forever
                  | Some w4 \<Rightarrow>
                      Inr (dev\<lparr>fl_writebuf := None, fl_blk_offset := 0,
                               fl_hw := hw_kfree hw (hw_inactive hw w4)\<rparr>)))"

definition spiflash_sync :: "'w flash_hw \<Rightarrow> 'w flash_dev \<Rightarrow> fault + 'w flash_dev" where
  "spiflash_sync hw dev =
     (if fl_writebuf dev \<noteq> None then spiflash_writebuffer hw dev else Inr dev)"

section \<open>Open descriptors\<close>

definition spiflash_init :: "'w flash_dev \<Rightarrow> 'w flash_dev" where
  "spiflash_init dev = dev\<lparr>fl_list := replicate MAX_FLASH_FDS \<lparr>ofd_fd = 0, ofd_fileptr = 0\<rparr>\<rparr>"

definition new_fd :: "int \<Rightarrow> OpenFD list \<Rightarrow> (nat \<times> OpenFD list) option" where
  "new_fd fd l =
     (case for_find (\<lambda>i. ofd_fd (l ! i) = 0) 0 MAX_FLASH_FDS of
        Some i \<Rightarrow> Some (i, l[i := \<lparr>ofd_fd = fd, ofd_fileptr = 0\<rparr>])
      | None \<Rightarrow> None)"

definition get_fd :: "int \<Rightarrow> OpenFD list \<Rightarrow> nat option" where
  "get_fd fd l = for_find (\<lambda>i. ofd_fd (l ! i) = fd) 0 MAX_FLASH_FDS"

text \<open>\<open>spiflash_open\<close> is given the descriptor number and returns the operations to enter.\<close>

definition spiflash_open :: "int \<Rightarrow> 'w flash_dev \<Rightarrow> int \<times> fdclass option \<times> 'w flash_dev" where
  "spiflash_open fd dev =
     (case new_fd fd (fl_list dev) of
        None \<Rightarrow> (- EMFILE, None, dev)
      | Some (i, l) \<Rightarrow> (0, Some Spiflash_func, dev\<lparr>fl_list := l\<rparr>))"

definition set_fileptr :: "nat \<Rightarrow> u32 \<Rightarrow> 'w flash_dev \<Rightarrow> 'w flash_dev" where
  "set_fileptr i p dev = dev\<lparr>fl_list := (fl_list dev)[i := (fl_list dev ! i)\<lparr>ofd_fileptr := p\<rparr>]\<rparr>"

abbreviation fileptr :: "nat \<Rightarrow> 'w flash_dev \<Rightarrow> u32" where
  "fileptr i dev \<equiv> ofd_fileptr (fl_list dev ! i)"

text \<open>\<open>fdinfo->fd = 0;\<close>\<close>

definition release_fd :: "nat \<Rightarrow> OpenFD list \<Rightarrow> OpenFD list" where
  "release_fd i l = l[i := (l ! i)\<lparr>ofd_fd := 0\<rparr>]"

definition spiflash_close :: "'w flash_hw \<Rightarrow> int \<Rightarrow> 'w flash_dev \<Rightarrow> fault + (int \<times> 'w flash_dev)" where
  "spiflash_close hw fd dev =
     (case get_fd fd (fl_list dev) of
        None \<Rightarrow> Inr (- EIO, dev)
      | Some i \<Rightarrow>
          bindE (spiflash_sync hw dev)
            (\<lambda>dev1. Inr (0, dev1\<lparr>fl_list := release_fd i (fl_list dev1)\<rparr>)))"

section \<open>Reading, writing and seeking\<close>

definition spiflash_read ::
  "'w flash_hw \<Rightarrow> int \<Rightarrow> u32 \<Rightarrow> 'w flash_dev \<Rightarrow> fault + (int \<times> byte list \<times> 'w flash_dev)" where
  "spiflash_read hw fd count dev =
     (case get_fd fd (fl_list dev) of
        None \<Rightarrow> Inr (- EIO, [], dev)
      | Some i \<Rightarrow>
          bindE (spiflash_sync hw dev) (\<lambda>dev1.
          bindE (flash_memcpy hw (fileptr i dev1) (unat count) (fl_hw dev1)) (\<lambda>(bs, w).
          Inr (sint count, bs, set_fileptr i (fileptr i dev1 + count) (dev1\<lparr>fl_hw := w\<rparr>)))))"

definition spiflash_load_sector ::
  "'w flash_hw \<Rightarrow> nat \<Rightarrow> 'w flash_dev \<Rightarrow> fault + (int \<times> 'w flash_dev)" where
  "spiflash_load_sector hw i dev =
     (case hw_kmalloc hw WRITE_SECTOR_SIZE (fl_hw dev) of
        (None, w) \<Rightarrow> Inr (- ENOMEM, dev\<lparr>fl_writebuf := None, fl_hw := w\<rparr>)
      | (Some blk, w) \<Rightarrow>
          let off = fileptr i dev AND WRITE_OFFSET_MASK in
          bindE (flash_memcpy hw off WRITE_SECTOR_SIZE w) (\<lambda>(bs, w1).
          Inr (0, dev\<lparr>fl_writebuf := Some bs, fl_blk_offset := off,
                      fl_blk_end := off + of_nat WRITE_SECTOR_SIZE, fl_hw := w1\<rparr>)))"

text \<open>\<open>memcpy\<close> into the write buffer.\<close>

definition writebuf_copy :: "byte list \<Rightarrow> nat \<Rightarrow> byte list \<Rightarrow> fault + byte list" where
  "writebuf_copy buf at bs =
     (if at + length bs \<le> length buf then Inr (take at buf @ bs @ drop (at + length bs) buf)
      else Inl Out_Of_Bounds)"

definition spiflash_write_to_sector ::
  "'w flash_hw \<Rightarrow> nat \<Rightarrow> byte list \<Rightarrow> 'w flash_dev \<Rightarrow> fault + (int \<times> 'w flash_dev)" where
  "spiflash_write_to_sector hw i buf dev =
     (let count = of_nat (length buf) :: u32; end_addr = count + fileptr i dev in
      bindE (if fl_writebuf dev = None then spiflash_load_sector hw i dev
             else if end_addr > fl_blk_end dev \<or> fileptr i dev < fl_blk_offset dev
             then bindE (spiflash_writebuffer hw dev) (spiflash_load_sector hw i)
             else Inr (0, dev))
        (\<lambda>(rc, dev1).
          if rc < 0 then Inr (rc, dev1)
          else
            let fileptr_in_blk = fileptr i dev1 AND WRITE_FILEPTR_OFFSET_MASK;
                count1 = (if end_addr > fl_blk_end dev1 then fl_blk_end dev1 - fileptr i dev1
                          else count)
            in case fl_writebuf dev1 of
                 None \<Rightarrow> Inl Null_Pointer
               | Some wb \<Rightarrow>
                   bindE (writebuf_copy wb (unat fileptr_in_blk) (take (unat count1) buf)) (\<lambda>wb1.
                   let dev2 = dev1\<lparr>fl_writebuf := Some wb1\<rparr> in
                   bindE (if end_addr \<ge> fl_blk_end dev2 then spiflash_writebuffer hw dev2
                          else Inr dev2)
                     (\<lambda>dev3. Inr (sint count1, dev3)))))"

partial_function (option) spiflash_write_loop ::
  "'w flash_hw \<Rightarrow> nat \<Rightarrow> byte list \<Rightarrow> 'w flash_dev \<Rightarrow> (fault + (int \<times> 'w flash_dev)) option" where
  "spiflash_write_loop hw i buf dev =
     (case spiflash_write_to_sector hw i buf dev of
        Inl e \<Rightarrow> Some (Inl e)
      | Inr (bytes, dev1) \<Rightarrow>
          if bytes < 0 then Some (Inr (bytes, dev1))
          else let dev2 = set_fileptr i (fileptr i dev1 + word_of_int bytes) dev1;
                   rest = drop (nat bytes) buf
               in if rest \<noteq> [] then spiflash_write_loop hw i rest dev2 else Some (Inr (0, dev2)))"

definition spiflash_write ::
  "'w flash_hw \<Rightarrow> int \<Rightarrow> byte list \<Rightarrow> 'w flash_dev \<Rightarrow> fault + (int \<times> 'w flash_dev)" where
  "spiflash_write hw fd buf dev =
     (case get_fd fd (fl_list dev) of
        None \<Rightarrow> Inr (- EIO, dev)
      | Some i \<Rightarrow>
          (case spiflash_write_loop hw i buf dev of
             None \<Rightarrow> Inl Blocks_Forever
           | Some (Inl e) \<Rightarrow> Inl e
           | Some (Inr (rc, dev1)) \<Rightarrow>
               Inr (if rc < 0 then rc else sint (of_nat (length buf) :: u32), dev1)))"

abbreviation SEEK_SET :: int where "SEEK_SET \<equiv> 0"
abbreviation SEEK_CUR :: int where "SEEK_CUR \<equiv> 1"
abbreviation SEEK_END :: int where "SEEK_END \<equiv> 2"

definition spiflash_lseek ::
  "int \<Rightarrow> u32 \<Rightarrow> int \<Rightarrow> 'w flash_dev \<Rightarrow> int \<times> 'w flash_dev" where
  "spiflash_lseek fd offset whence dev =
     (case get_fd fd (fl_list dev) of
        None \<Rightarrow> (- EIO, dev)
      | Some i \<Rightarrow>
          let ret = (\<lambda>p. (sint p, set_fileptr i p dev)) in
          if whence = SEEK_SET then ret offset
          else if whence = SEEK_CUR then ret (fileptr i dev + offset)
          else if whence = SEEK_END then ret (0xFFFFFF + offset)
          else (- EINVAL, dev))"

text \<open>The fields of \<open>struct stat\<close> that the drivers set; all others are cleared.\<close>

record stat_buf =
  st_mode :: u32
  st_size :: u32
  st_nlink :: u32

abbreviation S_IFBLK :: u32 where "S_IFBLK \<equiv> 0x6000"

definition spiflash_fstat :: "int \<times> stat_buf" where
  "spiflash_fstat = (0, \<lparr>st_mode = S_IFBLK OR 0x16D, st_size = 0xFFFFFF, st_nlink = 1\<rparr>)"

section \<open>The flash chip the driver expects\<close>

text \<open>
  The command set of a 24-bit serial NOR flash chip: the contents, the write-enable latch, the
  bytes clocked in since the chip was selected, and the number of status reads until an erase or
  program operation in progress has finished.
\<close>

record nor =
  nor_content :: "nat \<Rightarrow> byte"
  nor_wel :: bool
  nor_cmd :: "byte list"
  nor_busy :: nat

definition addr3 :: "byte \<Rightarrow> byte \<Rightarrow> byte \<Rightarrow> nat" where
  "addr3 a b c = unat a * 65536 + unat b * 256 + unat c"

text \<open>Erasing sets every bit of the sector, programming can only clear bits of one page.\<close>

definition nor_erase :: "nat \<Rightarrow> (nat \<Rightarrow> byte) \<Rightarrow> nat \<Rightarrow> byte" where
  "nor_erase base content = (\<lambda>a. if a div 4096 = base div 4096 then 0xFF else content a)"

definition nor_program :: "nat \<Rightarrow> byte list \<Rightarrow> (nat \<Rightarrow> byte) \<Rightarrow> nat \<Rightarrow> byte" where
  "nor_program base bs content = (\<lambda>a.
     let k = (a + 256 - base mod 256) mod 256 in
     if a div 256 = base div 256 \<and> k < length bs
     then content a AND bs ! (k + 256 * ((length bs - 1 - k) div 256)) else content a)"

definition nor_clock :: "byte \<Rightarrow> nor \<Rightarrow> nor" where
  "nor_clock b c = c\<lparr>nor_cmd := nor_cmd c @ [b],
     nor_busy := (if take 1 (nor_cmd c) = [0x05] then nor_busy c - 1 else nor_busy c)\<rparr>"

text \<open>The byte the chip drives during a read command.\<close>

fun nor_reply :: "nor \<Rightarrow> byte option" where
  "nor_reply c = (case nor_cmd c of
     r # a # b # x # dummy \<Rightarrow>
       if r = 0x03 \<and> nor_busy c = 0
       then Some (nor_content c ((addr3 a b x + length dummy) mod 16777216)) else None
   | _ \<Rightarrow> None)"

text \<open>Slave select high ends a command; an erase or program then takes \<open>d\<close> status reads.\<close>

definition nor_deselect :: "nat \<Rightarrow> nor \<Rightarrow> nor" where
  "nor_deselect d c =
     (let c0 = c\<lparr>nor_cmd := []\<rparr> in
      if 0 < nor_busy c then c0
      else if nor_cmd c = [0x06] then c0\<lparr>nor_wel := True\<rparr>
      else if \<not> nor_wel c then c0
      else case nor_cmd c of
        r # a # b # x # bs \<Rightarrow>
          if r = 0x20 \<and> bs = []
          then c0\<lparr>nor_content := nor_erase (addr3 a b x) (nor_content c), nor_wel := False, nor_busy := d\<rparr>
          else if r = 0x02 \<and> bs \<noteq> []
          then c0\<lparr>nor_content := nor_program (addr3 a b x) bs (nor_content c), nor_wel := False, nor_busy := d\<rparr>
          else c0
      | _ \<Rightarrow> c0)"

text \<open>
  The hypothesis on the hardware: seen through \<open>v\<close>, the chip follows the command set, an
  erase or program operation takes a finite time, and the allocator returns blocks of the size
  asked for and leaves the chip alone.
\<close>

definition nor_flash :: "'w flash_hw \<Rightarrow> ('w \<Rightarrow> nor) \<Rightarrow> bool" where
  "nor_flash hw v \<longleftrightarrow>
     (\<forall>w. v (hw_select hw w) = v w) \<and>
     (\<forall>b w. v (snd (hw_byte hw b w)) = nor_clock b (v w)) \<and>
     (\<forall>b w r. nor_reply (v w) = Some r \<longrightarrow> fst (hw_byte hw b w) = r) \<and>
     (\<forall>b w. take 1 (nor_cmd (v w)) = [0x05] \<longrightarrow>
        (fst (hw_byte hw b w) AND 1 = 0 \<longleftrightarrow> nor_busy (v w) = 0)) \<and>
     (\<forall>w. \<exists>d. v (hw_inactive hw w) = nor_deselect d (v w)) \<and>
     (\<forall>n w. v (snd (hw_kmalloc hw n w)) = v w) \<and>
     (\<forall>n w blk. fst (hw_kmalloc hw n w) = Some blk \<longrightarrow> length blk = n) \<and>
     (\<forall>w. v (hw_kfree hw w) = v w)"

definition nor_idle :: "nor \<Rightarrow> bool" where
  "nor_idle c \<longleftrightarrow> nor_cmd c = [] \<and> nor_busy c = 0"

text \<open>A range of an array of bytes replaced.\<close>

definition patch :: "nat \<Rightarrow> byte list \<Rightarrow> (nat \<Rightarrow> byte) \<Rightarrow> nat \<Rightarrow> byte" where
  "patch p bs f = (\<lambda>a. if p \<le> a \<and> a < p + length bs then bs ! (a - p) else f a)"

lemma patch_Nil [simp]: "patch p [] f = f"
  by (auto simp: patch_def fun_eq_iff)

lemma patch_append: "patch p (xs @ ys) f = patch (p + length xs) ys (patch p xs f)"
  by (auto simp: patch_def nth_append fun_eq_iff)

section \<open>Commands\<close>

lemma nor_flashD:
  assumes "nor_flash hw v"
  shows "v (hw_select hw w) = v w"
    and "v (snd (hw_byte hw b w)) = nor_clock b (v w)"
    and "nor_reply (v w) = Some r \<Longrightarrow> fst (hw_byte hw b w) = r"
    and "take 1 (nor_cmd (v w)) = [0x05] \<Longrightarrow> fst (hw_byte hw b w) AND 1 = 0 \<longleftrightarrow> nor_busy (v w) = 0"
    and "\<exists>d. v (hw_inactive hw w) = nor_deselect d (v w)"
    and "v (snd (hw_kmalloc hw n w)) = v w"
    and "fst (hw_kmalloc hw n w) = Some blk \<Longrightarrow> length blk = n"
    and "v (hw_kfree hw w) = v w"
  using assms unfolding nor_flash_def by blast+

lemma flash_send_cmd:
  assumes "nor_flash hw v"
  shows "nor_busy (v w) = 0 \<Longrightarrow>
    v (flash_send hw bs w) = (v w)\<lparr>nor_cmd := nor_cmd (v w) @ bs\<rparr>"
  by (induction bs arbitrary: w) (simp_all add: nor_flashD [OF assms] nor_clock_def)

lemma flash_command_idle:
  assumes hw: "nor_flash hw v" and idle: "nor_idle (v w)"
  obtains d where "v (flash_command hw bs w) = nor_deselect d ((v w)\<lparr>nor_cmd := bs\<rparr>)"
  using nor_flashD(5) [OF hw, where w = "flash_send hw bs w"] idle flash_send_cmd [OF hw, of w bs]
  by (auto simp: flash_command_def nor_idle_def)

lemma flash_wren:
  assumes hw: "nor_flash hw v" and idle: "nor_idle (v w)"
  shows "v (flash_command hw [0x06] w) = (v w)\<lparr>nor_wel := True\<rparr>"
proof -
  obtain d where "v (flash_command hw [0x06] w) = nor_deselect d ((v w)\<lparr>nor_cmd := [0x06]\<rparr>)"
    using flash_command_idle [OF assms] by blast
  then show ?thesis using idle by (simp add: nor_deselect_def nor_idle_def)
qed

text \<open>Once the status command is in, the wait ends with the chip ready.\<close>

lemma flash_wait_ends:
  assumes hw: "nor_flash hw v"
  shows "take 1 (nor_cmd (v w)) = [0x05] \<Longrightarrow>
    \<exists>w' dummy. flash_wait hw w = Some w' \<and>
      v w' = (v w)\<lparr>nor_cmd := nor_cmd (v w) @ dummy, nor_busy := 0\<rparr>"
proof (induction "nor_busy (v w)" arbitrary: w)
  case 0
  have "fst (hw_byte hw 0xFF w) AND 1 = 0" using nor_flashD(4) [OF hw 0(2)] 0(1) by simp
  then show ?case
    using nor_flashD(2) [OF hw, where b = "0xFF" and w = w] 0
    by (subst flash_wait.simps) (auto simp: split_beta nor_clock_def)
next
  case (Suc n)
  let ?w = "snd (hw_byte hw 0xFF w)"
  have busy: "fst (hw_byte hw 0xFF w) AND 1 \<noteq> 0"
    using nor_flashD(4) [OF hw Suc(3)] Suc(2) by simp
  have v: "v ?w = (v w)\<lparr>nor_cmd := nor_cmd (v w) @ [0xFF], nor_busy := n\<rparr>"
    using nor_flashD(2) [OF hw, where b = "0xFF" and w = w] Suc(2) Suc(3) by (simp add: nor_clock_def Suc(2) [symmetric])
  have "nor_cmd (v w) \<noteq> []" using Suc(3) by auto
  then have "take 1 (nor_cmd (v ?w)) = [0x05]" using Suc(3) v by (simp add: Suc_le_eq)
  then obtain w' dummy where "flash_wait hw ?w = Some w'"
    and "v w' = (v ?w)\<lparr>nor_cmd := nor_cmd (v ?w) @ dummy, nor_busy := 0\<rparr>"
    using Suc(1) [of ?w] v by auto
  then show ?case using busy v by (subst flash_wait.simps) (auto simp: split_beta)
qed

lemma flash_poll_ends:
  assumes hw: "nor_flash hw v" and "nor_cmd (v w) = []" and wel: "\<not> nor_wel (v w)"
  shows "\<exists>w'. flash_poll hw w = Some w' \<and> v w' = (v w)\<lparr>nor_cmd := [], nor_busy := 0\<rparr>"
proof -
  let ?w = "flash_send hw [FLASH_CMD_RDSR] w"
  have v: "v ?w = (v w)\<lparr>nor_cmd := [0x05]\<rparr>"
    using assms by (simp add: nor_flashD [OF hw] nor_clock_def)
  then obtain w' dummy where w': "flash_wait hw ?w = Some w'"
    "v w' = (v w)\<lparr>nor_cmd := 0x05 # dummy, nor_busy := 0\<rparr>"
    using flash_wait_ends [OF hw, of ?w] by auto
  obtain d where "v (hw_inactive hw w') = nor_deselect d (v w')"
    using nor_flashD(5) [OF hw] by blast
  then have "v (hw_inactive hw w') = (v w)\<lparr>nor_cmd := [], nor_busy := 0\<rparr>"
    using w'(2) wel by (simp add: nor_deselect_def split: list.splits)
  then show ?thesis using w'(1) by (simp add: flash_poll_def)
qed

lemma unat_byte_of: "unat (ucast (drop_bit k (a :: u32)) :: byte) = unat a div 2 ^ k mod 256"
proof -
  have "unat (ucast (drop_bit k a) :: byte) = unat (drop_bit k a) mod 256"
    by (simp only: unsigned_ucast_eq unsigned_take_bit_eq) (simp add: take_bit_eq_mod)
  then show ?thesis by (simp only: unat_drop_bit_eq) (simp only: drop_bit_eq_div [where 'a = nat])
qed

lemma addr3_addr_bytes:
  "addr_bytes a = [x, y, z] \<Longrightarrow> addr3 x y z = unat a mod 16777216"
proof -
  assume "addr_bytes a = [x, y, z]"
  then have "unat x = unat a div 65536 mod 256" "unat y = unat a div 256 mod 256" "unat z = unat a mod 256"
    using unat_byte_of [of 16 a] unat_byte_of [of 8 a] unat_byte_of [of 0 a]
    by (auto simp: addr_bytes_def)
  moreover have "unat a mod (256 * (256 * 256)) =
      256 * (256 * (unat a div 256 div 256 mod 256) + unat a div 256 mod 256) + unat a mod 256"
    by (simp only: mod_mult2_eq)
  ultimately show ?thesis by (simp add: addr3_def div_mult2_eq [symmetric])
qed

lemma addr_bytes_cases: obtains x y z where "addr_bytes a = [x, y, z]"
  by (simp add: addr_bytes_def)

lemma read_command_bytes:
  assumes "unat src < 16777216"
  shows "rev (bytes_of_u32 (0x03000000 OR src)) = 0x03 # addr_bytes src"
proof -
  have k: "(0x03000000 :: u32) = push_bit 24 3" by simp
  have "drop_bit 24 src = 0"
    using assms by (intro word_unat_eq_iff [THEN iffD2]) (simp only: unat_drop_bit_eq, simp add: drop_bit_eq_div)
  then have "drop_bit 24 (push_bit 24 3 OR src) = 3" by (simp add: drop_bit_or)
  then have "ucast (drop_bit 24 (push_bit 24 3 OR src)) = (0x03 :: byte)" by simp
  moreover have low: "ucast (drop_bit k (push_bit 24 c OR src)) = (ucast (drop_bit k src) :: byte)"
    if "k \<le> 16" for k and c :: u32
    using that by (intro bit_word_eqI) (auto simp: bit_simps)
  from low [of 16 3] low [of 8 3] low [of 0 3] have
    "ucast (drop_bit 16 (push_bit 24 3 OR src)) = (ucast (drop_bit 16 src) :: byte)"
    "ucast (drop_bit 8 (push_bit 24 3 OR src)) = (ucast (drop_bit 8 src) :: byte)"
    "ucast (push_bit 24 3 OR src) = (ucast src :: byte)" by simp_all
  ultimately show ?thesis by (simp only: k bytes_of_u32_def addr_bytes_def rev.simps append.simps)
qed

text \<open>Bytes shifted in after a read command are consecutive bytes of the contents.\<close>

lemma flash_recv_read:
  assumes hw: "nor_flash hw v" and a: "addr_bytes a = [x, y, z]"
  shows "nor_busy (v w) = 0 \<Longrightarrow> nor_cmd (v w) = 0x03 # x # y # z # dummy \<Longrightarrow>
    \<exists>w' dummy'. flash_recv hw n w =
        (map (\<lambda>i. nor_content (v w) ((unat a + length dummy + i) mod 16777216)) [0..<n], w') \<and>
      v w' = (v w)\<lparr>nor_cmd := 0x03 # x # y # z # dummy'\<rparr> \<and> length dummy' = length dummy + n"
proof (induction n arbitrary: w dummy)
  case 0
  then show ?case by (intro exI [of _ w] exI [of _ dummy]) simp
next
  case (Suc n)
  let ?w = "snd (hw_byte hw 0xFF w)"
  have "addr3 x y z = unat a mod 16777216" using addr3_addr_bytes [OF a] .
  then have r: "fst (hw_byte hw 0xFF w) = nor_content (v w) ((unat a + length dummy) mod 16777216)"
    using Suc.prems by (intro nor_flashD(3) [OF hw]) (simp add: mod_add_left_eq)
  have v: "v ?w = (v w)\<lparr>nor_cmd := 0x03 # x # y # z # dummy @ [0xFF]\<rparr>"
    using nor_flashD(2) [OF hw, where b = "0xFF" and w = w] Suc.prems by (simp add: nor_clock_def)
  then obtain w' dummy' where w': "flash_recv hw n ?w =
      (map (\<lambda>i. nor_content (v ?w) ((unat a + length (dummy @ [0xFF]) + i) mod 16777216)) [0..<n], w')"
    "v w' = (v ?w)\<lparr>nor_cmd := 0x03 # x # y # z # dummy'\<rparr>" "length dummy' = length (dummy @ [0xFF :: byte]) + n"
    using Suc.IH [of ?w "dummy @ [0xFF]"] Suc.prems by auto
  have "[0..<Suc n] = 0 # map Suc [0..<n]" by (simp add: map_Suc_upt upt_conv_Cons)
  then show ?case
    using w' v r by (intro exI [of _ w'] exI [of _ dummy']) (simp add: split_beta Let_def)
qed

lemma flash_recv_add:
  "flash_recv hw (m + n) w = (let (bs, w1) = flash_recv hw m w; (cs, w2) = flash_recv hw n w1 in (bs @ cs, w2))"
  by (induction m arbitrary: w) (auto simp: split_beta Let_def)

lemma flash_memcpy_read:
  assumes hw: "nor_flash hw v" and idle: "nor_idle (v w)" and wel: "\<not> nor_wel (v w)"
    and src: "unat src + n \<le> 16777216" and n: "4 \<le> n"
  shows "\<exists>w'. flash_memcpy hw src n w =
     Inr (map (\<lambda>i. nor_content (v w) (unat src + i)) [0..<n], w') \<and> v w' = v w"
proof -
  let ?w2 = "flash_send hw (0x03 # addr_bytes src) (hw_select hw w)"
  obtain x y z where a: "addr_bytes src = [x, y, z]" by (rule addr_bytes_cases)
  have v2: "v ?w2 = (v w)\<lparr>nor_cmd := [0x03, x, y, z]\<rparr>"
    using idle a by (simp add: flash_send_cmd [OF hw] nor_flashD(1) [OF hw] nor_idle_def
        nor_flashD(2) [OF hw] nor_clock_def)
  obtain w3 dummy where w3: "flash_recv hw n ?w2 =
      (map (\<lambda>i. nor_content (v w) ((unat src + i) mod 16777216)) [0..<n], w3)"
    "v w3 = (v w)\<lparr>nor_cmd := 0x03 # x # y # z # dummy\<rparr>"
    using flash_recv_read [OF hw a, of ?w2 "[]" n] v2 idle by (auto simp: nor_idle_def)
  obtain d where "v (hw_inactive hw w3) = nor_deselect d (v w3)" using nor_flashD(5) [OF hw] by blast
  then have v3: "v (hw_inactive hw w3) = v w"
    using w3(2) idle wel by (simp add: nor_deselect_def nor_idle_def)
  have "flash_memcpy hw src n w = Inr (fst (flash_recv hw n ?w2), hw_inactive hw (snd (flash_recv hw n ?w2)))"
    using n src flash_recv_add [of hw "4 * (n div 4)" "n mod 4" ?w2]
    by (simp add: flash_memcpy_def read_command_bytes split_beta Let_def)
  moreover have "map (\<lambda>i. nor_content (v w) ((unat src + i) mod 16777216)) [0..<n] =
      map (\<lambda>i. nor_content (v w) (unat src + i)) [0..<n]"
    using src by simp
  ultimately show ?thesis using w3(1) v3 by simp
qed

section \<open>Writing the buffer back\<close>

text \<open>An erase or program command on an idle chip, up to the end of its busy time.\<close>

lemma flash_erase:
  assumes hw: "nor_flash hw v" and idle: "nor_idle (v w)" and off: "unat off < 16777216"
  shows "\<exists>w'. flash_poll hw (flash_command hw (FLASH_CMD_SE # addr_bytes off)
      (flash_command hw [FLASH_CMD_WREN] w)) = Some w' \<and>
    v w' = (v w)\<lparr>nor_content := nor_erase (unat off) (nor_content (v w)), nor_wel := False\<rparr>"
proof -
  let ?w1 = "flash_command hw [FLASH_CMD_WREN] w"
  let ?cmd = "FLASH_CMD_SE # addr_bytes off"
  obtain x y z where a: "addr_bytes off = [x, y, z]" by (rule addr_bytes_cases)
  have v1: "v ?w1 = (v w)\<lparr>nor_wel := True\<rparr>" by (rule flash_wren [OF hw idle])
  then have "nor_idle (v ?w1)" using idle by (simp add: nor_idle_def)
  then obtain d where "v (flash_command hw ?cmd ?w1) = nor_deselect d ((v ?w1)\<lparr>nor_cmd := ?cmd\<rparr>)"
    by (rule flash_command_idle [OF hw])
  then have "v (flash_command hw ?cmd ?w1) =
      (v w)\<lparr>nor_content := nor_erase (unat off) (nor_content (v w)), nor_wel := False, nor_busy := d\<rparr>"
    using v1 idle off a addr3_addr_bytes [OF a] by (simp add: nor_deselect_def nor_idle_def)
  then show ?thesis
    using flash_poll_ends [OF hw, of "flash_command hw ?cmd ?w1"] idle
    by (cases "v w") (simp add: nor_idle_def)
qed

lemma flash_program:
  assumes hw: "nor_flash hw v" and idle: "nor_idle (v w)" and off: "unat off < 16777216"
    and bs: "bs \<noteq> []"
  shows "\<exists>w'. flash_poll hw (flash_command hw (FLASH_CMD_PP # addr_bytes off @ bs)
      (flash_command hw [FLASH_CMD_WREN] w)) = Some w' \<and>
    v w' = (v w)\<lparr>nor_content := nor_program (unat off) bs (nor_content (v w)), nor_wel := False\<rparr>"
proof -
  let ?w1 = "flash_command hw [FLASH_CMD_WREN] w"
  let ?cmd = "FLASH_CMD_PP # addr_bytes off @ bs"
  obtain x y z where a: "addr_bytes off = [x, y, z]" by (rule addr_bytes_cases)
  have v1: "v ?w1 = (v w)\<lparr>nor_wel := True\<rparr>" by (rule flash_wren [OF hw idle])
  then have "nor_idle (v ?w1)" using idle by (simp add: nor_idle_def)
  then obtain d where "v (flash_command hw ?cmd ?w1) = nor_deselect d ((v ?w1)\<lparr>nor_cmd := ?cmd\<rparr>)"
    by (rule flash_command_idle [OF hw])
  then have "v (flash_command hw ?cmd ?w1) =
      (v w)\<lparr>nor_content := nor_program (unat off) bs (nor_content (v w)), nor_wel := False, nor_busy := d\<rparr>"
    using v1 idle off a bs addr3_addr_bytes [OF a] by (simp add: nor_deselect_def nor_idle_def)
  then show ?thesis
    using flash_poll_ends [OF hw, of "flash_command hw ?cmd ?w1"] idle
    by (cases "v w") (simp add: nor_idle_def)
qed

text \<open>Programming one erased, aligned page stores the page.\<close>

lemma nor_program_page:
  assumes "p mod 256 = 0" and "length bs = 256" and "\<forall>a. p \<le> a \<and> a < p + 256 \<longrightarrow> C a = 0xFF"
  shows "nor_program p bs C = patch p bs C"
proof
  fix a
  have "(0xFF :: byte) = - 1" by (rule word_unat_eq_iff [THEN iffD2])
      (simp add: unsigned_minus_1_eq_mask mask_eq_exp_minus_1)
  then have ff: "(0xFF :: byte) AND b = b" for b by (simp only: and.left_neutral)
  show "nor_program p bs C a = patch p bs C a"
  proof (cases "p \<le> a \<and> a < p + 256")
    case True
    then obtain k where k: "a = p + k" "k < 256" by (metis add_less_cancel_left le_Suc_ex)
    then have "a div 256 = p div 256" "(a + 256 - p mod 256) mod 256 = k"
      using assms(1) by (auto simp: div_add1_eq [of p k] mod_add_left_eq [of p, symmetric])
    then show ?thesis using True k assms ff by (simp add: nor_program_def patch_def)
  next
    case False
    then have "a div 256 \<noteq> p div 256" using div_eq_aligned [OF assms(1), of a] by simp
    then show ?thesis using False assms by (auto simp: nor_program_def patch_def)
  qed
qed

lemma write_pages_patch:
  assumes hw: "nor_flash hw v"
  shows "nor_idle (v w) \<Longrightarrow> \<not> nor_wel (v w) \<Longrightarrow> length buf = 256 * n \<Longrightarrow>
    unat off mod 256 = 0 \<Longrightarrow> unat off + 256 * n \<le> 16777216 \<Longrightarrow>
    \<forall>a. unat off \<le> a \<and> a < unat off + 256 * n \<longrightarrow> nor_content (v w) a = 0xFF \<Longrightarrow>
    \<exists>w'. write_pages hw n buf off w = Some w' \<and>
      v w' = (v w)\<lparr>nor_content := patch (unat off) buf (nor_content (v w))\<rparr>"
proof (induction n arbitrary: w buf off)
  case 0
  then show ?case by simp
next
  case (Suc n)
  have len: "length (take 256 buf) = 256" using Suc.prems by simp
  then obtain w1 where w1: "flash_poll hw (flash_command hw (FLASH_CMD_PP # addr_bytes off @ take 256 buf)
      (flash_command hw [FLASH_CMD_WREN] w)) = Some w1"
    "v w1 = (v w)\<lparr>nor_content := nor_program (unat off) (take 256 buf) (nor_content (v w)), nor_wel := False\<rparr>"
    using flash_program [OF hw Suc.prems(1), of off "take 256 buf"] Suc.prems by fastforce
  have "nor_program (unat off) (take 256 buf) (nor_content (v w)) =
      patch (unat off) (take 256 buf) (nor_content (v w))"
    using Suc.prems by (intro nor_program_page len) auto
  with w1(2) Suc.prems(2) have v1:
    "v w1 = (v w)\<lparr>nor_content := patch (unat off) (take 256 buf) (nor_content (v w))\<rparr>" by simp
  have off: "unat (off + 256) = unat off + 256" using Suc.prems by (subst unat_add32) auto
  have "\<exists>w'. write_pages hw n (drop 256 buf) (off + 256) w1 = Some w' \<and>
      v w' = (v w1)\<lparr>nor_content := patch (unat (off + 256)) (drop 256 buf) (nor_content (v w1))\<rparr>"
  proof (rule Suc.IH)
    show "\<forall>a. unat (off + 256) \<le> a \<and> a < unat (off + 256) + 256 * n \<longrightarrow> nor_content (v w1) a = 0xFF"
      using Suc.prems len v1 off by (auto simp: patch_def)
  qed (use Suc.prems v1 off in \<open>auto simp: nor_idle_def mod_add_left_eq\<close>)
  then obtain w' where "write_pages hw n (drop 256 buf) (off + 256) w1 = Some w'"
    "v w' = (v w1)\<lparr>nor_content := patch (unat off + 256) (drop 256 buf) (nor_content (v w1))\<rparr>"
    using off by auto
  moreover have "patch (unat off) buf f = patch (unat off + 256) (drop 256 buf) (patch (unat off) (take 256 buf) f)" for f
    using patch_append [of "unat off" "take 256 buf" "drop 256 buf" f] len by simp
  ultimately show ?case using w1(1) v1 by simp
qed

section \<open>The device as one array of bytes\<close>

text \<open>
  The invariant of the driver: the chip is idle with writing disabled, and a write buffer holds
  one whole, aligned sector of the chip.
\<close>

definition flash_inv :: "('w \<Rightarrow> nor) \<Rightarrow> 'w flash_dev \<Rightarrow> bool" where
  "flash_inv v dev \<longleftrightarrow>
     nor_idle (v (fl_hw dev)) \<and> \<not> nor_wel (v (fl_hw dev)) \<and> length (fl_list dev) = MAX_FLASH_FDS \<and>
     (\<forall>buf. fl_writebuf dev = Some buf \<longrightarrow>
        length buf = WRITE_SECTOR_SIZE \<and> unat (fl_blk_offset dev) mod WRITE_SECTOR_SIZE = 0 \<and>
        fl_blk_end dev = fl_blk_offset dev + 4096 \<and>
        unat (fl_blk_offset dev) + WRITE_SECTOR_SIZE \<le> 16777216)"

text \<open>What a reader of the device sees: the buffer over the contents of the chip.\<close>

definition flash_view :: "('w \<Rightarrow> nor) \<Rightarrow> 'w flash_dev \<Rightarrow> nat \<Rightarrow> byte" where
  "flash_view v dev =
     (case fl_writebuf dev of
        None \<Rightarrow> nor_content (v (fl_hw dev))
      | Some buf \<Rightarrow> patch (unat (fl_blk_offset dev)) buf (nor_content (v (fl_hw dev))))"

lemma flash_view_list [simp]: "flash_view v (dev\<lparr>fl_list := l\<rparr>) = flash_view v dev"
  by (simp add: flash_view_def split: option.splits)

lemma flash_inv_list [simp]:
  "length l = MAX_FLASH_FDS \<Longrightarrow> flash_inv v dev \<Longrightarrow> flash_inv v (dev\<lparr>fl_list := l\<rparr>)"
  by (simp add: flash_inv_def)

lemma flash_inv_length [simp]: "flash_inv v dev \<Longrightarrow> length (fl_list dev) = MAX_FLASH_FDS"
  by (simp add: flash_inv_def)

lemma patch_erased:
  assumes "p mod 4096 = 0" and "length bs = 4096"
  shows "patch p bs (nor_erase p C) = patch p bs C"
proof
  fix a
  have "\<not> (p \<le> a \<and> a < p + 4096) \<Longrightarrow> a div 4096 \<noteq> p div 4096"
    using div_eq_aligned [OF assms(1), of a] by simp
  then show "patch p bs (nor_erase p C) a = patch p bs C a"
    using assms by (auto simp: patch_def nor_erase_def)
qed

lemma spiflash_writebuffer_view:
  assumes hw: "nor_flash hw v" and inv: "flash_inv v dev" and buf: "fl_writebuf dev = Some buf"
  shows "\<exists>dev'. spiflash_writebuffer hw dev = Inr dev' \<and> flash_inv v dev' \<and>
    fl_writebuf dev' = None \<and> nor_content (v (fl_hw dev')) = flash_view v dev \<and>
    fl_list dev' = fl_list dev"
proof -
  let ?off = "fl_blk_offset dev" and ?w = "hw_select hw (fl_hw dev)"
  let ?C = "nor_content (v (fl_hw dev))"
  have i: "nor_idle (v (fl_hw dev))" "\<not> nor_wel (v (fl_hw dev))" "length buf = 4096"
    "unat ?off mod 4096 = 0" "unat ?off + 4096 \<le> 16777216"
    using inv buf by (auto simp: flash_inv_def)
  have sel: "v ?w = v (fl_hw dev)" by (rule nor_flashD(1) [OF hw])
  then obtain w3 where w3: "flash_poll hw (flash_command hw (FLASH_CMD_SE # addr_bytes ?off)
      (flash_command hw [FLASH_CMD_WREN] ?w)) = Some w3"
    "v w3 = (v (fl_hw dev))\<lparr>nor_content := nor_erase (unat ?off) ?C\<rparr>"
    using flash_erase [OF hw, of ?w ?off] i by auto
  have "\<exists>w4. write_pages hw 16 buf ?off w3 = Some w4 \<and>
      v w4 = (v w3)\<lparr>nor_content := patch (unat ?off) buf (nor_content (v w3))\<rparr>"
  proof (rule write_pages_patch [OF hw])
    show "unat ?off mod 256 = 0" using mod_mod_cancel [of 256 4096 "unat ?off"] i(4) by simp
    show "\<forall>a. unat ?off \<le> a \<and> a < unat ?off + 256 * 16 \<longrightarrow> nor_content (v w3) a = 0xFF"
    proof (intro allI impI)
      fix a assume "unat ?off \<le> a \<and> a < unat ?off + 256 * 16"
      then have "a div 4096 = unat ?off div 4096" using div_eq_aligned [OF i(4), of a] by simp
      then show "nor_content (v w3) a = 0xFF" using w3(2) by (simp add: nor_erase_def)
    qed
  qed (use w3(2) i in \<open>auto simp: nor_idle_def\<close>)
  then obtain w4 where w4: "write_pages hw 16 buf ?off w3 = Some w4"
    "v w4 = (v (fl_hw dev))\<lparr>nor_content := patch (unat ?off) buf ?C\<rparr>"
    using w3(2) patch_erased [OF i(4,3), of ?C] by auto
  obtain d where "v (hw_inactive hw w4) = nor_deselect d (v w4)" using nor_flashD(5) [OF hw] by blast
  then have "v (hw_kfree hw (hw_inactive hw w4)) = v w4"
    using w4(2) i by (simp add: nor_flashD(8) [OF hw] nor_deselect_def nor_idle_def)
  then show ?thesis
    using w3(1) w4 i inv buf
    by (simp add: spiflash_writebuffer_def flash_view_def flash_inv_def nor_idle_def)
qed

lemma and_not_mask: "x AND NOT (mask n) = push_bit n (drop_bit n (x :: 'a::len word))"
  by (rule bit_word_eqI) (auto simp: bit_simps)

lemma sector_offset: "unat (p AND WRITE_OFFSET_MASK) = 4096 * (unat p div 4096)"
proof -
  have "WRITE_OFFSET_MASK = NOT (mask 12)" by (simp add: mask_eq_exp_minus_1 not_eq_complement)
  then have "unat (p AND WRITE_OFFSET_MASK) = unat (push_bit 12 (drop_bit 12 p))"
    by (simp only: and_not_mask)
  also have "\<dots> = take_bit 32 (push_bit 12 (unat (drop_bit 12 p)))"
    by (simp only: unsigned_push_bit_eq) simp
  also have "\<dots> = (4096 * (unat p div 4096)) mod 4294967296"
    by (simp only: unat_drop_bit_eq) (simp add: drop_bit_eq_div push_bit_eq_mult take_bit_eq_mod mult.commute)
  also have "\<dots> = 4096 * (unat p div 4096)"
    using unat_lt32 [of p] times_div_less_eq_dividend [of 4096 "unat p"]
    by (intro mod_less) linarith
  finally show ?thesis .
qed

lemma sector_index: "unat (p AND WRITE_FILEPTR_OFFSET_MASK) = unat p mod 4096"
proof -
  have "p AND WRITE_FILEPTR_OFFSET_MASK = take_bit 12 p"
    by (simp add: take_bit_eq_mask mask_eq_exp_minus_1)
  then show ?thesis by (simp only: unsigned_take_bit_eq) (simp add: take_bit_eq_mod)
qed

lemma patch_within:
  assumes "k + length bs \<le> length buf"
  shows "patch p (take k buf @ bs @ drop (k + length bs) buf) f = patch (p + k) bs (patch p buf f)"
  using assms by (auto simp: patch_def nth_append fun_eq_iff)

lemma patch_self [simp]: "patch p (map (\<lambda>i. f (p + i)) [0..<n]) f = f"
  by (auto simp: patch_def fun_eq_iff)

text \<open>Loading a sector changes nothing that a reader can see.\<close>

text \<open>The allocator can run out of memory for the write buffer.\<close>

definition no_memory :: "'w flash_hw \<Rightarrow> bool" where
  "no_memory hw \<longleftrightarrow> (\<exists>w. fst (hw_kmalloc hw WRITE_SECTOR_SIZE w) = None)"

lemma spiflash_load_sector_view:
  assumes hw: "nor_flash hw v" and inv: "flash_inv v dev" and none: "fl_writebuf dev = None"
    and p: "unat (fileptr i dev) < 16777216"
  shows "\<exists>rc dev'. spiflash_load_sector hw i dev = Inr (rc, dev') \<and> flash_inv v dev' \<and>
    flash_view v dev' = flash_view v dev \<and> fl_list dev' = fl_list dev \<and>
    (rc = - ENOMEM \<and> no_memory hw \<or> rc = 0 \<and> fl_writebuf dev' \<noteq> None \<and>
       fl_blk_offset dev' = fileptr i dev AND WRITE_OFFSET_MASK)"
proof -
  let ?off = "fileptr i dev AND WRITE_OFFSET_MASK"
  obtain mb w where m: "hw_kmalloc hw 4096 (fl_hw dev) = (mb, w)" by fastforce
  then have v: "v w = v (fl_hw dev)" using nor_flashD(6) [OF hw, of 4096 "fl_hw dev"] by simp
  have i: "nor_idle (v w)" "\<not> nor_wel (v w)" using inv v by (auto simp: flash_inv_def)
  have off: "unat ?off = 4096 * (unat (fileptr i dev) div 4096)" by (rule sector_offset)
  have lim: "unat ?off + 4096 \<le> 16777216"
    using p off less_mult_imp_div_less [of "unat (fileptr i dev)" 4096 4096] by simp
  obtain w' where w': "flash_memcpy hw ?off 4096 w = Inr (map (\<lambda>i. nor_content (v w) (unat ?off + i)) [0..<4096], w')"
    "v w' = v w"
    using flash_memcpy_read [OF hw i lim] by auto
  show ?thesis
  proof (cases mb)
    case None
    then have "no_memory hw" using m unfolding no_memory_def by (metis fst_conv)
    then show ?thesis using None m v inv none
      by (simp add: spiflash_load_sector_def flash_inv_def flash_view_def)
  next
    case (Some blk)
    then show ?thesis using m v inv none w' lim
      by (simp add: spiflash_load_sector_def flash_inv_def flash_view_def sector_offset Let_def)
  qed
qed

text \<open>The first part of a sector write: afterwards the buffer holds the sector of the pointer.\<close>

definition ensure_sector :: "'w flash_hw \<Rightarrow> nat \<Rightarrow> u32 \<Rightarrow> 'w flash_dev \<Rightarrow> fault + (int \<times> 'w flash_dev)" where
  "ensure_sector hw i end_addr dev =
     (if fl_writebuf dev = None then spiflash_load_sector hw i dev
      else if end_addr > fl_blk_end dev \<or> fileptr i dev < fl_blk_offset dev
      then bindE (spiflash_writebuffer hw dev) (spiflash_load_sector hw i)
      else Inr (0, dev))"

lemma flash_inv_buf:
  assumes "flash_inv v dev" and "fl_writebuf dev = Some buf"
  shows "length buf = 4096" and "unat (fl_blk_offset dev) mod 4096 = 0"
    and "unat (fl_blk_end dev) = unat (fl_blk_offset dev) + 4096"
    and "unat (fl_blk_offset dev) + 4096 \<le> 16777216"
proof -
  show *: "length buf = 4096" "unat (fl_blk_offset dev) mod 4096 = 0"
    "unat (fl_blk_offset dev) + 4096 \<le> 16777216"
    using assms by (auto simp: flash_inv_def)
  have "fl_blk_end dev = fl_blk_offset dev + 4096" using assms by (simp add: flash_inv_def)
  then show "unat (fl_blk_end dev) = unat (fl_blk_offset dev) + 4096"
    using *(3) unat_add32 [of "fl_blk_offset dev" 4096] by simp
qed

lemma ensure_sector_view:
  assumes hw: "nor_flash hw v" and inv: "flash_inv v dev"
    and p: "unat (fileptr i dev) < unat end_addr" "unat end_addr \<le> 16777216"
  shows "\<exists>rc dev'. ensure_sector hw i end_addr dev = Inr (rc, dev') \<and> flash_inv v dev' \<and>
    flash_view v dev' = flash_view v dev \<and> fl_list dev' = fl_list dev \<and>
    (rc = - ENOMEM \<and> no_memory hw \<or> rc = 0 \<and> (\<exists>buf. fl_writebuf dev' = Some buf) \<and>
       unat (fl_blk_offset dev') \<le> unat (fileptr i dev) \<and>
       unat (fileptr i dev) < unat (fl_blk_offset dev') + 4096)"
proof -
  have load: "\<exists>rc dev'. spiflash_load_sector hw i d = Inr (rc, dev') \<and> flash_inv v dev' \<and>
      flash_view v dev' = flash_view v d \<and> fl_list dev' = fl_list d \<and>
      (rc = - ENOMEM \<and> no_memory hw \<or> rc = 0 \<and> (\<exists>buf. fl_writebuf dev' = Some buf) \<and>
         unat (fl_blk_offset dev') \<le> unat (fileptr i d) \<and>
         unat (fileptr i d) < unat (fl_blk_offset dev') + 4096)"
    if d: "flash_inv v d" "fl_writebuf d = None" "unat (fileptr i d) < 16777216" for d
    using spiflash_load_sector_view [OF hw d] dividend_less_times_div [of 4096 "unat (fileptr i d)"]
    by (auto simp: sector_offset)
  show ?thesis
  proof (cases "fl_writebuf dev")
    case None
    then show ?thesis using load [of dev] inv p by (simp add: ensure_sector_def)
  next
    case (Some buf)
    show ?thesis
    proof (cases "end_addr > fl_blk_end dev \<or> fileptr i dev < fl_blk_offset dev")
      case True
      obtain d where d: "spiflash_writebuffer hw dev = Inr d" "flash_inv v d" "fl_writebuf d = None"
        "nor_content (v (fl_hw d)) = flash_view v dev" "fl_list d = fl_list dev"
        using spiflash_writebuffer_view [OF hw inv Some] by blast
      then have "flash_view v d = flash_view v dev" by (simp add: flash_view_def)
      then show ?thesis using load [of d] d p True Some by (simp add: ensure_sector_def)
    next
      case False
      then show ?thesis using Some inv p flash_inv_buf [OF inv Some]
        by (auto simp: ensure_sector_def word_less_nat_alt)
    qed
  qed
qed

text \<open>One step of a write patches the bytes it takes into the array.\<close>

lemma spiflash_write_to_sector_view:
  assumes hw: "nor_flash hw v" and inv: "flash_inv v dev" and buf: "buf \<noteq> []"
    and p: "unat (fileptr i dev) + length buf \<le> 16777216"
  shows "\<exists>rc dev'. spiflash_write_to_sector hw i buf dev = Inr (rc, dev') \<and> flash_inv v dev' \<and>
    fl_list dev' = fl_list dev \<and>
    (rc = - ENOMEM \<and> no_memory hw \<and> flash_view v dev' = flash_view v dev \<or>
     (\<exists>n. rc = int n \<and> 0 < n \<and> n \<le> length buf \<and>
       flash_view v dev' = patch (unat (fileptr i dev)) (take n buf) (flash_view v dev)))"
proof -
  let ?p = "fileptr i dev" and ?len = "of_nat (length buf) :: u32"
  have len: "unat ?len = length buf" using p by simp
  have e: "unat (?len + ?p) = unat ?p + length buf" using p len by (subst unat_add32) auto
  obtain rc d where d: "ensure_sector hw i (?len + ?p) dev = Inr (rc, d)" "flash_inv v d"
    "flash_view v d = flash_view v dev" "fl_list d = fl_list dev"
    "rc = - ENOMEM \<and> no_memory hw \<or> rc = 0 \<and> (\<exists>wb. fl_writebuf d = Some wb) \<and>
       unat (fl_blk_offset d) \<le> unat ?p \<and> unat ?p < unat (fl_blk_offset d) + 4096"
    using ensure_sector_view [OF hw inv, of i "?len + ?p"] e p buf by auto
  show ?thesis
  proof (cases "rc = - ENOMEM")
    case True
    then show ?thesis using d
      by (simp add: spiflash_write_to_sector_def ensure_sector_def [symmetric] Let_def)
  next
    case False
    then obtain wb where rc: "rc = 0" and wb: "fl_writebuf d = Some wb"
      and blk: "unat (fl_blk_offset d) \<le> unat ?p" "unat ?p < unat (fl_blk_offset d) + 4096"
      using d(5) by auto
    note b = flash_inv_buf [OF d(2) wb]
    define n where "n = min (length buf) (unat (fl_blk_end d) - unat ?p)"
    define at where "at = unat (?p AND WRITE_FILEPTR_OFFSET_MASK)"
    have at: "at = unat ?p - unat (fl_blk_offset d)"
    proof -
      have "unat ?p = unat (fl_blk_offset d) + (unat ?p - unat (fl_blk_offset d))" using blk by simp
      then have "unat ?p mod 4096 = (unat ?p - unat (fl_blk_offset d)) mod 4096"
        using b(2) by (metis add_0 mod_add_left_eq)
      then show ?thesis using blk by (simp add: at_def sector_index)
    qed
    define c where "c = (if ?len + ?p > fl_blk_end d then fl_blk_end d - ?p else ?len)"
    have c: "unat c = n"
      using b(3) blk len e by (auto simp: c_def n_def word_less_nat_alt unat_sub_if_size word_size)
    have n: "0 < n" "n \<le> length buf" "n \<le> 4096" "at + n \<le> length wb"
      using buf blk b(1,3) at by (auto simp: n_def)
    have sc: "sint c = int n"
      using c n(3) sint_small [of c] by simp
    define d2 where "d2 = d\<lparr>fl_writebuf := Some (take at wb @ take n buf @ drop (at + n) wb)\<rparr>"
    have d2: "flash_inv v d2" "flash_view v d2 = patch (unat ?p) (take n buf) (flash_view v dev)"
      using d(2,3) wb n blk at patch_within [of at "take n buf" wb "unat (fl_blk_offset d)"]
      by (auto simp: d2_def flash_inv_def flash_view_def)
    have eq: "spiflash_write_to_sector hw i buf dev =
        bindE (if ?len + ?p \<ge> fl_blk_end d2 then spiflash_writebuffer hw d2 else Inr d2)
          (\<lambda>d3. Inr (int n, d3))"
      using d(1,4) rc wb n c [unfolded c_def] sc [unfolded c_def]
      by (cases "?len + ?p > fl_blk_end d")
        (simp_all add: spiflash_write_to_sector_def ensure_sector_def [symmetric] Let_def
          at_def [symmetric] writebuf_copy_def d2_def)
    have "\<exists>d3. (if ?len + ?p \<ge> fl_blk_end d2 then spiflash_writebuffer hw d2 else Inr d2) = Inr d3 \<and>
        flash_inv v d3 \<and> flash_view v d3 = flash_view v d2 \<and> fl_list d3 = fl_list dev"
      using spiflash_writebuffer_view [OF hw d2(1)] d2 d(4) by (fastforce simp: d2_def flash_view_def)
    then show ?thesis using eq d2(2) n by auto
  qed
qed

text \<open>The loop of a write ends, and what it wrote is what a reader sees.\<close>

lemma spiflash_write_loop_view:
  assumes hw: "nor_flash hw v" and i: "i < MAX_FLASH_FDS"
  shows "flash_inv v dev \<Longrightarrow> buf \<noteq> [] \<Longrightarrow> unat (fileptr i dev) + length buf \<le> 16777216 \<Longrightarrow>
    \<exists>rc dev' n. spiflash_write_loop hw i buf dev = Some (Inr (rc, dev')) \<and> flash_inv v dev' \<and>
      n \<le> length buf \<and> flash_view v dev' = patch (unat (fileptr i dev)) (take n buf) (flash_view v dev) \<and>
      fl_list dev' = (fl_list dev)[i := (fl_list dev ! i)\<lparr>ofd_fileptr := fileptr i dev + of_nat n\<rparr>] \<and>
      (rc = - ENOMEM \<and> no_memory hw \<or> rc = 0 \<and> n = length buf)"
proof (induction "length buf" arbitrary: buf dev rule: less_induct)
  case less
  obtain rc d where d: "spiflash_write_to_sector hw i buf dev = Inr (rc, d)" "flash_inv v d"
    "fl_list d = fl_list dev"
    "rc = - ENOMEM \<and> no_memory hw \<and> flash_view v d = flash_view v dev \<or>
     (\<exists>n. rc = int n \<and> 0 < n \<and> n \<le> length buf \<and>
       flash_view v d = patch (unat (fileptr i dev)) (take n buf) (flash_view v dev))"
    using spiflash_write_to_sector_view [OF hw less.prems] by blast
  show ?case
  proof (cases "rc = - ENOMEM")
    case True
    then show ?thesis using d
      by (subst spiflash_write_loop.simps) (auto intro!: exI [of _ 0])
  next
    case False
    then obtain n where n: "rc = int n" "0 < n" "n \<le> length buf"
      "flash_view v d = patch (unat (fileptr i dev)) (take n buf) (flash_view v dev)"
      using d(4) by auto
    let ?d = "set_fileptr i (fileptr i d + of_nat n) d"
    have fp: "fileptr i ?d = fileptr i dev + of_nat n" and inv: "flash_inv v ?d"
      and view: "flash_view v ?d = flash_view v d"
      using d(2,3) i flash_inv_length [OF d(2)] by (auto simp: set_fileptr_def)
    have u: "unat (fileptr i ?d) = unat (fileptr i dev) + n"
      using fp n(3) less.prems(3) by (simp add: unat_add32)
    show ?thesis
    proof (cases "drop n buf = []")
      case True
      then have "n = length buf" using n(3) by simp
      then show ?thesis using d n i view inv
        by (subst spiflash_write_loop.simps) (auto intro!: exI [of _ n] simp: Let_def set_fileptr_def)
    next
      case False
      obtain rc' d' k where k: "spiflash_write_loop hw i (drop n buf) ?d = Some (Inr (rc', d'))" "flash_inv v d'"
        "k \<le> length (drop n buf)"
        "flash_view v d' = patch (unat (fileptr i ?d)) (take k (drop n buf)) (flash_view v ?d)"
        "fl_list d' = (fl_list ?d)[i := (fl_list ?d ! i)\<lparr>ofd_fileptr := fileptr i ?d + of_nat k\<rparr>]"
        "rc' = - ENOMEM \<and> no_memory hw \<or> rc' = 0 \<and> k = length (drop n buf)"
        using less.hyps [of "drop n buf" ?d] False n(2,3) less.prems(2,3) inv u by auto
      have "flash_view v d' = patch (unat (fileptr i dev)) (take (n + k) buf) (flash_view v dev)"
        using k(4) n(3,4) u view patch_append [of "unat (fileptr i dev)" "take n buf" "take k (drop n buf)"]
        by (simp add: take_add)
      then show ?thesis using d(1,3) n k fp i False flash_inv_length [OF less.prems(1)]
        by (subst spiflash_write_loop.simps)
          (auto intro!: exI [of _ "n + k"] simp: Let_def set_fileptr_def add.assoc)
    qed
  qed
qed

lemma get_fd_Some:
  "get_fd fd l = Some i \<Longrightarrow> i < MAX_FLASH_FDS \<and> ofd_fd (l ! i) = fd"
  by (simp add: get_fd_def for_find_Some)

lemma spiflash_sync_view:
  assumes hw: "nor_flash hw v" and inv: "flash_inv v dev"
  shows "\<exists>dev'. spiflash_sync hw dev = Inr dev' \<and> flash_inv v dev' \<and> fl_writebuf dev' = None \<and>
    nor_content (v (fl_hw dev')) = flash_view v dev \<and> fl_list dev' = fl_list dev"
  using spiflash_writebuffer_view [OF hw inv] inv
  by (cases "fl_writebuf dev") (auto simp: spiflash_sync_def flash_view_def)

lemma spiflash_write_view:
  assumes hw: "nor_flash hw v" and inv: "flash_inv v dev" and fd: "get_fd fd (fl_list dev) = Some i"
    and buf: "buf \<noteq> []" and p: "unat (fileptr i dev) + length buf \<le> 16777216"
  shows "\<exists>rc dev' n. spiflash_write hw fd buf dev = Inr (rc, dev') \<and> flash_inv v dev' \<and>
    n \<le> length buf \<and> flash_view v dev' = patch (unat (fileptr i dev)) (take n buf) (flash_view v dev) \<and>
    fl_list dev' = (fl_list dev)[i := (fl_list dev ! i)\<lparr>ofd_fileptr := fileptr i dev + of_nat n\<rparr>] \<and>
    (rc = - ENOMEM \<and> no_memory hw \<or> rc = int (length buf) \<and> n = length buf)"
proof -
  have "sint (of_nat (length buf) :: u32) = int (length buf)"
    using p by (subst sint_small) auto
  then show ?thesis
    using spiflash_write_loop_view [OF hw _ inv buf p] get_fd_Some [OF fd] fd
    by (fastforce simp: spiflash_write_def)
qed

lemma spiflash_read_view:
  assumes hw: "nor_flash hw v" and inv: "flash_inv v dev" and fd: "get_fd fd (fl_list dev) = Some i"
    and n: "4 \<le> unat count" and p: "unat (fileptr i dev) + unat count \<le> 16777216"
  shows "\<exists>dev'. spiflash_read hw fd count dev =
      Inr (int (unat count), map (\<lambda>k. flash_view v dev (unat (fileptr i dev) + k)) [0..<unat count], dev') \<and>
    flash_inv v dev' \<and> flash_view v dev' = flash_view v dev \<and> fl_writebuf dev' = None \<and>
    fl_list dev' = (fl_list dev)[i := (fl_list dev ! i)\<lparr>ofd_fileptr := fileptr i dev + count\<rparr>]"
proof -
  obtain d where d: "spiflash_sync hw dev = Inr d" "flash_inv v d" "fl_writebuf d = None"
    "nor_content (v (fl_hw d)) = flash_view v dev" "fl_list d = fl_list dev"
    using spiflash_sync_view [OF hw inv] by blast
  then have i: "nor_idle (v (fl_hw d))" "\<not> nor_wel (v (fl_hw d))" by (auto simp: flash_inv_def)
  have sc: "sint count = int (unat count)" using p by (subst sint_small) auto
  obtain w where w: "flash_memcpy hw (fileptr i d) (unat count) (fl_hw d) =
      Inr (map (\<lambda>k. nor_content (v (fl_hw d)) (unat (fileptr i d) + k)) [0..<unat count], w)"
    "v w = v (fl_hw d)"
    using flash_memcpy_read [OF hw i, of "fileptr i d" "unat count"] p n d(5) by auto
  have e: "spiflash_read hw fd count dev =
      Inr (int (unat count), map (\<lambda>k. flash_view v dev (unat (fileptr i dev) + k)) [0..<unat count],
           set_fileptr i (fileptr i dev + count) (d\<lparr>fl_hw := w\<rparr>))"
    using fd d w(1) sc by (simp add: spiflash_read_def)
  have "flash_inv v (d\<lparr>fl_hw := w\<rparr>)" "flash_view v (d\<lparr>fl_hw := w\<rparr>) = flash_view v dev"
    using d w(2) by (auto simp: flash_inv_def flash_view_def)
  then show ?thesis unfolding e using d(3,5) inv by (simp add: set_fileptr_def)
qed

text \<open>The list of open descriptors is a pool of four slots.\<close>

definition ofds_used :: "OpenFD list \<Rightarrow> nat set" where
  "ofds_used l = {i. i < length l \<and> ofd_fd (l ! i) \<noteq> 0}"

lemma ofds_used_update:
  "i < length l \<Longrightarrow>
   ofds_used (l[i := e]) = (if ofd_fd e = 0 then ofds_used l - {i} else insert i (ofds_used l))"
  by (auto simp: ofds_used_def nth_list_update)

lemma flash_slot_pool:
  assumes "fd \<noteq> 0"
  shows "slot_pool (new_fd fd) release_fd ofds_used (\<lambda>l. length l = MAX_FLASH_FDS) MAX_FLASH_FDS"
proof
  fix t t' :: "OpenFD list" and i
  assume len: "length t = MAX_FLASH_FDS" and a: "new_fd fd t = Some (i, t')"
  have "i < 4 \<and> ofd_fd (t ! i) = 0 \<and> (\<forall>k < i. ofd_fd (t ! k) \<noteq> 0) \<and> t' = t[i := \<lparr>ofd_fd = fd, ofd_fileptr = 0\<rparr>]"
    using a by (auto simp: new_fd_def for_find_Some split: option.splits)
  then show "i \<notin> ofds_used t \<and> i < 4 \<and> {..<i} \<subseteq> ofds_used t \<and>
      ofds_used t' = insert i (ofds_used t) \<and> length t' = MAX_FLASH_FDS"
    using assms len by (auto simp: ofds_used_update ofds_used_def [of t])
next
  fix t :: "OpenFD list"
  assume "length t = MAX_FLASH_FDS"
  then show "new_fd fd t = None \<longleftrightarrow> ofds_used t = {..<4}"
    by (auto simp: new_fd_def option.case_eq_if for_find_None ofds_used_def)
qed (auto simp: ofds_used_def release_fd_def nth_list_update)

section \<open>Properties\<close>

text \<open>A chip that follows the command set, for the witnesses; every operation takes two status reads.\<close>

definition nor_chip :: "nor flash_hw" where
  "nor_chip = \<lparr>hw_select = id,
     hw_byte = (\<lambda>b c. (case nor_reply c of Some r \<Rightarrow> r | None \<Rightarrow> if nor_busy c = 0 then 0 else 1, nor_clock b c)),
     hw_inactive = nor_deselect 2,
     hw_kmalloc = (\<lambda>n c. (Some (replicate n 0), c)),
     hw_kfree = id\<rparr>"

lemma nor_chip_ok: "nor_flash nor_chip id"
proof -
  have "take 1 cmd = [0x05] \<Longrightarrow> nor_cmd c = cmd \<Longrightarrow> nor_reply c = None" for cmd :: "byte list" and c
    by (auto split: list.splits)
  then show ?thesis by (auto simp: nor_flash_def nor_chip_def simp del: nor_reply.simps)
qed

definition nor_dev :: "nor flash_dev" where
  "nor_dev = \<lparr>fl_list = [\<lparr>ofd_fd = 3, ofd_fileptr = 4094\<rparr>, \<lparr>ofd_fd = 0, ofd_fileptr = 0\<rparr>,
       \<lparr>ofd_fd = 0, ofd_fileptr = 0\<rparr>, \<lparr>ofd_fd = 0, ofd_fileptr = 0\<rparr>],
     fl_writebuf = None, fl_blk_offset = 0, fl_blk_end = 0,
     fl_hw = \<lparr>nor_content = (\<lambda>a. 0x55), nor_wel = False, nor_cmd = [], nor_busy = 0\<rparr>\<rparr>"

lemma nor_chip_memory: "\<not> no_memory nor_chip"
  by (simp add: no_memory_def nor_chip_def)

lemma nor_dev_inv: "flash_inv id nor_dev"
  by (simp add: flash_inv_def nor_dev_def nor_idle_def)

lemma nor_dev_fd: "get_fd 3 (fl_list nor_dev) = Some 0"
  by (simp add: get_fd_def nor_dev_def for_find.simps)

text \<open>C1: A write to the flash device ends on every chip that follows the NOR command set. It
  returns either the whole count or, only if no memory was left for its buffer, \<open>-ENOMEM\<close>; what it has written by then is exactly a prefix of
  the caller's bytes at the file pointer, every other byte of the device reads as before whatever
  sectors were erased and reprogrammed on the way, and the file pointer has moved past it.\<close>

theorem spiflash_write_correct:
  assumes "nor_flash hw v" and "flash_inv v dev" and "get_fd fd (fl_list dev) = Some i"
    and "buf \<noteq> []" and "unat (fileptr i dev) + length buf \<le> 16777216"
  shows "\<exists>rc dev' n. spiflash_write hw fd buf dev = Inr (rc, dev') \<and> flash_inv v dev' \<and>
    n \<le> length buf \<and> flash_view v dev' = patch (unat (fileptr i dev)) (take n buf) (flash_view v dev) \<and>
    fileptr i dev' = fileptr i dev + of_nat n \<and>
    (rc = - ENOMEM \<and> no_memory hw \<or> rc = int (length buf) \<and> n = length buf)"
proof -
  have "i < length (fl_list dev)" using get_fd_Some [OF assms(3)] assms(2) by simp
  then show ?thesis using spiflash_write_view [OF assms] by fastforce
qed

theorem spiflash_write_correct_witness:
  "\<exists>dev'. spiflash_write nor_chip 3 [1, 2, 3, 4] nor_dev = Inr (4, dev') \<and> flash_inv id dev' \<and>
    flash_view id dev' = patch 4094 [1, 2, 3, 4] (flash_view id nor_dev)"
  using spiflash_write_correct [OF nor_chip_ok nor_dev_inv nor_dev_fd, of "[1, 2, 3, 4]"] nor_chip_memory
  by (auto simp: nor_dev_def)

text \<open>C8: What was written is read back: unless the write ran out of memory for its buffer, a seek
  back to where it began and a read of the same length return the caller's bytes, across sector
  boundaries and whether or not they are still in the write buffer.\<close>

theorem spiflash_write_read:
  assumes "nor_flash hw v" and "flash_inv v dev" and "get_fd fd (fl_list dev) = Some i"
    and "4 \<le> length buf" and "unat (fileptr i dev) + length buf \<le> 16777216"
  shows "\<exists>rc dev1. spiflash_write hw fd buf dev = Inr (rc, dev1) \<and>
    (rc = - ENOMEM \<and> no_memory hw \<or> rc = int (length buf) \<and> (\<exists>dev3.
       spiflash_read hw fd (of_nat (length buf)) (snd (spiflash_lseek fd (fileptr i dev) SEEK_SET dev1)) =
         Inr (int (length buf), buf, dev3)))"
proof -
  let ?p = "fileptr i dev" and ?len = "of_nat (length buf) :: u32"
  have i: "i < MAX_FLASH_FDS" using get_fd_Some [OF assms(3)] by auto
  have buf: "buf \<noteq> []" using assms(4) by auto
  have fds: "get_fd fd (l[i := (l ! i)\<lparr>ofd_fileptr := q\<rparr>]) = get_fd fd l" if "length l = 4" for l q
    unfolding get_fd_def using that i
    by (intro arg_cong [where f = "\<lambda>P. for_find P 0 MAX_FLASH_FDS"]) (auto simp: nth_list_update fun_eq_iff)
  have len: "unat ?len = length buf" using assms(5) by simp
  obtain rc d1 n where w: "spiflash_write hw fd buf dev = Inr (rc, d1)" "flash_inv v d1"
      "flash_view v d1 = patch (unat ?p) (take n buf) (flash_view v dev)"
      "fl_list d1 = (fl_list dev)[i := (fl_list dev ! i)\<lparr>ofd_fileptr := ?p + of_nat n\<rparr>]"
      "rc = - ENOMEM \<and> no_memory hw \<or> rc = int (length buf) \<and> n = length buf"
    using spiflash_write_view [OF assms(1-3) buf assms(5)] by blast
  have g1: "get_fd fd (fl_list d1) = Some i" using w(4) fds assms(2,3) by simp
  define d2 where "d2 = set_fileptr i ?p d1"
  have d2: "snd (spiflash_lseek fd ?p SEEK_SET d1) = d2" "get_fd fd (fl_list d2) = Some i"
      "fileptr i d2 = ?p" "flash_inv v d2" "flash_view v d2 = flash_view v d1"
    using g1 w(2) fds i by (auto simp: set_fileptr_def spiflash_lseek_def d2_def)
  obtain d3 where r: "spiflash_read hw fd ?len d2 =
      Inr (int (length buf), map (\<lambda>k. flash_view v d2 (unat ?p + k)) [0..<length buf], d3)"
    using spiflash_read_view [OF assms(1) d2(4,2), of ?len] assms(4,5) len d2(3) by auto
  have "n = length buf \<Longrightarrow> map (\<lambda>k. flash_view v d2 (unat ?p + k)) [0..<length buf] = buf"
    using d2(5) w(3) by (intro nth_equalityI) (auto simp: patch_def)
  then show ?thesis using w(1,5) d2(1) r by auto
qed

theorem spiflash_write_read_witness:
  "\<exists>dev1 dev3. spiflash_write nor_chip 3 [1, 2, 3, 4] nor_dev = Inr (4, dev1) \<and>
     spiflash_read nor_chip 3 4 (snd (spiflash_lseek 3 4094 SEEK_SET dev1)) = Inr (4, [1, 2, 3, 4], dev3)"
  using spiflash_write_read [OF nor_chip_ok nor_dev_inv nor_dev_fd, of "[1, 2, 3, 4]"] nor_chip_memory
  by (auto simp: nor_dev_def)

text \<open>C17: Closing a flash descriptor makes every write durable: the close ends, reports success,
  the contents of the chip itself are what a reader of the device saw before, no write buffer
  remains, and the slot of the descriptor is free again.\<close>

theorem spiflash_close_durable:
  assumes "nor_flash hw v" and "flash_inv v dev" and "get_fd fd (fl_list dev) = Some i"
  shows "\<exists>dev'. spiflash_close hw fd dev = Inr (0, dev') \<and> flash_inv v dev' \<and>
    fl_writebuf dev' = None \<and> nor_content (v (fl_hw dev')) = flash_view v dev \<and>
    ofds_used (fl_list dev') = ofds_used (fl_list dev) - {i}"
proof -
  obtain d where d: "spiflash_sync hw dev = Inr d" "flash_inv v d" "fl_writebuf d = None"
    "nor_content (v (fl_hw d)) = flash_view v dev" "fl_list d = fl_list dev"
    using spiflash_sync_view [OF assms(1,2)] by blast
  have "i < length (fl_list dev)" using get_fd_Some [OF assms(3)] assms(2) by simp
  then show ?thesis
    using assms(2,3) d by (simp add: spiflash_close_def release_fd_def ofds_used_update)
qed

theorem spiflash_close_durable_witness:
  "\<exists>dev'. spiflash_close nor_chip 3 nor_dev = Inr (0, dev') \<and> flash_inv id dev' \<and>
    fl_writebuf dev' = None \<and> nor_content (id (fl_hw dev')) = flash_view id nor_dev \<and>
    ofds_used (fl_list dev') = ofds_used (fl_list nor_dev) - {0}"
  by (rule spiflash_close_durable [OF nor_chip_ok nor_dev_inv nor_dev_fd])

text \<open>A copy out of flash of fewer than four bytes runs away: the word counter of the
  assembly routine starts at zero and is decremented before it is tested. Reads of one to three
  bytes, and of none, from the flash device therefore never return.\<close>

theorem flash_memcpy_short:
  assumes "get_fd fd (fl_list dev) = Some i" and "fl_writebuf dev = None"
  shows "spiflash_read hw fd count dev = Inl Out_Of_Bounds \<longleftrightarrow> unat count < 4"
  using assms by (auto simp: spiflash_read_def spiflash_sync_def flash_memcpy_def split_beta Let_def
      div_eq_0_iff)

theorem flash_memcpy_short_witness:
  "(spiflash_read nor_chip 3 3 nor_dev = Inl Out_Of_Bounds) = (unat (3 :: u32) < 4)"
  by (rule flash_memcpy_short [OF nor_dev_fd]) (simp add: nor_dev_def)

end
