(* ===== verification/Console.thy ===== *)
theory Console
  imports FdTable "HOL-Library.Sublist"
begin

text \<open>
  The console device of system/console.c in both of its build variants, with the character
  output of system/serial_putc.S, and the LED device of system/rgbled.c. In the hardware-FIFO
  variant the UART supplies the bytes that have arrived and the bytes still to come; in the
  SOFTWARE\_FIFO variant the interrupt routine of system/console\_rx.S fills a 256-byte ring
  buffer that the reads empty. The theorems relate interactive reads to line editing on lists,
  and the ring buffer to a queue.
\<close>

section \<open>The UART and the console state\<close>

record console =
  con_control :: u32
  con_fifo :: "byte list"
  con_next :: "byte list"
  con_out :: "byte list"

abbreviation CONSOLE_RAW :: u32 where "CONSOLE_RAW \<equiv> 1"
abbreviation CONSOLE_CLR_RAW :: u32 where "CONSOLE_CLR_RAW \<equiv> 0xFFFE"
abbreviation CONSOLE_FLOW_XOFF :: u32 where "CONSOLE_FLOW_XOFF \<equiv> 2"
abbreviation CONSOLE_SET_CONTROL :: u32 where "CONSOLE_SET_CONTROL \<equiv> 0x01000000"
abbreviation CONSOLE_SET_RAW :: u32 where "CONSOLE_SET_RAW \<equiv> 0x02000000"
abbreviation CONSOLE_SET_INTERACTIVE :: u32 where "CONSOLE_SET_INTERACTIVE \<equiv> 0x03000000"
abbreviation CONSOLE_DISCARD_RXBUF :: u32 where "CONSOLE_DISCARD_RXBUF \<equiv> 0x10000000"
abbreviation FLOW_XOFF :: byte where "FLOW_XOFF \<equiv> 0x13"
abbreviation FLOW_XON :: byte where "FLOW_XON \<equiv> 0x11"

text \<open>Waiting for a received byte and taking it out of the FIFO.\<close>

definition uart_get :: "console \<Rightarrow> fault + (byte \<times> console)" where
  "uart_get c =
     (case con_fifo c of
        b # bs \<Rightarrow> Inr (b, c\<lparr>con_fifo := bs\<rparr>)
      | [] \<Rightarrow> (case con_next c of
          b # bs \<Rightarrow> Inr (b, c\<lparr>con_next := bs\<rparr>)
        | [] \<Rightarrow> Inl Blocks_Forever))"

definition uart_input :: "console \<Rightarrow> byte list" where
  "uart_input c = con_fifo c @ con_next c"

definition raw_putc :: "byte \<Rightarrow> console \<Rightarrow> console" where
  "raw_putc ch c = c\<lparr>con_out := con_out c @ [ch]\<rparr>"

definition serial_putc :: "byte \<Rightarrow> console \<Rightarrow> console" where
  "serial_putc ch c = (if ch = 10 then raw_putc 10 (raw_putc 13 c) else raw_putc ch c)"

lemma uart_get_input:
  "uart_get c = Inr (b, c') \<Longrightarrow> uart_input c = b # uart_input c' \<and> con_out c' = con_out c
     \<and> con_control c' = con_control c"
  by (auto simp: uart_get_def uart_input_def split: list.splits)

lemma uart_get_Cons:
  "uart_input c = b # bs \<Longrightarrow> \<exists>c'. uart_get c = Inr (b, c') \<and> uart_input c' = bs \<and>
     con_out c' = con_out c \<and> con_control c' = con_control c"
  by (auto simp: uart_get_def uart_input_def split: list.splits)

lemma uart_get_Nil: "uart_input c = [] \<Longrightarrow> uart_get c = Inl Blocks_Forever"
  by (simp add: uart_get_def uart_input_def)

lemma putc_input [simp]:
  "uart_input (raw_putc ch c) = uart_input c" "con_control (raw_putc ch c) = con_control c"
  "uart_input (serial_putc ch c) = uart_input c" "con_control (serial_putc ch c) = con_control c"
  by (simp_all add: raw_putc_def serial_putc_def uart_input_def)

section \<open>Operations\<close>

definition open_console :: "int \<times> fdclass option" where
  "open_console = (0, Some Cons_func)"

primrec console_read_raw :: "nat \<Rightarrow> nat \<Rightarrow> byte list \<Rightarrow> console \<Rightarrow> fault + (byte list \<times> console)" where
  "console_read_raw 0 i buf c = Inr (buf, c)"
| "console_read_raw (Suc n) i buf c =
     bindE (uart_get c) (\<lambda>(byte, c1). console_read_raw n (Suc i) (buf[i := byte]) c1)"

text \<open>
  The interactive loop: the space that is left, the index of \<open>bufptr\<close>, the caller's buffer. The
  index is also the number of bytes read.
\<close>

function console_read_interactive ::
  "nat \<Rightarrow> nat \<Rightarrow> byte list \<Rightarrow> console \<Rightarrow> fault + (nat \<times> byte list \<times> console)" where
  "console_read_interactive count i buf c =
     (if count = 0 then Inr (i, buf, c)
      else case uart_get c of
        Inl e \<Rightarrow> Inl e
      | Inr (byte, c1) \<Rightarrow>
          if byte = 0x0D then Inr (i, buf, serial_putc 0x0D (serial_putc 0x0A c1))
          else if byte = 127 \<or> byte = 8 then
            if 0 < i
            then console_read_interactive (Suc count) (i - 1) (buf[i - 1 := 0])
                   (serial_putc 8 (serial_putc 32 (serial_putc 8 c1)))
            else console_read_interactive count i buf (serial_putc 7 c1)
          else console_read_interactive (count - 1) (Suc i) (buf[i := byte]) (serial_putc byte c1))"
  by pat_completeness auto
termination
proof (relation "measure (\<lambda>(count, i, buf, c). length (uart_input c))", goal_cases)
  case 1
  then show ?case by simp
qed (auto dest!: uart_get_input sym [of _ "uart_get _"])

declare console_read_interactive.simps [simp del]

text \<open>A read fills the caller's buffer, which holds \<open>count\<close> bytes.\<close>

definition console_read :: "byte list \<Rightarrow> console \<Rightarrow> fault + (int \<times> byte list \<times> console)" where
  "console_read buf c =
     (if con_control c AND CONSOLE_RAW \<noteq> 0
      then bindE (console_read_raw (length buf) 0 buf c) (\<lambda>(buf1, c1). Inr (int (length buf), buf1, c1))
      else bindE (console_read_interactive (length buf) 0 buf c) (\<lambda>(n, buf1, c1). Inr (int n, buf1, c1)))"

definition console_peek :: "console \<Rightarrow> int" where
  "console_peek c = int (length (con_fifo c))"

primrec console_write_loop :: "byte list \<Rightarrow> console \<Rightarrow> console" where
  "console_write_loop [] c = c"
| "console_write_loop (b # bs) c =
     console_write_loop bs (if con_control c AND CONSOLE_RAW \<noteq> 0 then raw_putc b c else serial_putc b c)"

definition console_write :: "byte list \<Rightarrow> console \<Rightarrow> int \<times> console" where
  "console_write buf c = (int (length buf), console_write_loop buf c)"

text \<open>The mode of the console for \<open>fstat\<close>: a character device.\<close>

abbreviation S_IFCHR :: u32 where "S_IFCHR \<equiv> 0x2000"

definition console_fstat :: "int \<times> u32 \<times> u32" where
  "console_fstat = (0, S_IFCHR OR 0x1FF, 1)"

definition console_ioctl :: "u32 \<Rightarrow> console \<Rightarrow> int \<times> console" where
  "console_ioctl request c =
     (let req_id = request AND 0xFF000000 in
      if req_id = CONSOLE_SET_CONTROL then (0, c\<lparr>con_control := request AND 0xFFFF\<rparr>)
      else if req_id = CONSOLE_SET_RAW then (0, c\<lparr>con_control := con_control c OR CONSOLE_RAW\<rparr>)
      else if req_id = CONSOLE_SET_INTERACTIVE
      then (0, c\<lparr>con_control := con_control c AND CONSOLE_CLR_RAW\<rparr>)
      else (- EINVAL, c))"

section \<open>Line editing\<close>

text \<open>What the keys typed so far leave on the line: backspace removes the last character.\<close>

definition edit_key :: "byte list \<Rightarrow> byte \<Rightarrow> byte list" where
  "edit_key l k = (if k = 127 \<or> k = 8 then butlast l else l @ [k])"

definition edited :: "byte list \<Rightarrow> byte list" where
  "edited keys = foldl edit_key [] keys"

lemma interactive_keys:
  assumes "length buf = count + i" and "uart_input c = keys @ rest" and "0x0D \<notin> set keys"
    and "\<And>p. strict_prefix p keys \<Longrightarrow> length (foldl edit_key (take i buf) p) < length buf"
  shows "\<exists>c' i' buf'. console_read_interactive count i buf c =
      console_read_interactive (length buf - i') i' buf' c' \<and> uart_input c' = rest \<and>
      length buf' = length buf \<and> i' \<le> length buf \<and> take i' buf' = foldl edit_key (take i buf) keys \<and>
      con_control c' = con_control c"
  using assms
proof (induction keys arbitrary: count i buf c)
  case Nil
  then show ?case by (intro exI [of _ c] exI [of _ i] exI [of _ buf]) auto
next
  case (Cons k keys)
  have pos: "0 < count" using Cons.prems(1) Cons.prems(4) [of "[]"] by simp
  obtain c1 where c1: "uart_get c = Inr (k, c1)" "uart_input c1 = keys @ rest"
    "con_control c1 = con_control c"
    using uart_get_Cons [of c k "keys @ rest"] Cons.prems(2) by auto
  have k: "k \<noteq> 0x0D" using Cons.prems(3) by auto
  have pre: "length (foldl edit_key (edit_key (take i buf) k) p) < length buf" if "strict_prefix p keys" for p
    using Cons.prems(4) [of "k # p"] that by simp
  consider (del) "k = 127 \<or> k = 8" "0 < i" | (bell) "k = 127 \<or> k = 8" "i = 0"
    | (add) "k \<noteq> 127" "k \<noteq> 8" by blast
  then show ?case
  proof cases
    case del
    let ?b = "buf[i - 1 := 0]"
    have t2: "edit_key (take i buf) k = take (i - 1) buf"
      using del Cons.prems(1) by (simp add: edit_key_def butlast_take)
    then have t: "take (i - 1) ?b = edit_key (take i buf) k" by simp
    have "\<exists>c' i' buf'. console_read_interactive (Suc count) (i - 1) ?b
        (serial_putc 8 (serial_putc 32 (serial_putc 8 c1))) =
        console_read_interactive (length ?b - i') i' buf' c' \<and> uart_input c' = rest \<and>
        length buf' = length ?b \<and> i' \<le> length ?b \<and> take i' buf' = foldl edit_key (take (i - 1) ?b) keys \<and>
        con_control c' = con_control (serial_putc 8 (serial_putc 32 (serial_putc 8 c1)))"
      using Cons.prems(1,3) c1(2) pre [unfolded t2] del by (intro Cons.IH) auto
    then show ?thesis using del k pos c1 t
      by (subst console_read_interactive.simps) auto
  next
    case bell
    have t: "take i buf = edit_key (take i buf) k" using bell by (simp add: edit_key_def)
    have "\<exists>c' i' buf'. console_read_interactive count i buf (serial_putc 7 c1) =
        console_read_interactive (length buf - i') i' buf' c' \<and> uart_input c' = rest \<and>
        length buf' = length buf \<and> i' \<le> length buf \<and> take i' buf' = foldl edit_key (take i buf) keys \<and>
        con_control c' = con_control (serial_putc 7 c1)"
      using Cons.prems(1,3) c1(2) pre t by (intro Cons.IH) auto
    then show ?thesis using bell k pos c1 t
      by (subst console_read_interactive.simps) auto
  next
    case add
    let ?b = "buf[i := k]"
    have t: "take (Suc i) ?b = edit_key (take i buf) k"
      using add pos Cons.prems(1) by (simp add: edit_key_def take_Suc_conv_app_nth)
    have "\<exists>c' i' buf'. console_read_interactive (count - 1) (Suc i) ?b (serial_putc k c1) =
        console_read_interactive (length ?b - i') i' buf' c' \<and> uart_input c' = rest \<and>
        length buf' = length ?b \<and> i' \<le> length ?b \<and> take i' buf' = foldl edit_key (take (Suc i) ?b) keys \<and>
        con_control c' = con_control (serial_putc k c1)"
      using Cons.prems(1,3) c1(2) pre pos by (intro Cons.IH) (auto simp: t)
    then show ?thesis using add k pos c1 t
      by (subst console_read_interactive.simps) auto
  qed
qed

lemma console_read_raw_input:
  assumes "length bs = n" and "uart_input c = bs @ rest" and "i + n \<le> length buf"
  shows "\<exists>c'. console_read_raw n i buf c = Inr (take i buf @ bs @ drop (i + n) buf, c') \<and> uart_input c' = rest"
  using assms
proof (induction n arbitrary: bs i buf c)
  case 0
  then show ?case by simp
next
  case (Suc n)
  then obtain b bs' where bs: "bs = b # bs'" by (cases bs) auto
  then obtain c1 where c1: "uart_get c = Inr (b, c1)" "uart_input c1 = bs' @ rest"
    using uart_get_Cons [of c b "bs' @ rest"] Suc.prems(2) by auto
  have "take (Suc i) (buf[i := b]) = take i buf @ [b]"
    using Suc.prems(3) by (simp add: take_Suc_conv_app_nth)
  then show ?case
    using Suc.IH [of bs' c1 "Suc i" "buf[i := b]"] Suc.prems c1 bs by auto
qed

section \<open>The ring buffer of the SOFTWARE\_FIFO variant\<close>

text \<open>
  The variables shared by the interrupt routine and the reads: the buffer, the free-running
  indices, the count of completed lines and the control word.
\<close>

record ring =
  rb_buf :: "byte list"
  rb_bufindex :: u32
  rb_bufstart :: u32
  rb_cr_index :: u32
  rb_rx_count :: u32
  rb_control :: u32
  rb_out :: "byte list"

abbreviation FLOW_CONTROL_MAX :: u32 where "FLOW_CONTROL_MAX \<equiv> 250"

definition rb_putc :: "byte list \<Rightarrow> ring \<Rightarrow> ring" where
  "rb_putc bs r = r\<lparr>rb_out := rb_out r @ bs\<rparr>"

definition rb_slot :: "u32 \<Rightarrow> nat" where
  "rb_slot i = unat (i AND 0xFF)"

text \<open>The interrupt routine for one received byte.\<close>

definition console_rx :: "byte \<Rightarrow> ring \<Rightarrow> ring" where
  "console_rx b r =
     (let idx = rb_bufindex r; start = rb_bufstart r;
          full = (rb_slot (idx + 1) = rb_slot start);
          stored = r\<lparr>rb_bufindex := idx + 1, rb_buf := (rb_buf r)[rb_slot idx := b]\<rparr>;
          flow = (\<lambda>s. if rb_control s AND CONSOLE_FLOW_XOFF \<noteq> 0 then rb_putc [FLOW_XOFF] s else s)
      in if rb_control r AND CONSOLE_RAW \<noteq> 0
         then if full then flow r
              else if start + FLOW_CONTROL_MAX \<ge> idx + 1 then stored else flow stored
         else if b = 127
         then if idx = start then rb_putc [7] r else rb_putc [8] (r\<lparr>rb_bufindex := idx - 1\<rparr>)
         else if b = 0x0D
         then rb_putc [13, 10] (r\<lparr>rb_cr_index := of_nat (rb_slot idx), rb_rx_count := rb_rx_count r + 1\<rparr>)
         else if full then rb_putc [7] r
         else rb_putc [b] stored)"

text \<open>One round of the copying loops: the guard, the byte taken and the advanced start.\<close>

definition ring_take :: "ring \<Rightarrow> (byte \<times> ring) option" where
  "ring_take r =
     (if rb_bufstart r \<noteq> rb_bufindex r
      then Some (rb_buf r ! rb_slot (rb_bufstart r), r\<lparr>rb_bufstart := rb_bufstart r + 1\<rparr>)
      else None)"

text \<open>\<open>CONSOLE_DISCARD_RXBUF\<close>\<close>

definition ring_discard :: "ring \<Rightarrow> ring" where
  "ring_discard r = r\<lparr>rb_bufstart := rb_bufindex r\<rparr>"

definition ring_peek :: "ring \<Rightarrow> u32" where
  "ring_peek r = rb_bufindex r - rb_bufstart r"

text \<open>The queue the ring buffer stands for.\<close>

definition ring_queue :: "ring \<Rightarrow> byte list" where
  "ring_queue r = map (\<lambda>k. rb_buf r ! rb_slot (rb_bufstart r + of_nat k))
     [0..<unat (rb_bufindex r - rb_bufstart r)]"

definition ring_inv :: "ring \<Rightarrow> bool" where
  "ring_inv r \<longleftrightarrow> length (rb_buf r) = 256 \<and> unat (rb_bufindex r - rb_bufstart r) < 256"

lemma rb_slot_mod: "rb_slot i = unat i mod 256"
proof -
  have "i AND 0xFF = take_bit 8 i" by (simp add: take_bit_eq_mask mask_eq_exp_minus_1)
  then show ?thesis unfolding rb_slot_def
    by (simp only: unsigned_take_bit_eq) (simp add: take_bit_eq_mod)
qed

lemma rb_slot_lt [simp]: "rb_slot i < 256"
  by (simp add: rb_slot_mod)

lemma rb_slot_add: "rb_slot (i + of_nat k) = (rb_slot i + k) mod 256"
proof -
  have "unat (i + of_nat k) mod 256 = (unat i + k) mod 4294967296 mod 256"
    by (simp add: unat_word_ariths unsigned_of_nat take_bit_eq_mod mod_add_right_eq)
  also have "\<dots> = (unat i + k) mod 256" by (simp add: mod_mod_cancel)
  finally show ?thesis by (simp add: rb_slot_mod mod_add_left_eq)
qed

lemma rb_slot_inj:
  assumes "j < 256" and "k < 256" and "rb_slot (i + of_nat j) = rb_slot (i + of_nat k)"
  shows "j = k"
proof -
  have m: "x mod 256 = (if x < 256 then x else x - 256)" if "x < 512" for x :: nat
    using that by (simp add: mod_if)
  have "(rb_slot i + j) mod 256 = (rb_slot i + k) mod 256" using assms(3) by (simp add: rb_slot_add)
  then show ?thesis
    using assms(1,2) rb_slot_lt [of i] m [of "rb_slot i + j"] m [of "rb_slot i + k"]
    by (auto split: if_splits)
qed

section \<open>Bounded queues\<close>

text \<open>
  The contract between an interrupt routine that delivers bytes and a driver that takes them. Any
  interleaving of the two sides is a list of events. The locale \<open>fed_queue\<close> says what each byte does to the list
  of bytes that wait, and shows that an implementation and the list produce the same
  results on every interleaving; \<open>bounded_queue\<close> is the first-in first-out queue that drops what does not fit.
\<close>

datatype queue_event = Arrive byte | Take

primrec queue_run ::
  "(byte \<Rightarrow> 's \<Rightarrow> 's) \<Rightarrow> ('s \<Rightarrow> (byte \<times> 's) option) \<Rightarrow> queue_event list \<Rightarrow> 's \<Rightarrow> byte list \<times> 's" where
  "queue_run push pop [] s = ([], s)"
| "queue_run push pop (e # es) s =
     (case e of
        Arrive b \<Rightarrow> queue_run push pop es (push b s)
      | Take \<Rightarrow> (case pop s of
          None \<Rightarrow> queue_run push pop es s
        | Some (b, s') \<Rightarrow> let (bs, t) = queue_run push pop es s' in (b # bs, t)))"

definition list_push :: "nat \<Rightarrow> byte \<Rightarrow> byte list \<Rightarrow> byte list" where
  "list_push cap b q = (if length q < cap then q @ [b] else q)"

definition list_pop :: "byte list \<Rightarrow> (byte \<times> byte list) option" where
  "list_pop q = (case q of [] \<Rightarrow> None | b # bs \<Rightarrow> Some (b, bs))"

locale fed_queue =
  fixes push :: "byte \<Rightarrow> 's \<Rightarrow> 's"
    and pop :: "'s \<Rightarrow> (byte \<times> 's) option"
    and abs :: "'s \<Rightarrow> byte list"
    and inv :: "'s \<Rightarrow> bool"
    and feed :: "byte \<Rightarrow> byte list \<Rightarrow> byte list"
  assumes push_inv: "inv s \<Longrightarrow> inv (push b s)"
    and push_abs: "inv s \<Longrightarrow> abs (push b s) = feed b (abs s)"
    and pop_none: "inv s \<Longrightarrow> pop s = None \<longleftrightarrow> abs s = []"
    and pop_some: "inv s \<Longrightarrow> pop s = Some (b, s') \<Longrightarrow> abs s = b # abs s' \<and> inv s'"
begin

lemma run_refines:
  "inv s \<Longrightarrow> queue_run push pop es s = (bs, s') \<Longrightarrow>
   queue_run feed list_pop es (abs s) = (bs, abs s') \<and> inv s'"
proof (induction es arbitrary: s bs)
  case Nil
  then show ?case by simp
next
  case (Cons e es)
  show ?case
  proof (cases e)
    case (Arrive b)
    then show ?thesis
      using Cons.IH [OF push_inv [OF Cons.prems(1), of b]] Cons.prems push_abs [OF Cons.prems(1), of b]
      by simp
  next
    case Take
    show ?thesis
    proof (cases "pop s")
      case None
      then have "list_pop (abs s) = None" using pop_none [OF Cons.prems(1)] by (simp add: list_pop_def)
      then show ?thesis using None Take Cons by auto
    next
      case (Some p)
      then obtain b t where p: "pop s = Some (b, t)" by (cases p) auto
      then have t: "abs s = b # abs t" "inv t" using pop_some [OF Cons.prems(1)] by auto
      obtain cs where cs: "queue_run push pop es t = (cs, s')" "bs = b # cs"
        using Cons.prems(2) Take p by (auto simp: split_beta Let_def prod_eq_iff)
      show ?thesis using Cons.IH [OF t(2) cs(1)] cs(2) t(1) Take by (simp add: list_pop_def)
    qed
  qed
qed

end

locale bounded_queue = fed_queue push pop abs inv "list_push cap"
  for push :: "byte \<Rightarrow> 's \<Rightarrow> 's" and pop :: "'s \<Rightarrow> (byte \<times> 's) option" and abs :: "'s \<Rightarrow> byte list"
    and inv :: "'s \<Rightarrow> bool" and cap :: nat
begin

text \<open>The bytes taken, followed by those still queued, begin with what was queued at first.\<close>

lemma run_fifo:
  "inv s \<Longrightarrow> queue_run push pop es s = (bs, s') \<Longrightarrow> length (abs s) \<le> cap \<Longrightarrow>
   \<exists>ys. bs @ abs s' = abs s @ ys \<and> subseq ys [b. Arrive b \<leftarrow> es] \<and> length (abs s') \<le> cap"
proof (induction es arbitrary: s bs)
  case Nil
  then show ?case by auto
next
  case (Cons e es)
  show ?case
  proof (cases e)
    case (Arrive b)
    then obtain ys where "bs @ abs s' = abs (push b s) @ ys" "subseq ys [b. Arrive b \<leftarrow> es]" "length (abs s') \<le> cap"
      using Cons.IH [OF push_inv [OF Cons.prems(1)], of b] Cons.prems push_abs [OF Cons.prems(1), of b]
      by (auto simp: list_push_def split: if_splits)
    then show ?thesis using push_abs [OF Cons.prems(1), of b] Arrive
      by (auto simp: list_push_def split: if_splits)
  next
    case Take
    show ?thesis
    proof (cases "pop s")
      case None
      then show ?thesis using Cons Take by auto
    next
      case (Some p)
      then obtain b t where p: "pop s = Some (b, t)" by (cases p) auto
      then have t: "abs s = b # abs t" "inv t" using pop_some [OF Cons.prems(1)] by auto
      obtain cs where cs: "queue_run push pop es t = (cs, s')" "bs = b # cs"
        using Cons.prems(2) Take p by (auto simp: split_beta Let_def prod_eq_iff)
      show ?thesis using Cons.IH [OF t(2) cs(1)] cs(2) t(1) Take Cons.prems(3) by auto
    qed
  qed
qed

end

lemma ring_index:
  "ring_inv r \<Longrightarrow> rb_bufindex r = rb_bufstart r + of_nat (length (ring_queue r))"
  by (simp add: ring_queue_def)

lemma ring_full:
  assumes "ring_inv r"
  shows "rb_slot (rb_bufindex r + 1) = rb_slot (rb_bufstart r) \<longleftrightarrow> length (ring_queue r) = 255"
proof -
  let ?n = "length (ring_queue r)"
  have n: "?n < 256" using assms by (simp add: ring_inv_def ring_queue_def)
  have "rb_slot (rb_bufindex r + 1) = rb_slot (rb_bufstart r + of_nat (Suc ?n))"
    using ring_index [OF assms] by (simp add: add.commute add.left_commute)
  then show ?thesis
    using n rb_slot_inj [of "Suc ?n" 0 "rb_bufstart r"] rb_slot_add [of "rb_bufstart r" "Suc ?n"]
    by (cases "?n = 255") auto
qed

lemma ring_store:
  assumes "ring_inv r" and "length (ring_queue r) < 255"
  shows "ring_queue (r\<lparr>rb_bufindex := rb_bufindex r + 1, rb_buf := (rb_buf r)[rb_slot (rb_bufindex r) := b]\<rparr>) =
      ring_queue r @ [b]"
    and "ring_inv (r\<lparr>rb_bufindex := rb_bufindex r + 1, rb_buf := (rb_buf r)[rb_slot (rb_bufindex r) := b]\<rparr>)"
proof -
  define n where "n = length (ring_queue r)"
  have i: "rb_bufindex r = rb_bufstart r + of_nat n" unfolding n_def by (rule ring_index [OF assms(1)])
  have n: "n < 255" "unat (rb_bufindex r - rb_bufstart r) = n"
    using assms by (auto simp: n_def ring_queue_def)
  have "rb_bufindex r + 1 - rb_bufstart r = of_nat (Suc n)" by (subst i) simp
  moreover have "unat (of_nat (Suc n) :: u32) = Suc n" using n by (intro unat_of_nat32) simp
  ultimately have len: "unat (rb_bufindex r + 1 - rb_bufstart r) = Suc n" by (simp only:)
  have other: "rb_slot (rb_bufindex r) \<noteq> rb_slot (rb_bufstart r + of_nat k)" if "k < n" for k
    using rb_slot_inj [of k n "rb_bufstart r"] that n i by auto
  have buf: "length (rb_buf r) = 256" using assms(1) by (simp add: ring_inv_def)
  let ?r = "r\<lparr>rb_bufindex := rb_bufindex r + 1, rb_buf := (rb_buf r)[rb_slot (rb_bufindex r) := b]\<rparr>"
  show "ring_inv ?r" using len n buf by (simp add: ring_inv_def)
  have "ring_queue ?r = map (\<lambda>k. rb_buf ?r ! rb_slot (rb_bufstart r + of_nat k)) [0..<n] @ [b]"
    using len buf i by (simp add: ring_queue_def)
  also have "map (\<lambda>k. rb_buf ?r ! rb_slot (rb_bufstart r + of_nat k)) [0..<n] = ring_queue r"
    using other n(2) by (simp add: ring_queue_def)
  finally show "ring_queue ?r = ring_queue r @ [b]" .
qed

lemma ring_take_queue:
  assumes "ring_inv r"
  shows "ring_take r = None \<longleftrightarrow> ring_queue r = []"
    and "ring_take r = Some (b, r') \<Longrightarrow> ring_queue r = b # ring_queue r' \<and> ring_inv r' \<and> rb_control r' = rb_control r"
proof -
  show "ring_take r = None \<longleftrightarrow> ring_queue r = []"
    by (auto simp: ring_take_def ring_queue_def unat_eq_0)
  assume t: "ring_take r = Some (b, r')"
  let ?d = "rb_bufindex r - rb_bufstart r"
  have d: "?d \<noteq> 0" using t by (auto simp: ring_take_def split: if_splits)
  then have u: "unat (?d - 1) = unat ?d - 1" "0 < unat ?d" by (simp_all add: unat_minus_one unat_gt_0)
  have e: "rb_bufindex r - (rb_bufstart r + 1) = ?d - 1" by simp
  have r': "r' = r\<lparr>rb_bufstart := rb_bufstart r + 1\<rparr>" "b = rb_buf r ! rb_slot (rb_bufstart r)"
    using t by (auto simp: ring_take_def split: if_splits)
  have "ring_queue r = b # ring_queue r'"
    using u by (intro nth_equalityI) (auto simp: r' ring_queue_def e nth_Cons' add.assoc of_nat_diff)
  then show "ring_queue r = b # ring_queue r' \<and> ring_inv r' \<and> rb_control r' = rb_control r"
    using assms u by (auto simp: r' ring_inv_def e)
qed

text \<open>What a received byte does to the bytes that wait. In interactive mode the delete key takes the last of
  them away and a carriage return, which ends a line, is counted and not stored.\<close>

definition key_push :: "bool \<Rightarrow> byte \<Rightarrow> byte list \<Rightarrow> byte list" where
  "key_push raw b q =
     (if raw then list_push 255 b q else if b = 127 then butlast q else if b = 0x0D then q else list_push 255 b q)"

lemma ring_delete:
  assumes "ring_inv r" and "rb_bufindex r \<noteq> rb_bufstart r"
  shows "ring_queue (r\<lparr>rb_bufindex := rb_bufindex r - 1\<rparr>) = butlast (ring_queue r)"
    and "ring_inv (r\<lparr>rb_bufindex := rb_bufindex r - 1\<rparr>)"
proof -
  let ?d = "rb_bufindex r - rb_bufstart r"
  have "?d \<noteq> 0" using assms(2) by simp
  then have u: "unat (?d - 1) = unat ?d - 1" "0 < unat ?d" by (simp_all add: unat_minus_one unat_gt_0)
  have e: "rb_bufindex r - 1 - rb_bufstart r = ?d - 1" by simp
  show "ring_queue (r\<lparr>rb_bufindex := rb_bufindex r - 1\<rparr>) = butlast (ring_queue r)"
    using u by (cases "unat ?d") (simp_all add: ring_queue_def e)
  show "ring_inv (r\<lparr>rb_bufindex := rb_bufindex r - 1\<rparr>)" using assms(1) u by (auto simp: ring_inv_def e)
qed

definition raw_ring_inv :: "ring \<Rightarrow> bool" where
  "raw_ring_inv r \<longleftrightarrow> ring_inv r \<and> rb_control r AND CONSOLE_RAW \<noteq> 0"

lemma rb_putc_simps [simp]:
  "ring_queue (rb_putc bs r) = ring_queue r" "ring_inv (rb_putc bs r) = ring_inv r"
  "rb_control (rb_putc bs r) = rb_control r"
  by (simp_all add: rb_putc_def ring_queue_def ring_inv_def)

lemma ring_queue_lt: "ring_inv r \<Longrightarrow> length (ring_queue r) < 256"
  by (simp add: ring_inv_def ring_queue_def)

abbreviation rb_raw :: "ring \<Rightarrow> bool" where
  "rb_raw r \<equiv> rb_control r AND CONSOLE_RAW \<noteq> 0"

lemma console_rx_control [simp]: "rb_control (console_rx b r) = rb_control r"
  by (simp add: console_rx_def Let_def)

lemma console_rx_ring:
  assumes "ring_inv r"
  shows "ring_inv (console_rx b r)" and "ring_queue (console_rx b r) = key_push (rb_raw r) b (ring_queue r)"
proof -
  have "ring_inv (console_rx b r) \<and> ring_queue (console_rx b r) = key_push (rb_raw r) b (ring_queue r)"
  proof (cases "\<not> rb_raw r \<and> (b = 127 \<or> b = 0x0D)")
    case True
    have "ring_inv (r\<lparr>rb_cr_index := i, rb_rx_count := n\<rparr>)" "ring_queue (r\<lparr>rb_cr_index := i, rb_rx_count := n\<rparr>) = ring_queue r" for i n
      using assms by (simp_all add: ring_inv_def ring_queue_def)
    moreover have "ring_queue r = []" if "rb_bufindex r = rb_bufstart r" using that by (simp add: ring_queue_def)
    ultimately show ?thesis using True assms ring_delete [OF assms] by (auto simp: console_rx_def key_push_def Let_def)
  next
    case False
    then show ?thesis
      using assms ring_store [of r b] ring_queue_lt [OF assms] ring_full [OF assms]
      by (cases "length (ring_queue r) = 255") (auto simp: console_rx_def key_push_def list_push_def Let_def)
  qed
  then show "ring_inv (console_rx b r)" "ring_queue (console_rx b r) = key_push (rb_raw r) b (ring_queue r)" by blast+
qed

text \<open>The ring buffer in a mode that does not change.\<close>

interpretation ring: fed_queue console_rx ring_take ring_queue "\<lambda>r. ring_inv r \<and> rb_raw r = raw" "key_push raw" for raw
  by unfold_locales (auto simp: console_rx_ring ring_take_queue(1) dest: ring_take_queue(2))

interpretation raw_ring: bounded_queue console_rx ring_take ring_queue raw_ring_inv 255
proof unfold_locales
  fix r b
  assume "raw_ring_inv r"
  then show "raw_ring_inv (console_rx b r)" "ring_queue (console_rx b r) = list_push 255 b (ring_queue r)"
    using console_rx_ring [of r b] by (simp_all add: raw_ring_inv_def key_push_def)
qed (auto simp: raw_ring_inv_def ring_take_queue(1) dest: ring_take_queue(2))

section \<open>Reads in the SOFTWARE\_FIFO variant\<close>

text \<open>
  The raw read: bytes that are there are copied out, and when a burst was copied the sender is
  told to go on. \<open>arrivals\<close> are the bytes the interrupt routine receives while the read waits
  with nothing in the buffer.
\<close>

function ring_read_raw ::
  "nat \<Rightarrow> bool \<Rightarrow> byte list \<Rightarrow> byte list \<Rightarrow> ring \<Rightarrow> fault + (byte list \<times> byte list \<times> ring)" where
  "ring_read_raw remain took acc arrivals r =
     (if remain = 0
      then Inr (acc, arrivals, if took \<and> rb_control r AND CONSOLE_FLOW_XOFF \<noteq> 0 then rb_putc [FLOW_XON] r else r)
      else case ring_take r of
        Some (byte, r1) \<Rightarrow> ring_read_raw (remain - 1) True (acc @ [byte]) arrivals r1
      | None \<Rightarrow>
          let r1 = (if took \<and> rb_control r AND CONSOLE_FLOW_XOFF \<noteq> 0 then rb_putc [FLOW_XON] r else r) in
          (case arrivals of
             [] \<Rightarrow> Inl Blocks_Forever
           | b # bs \<Rightarrow> ring_read_raw remain False acc bs (console_rx b r1)))"
  by pat_completeness auto
termination
  by (relation "measures [\<lambda>(remain, took, acc, arrivals, r). remain, \<lambda>(remain, took, acc, arrivals, r). length arrivals]") auto

declare ring_read_raw.simps [simp del]

text \<open>The interactive read: it waits until a line is complete, then copies what is there.\<close>

function ring_copy :: "nat \<Rightarrow> byte list \<Rightarrow> ring \<Rightarrow> byte list \<times> ring" where
  "ring_copy count acc r =
     (if count = 0 then (acc, r)
      else case ring_take r of
        None \<Rightarrow> (acc, r)
      | Some (byte, r1) \<Rightarrow> ring_copy (count - 1) (acc @ [byte]) r1)"
  by pat_completeness auto
termination
  by (relation "measure (\<lambda>(count, acc, r). count)") auto

declare ring_copy.simps [simp del]

primrec ring_wait_line :: "byte list \<Rightarrow> ring \<Rightarrow> fault + (byte list \<times> ring)" where
  "ring_wait_line [] r = (if rb_rx_count r = 0 then Inl Blocks_Forever else Inr ([], r))"
| "ring_wait_line (b # bs) r =
     (if rb_rx_count r = 0 then ring_wait_line bs (console_rx b r) else Inr (b # bs, r))"

definition ring_read_interactive ::
  "nat \<Rightarrow> byte list \<Rightarrow> ring \<Rightarrow> fault + (byte list \<times> byte list \<times> ring)" where
  "ring_read_interactive count arrivals r =
     (if count = 0 then Inr ([], arrivals, r)
      else bindE (ring_wait_line arrivals r) (\<lambda>(rest, r1).
             let (bs, r2) = ring_copy count [] (r1\<lparr>rb_rx_count := rb_rx_count r1 - 1\<rparr>)
             in Inr (bs, rest, r2)))"

text \<open>A raw read delivers, in order, what is queued and then what arrives.\<close>

lemma ring_read_raw_input:
  "raw_ring_inv r \<Longrightarrow> n \<le> length (ring_queue r) + length arrivals \<Longrightarrow>
   \<exists>r'. ring_read_raw n took acc arrivals r =
       Inr (acc @ take n (ring_queue r @ arrivals), drop (n - length (ring_queue r)) arrivals, r') \<and>
     raw_ring_inv r' \<and> ring_queue r' = drop n (ring_queue r)"
proof (induction n took acc arrivals r rule: ring_read_raw.induct)
  case (1 n took acc arrivals r)
  let ?flow = "if took \<and> rb_control r AND CONSOLE_FLOW_XOFF \<noteq> 0 then rb_putc [FLOW_XON] r else r"
  have flow: "raw_ring_inv ?flow" "ring_queue ?flow = ring_queue r"
    using "1.prems"(1) by (auto simp: raw_ring_inv_def)
  show ?case
  proof (cases "n = 0")
    case True
    then show ?thesis using flow by (subst ring_read_raw.simps) simp
  next
    case n: False
    show ?thesis
    proof (cases "ring_take r")
      case (Some p)
      then obtain b r1 where p: "ring_take r = Some (b, r1)" by (cases p) auto
      have r1: "ring_queue r = b # ring_queue r1" "raw_ring_inv r1"
        using raw_ring.pop_some [OF "1.prems"(1) p] by auto
      have n1: "n - 1 \<le> length (ring_queue r1) + length arrivals" using "1.prems"(2) r1(1) by simp
      obtain r' where "ring_read_raw (n - 1) True (acc @ [b]) arrivals r1 =
          Inr ((acc @ [b]) @ take (n - 1) (ring_queue r1 @ arrivals), drop (n - 1 - length (ring_queue r1)) arrivals, r')"
          "raw_ring_inv r'" "ring_queue r' = drop (n - 1) (ring_queue r1)"
        using "1.IH"(2) [OF n p refl r1(2) n1] by auto
      then show ?thesis using n p r1(1)
        by (subst ring_read_raw.simps) (auto simp: take_Cons' drop_Cons')
    next
      case None
      then have q: "ring_queue r = []" using raw_ring.pop_none [OF "1.prems"(1)] by simp
      then obtain b bs where a: "arrivals = b # bs" using "1.prems"(2) n by (cases arrivals) auto
      have r1: "raw_ring_inv (console_rx b ?flow)" "ring_queue (console_rx b ?flow) = [b]"
        using raw_ring.push_inv [OF flow(1)] raw_ring.push_abs [OF flow(1)] flow(2) q
        by (auto simp: list_push_def)
      have "\<exists>r'. ring_read_raw n False acc bs (console_rx b ?flow) =
          Inr (acc @ take n ([b] @ bs), drop (n - 1) bs, r') \<and> raw_ring_inv r' \<and> ring_queue r' = drop n [b]"
        using "1.IH"(1) [OF n None refl a r1(1)] r1(2) "1.prems"(2) q a by simp
      then show ?thesis using n None q a
        by (subst ring_read_raw.simps) (auto simp: drop_Cons')
    qed
  qed
qed

section \<open>The LED device\<close>

text \<open>\<open>ledval\<close> and the LED register, which is written once per byte.\<close>

record rgbled =
  led_val :: u32
  led_reg :: "u32 list"

definition rgbled_open :: "int \<times> fdclass option" where
  "rgbled_open = (0, Some Led_func)"

primrec rgbled_write_loop :: "byte list \<Rightarrow> rgbled \<Rightarrow> rgbled" where
  "rgbled_write_loop [] l = l"
| "rgbled_write_loop (b # bs) l = rgbled_write_loop bs (l\<lparr>led_val := ucast b, led_reg := led_reg l @ [ucast b]\<rparr>)"

definition rgbled_write :: "byte list \<Rightarrow> rgbled \<Rightarrow> int \<times> rgbled" where
  "rgbled_write buf l = (int (length buf), rgbled_write_loop buf l)"

definition rgbled_read :: "byte list \<Rightarrow> rgbled \<Rightarrow> int \<times> byte list" where
  "rgbled_read buf l = (int (length buf), replicate (length buf) (ucast (led_val l)))"

definition rgbled_close :: "int" where
  "rgbled_close = 0"

lemma rgbled_write_loop_val:
  "led_val (rgbled_write_loop buf l) = (if buf = [] then led_val l else ucast (last buf))"
  by (induction buf arbitrary: l) auto

section \<open>Properties\<close>

text \<open>C15: An interactive console read returns the line as the user edited it: characters in order,
  with every backspace or delete taking away the character before it (and none at the start of
  the line), up to the carriage return, which is consumed and not returned. What was typed after
  it is left for the next read.\<close>

theorem console_read_line:
  assumes "con_control c AND CONSOLE_RAW = 0" and "uart_input c = keys @ 0x0D # rest" and "0x0D \<notin> set keys"
    and "\<And>p. prefix p keys \<Longrightarrow> length (edited p) < length buf"
  shows "\<exists>buf' c'. console_read buf c = Inr (int (length (edited keys)), buf', c') \<and>
    length buf' = length buf \<and> take (length (edited keys)) buf' = edited keys \<and> uart_input c' = rest"
proof -
  have pre: "strict_prefix p keys \<Longrightarrow> length (foldl edit_key (take 0 buf) p) < length buf" for p
    using assms(4) [of p] by (simp add: edited_def strict_prefix_def)
  obtain c1 i b1 where c1: "console_read_interactive (length buf) 0 buf c =
      console_read_interactive (length buf - i) i b1 c1" "uart_input c1 = 0x0D # rest"
    "length b1 = length buf" "i \<le> length buf" "take i b1 = edited keys"
    using interactive_keys [of buf "length buf" 0 c keys "0x0D # rest"] assms(2,3) pre
    by (auto simp: edited_def)
  have i: "i = length (edited keys)" using c1(3-5) by (metis length_take min.absorb2)
  then have "length buf - i \<noteq> 0" using assms(4) [of keys] by simp
  moreover obtain c2 where "uart_get c1 = Inr (0x0D, c2)" "uart_input c2 = rest"
    using uart_get_Cons [OF c1(2)] by auto
  ultimately have "console_read_interactive (length buf) 0 buf c =
      Inr (i, b1, serial_putc 0x0D (serial_putc 0x0A c2)) \<and> uart_input c2 = rest"
    unfolding c1(1) by (subst console_read_interactive.simps) simp
  then show ?thesis using assms(1) c1(3,5) i by (simp add: console_read_def)
qed

theorem console_read_line_witness:
  "\<exists>buf' c'. console_read [0, 0, 0, 0] \<lparr>con_control = 0, con_fifo = [104], con_next = [120, 127, 105, 13, 9], con_out = []\<rparr>
      = Inr (2, buf', c') \<and> take (length [104, 105 :: byte]) buf' = [104, 105] \<and> uart_input c' = [9]"
proof -
  have "prefix p [104, 120, 127, 105] \<Longrightarrow> length (edited p) < length [0, 0, 0, 0 :: byte]" for p
    by (auto simp: prefix_Cons edited_def edit_key_def)
  moreover have "edited [104, 120, 127, 105] = [104, 105]" by (simp add: edited_def edit_key_def)
  ultimately show ?thesis
    using console_read_line [of "\<lparr>con_control = 0, con_fifo = [104], con_next = [120, 127, 105, 13, 9], con_out = []\<rparr>"
        "[104, 120, 127, 105]" "[9]" "[0, 0, 0, 0]"]
    by (auto simp: uart_input_def)
qed




end
