(* ===== verification/RawEconet.thy ===== *)
theory RawEconet
  imports FdTable
begin

text \<open>
  The Econet driver: system/raw\_econet.c and the interrupt routines of system/econet\_rx.S. A
  frame is exchanged in a four-way handshake (scout, scout acknowledge, data, data acknowledge)
  that the interrupt routine carries out; the driver side sets up transmissions, waits for the
  handshake to end and copies received data out of the receive buffer. The state holds the
  variables both sides share and the hardware registers; what the network does is a list of
  events. Events happen while the processor waits in a loop, and, when they are marked as late,
  between the steps of the code that follows the loop, up to where interrupts are disabled.
\<close>

section \<open>State\<close>

record econet_addr =
  ea_port :: byte
  ea_net :: byte
  ea_station :: byte

text \<open>
  The shared variables of econet\_rx.S, the tables of raw\_econet.c, the hardware registers
  (monitor mode, receiver status bits, timer A, terminator) and buffers, and the frames sent. The
  transmit buffer has 2048 bytes; storing beyond them is a fault.
\<close>

record econet =
  handshake_state :: u32
  pending_port :: u32
  econet_buf_start :: u32
  econet_buf_len :: u32
  econet_tx_start :: u32
  econet_tx_end :: u32
  econet_tx_status :: u32
  econet_timeout_state :: u32
  econet_monitor_frames :: u32
  econet_port_list :: "byte list"
  fd_rx_portmap :: "byte list"
  fd_tx_destmap :: "econet_addr list"
  econet_address :: u16
  last_monitor_frames :: u32
  ec_mon :: byte
  ec_status :: u32
  ec_timer :: "u32 option"
  ec_clkterm :: u16
  ec_rxbuf :: "nat \<Rightarrow> byte"
  ec_txbuf :: "nat \<Rightarrow> byte"
  ec_sent :: "byte list list"

abbreviation ECONET_TXBUFSZ :: nat where "ECONET_TXBUFSZ \<equiv> 2048"
abbreviation STATE_WAITSCOUT :: u32 where "STATE_WAITSCOUT \<equiv> 0"
abbreviation STATE_WAITDATA :: u32 where "STATE_WAITDATA \<equiv> 1"
abbreviation STATE_TXSCOUT :: u32 where "STATE_TXSCOUT \<equiv> 2"
abbreviation STATE_TXDATA :: u32 where "STATE_TXDATA \<equiv> 3"
abbreviation STATUS_TXDONE :: u32 where "STATUS_TXDONE \<equiv> 1"
abbreviation STATUS_TXNETERR :: u32 where "STATUS_TXNETERR \<equiv> 2"
abbreviation ECONET_MACHTYPE :: u32 where "ECONET_MACHTYPE \<equiv> 0x00012F42"

abbreviation ECONET_SET_ADDR :: u32 where "ECONET_SET_ADDR \<equiv> 0x01000000"
abbreviation ECONET_SET_RECV_PORT :: u32 where "ECONET_SET_RECV_PORT \<equiv> 0x02000000"
abbreviation ECONET_SET_SEND_ADDR :: u32 where "ECONET_SET_SEND_ADDR \<equiv> 0x03000000"
abbreviation ECONET_SET_MONITOR :: u32 where "ECONET_SET_MONITOR \<equiv> 0x04000000"
abbreviation ECONET_SET_CLKTERM :: u32 where "ECONET_SET_CLKTERM \<equiv> 0x05000000"
abbreviation ECONET_GET_ADDR :: u32 where "ECONET_GET_ADDR \<equiv> 0x81000000"
abbreviation ECONET_GET_CLKTERM :: u32 where "ECONET_GET_CLKTERM \<equiv> 0x85000000"
abbreviation ECONET_DBG_BUF :: u32 where "ECONET_DBG_BUF \<equiv> 0xF0000000"

text \<open>The registers of the receiver when it raises an interrupt for a frame with a good checksum.\<close>

record rx_frame =
  rx_start :: u32
  rx_len :: u32
  rx_replyaddr :: u32
  rx_port :: byte
  rx_flag :: byte

section \<open>Transmit buffer\<close>

definition tx_put :: "nat \<Rightarrow> byte list \<Rightarrow> econet \<Rightarrow> econet" where
  "tx_put at bs e = e\<lparr>ec_txbuf :=
     (\<lambda>i. if at \<le> i \<and> i < at + length bs then bs ! (i - at) else ec_txbuf e i)\<rparr>"

text \<open>Setting the end offset starts the transmission of the bytes from the start to the end offset.\<close>

definition tx_go :: "u32 \<Rightarrow> u32 \<Rightarrow> econet \<Rightarrow> econet" where
  "tx_go start lst e = e\<lparr>ec_sent := ec_sent e @ [map (ec_txbuf e) [unat start..<unat lst + 1]]\<rparr>"

section \<open>Interrupts\<close>

abbreviation TIMER_QUARTER_SEC :: u32 where "TIMER_QUARTER_SEC \<equiv> 3000000"
abbreviation TIMER_HUNDRED_MS :: u32 where "TIMER_HUNDRED_MS \<equiv> 1200000"

definition econet_ack :: "rx_frame \<Rightarrow> econet \<Rightarrow> econet" where
  "econet_ack f e =
     (tx_go 0 3 (tx_put 0 (bytes_of_u32 (rx_replyaddr f)) e))\<lparr>ec_timer := Some TIMER_QUARTER_SEC\<rparr>"

definition econet_rx_imm :: "rx_frame \<Rightarrow> econet \<Rightarrow> econet" where
  "econet_rx_imm f e =
     (if rx_len f = 12 \<and> rx_flag f = 0x88
      then tx_go 0 7 (tx_put 4 (bytes_of_u32 ECONET_MACHTYPE) (tx_put 0 (bytes_of_u32 (rx_replyaddr f)) e))
      else e)"

definition scout_ack :: "rx_frame \<Rightarrow> econet \<Rightarrow> econet" where
  "scout_ack f e =
     (if rx_len f \<noteq> 8 then econet_rx_imm f e
      else if econet_port_list e ! unat (rx_port f) = 0 then e
      else econet_ack f (e\<lparr>handshake_state := STATE_WAITDATA, pending_port := ucast (rx_port f)\<rparr>))"

definition data_ack :: "rx_frame \<Rightarrow> econet \<Rightarrow> econet" where
  "data_ack f e =
     (let p = unat (pending_port e) in
      econet_ack f (e\<lparr>econet_port_list := (econet_port_list e)[p := econet_port_list e ! p OR 0x80],
        handshake_state := STATE_WAITSCOUT,
        econet_buf_start := rx_start f + 2, econet_buf_len := rx_len f - 4\<rparr>))"

definition tx_error :: "econet \<Rightarrow> econet" where
  "tx_error e = e\<lparr>handshake_state := STATE_WAITSCOUT, econet_tx_status := STATUS_TXNETERR\<rparr>"

definition rx_scout_ack :: "rx_frame \<Rightarrow> econet \<Rightarrow> econet" where
  "rx_scout_ack f e =
     (if rx_len f \<noteq> 6 then tx_error e
      else (tx_go (econet_tx_start e) (econet_tx_end e) (e\<lparr>handshake_state := STATE_TXDATA\<rparr>))
             \<lparr>ec_timer := Some TIMER_QUARTER_SEC\<rparr>)"

definition rx_data_ack :: "rx_frame \<Rightarrow> econet \<Rightarrow> econet" where
  "rx_data_ack f e =
     (if rx_len f \<noteq> 6 then tx_error e
      else e\<lparr>handshake_state := STATE_WAITSCOUT, econet_tx_status := STATUS_TXDONE\<rparr>)"

definition econet_rx_monitor :: "rx_frame \<Rightarrow> econet \<Rightarrow> econet" where
  "econet_rx_monitor f e =
     e\<lparr>econet_monitor_frames := econet_monitor_frames e + 1,
       econet_buf_start := rx_start f, econet_buf_len := rx_len f\<rparr>"

definition econet_rx :: "rx_frame \<Rightarrow> econet \<Rightarrow> econet" where
  "econet_rx f e0 =
     (let e = e0\<lparr>ec_timer := None\<rparr> in
      if ec_mon e \<noteq> 0 then econet_rx_monitor f e
      else if handshake_state e = STATE_WAITSCOUT then scout_ack f e
      else if handshake_state e = STATE_WAITDATA then data_ack f e
      else if handshake_state e = STATE_TXSCOUT then rx_scout_ack f e
      else if handshake_state e = STATE_TXDATA then rx_data_ack f e
      else e)"

definition econet_timeout :: "econet \<Rightarrow> econet" where
  "econet_timeout e =
     e\<lparr>ec_timer := None, econet_timeout_state := handshake_state e, handshake_state := STATE_WAITSCOUT\<rparr>"

text \<open>
  What can happen: a frame is received (the receiver fills its buffer and raises the interrupt),
  the timer expires, or the receiver status bits change. \<open>Late n v\<close> is the event \<open>v\<close> in the code that
  follows a waiting loop, after \<open>n\<close> more of its steps; in a waiting loop it is \<open>v\<close>.
\<close>

datatype econet_event = Frame rx_frame "nat \<Rightarrow> byte" | Timer | Line u32 | Late nat econet_event

fun econet_happens :: "econet_event \<Rightarrow> econet \<Rightarrow> econet" where
  "econet_happens (Frame f buf) e = econet_rx f (e\<lparr>ec_rxbuf := buf\<rparr>)"
| "econet_happens Timer e = (if ec_timer e \<noteq> None then econet_timeout e else e)"
| "econet_happens (Line s) e = e\<lparr>ec_status := s\<rparr>"
| "econet_happens (Late n v) e = econet_happens v e"

text \<open>\<open>while(busy) ;\<close> with the events that happen meanwhile.\<close>

fun econet_wait :: "(econet \<Rightarrow> bool) \<Rightarrow> econet_event list \<Rightarrow> econet \<Rightarrow> fault + (econet_event list \<times> econet)" where
  "econet_wait busy [] e = (if busy e then Inl Blocks_Forever else Inr ([], e))"
| "econet_wait busy (v # vs) e = (if busy e then econet_wait busy vs (econet_happens v e) else Inr (v # vs, e))"

text \<open>One step of the code after a waiting loop: the late events that are due happen before it.\<close>

fun econet_window :: "econet_event list \<Rightarrow> econet \<Rightarrow> econet_event list \<times> econet" where
  "econet_window [] e = ([], e)"
| "econet_window (v # vs) e =
     (case v of
        Late n w \<Rightarrow> (case n of 0 \<Rightarrow> econet_window vs (econet_happens w e) | Suc k \<Rightarrow> (Late k w # vs, e))
      | _ \<Rightarrow> (v # vs, e))"

section \<open>Driver operations\<close>

definition econet_init :: "econet \<Rightarrow> econet" where
  "econet_init e = e\<lparr>fd_rx_portmap := replicate MAX_FILE_DESCRIPTORS 0,
     fd_tx_destmap := replicate MAX_FILE_DESCRIPTORS \<lparr>ea_port = 0, ea_net = 0, ea_station = 0\<rparr>,
     econet_address := 0\<rparr>"

definition econet_open :: "int \<times> fdclass option" where
  "econet_open = (0, Some Econet_func)"

definition econet_set_rx_port :: "nat \<Rightarrow> byte \<Rightarrow> econet \<Rightarrow> econet" where
  "econet_set_rx_port fd port e =
     e\<lparr>fd_rx_portmap := (fd_rx_portmap e)[fd := port],
       econet_port_list := (econet_port_list e)[unat port := of_nat fd]\<rparr>"

definition econet_set_tx_addr :: "nat \<Rightarrow> econet_addr \<Rightarrow> econet \<Rightarrow> econet" where
  "econet_set_tx_addr fd dest e = e\<lparr>fd_tx_destmap := (fd_tx_destmap e)[fd := dest]\<rparr>"

definition econet_set_addr :: "u16 \<Rightarrow> econet \<Rightarrow> econet" where
  "econet_set_addr netstation e = e\<lparr>econet_address := netstation\<rparr>"

definition econet_set_clkterm :: "u16 \<Rightarrow> econet \<Rightarrow> econet" where
  "econet_set_clkterm fl e = e\<lparr>ec_clkterm := fl\<rparr>"

text \<open>The first eight words of the interrupt routine's variables.\<close>

definition econet_state_val :: "econet \<Rightarrow> byte list" where
  "econet_state_val e = concat (map bytes_of_u32
     [handshake_state e, pending_port e, econet_buf_start e, econet_buf_len e,
      econet_tx_start e, econet_tx_end e, econet_tx_status e, econet_timeout_state e])"

text \<open>
  \<open>ptr\<close> points to the caller's argument; the bytes a request stores there are the second
  component of the result.
\<close>

definition econet_ioctl :: "nat \<Rightarrow> u32 \<Rightarrow> byte list \<Rightarrow> econet \<Rightarrow> fault + (int \<times> byte list \<times> econet)" where
  "econet_ioctl fd request ptr e =
     (let req_id = request AND 0xFF000000 in
      if req_id = ECONET_SET_ADDR then Inr (0, [], econet_set_addr (ucast (request AND 0xFFFF)) e)
      else if req_id = ECONET_SET_RECV_PORT then Inr (0, [], econet_set_rx_port fd (ucast (request AND 0xFF)) e)
      else if req_id = ECONET_SET_SEND_ADDR then
        (case ptr of
           p # n # s # _ \<Rightarrow> Inr (0, [], econet_set_tx_addr fd \<lparr>ea_port = p, ea_net = n, ea_station = s\<rparr> e)
         | _ \<Rightarrow> Inl Out_Of_Bounds)
      else if req_id = ECONET_SET_MONITOR then
        Inr (0, [], e\<lparr>econet_monitor_frames := 0, last_monitor_frames := 0, ec_mon := ucast (request AND 0xFF)\<rparr>)
      else if req_id = ECONET_SET_CLKTERM then Inr (0, [], econet_set_clkterm (ucast (request AND 0xFFFF)) e)
      else if req_id = ECONET_GET_ADDR then Inr (0, [ucast (econet_address e)], e)
      else if req_id = ECONET_GET_CLKTERM then
        Inr (0, [ucast (ec_clkterm e), ucast (drop_bit 8 (ec_clkterm e))], e)
      else if req_id = ECONET_DBG_BUF then Inr (0, econet_state_val e, e)
      else Inr (- EINVAL, [], e))"

text \<open>\<open>memcpy\<close> out of the receive buffer, byte by byte.\<close>

fun rx_copy :: "nat \<Rightarrow> nat \<Rightarrow> econet_event list \<Rightarrow> econet \<Rightarrow> byte list \<times> econet_event list \<times> econet" where
  "rx_copy start 0 evs e = ([], evs, e)"
| "rx_copy start (Suc n) evs e =
     (let (evs1, e1) = econet_window evs e; (bs, evs2, e2) = rx_copy (Suc start) n evs1 e1
      in (ec_rxbuf e1 start # bs, evs2, e2))"

text \<open>
  The common part of both reads: \<open>copy_sz\<close>, for which the volatile \<open>econet_buf_len\<close> is read twice,
  the address, and the copy into the caller's buffer of \<open>count\<close> bytes.
\<close>

definition rx_take ::
  "byte list \<Rightarrow> econet_event list \<Rightarrow> econet \<Rightarrow> fault + (nat \<times> byte list \<times> econet_event list \<times> econet)" where
  "rx_take buf evs e =
     (let (evs1, e1) = econet_window evs e; large = unat (econet_buf_len e1) > length buf;
          (evs2, e2) = econet_window evs1 e1; copy_sz = (if large then length buf else unat (econet_buf_len e2));
          (evs3, e3) = econet_window evs2 e2; start = unat (econet_buf_start e3)
      in if length buf < copy_sz then Inl Out_Of_Bounds
         else let (bs, evs4, e4) = rx_copy start copy_sz evs3 e3; (evs5, e5) = econet_window evs4 e4
              in Inr (copy_sz, bs @ drop copy_sz buf, evs5, e5))"

text \<open>What is left of the frame: the comparison, and the update of both variables as one more step;
  otherwise \<open>fin\<close> marks the frame as read.\<close>

definition rx_advance ::
  "nat \<Rightarrow> (econet \<Rightarrow> econet) \<Rightarrow> econet_event list \<Rightarrow> econet \<Rightarrow> econet_event list \<times> econet" where
  "rx_advance copy_sz fin evs e =
     (let rest = (copy_sz < unat (econet_buf_len e)); (evs1, e1) = econet_window evs e
      in (evs1, if rest
                then e1\<lparr>econet_buf_len := econet_buf_len e1 - of_nat copy_sz, econet_buf_start := econet_buf_start e1 + of_nat copy_sz\<rparr>
                else fin e1))"

definition econet_monitor ::
  "byte list \<Rightarrow> econet_event list \<Rightarrow> econet \<Rightarrow> fault + (int \<times> byte list \<times> econet_event list \<times> econet)" where
  "econet_monitor buf evs e =
     bindE (econet_wait (\<lambda>e. econet_monitor_frames e = last_monitor_frames e) evs e) (\<lambda>(evs1, e1).
     bindE (rx_take buf evs1 e1) (\<lambda>(copy_sz, buf1, evs2, e2).
       let (evs3, e3) = rx_advance copy_sz (\<lambda>e. e\<lparr>last_monitor_frames := last_monitor_frames e + 1\<rparr>) evs2 e2
       in Inr (int copy_sz, buf1, evs3, e3)))"

definition econet_read ::
  "nat \<Rightarrow> byte list \<Rightarrow> econet_event list \<Rightarrow> econet \<Rightarrow> fault + (int \<times> byte list \<times> econet_event list \<times> econet)" where
  "econet_read fd buf evs e =
     (if ec_mon e \<noteq> 0 then econet_monitor buf evs e
      else let port = unat (fd_rx_portmap e ! fd) in
      if port = 0 then Inr (- EINVAL, buf, evs, e)
      else bindE (econet_wait (\<lambda>e. econet_port_list e ! port AND 0x80 = 0) evs e) (\<lambda>(evs1, e1).
        bindE (rx_take buf evs1 e1) (\<lambda>(copy_sz, buf1, evs2, e2).
          let (evs3, e3) = rx_advance copy_sz (\<lambda>e. e\<lparr>econet_port_list := (econet_port_list e)[port := of_nat fd]\<rparr>) evs2 e2
          in Inr (int copy_sz, buf1, evs3, e3))))"

definition econet_peek :: "nat \<Rightarrow> econet \<Rightarrow> int" where
  "econet_peek fd e =
     (if ec_mon e \<noteq> 0 then sint (econet_buf_len e)
      else let port = unat (fd_rx_portmap e ! fd) in
      if port = 0 then - EINVAL
      else if econet_port_list e ! port AND 0x80 = 0 then 0
      else sint (econet_buf_len e))"

text \<open>The address word of both frames, and the transmission set up with interrupts disabled.\<close>

definition tx_addr_word :: "econet_addr \<Rightarrow> u16 \<Rightarrow> u32" where
  "tx_addr_word d own = ucast (ea_station d) OR push_bit 8 (ucast (ea_net d)) OR push_bit 16 (ucast own)"

definition tx_setup :: "econet_addr \<Rightarrow> byte list \<Rightarrow> econet \<Rightarrow> econet" where
  "tx_setup d bs e =
     (let a = bytes_of_u32 (tx_addr_word d (econet_address e)) in
      tx_go 0 5
       ((tx_put 12 bs (tx_put 8 a (tx_put 4 [0x80, ea_port d] (tx_put 0 a e))))
         \<lparr>econet_tx_start := 8, econet_tx_end := 11 + of_nat (length bs),
          ec_timer := Some TIMER_HUNDRED_MS, handshake_state := STATE_TXSCOUT\<rparr>))"

text \<open>The data is copied to offset 12 of the transmit buffer and has to end inside it.\<close>

definition econet_start_tx :: "econet_addr \<Rightarrow> byte list \<Rightarrow> econet \<Rightarrow> fault + econet" where
  "econet_start_tx d bs e = (if ECONET_TXBUFSZ < 12 + length bs then Inl Out_Of_Bounds else Inr (tx_setup d bs e))"

text \<open>Late events happen between the last test of the first loop and \<open>DISABLE_INTERRUPTS\<close>, and between
  the last test of the second loop and the look at the outcome.\<close>

definition econet_write ::
  "nat \<Rightarrow> byte list \<Rightarrow> econet_event list \<Rightarrow> econet \<Rightarrow> fault + (int \<times> econet_event list \<times> econet)" where
  "econet_write fd bs evs e =
     (if ECONET_TXBUFSZ - 8 < length bs then Inr (- EMSGSIZE, evs, e)
      else let e1 = e\<lparr>econet_tx_status := 0, econet_timeout_state := 0\<rparr>; d = fd_tx_destmap e1 ! fd in
      if ea_station d = 0 then Inr (- EDESTADDRREQ, evs, e1)
      else bindE (econet_wait (\<lambda>e. ec_status e AND 3 \<noteq> 0 \<or> STATE_WAITSCOUT < handshake_state e) evs e1) (\<lambda>(evs2, e2).
        let (evs3, e3) = econet_window evs2 e2 in
        bindE (econet_start_tx d bs e3) (\<lambda>e4.
        bindE (econet_wait (\<lambda>e. STATE_TXSCOUT \<le> handshake_state e) evs3 e4) (\<lambda>(evs5, e5).
          let (evs6, e6) = econet_window evs5 e5 in
          Inr (if econet_tx_status e6 \<noteq> STATUS_TXDONE
               then if econet_timeout_state e6 = STATE_TXSCOUT then - EHOSTUNREACH else - ETIMEDOUT
               else int (length bs), evs6, e6)))))"

definition econet_close :: "nat \<Rightarrow> econet \<Rightarrow> int \<times> econet" where
  "econet_close fd e =
     (let port = fd_rx_portmap e ! fd in
      (0, if port \<noteq> 0
          then e\<lparr>econet_port_list := (econet_port_list e)[unat port := 0], fd_rx_portmap := (fd_rx_portmap e)[fd := 0]\<rparr>
          else e))"

section \<open>Interrupts that come while the driver waits\<close>

text \<open>No event falls between two steps of the code outside of the waiting loops.\<close>

definition in_waits :: "econet_event list \<Rightarrow> bool" where
  "in_waits evs \<longleftrightarrow> (\<forall>n w. Late n w \<notin> set evs)"

lemma in_waits_Cons: "in_waits (v # vs) \<longleftrightarrow> (\<forall>n w. v \<noteq> Late n w) \<and> in_waits vs"
  by (auto simp: in_waits_def)

lemma in_waits_Nil [simp]: "in_waits []"
  by (simp add: in_waits_def)

lemma econet_window_quiet: "in_waits evs \<Longrightarrow> econet_window evs e = (evs, e)"
  by (cases evs) (auto simp: in_waits_Cons split: econet_event.split)

lemma econet_wait_in_waits: "econet_wait busy evs e = Inr (evs', e') \<Longrightarrow> in_waits evs \<Longrightarrow> in_waits evs'"
  by (induction busy evs e rule: econet_wait.induct) (auto simp: in_waits_Cons split: if_splits)

lemma rx_copy_quiet:
  "in_waits evs \<Longrightarrow> rx_copy start n evs e = (map (\<lambda>i. ec_rxbuf e (start + i)) [0..<n], evs, e)"
proof (induction n arbitrary: start)
  case (Suc n)
  have "[0..<Suc n] = 0 # map Suc [0..<n]" by (simp add: map_Suc_upt upt_conv_Cons)
  then show ?case using Suc.IH [of "Suc start"] Suc.prems by (simp add: econet_window_quiet)
qed simp

lemma rx_take_quiet:
  assumes "in_waits evs"
  shows "rx_take buf evs e =
    (let sz = min (length buf) (unat (econet_buf_len e))
     in Inr (sz, map (\<lambda>i. ec_rxbuf e (unat (econet_buf_start e) + i)) [0..<sz] @ drop sz buf, evs, e))"
  using assms by (auto simp: rx_take_def econet_window_quiet rx_copy_quiet Let_def min_def)

lemma rx_advance_quiet:
  "in_waits evs \<Longrightarrow> rx_advance sz fin evs e =
    (evs, if sz < unat (econet_buf_len e)
          then e\<lparr>econet_buf_len := econet_buf_len e - of_nat sz, econet_buf_start := econet_buf_start e + of_nat sz\<rparr> else fin e)"
  by (simp add: rx_advance_def econet_window_quiet)

section \<open>Transmission\<close>

text \<open>
  The four-way handshake seen from the sender. While a transmission is in progress the timer is
  armed, the frame to send stays in the transmit buffer, and each interrupt decides the outcome
  or moves on from the scout to the data frame.
\<close>

text \<open>What a write returns, and whether its data frame went out, for the interrupts that follow
  the scout frame; status changes of the line do not matter.\<close>

fun data_outcome :: "nat \<Rightarrow> econet_event list \<Rightarrow> int option" where
  "data_outcome n [] = None"
| "data_outcome n (Line s # vs) = data_outcome n vs"
| "data_outcome n (Late k v # vs) = data_outcome n (v # vs)"
| "data_outcome n (Timer # vs) = Some (- ETIMEDOUT)"
| "data_outcome n (Frame f buf # vs) = Some (if rx_len f = 6 then int n else - ETIMEDOUT)"

fun scout_outcome :: "nat \<Rightarrow> econet_event list \<Rightarrow> (int \<times> bool) option" where
  "scout_outcome n [] = None"
| "scout_outcome n (Line s # vs) = scout_outcome n vs"
| "scout_outcome n (Late k v # vs) = scout_outcome n (v # vs)"
| "scout_outcome n (Timer # vs) = Some (- EHOSTUNREACH, False)"
| "scout_outcome n (Frame f buf # vs) =
     (if rx_len f = 6 then map_option (\<lambda>rc. (rc, True)) (data_outcome n vs) else Some (- ETIMEDOUT, False))"

abbreviation tx_waiting :: "econet \<Rightarrow> bool" where
  "tx_waiting e \<equiv> STATE_TXSCOUT \<le> handshake_state e"

definition tx_return :: "nat \<Rightarrow> econet \<Rightarrow> int" where
  "tx_return n e =
     (if econet_tx_status e \<noteq> STATUS_TXDONE
      then if econet_timeout_state e = STATE_TXSCOUT then - EHOSTUNREACH else - ETIMEDOUT
      else int n)"

lemma econet_wait_late: "busy e \<Longrightarrow> econet_wait busy (Late k v # vs) e = econet_wait busy (v # vs) e"
  by simp

lemma wait_data_outcome:
  "handshake_state e = STATE_TXDATA \<Longrightarrow> ec_timer e \<noteq> None \<Longrightarrow> ec_mon e = 0 \<Longrightarrow>
   econet_tx_status e = 0 \<Longrightarrow> econet_timeout_state e = 0 \<Longrightarrow>
   (case data_outcome n vs of
      None \<Rightarrow> econet_wait tx_waiting vs e = Inl Blocks_Forever
    | Some rc \<Rightarrow> \<exists>vs' e'. econet_wait tx_waiting vs e = Inr (vs', e') \<and> tx_return n e' = rc \<and> ec_sent e' = ec_sent e)"
proof (induction n vs arbitrary: e rule: data_outcome.induct)
  case (2 n s vs)
  show ?case using "2.IH" [of "e\<lparr>ec_status := s\<rparr>"] "2.prems" by (auto split: option.splits prod.splits)
next
  case (3 n k v vs)
  have "econet_wait tx_waiting (Late k v # vs) e = econet_wait tx_waiting (v # vs) e"
    using "3.prems" by (intro econet_wait_late) simp
  then show ?case using "3.IH" [OF "3.prems"] by (simp only: data_outcome.simps)
next
  case (4 n vs)
  then show ?case by (cases vs) (auto simp: econet_timeout_def tx_return_def)
next
  case (5 n f buf vs)
  then show ?case
    by (cases vs) (auto simp: econet_rx_def rx_data_ack_def tx_error_def tx_return_def Let_def)
qed auto

lemma wait_scout_outcome:
  "handshake_state e = STATE_TXSCOUT \<Longrightarrow> ec_timer e \<noteq> None \<Longrightarrow> ec_mon e = 0 \<Longrightarrow>
   econet_tx_status e = 0 \<Longrightarrow> econet_timeout_state e = 0 \<Longrightarrow>
   map (ec_txbuf e) [unat (econet_tx_start e)..<unat (econet_tx_end e) + 1] = d \<Longrightarrow>
   (case scout_outcome n vs of
      None \<Rightarrow> econet_wait tx_waiting vs e = Inl Blocks_Forever
    | Some (rc, sent) \<Rightarrow> \<exists>vs' e'. econet_wait tx_waiting vs e = Inr (vs', e') \<and> tx_return n e' = rc \<and>
        ec_sent e' = ec_sent e @ (if sent then [d] else []))"
proof (induction n vs arbitrary: e rule: scout_outcome.induct)
  case (2 n s vs)
  show ?case using "2.IH" [of "e\<lparr>ec_status := s\<rparr>"] "2.prems" by (auto split: option.splits prod.splits)
next
  case (3 n k v vs)
  have "econet_wait tx_waiting (Late k v # vs) e = econet_wait tx_waiting (v # vs) e"
    using "3.prems" by (intro econet_wait_late) simp
  then show ?case using "3.IH" [OF "3.prems"] by (simp only: scout_outcome.simps)
next
  case (4 n vs)
  then show ?case by (cases vs) (auto simp: econet_timeout_def tx_return_def)
next
  case (5 n f buf vs)
  show ?case
  proof (cases "rx_len f = 6")
    case True
    let ?e = "econet_happens (Frame f buf) e"
    have "handshake_state ?e = STATE_TXDATA" "ec_timer ?e \<noteq> None" "ec_mon ?e = 0"
      "econet_tx_status ?e = 0" "econet_timeout_state ?e = 0" "ec_sent ?e = ec_sent e @ [d]"
      using 5 True by (auto simp: econet_rx_def rx_scout_ack_def tx_go_def Let_def)
    then show ?thesis using wait_data_outcome [of ?e vs n] 5(1) True
      by (auto split: option.splits)
  next
    case False
    then show ?thesis using 5
      by (cases vs) (auto simp: econet_rx_def rx_scout_ack_def tx_error_def tx_return_def Let_def)
  qed
qed auto

text \<open>The bytes of the two frames of a transmission.\<close>

definition scout_bytes :: "econet_addr \<Rightarrow> u16 \<Rightarrow> byte list" where
  "scout_bytes d own = bytes_of_u32 (tx_addr_word d own) @ [0x80, ea_port d]"

definition data_bytes :: "econet_addr \<Rightarrow> u16 \<Rightarrow> byte list \<Rightarrow> byte list" where
  "data_bytes d own bs = bytes_of_u32 (tx_addr_word d own) @ bs"

lemma tx_setup_frames:
  assumes "length bs \<le> 2036"
  shows "ec_sent (tx_setup d bs e) = ec_sent e @ [scout_bytes d (econet_address e)]"
    and "map (ec_txbuf (tx_setup d bs e)) [unat (econet_tx_start (tx_setup d bs e))..<
           unat (econet_tx_end (tx_setup d bs e)) + 1] = data_bytes d (econet_address e) bs"
proof -
  let ?a = "bytes_of_u32 (tx_addr_word d (econet_address e))"
  have len: "unat (11 + of_nat (length bs) :: u32) = 11 + length bs"
    using assms by (subst unat_add32) auto
  show "ec_sent (tx_setup d bs e) = ec_sent e @ [scout_bytes d (econet_address e)]"
    by (simp add: tx_setup_def tx_go_def tx_put_def Let_def scout_bytes_def upt_rec bytes_of_u32_def)
  show "map (ec_txbuf (tx_setup d bs e)) [unat (econet_tx_start (tx_setup d bs e))..<
           unat (econet_tx_end (tx_setup d bs e)) + 1] = data_bytes d (econet_address e) bs"
    using len by (intro nth_equalityI)
      (auto simp: tx_setup_def tx_go_def tx_put_def Let_def data_bytes_def nth_append)
qed

text \<open>A write that starts on an idle line, to a station, and one whose data fits the transmit buffer.\<close>

definition tx_idle :: "nat \<Rightarrow> econet \<Rightarrow> bool" where
  "tx_idle fd e \<longleftrightarrow> ea_station (fd_tx_destmap e ! fd) \<noteq> 0 \<and>
     ec_status e AND 3 = 0 \<and> handshake_state e = STATE_WAITSCOUT \<and> ec_mon e = 0"

definition tx_ready :: "nat \<Rightarrow> byte list \<Rightarrow> econet \<Rightarrow> bool" where
  "tx_ready fd bs e \<longleftrightarrow> tx_idle fd e \<and> 12 + length bs \<le> ECONET_TXBUFSZ"

lemma econet_write_idle:
  assumes "tx_idle fd e" and "in_waits evs" and "length bs \<le> ECONET_TXBUFSZ - 8"
  shows "econet_write fd bs evs e =
    bindE (econet_start_tx (fd_tx_destmap e ! fd) bs (e\<lparr>econet_tx_status := 0, econet_timeout_state := 0\<rparr>)) (\<lambda>e1.
    bindE (econet_wait tx_waiting evs e1) (\<lambda>(evs', e'). Inr (tx_return (length bs) e', evs', e')))"
proof -
  let ?e = "e\<lparr>econet_tx_status := 0, econet_timeout_state := 0\<rparr>"
  have "econet_wait (\<lambda>e. ec_status e AND 3 \<noteq> 0 \<or> STATE_WAITSCOUT < handshake_state e) evs ?e = Inr (evs, ?e)"
    using assms(1) by (cases evs) (simp_all add: tx_idle_def)
  moreover have "bindE (econet_wait tx_waiting evs e1) (\<lambda>(evs5, e5). let (evs6, e6) = econet_window evs5 e5 in Inr (tx_return n e6, evs6, e6)) =
      bindE (econet_wait tx_waiting evs e1) (\<lambda>(evs', e'). Inr (tx_return n e', evs', e'))" for e1 n
    using econet_wait_in_waits [OF _ assms(2)]
    by (cases "econet_wait tx_waiting evs e1") (auto simp: econet_window_quiet)
  ultimately show ?thesis using assms
    by (simp add: econet_write_def tx_idle_def econet_window_quiet tx_return_def [symmetric])
qed

section \<open>Reception\<close>

text \<open>The data of a received frame: what follows the two address bytes pairs, less the checksum.\<close>

definition payload :: "econet \<Rightarrow> byte list" where
  "payload e = map (\<lambda>i. ec_rxbuf e (unat (econet_buf_start e) + i)) [0..<unat (econet_buf_len e)]"

text \<open>Data is waiting for the descriptor.\<close>

definition rx_ready :: "nat \<Rightarrow> econet \<Rightarrow> bool" where
  "rx_ready fd e \<longleftrightarrow> fd < MAX_FILE_DESCRIPTORS \<and> ec_mon e = 0 \<and> fd_rx_portmap e ! fd \<noteq> 0 \<and>
     length (econet_port_list e) = 256 \<and>
     econet_port_list e ! unat (fd_rx_portmap e ! fd) AND 0x80 \<noteq> 0 \<and>
     unat (econet_buf_start e) + unat (econet_buf_len e) < 4294967296"

lemma econet_wait_done: "\<not> busy e \<Longrightarrow> econet_wait busy evs e = Inr (evs, e)"
  by (cases evs) simp_all

lemma small_fd_no_flag: "fd < 16 \<Longrightarrow> (of_nat fd :: byte) AND 0x80 = 0"
proof -
  assume "fd < 16"
  then have "of_nat fd = take_bit 4 (of_nat fd :: byte)"
    by (intro word_unat_eq_iff [THEN iffD2])
      (simp only: unsigned_take_bit_eq, simp add: unsigned_of_nat take_bit_eq_mod)
  moreover have "take_bit 4 x AND 0x80 = 0" for x :: byte
    by (simp add: take_bit_eq_mask mask_eq_exp_minus_1 and.assoc)
  ultimately show ?thesis by metis
qed

lemma econet_read_step:
  assumes r: "rx_ready fd e" and q: "in_waits evs"
  shows "\<exists>e'. econet_read fd buf evs e =
      Inr (int (min (length buf) (length (payload e))),
           take (length buf) (payload e) @ drop (length (payload e)) buf, evs, e') \<and>
    (if length buf < length (payload e)
     then rx_ready fd e' \<and> payload e' = drop (length buf) (payload e)
     else econet_port_list e' = (econet_port_list e)[unat (fd_rx_portmap e ! fd) := of_nat fd])"
proof -
  let ?p = "unat (fd_rx_portmap e ! fd)" and ?n = "unat (econet_buf_len e)"
  have p: "?p \<noteq> 0" "fd_rx_portmap e ! fd \<noteq> 0" using r by (auto simp: rx_ready_def unat_eq_0)
  have len: "length (payload e) = ?n" by (simp add: payload_def)
  have w: "econet_wait (\<lambda>e. econet_port_list e ! ?p AND 0x80 = 0) evs e = Inr (evs, e)"
    using r by (intro econet_wait_done) (simp add: rx_ready_def)
  show ?thesis
  proof (cases "length buf < ?n")
    case True
    let ?k = "of_nat (length buf) :: u32"
    let ?e = "e\<lparr>econet_buf_len := econet_buf_len e - ?k, econet_buf_start := econet_buf_start e + ?k\<rparr>"
    have k: "unat ?k = length buf" using True by (intro unat_of_nat32) (meson less_trans unat_lt32)
    have n: "unat (econet_buf_len e - ?k) = ?n - length buf"
      using True k by (simp add: unat_sub word_le_nat_alt)
    have s: "unat (econet_buf_start e + ?k) = unat (econet_buf_start e) + length buf"
      using r True k by (subst unat_add32) (auto simp: rx_ready_def)
    have "payload ?e = drop (length buf) (payload e)"
      using True n s by (intro nth_equalityI) (auto simp: payload_def add.assoc)
    moreover have "rx_ready fd ?e" using r True n s by (auto simp: rx_ready_def)
    moreover have "map (\<lambda>i. ec_rxbuf e (unat (econet_buf_start e) + i)) [0..<length buf] = take (length buf) (payload e)"
      using True by (simp add: payload_def take_map)
    ultimately show ?thesis
      using r p w True len q by (simp add: econet_read_def rx_ready_def rx_take_quiet rx_advance_quiet Let_def min_def)
  next
    case False
    then show ?thesis
      using r p w len q
      by (simp add: econet_read_def rx_ready_def rx_take_quiet rx_advance_quiet Let_def min_def payload_def)
  qed
qed

text \<open>A frame read in pieces: the bytes each read delivers, put together.\<close>

primrec read_pieces :: "nat \<Rightarrow> nat list \<Rightarrow> econet \<Rightarrow> fault + (byte list \<times> econet)" where
  "read_pieces fd [] e = Inr ([], e)"
| "read_pieces fd (k # ks) e =
     bindE (econet_read fd (replicate k 0) [] e) (\<lambda>(rc, bs, evs, e1).
     bindE (read_pieces fd ks e1) (\<lambda>(cs, e2). Inr (take (nat rc) bs @ cs, e2)))"

lemma read_pieces_payload:
  "rx_ready fd e \<Longrightarrow> sum_list ks < length (payload e) \<Longrightarrow>
   length (payload e) \<le> sum_list ks + k \<Longrightarrow>
   \<exists>e'. read_pieces fd (ks @ [k]) e = Inr (payload e, e') \<and>
     econet_port_list e' ! unat (fd_rx_portmap e ! fd) AND 0x80 = 0"
proof (induction ks arbitrary: e)
  case Nil
  have lt: "unat (fd_rx_portmap e ! fd) < 256" using unsigned_less [of "fd_rx_portmap e ! fd"] by simp
  have fd: "fd < 16" "length (econet_port_list e) = 256" using Nil(1) by (auto simp: rx_ready_def)
  show ?case
    using econet_read_step [OF Nil(1), of "[]" "replicate k 0"] Nil(3) lt fd
      small_fd_no_flag [OF fd(1)] by (auto simp: min_def)
next
  case (Cons j ks)
  have j: "j < length (payload e)" using Cons.prems(2) by simp
  obtain e1 where e1: "econet_read fd (replicate j 0) [] e = Inr (int j, take j (payload e), [], e1)"
      "rx_ready fd e1" "payload e1 = drop j (payload e)"
    using econet_read_step [OF Cons.prems(1), of "[]" "replicate j 0"] j by (auto simp: min_def)
  have same: "fd_rx_portmap e1 = fd_rx_portmap e"
    using e1(1) Cons.prems(1) j
    by (auto simp: econet_read_def rx_ready_def Let_def unat_eq_0 rx_take_quiet rx_advance_quiet bindE_Inr_iff
        econet_wait_done split: if_splits)
  have "sum_list ks < length (payload e1)" "length (payload e1) \<le> sum_list ks + k"
    using Cons.prems(2,3) e1(3) by auto
  then obtain e2 where "read_pieces fd (ks @ [k]) e1 = Inr (payload e1, e2)"
      "econet_port_list e2 ! unat (fd_rx_portmap e ! fd) AND 0x80 = 0"
    using Cons.IH [OF e1(2)] same by auto
  then show ?case using e1(1,3) j by (simp add: min_def)
qed

text \<open>A scout and a data frame for a port that is being listened to.\<close>

definition rx_listening :: "nat \<Rightarrow> byte \<Rightarrow> econet \<Rightarrow> bool" where
  "rx_listening fd port e \<longleftrightarrow> fd < MAX_FILE_DESCRIPTORS \<and> ec_mon e = 0 \<and> handshake_state e = STATE_WAITSCOUT \<and>
     length (econet_port_list e) = 256 \<and> port \<noteq> 0 \<and> fd_rx_portmap e ! fd = port \<and>
     econet_port_list e ! unat port \<noteq> 0"

definition rx_exchange :: "rx_frame \<Rightarrow> rx_frame \<Rightarrow> (nat \<Rightarrow> byte) \<Rightarrow> econet \<Rightarrow> econet" where
  "rx_exchange s d buf e = econet_happens (Frame d buf) (econet_happens (Frame s (ec_rxbuf e)) e)"

lemma tx_go_put_ack:
  "ec_sent (econet_ack f e) = ec_sent e @ [bytes_of_u32 (rx_replyaddr f)]"
  by (simp add: econet_ack_def tx_go_def tx_put_def bytes_of_u32_def upt_rec)

lemma econet_ack_frame [simp]:
  "ec_mon (econet_ack f e) = ec_mon e" "handshake_state (econet_ack f e) = handshake_state e"
  "econet_port_list (econet_ack f e) = econet_port_list e" "fd_rx_portmap (econet_ack f e) = fd_rx_portmap e"
  "pending_port (econet_ack f e) = pending_port e" "ec_rxbuf (econet_ack f e) = ec_rxbuf e"
  "econet_buf_start (econet_ack f e) = econet_buf_start e" "econet_buf_len (econet_ack f e) = econet_buf_len e"
  by (simp_all add: econet_ack_def tx_go_def tx_put_def)

lemma byte_or_flag: "(x OR 0x80 :: byte) AND 0x80 \<noteq> 0"
proof -
  have "(x OR 0x80) AND 0x80 = (x AND 0x80) OR (0x80 :: byte)" by (simp add: bit.conj_disj_distrib2)
  moreover have "bit ((x AND 0x80) OR (0x80 :: byte)) 7" by (simp add: bit_simps)
  ultimately show ?thesis by (metis bit_0_eq bot_apply bot_bool_def)
qed

lemma unat_byte_lt [simp]: "unat (x :: byte) < 256"
  using unsigned_less [of x] by simp

lemma unat_ucast_byte [simp]: "unat (ucast (x :: byte) :: u32) = unat x"
  using take_bit_nat_eq_self [of "unat x" 32] unat_byte_lt [of x]
  by (simp add: unsigned_ucast_eq unsigned_take_bit_eq)

lemma rx_exchange_state:
  assumes "rx_listening fd port e" and "rx_len s = 8" and "rx_port s = port"
  shows "econet_port_list (rx_exchange s d buf e) =
      (econet_port_list e)[unat port := econet_port_list e ! unat port OR 0x80]"
    and "fd_rx_portmap (rx_exchange s d buf e) = fd_rx_portmap e"
    and "ec_mon (rx_exchange s d buf e) = 0" and "handshake_state (rx_exchange s d buf e) = STATE_WAITSCOUT"
    and "econet_buf_start (rx_exchange s d buf e) = rx_start d + 2"
    and "econet_buf_len (rx_exchange s d buf e) = rx_len d - 4"
    and "ec_rxbuf (rx_exchange s d buf e) = buf"
    and "ec_sent (rx_exchange s d buf e) = ec_sent e @ [bytes_of_u32 (rx_replyaddr s), bytes_of_u32 (rx_replyaddr d)]"
  using assms
  by (simp_all add: rx_listening_def rx_exchange_def econet_rx_def scout_ack_def data_ack_def Let_def tx_go_put_ack)

lemma rx_exchange_ready:
  assumes "rx_listening fd port e" and "rx_len s = 8" and "rx_port s = port"
    and "4 \<le> unat (rx_len d)" and "unat (rx_start d) + unat (rx_len d) < 4294967296"
  shows "rx_ready fd (rx_exchange s d buf e)"
    and "payload (rx_exchange s d buf e) = map (\<lambda>i. buf (unat (rx_start d) + 2 + i)) [0..<unat (rx_len d) - 4]"
proof -
  note st = rx_exchange_state [OF assms(1-3), of d buf]
  have n: "unat (rx_len d - 4) = unat (rx_len d) - 4" using assms(4) by (simp add: unat_sub word_le_nat_alt)
  have b: "unat (rx_start d + 2) = unat (rx_start d) + 2" using assms(4,5) by (subst unat_add32) auto
  show "rx_ready fd (rx_exchange s d buf e)"
    using assms n b byte_or_flag by (auto simp: rx_ready_def st rx_listening_def)
  show "payload (rx_exchange s d buf e) = map (\<lambda>i. buf (unat (rx_start d) + 2 + i)) [0..<unat (rx_len d) - 4]"
    using n b by (simp add: payload_def st)
qed

section \<open>The driver between calls\<close>

text \<open>
  The driver as a state machine: between calls interrupts happen, a call runs to its end with
  the interrupts that happen meanwhile.
\<close>

inductive econet_step :: "econet \<Rightarrow> econet \<Rightarrow> bool" where
  interrupt: "econet_step e (econet_happens v e)"
| ioctl: "fd < MAX_FILE_DESCRIPTORS \<Longrightarrow> econet_ioctl fd request ptr e = Inr (rc, out, e') \<Longrightarrow> econet_step e e'"
| read: "fd < MAX_FILE_DESCRIPTORS \<Longrightarrow> econet_read fd buf evs e = Inr (rc, buf', evs', e') \<Longrightarrow> econet_step e e'"
| send: "fd < MAX_FILE_DESCRIPTORS \<Longrightarrow> econet_write fd bs evs e = Inr (rc, evs', e') \<Longrightarrow> econet_step e e'"
| close: "fd < MAX_FILE_DESCRIPTORS \<Longrightarrow> econet_close fd e = (rc, e') \<Longrightarrow> econet_step e e'"

definition econet_tables :: "econet \<Rightarrow> bool" where
  "econet_tables e \<longleftrightarrow> length (econet_port_list e) = 256 \<and> length (fd_rx_portmap e) = MAX_FILE_DESCRIPTORS \<and>
     length (fd_tx_destmap e) = MAX_FILE_DESCRIPTORS \<and> unat (pending_port e) < 256 \<and> handshake_state e \<le> STATE_TXDATA"

text \<open>Between calls no transmission of ours is in progress.\<close>

definition econet_inv :: "econet \<Rightarrow> bool" where
  "econet_inv e \<longleftrightarrow> econet_tables e \<and> handshake_state e < STATE_TXSCOUT"

lemma econet_happens_tables:
  assumes "econet_tables e"
  shows "econet_tables (econet_happens v e)"
    and "handshake_state e < STATE_TXSCOUT \<Longrightarrow> handshake_state (econet_happens v e) < STATE_TXSCOUT"
proof -
  have *: "econet_tables (econet_happens v e) \<and>
    (handshake_state e < STATE_TXSCOUT \<longrightarrow> handshake_state (econet_happens v e) < STATE_TXSCOUT)"
    using assms
  proof (induction v)
    case (Frame f buf)
    then show ?case
      by (auto simp: econet_tables_def econet_rx_def econet_rx_monitor_def scout_ack_def econet_rx_imm_def
          data_ack_def rx_scout_ack_def rx_data_ack_def tx_error_def econet_ack_def tx_go_def tx_put_def Let_def
          split: if_splits)
  next
    case Timer
    then show ?case by (auto simp: econet_tables_def econet_timeout_def)
  next
    case (Line s)
    then show ?case by (auto simp: econet_tables_def)
  qed simp
  show "econet_tables (econet_happens v e)" using * by blast
  show "handshake_state e < STATE_TXSCOUT \<Longrightarrow> handshake_state (econet_happens v e) < STATE_TXSCOUT"
    using * by blast
qed

lemma econet_wait_tables:
  "econet_tables e \<Longrightarrow> econet_wait busy evs e = Inr (evs', e') \<Longrightarrow>
   econet_tables e' \<and> \<not> busy e' \<and> (handshake_state e < STATE_TXSCOUT \<longrightarrow> handshake_state e' < STATE_TXSCOUT)"
proof (induction busy evs e rule: econet_wait.induct)
  case (2 busy v vs e)
  then show ?case using econet_happens_tables [OF "2.prems"(1)] by (auto split: if_splits)
qed (auto split: if_splits)

lemma econet_happens_inv: "econet_inv e \<Longrightarrow> econet_inv (econet_happens v e)"
  using econet_happens_tables [of e v] by (simp add: econet_inv_def)

lemma econet_window_inv: "econet_inv e \<Longrightarrow> econet_window evs e = (evs', e') \<Longrightarrow> econet_inv e'"
  by (induction evs e rule: econet_window.induct)
    (auto simp: econet_happens_inv split: econet_event.splits nat.splits)

lemma econet_wait_inv: "econet_inv e \<Longrightarrow> econet_wait busy evs e = Inr (evs', e') \<Longrightarrow> econet_inv e'"
  using econet_wait_tables [of e busy evs evs' e'] by (simp add: econet_inv_def)

lemma rx_copy_inv: "econet_inv e \<Longrightarrow> rx_copy start n evs e = (bs, evs', e') \<Longrightarrow> econet_inv e'"
proof (induction n arbitrary: start evs e bs)
  case (Suc n)
  then show ?case by (auto simp: Let_def dest: econet_window_inv split: prod.splits)
qed simp

lemma rx_take_inv:
  assumes "econet_inv e" and "rx_take buf evs e = Inr (n, buf', evs', e')"
  shows "econet_inv e'"
proof -
  obtain evs1 e1 evs2 e2 evs3 e3 where w: "econet_window evs e = (evs1, e1)" "econet_window evs1 e1 = (evs2, e2)" "econet_window evs2 e2 = (evs3, e3)"
    by fastforce
  have "econet_inv e3" using assms(1) w by (blast dest: econet_window_inv)
  moreover obtain st k bs evs4 e4 where "rx_copy st k evs3 e3 = (bs, evs4, e4)" "econet_window evs4 e4 = (evs', e')"
    using assms(2) w by (auto simp: rx_take_def Let_def split: prod.splits if_splits)
  ultimately show ?thesis by (blast dest: rx_copy_inv econet_window_inv)
qed

lemma rx_advance_inv:
  assumes "econet_inv e" and "rx_advance n fin evs e = (evs', e')" and "\<And>e. econet_inv e \<Longrightarrow> econet_inv (fin e)"
  shows "econet_inv e'"
proof -
  obtain evs1 e1 where w: "econet_window evs e = (evs1, e1)" by fastforce
  then have "econet_inv e1" using assms(1) by (rule econet_window_inv [rotated])
  then show ?thesis using assms(2) assms(3) [of e1] w by (auto simp: rx_advance_def econet_inv_def econet_tables_def)
qed

lemma econet_write_tables:
  assumes "econet_inv e" and "econet_write fd bs evs e = Inr (rc, evs', e')"
  shows "econet_inv e'"
proof -
  let ?e1 = "e\<lparr>econet_tx_status := 0, econet_timeout_state := 0\<rparr>"
  let ?d = "fd_tx_destmap e ! fd"
  have t1: "econet_inv ?e1" using assms(1) by (simp add: econet_inv_def econet_tables_def)
  show ?thesis
  proof (cases "ECONET_TXBUFSZ - 8 < length bs \<or> ea_station ?d = 0")
    case True
    then show ?thesis using assms t1 by (auto simp: econet_write_def Let_def split: if_splits)
  next
    case False
    then obtain evs2 e2 where w: "econet_wait (\<lambda>e. ec_status e AND 3 \<noteq> 0 \<or> STATE_WAITSCOUT < handshake_state e) evs ?e1 = Inr (evs2, e2)"
      using assms(2) by (auto simp: econet_write_def Let_def bindE_Inr_iff)
    obtain evs3 e3 where v: "econet_window evs2 e2 = (evs3, e3)" by fastforce
    have e3: "econet_inv e3" using t1 w v by (blast dest: econet_wait_inv econet_window_inv)
    obtain e4 evs5 e5 where x: "econet_start_tx ?d bs e3 = Inr e4" "econet_wait tx_waiting evs3 e4 = Inr (evs5, e5)"
      and e': "e' = snd (econet_window evs5 e5)"
      using assms(2) False w v by (auto simp: econet_write_def bindE_Inr_iff split_beta)
    have "econet_tables e4" using e3 x(1)
      by (auto simp: econet_inv_def econet_tables_def econet_start_tx_def tx_setup_def tx_go_def tx_put_def Let_def split: if_splits)
    then have "econet_inv e5" using econet_wait_tables [OF _ x(2)] by (simp add: econet_inv_def not_le)
    then show ?thesis using e' by (metis econet_window_inv prod.collapse)
  qed
qed

lemma econet_read_tables:
  assumes "econet_inv e" and "econet_read fd buf evs e = Inr (rc, buf', evs', e')"
  shows "econet_inv e'"
proof -
  consider "e' = e" | busy evs1 e1 n evs2 e2 fin where "econet_wait busy evs e = Inr (evs1, e1)"
      "rx_take buf evs1 e1 = Inr (n, buf', evs2, e2)" "rx_advance n fin evs2 e2 = (evs', e')"
      "\<And>e. econet_inv e \<Longrightarrow> econet_inv (fin e)"
  proof -
    have fin: "econet_inv e \<Longrightarrow> econet_inv (e\<lparr>last_monitor_frames := f\<rparr>)"
      "econet_inv e \<Longrightarrow> econet_inv (e\<lparr>econet_port_list := (econet_port_list e)[p := v]\<rparr>)" for e f p v
      by (simp_all add: econet_inv_def econet_tables_def)
    show thesis using assms(2) that fin
      by (auto simp: econet_read_def econet_monitor_def Let_def bindE_Inr_iff split: if_splits prod.splits)
  qed
  then show ?thesis
  proof cases
    case 2
    then have "econet_inv e2" using assms(1) by (blast dest: econet_wait_inv rx_take_inv)
    then show ?thesis using 2(3,4) by (rule rx_advance_inv)
  qed (use assms in simp)
qed

text \<open>The invariant holds of the state a call returns, whichever branch it takes.\<close>

definition inv_result :: "fault + (int \<times> byte list \<times> econet) \<Rightarrow> bool" where
  "inv_result r \<longleftrightarrow> (\<forall>rc out e'. r = Inr (rc, out, e') \<longrightarrow> econet_inv e')"

lemma inv_result_simps:
  "inv_result (Inl x)" "inv_result (Inr (rc, out, e)) \<longleftrightarrow> econet_inv e"
  by (simp_all add: inv_result_def)

lemma inv_result_if: "inv_result a \<Longrightarrow> inv_result b \<Longrightarrow> inv_result (if c then a else b)"
  by simp

lemma econet_ioctl_tables:
  assumes e: "econet_inv e" and r: "econet_ioctl fd request ptr e = Inr (rc, out, e')"
  shows "econet_inv e'"
proof -
  have set: "econet_inv (econet_set_addr a e)" "econet_inv (econet_set_rx_port fd p e)"
    "econet_inv (econet_set_tx_addr fd d e)" "econet_inv (econet_set_clkterm a e)"
    "econet_inv (e\<lparr>econet_monitor_frames := 0, last_monitor_frames := 0, ec_mon := m\<rparr>)" for a p d m
    using e by (simp_all add: econet_inv_def econet_tables_def econet_set_addr_def econet_set_rx_port_def
        econet_set_tx_addr_def econet_set_clkterm_def)
  have dest: "inv_result (case ptr of p # n # s # _ \<Rightarrow>
      Inr (0, [], econet_set_tx_addr fd \<lparr>ea_port = p, ea_net = n, ea_station = s\<rparr> e) | _ \<Rightarrow> Inl Out_Of_Bounds)"
    by (simp add: inv_result_simps set split: list.split)
  have "inv_result (econet_ioctl fd request ptr e)"
    unfolding econet_ioctl_def Let_def
    by (intro inv_result_if dest inv_result_simps(2) [THEN iffD2] set e)
  then show ?thesis using r by (simp add: inv_result_def)
qed

lemma econet_step_inv: "econet_step e e' \<Longrightarrow> econet_inv e \<Longrightarrow> econet_inv e'"
proof (induction rule: econet_step.induct)
  case (interrupt e v)
  then show ?case using econet_happens_tables [of e v] by (simp add: econet_inv_def)
next
  case (send fd bs evs e rc evs' e')
  then show ?case by (blast intro: econet_write_tables)
next
  case (close fd e rc e')
  then show ?case by (auto simp: econet_close_def econet_inv_def econet_tables_def Let_def split: if_splits)
qed (auto intro: econet_read_tables econet_ioctl_tables)

section \<open>Properties\<close>

text \<open>A driver with descriptor 3 listening on port 0x99 and 4 on port 0x90, both sending to station 7.\<close>

definition econet_demo :: econet where
  "econet_demo = \<lparr>handshake_state = 0, pending_port = 0, econet_buf_start = 0, econet_buf_len = 0, econet_tx_start = 0,
     econet_tx_end = 0, econet_tx_status = 0, econet_timeout_state = 0, econet_monitor_frames = 0,
     econet_port_list = (replicate 256 0)[0x99 := 3, 0x90 := 4], fd_rx_portmap = (replicate 16 0)[3 := 0x99, 4 := 0x90],
     fd_tx_destmap = replicate 16 \<lparr>ea_port = 0x99, ea_net = 0, ea_station = 7\<rparr>, econet_address = 254,
     last_monitor_frames = 0, ec_mon = 0, ec_status = 0, ec_timer = None, ec_clkterm = 0,
     ec_rxbuf = (\<lambda>i. 0), ec_txbuf = (\<lambda>i. 0), ec_sent = []\<rparr>"

definition demo_frame :: "u32 \<Rightarrow> byte \<Rightarrow> rx_frame" where
  "demo_frame n port = \<lparr>rx_start = 0, rx_len = n, rx_replyaddr = 7, rx_port = port, rx_flag = 0x80\<rparr>"

lemma demo_listening: "rx_listening 3 0x99 econet_demo" "rx_listening 4 0x90 econet_demo"
  by (simp_all add: rx_listening_def econet_demo_def)

lemma demo_tx_idle: "tx_idle 3 econet_demo"
  by (simp add: tx_idle_def econet_demo_def)

text \<open>C4: The outcome of a transmission of at most 2036 bytes, the room the transmit buffer has for data, is
  decided by the interrupts that come after the scout frame, when none falls into the few steps between
  a waiting loop and what follows it: an acknowledged scout sends the data frame, an acknowledged
  data frame returns the byte count; no answer to the scout returns \<open>-EHOSTUNREACH\<close>, no answer to the data or a
  malformed acknowledgement \<open>-ETIMEDOUT\<close>; with neither answer nor timeout the call waits. Exactly the
  scout and, once it was acknowledged, the data frame have been sent, with the addresses and bytes of the caller.\<close>

theorem econet_write_outcome:
  assumes "tx_ready fd bs e" and "in_waits evs"
  shows "case scout_outcome (length bs) evs of
      None \<Rightarrow> econet_write fd bs evs e = Inl Blocks_Forever
    | Some (rc, sent) \<Rightarrow> \<exists>evs' e'. econet_write fd bs evs e = Inr (rc, evs', e') \<and>
        ec_sent e' = ec_sent e @ scout_bytes (fd_tx_destmap e ! fd) (econet_address e) #
          (if sent then [data_bytes (fd_tx_destmap e ! fd) (econet_address e) bs] else [])"
proof -
  let ?d = "fd_tx_destmap e ! fd"
  let ?e1 = "e\<lparr>econet_tx_status := 0, econet_timeout_state := 0\<rparr>"
  let ?e = "tx_setup ?d bs ?e1"
  have idle: "tx_idle fd e" and len: "length bs \<le> 2036" using assms(1) by (simp_all add: tx_ready_def)
  have st: "handshake_state ?e = STATE_TXSCOUT" "ec_timer ?e \<noteq> None" "ec_mon ?e = 0"
      "econet_tx_status ?e = 0" "econet_timeout_state ?e = 0"
    using idle by (simp_all add: tx_setup_def tx_go_def tx_put_def Let_def tx_idle_def)
  have fr: "ec_sent ?e = ec_sent e @ [scout_bytes ?d (econet_address e)]"
      "map (ec_txbuf ?e) [unat (econet_tx_start ?e)..<unat (econet_tx_end ?e) + 1] = data_bytes ?d (econet_address e) bs"
    using tx_setup_frames [OF len, of ?d ?e1] by simp_all
  have "econet_write fd bs evs e = bindE (econet_wait tx_waiting evs ?e) (\<lambda>(evs', e'). Inr (tx_return (length bs) e', evs', e'))"
    using econet_write_idle [OF idle assms(2), of bs] len by (simp add: econet_start_tx_def)
  then show ?thesis
    using wait_scout_outcome [OF st fr(2), where n = "length bs" and vs = evs] fr(1)
    by (auto split: option.splits prod.splits)
qed

theorem econet_write_outcome_witness:
  "\<exists>evs' e'. econet_write 3 [1, 2] [Line 2, Frame (demo_frame 6 0) (\<lambda>i. 0), Frame (demo_frame 6 0) (\<lambda>i. 0)] econet_demo
      = Inr (2, evs', e') \<and> ec_sent e' = [[7, 0, 254, 0, 0x80, 0x99], [7, 0, 254, 0, 1, 2]]"
proof -
  have d: "fd_tx_destmap econet_demo ! 3 = \<lparr>ea_port = 0x99, ea_net = 0, ea_station = 7\<rparr>"
      "econet_address econet_demo = 254" "ec_sent econet_demo = []" by (simp_all add: econet_demo_def)
  have b: "scout_bytes \<lparr>ea_port = 0x99, ea_net = 0, ea_station = 7\<rparr> 254 = [7, 0, 254, 0, 0x80, 0x99]"
      "data_bytes \<lparr>ea_port = 0x99, ea_net = 0, ea_station = 7\<rparr> 254 [1, 2] = [7, 0, 254, 0, 1, 2]"
    by (simp_all add: scout_bytes_def data_bytes_def tx_addr_word_def bytes_of_u32_def)
  have "rx_len (demo_frame 6 0) = 6" by (simp add: demo_frame_def)
  then show ?thesis
    using econet_write_outcome [of 3 "[1, 2]" econet_demo "[Line 2, Frame (demo_frame 6 0) (\<lambda>i. 0), Frame (demo_frame 6 0) (\<lambda>i. 0)]"]
      demo_tx_idle by (simp add: d b tx_ready_def in_waits_def)
qed

text \<open>C9: A received data frame reaches its reader whole: after a scout and a data frame for the port
  of a descriptor, both are acknowledged to their sender, and reads of any sizes that add up to
  the frame deliver its bytes in order; the last of them clears the ready flag of the port.\<close>

theorem econet_receive:
  assumes "rx_listening fd port e" and "rx_len s = 8" and "rx_port s = port"
    and "4 \<le> unat (rx_len d)" and "unat (rx_start d) + unat (rx_len d) < 4294967296"
    and "sum_list ks < unat (rx_len d) - 4" and "unat (rx_len d) - 4 \<le> sum_list ks + k"
  shows "\<exists>e'. read_pieces fd (ks @ [k]) (rx_exchange s d buf e) =
      Inr (map (\<lambda>i. buf (unat (rx_start d) + 2 + i)) [0..<unat (rx_len d) - 4], e') \<and>
    econet_port_list e' ! unat port AND 0x80 = 0 \<and>
    ec_sent (rx_exchange s d buf e) = ec_sent e @ [bytes_of_u32 (rx_replyaddr s), bytes_of_u32 (rx_replyaddr d)]"
proof -
  have pm: "fd_rx_portmap (rx_exchange s d buf e) ! fd = port"
    using rx_exchange_state(2) [OF assms(1-3)] assms(1) by (simp add: rx_listening_def)
  have "sum_list ks < length (payload (rx_exchange s d buf e))"
      "length (payload (rx_exchange s d buf e)) \<le> sum_list ks + k"
    using rx_exchange_ready(2) [OF assms(1-5), of buf] assms(6,7) by simp_all
  then show ?thesis
    using read_pieces_payload [OF rx_exchange_ready(1) [OF assms(1-5), of buf], of ks k] pm
      rx_exchange_ready(2) [OF assms(1-5), of buf] rx_exchange_state(8) [OF assms(1-3), of d buf] by auto
qed

theorem econet_receive_witness:
  "\<exists>e'. read_pieces 3 [1, 5] (rx_exchange (demo_frame 8 0x99) (demo_frame 7 0x99) of_nat econet_demo) =
      Inr ([2, 3, 4], e') \<and> econet_port_list e' ! 0x99 AND 0x80 = 0"
  using econet_receive [OF demo_listening(1), of "demo_frame 8 0x99" "demo_frame 7 0x99" "[1]" 5 of_nat]
  by (auto simp: demo_frame_def upt_rec)

text \<open>C18: Between calls the driver is never left in a transmitting state, its tables keep their sizes and
  the port of a pending handshake is a port, whatever interrupts, reads, writes, control requests
  and closes have happened, and in whatever order.\<close>

theorem econet_always_idle:
  assumes "econet_step\<^sup>*\<^sup>* e e'" and "econet_inv e"
  shows "handshake_state e' < STATE_TXSCOUT \<and> econet_tables e'"
  using assms by (induction rule: rtranclp_induct) (auto dest: econet_step_inv simp: econet_inv_def)

theorem econet_always_idle_witness:
  "\<exists>e'. econet_step econet_demo e' \<and> handshake_state e' < STATE_TXSCOUT \<and> econet_tables e'"
proof -
  have "econet_step econet_demo (econet_happens Timer econet_demo)" by (rule econet_step.interrupt)
  moreover have "econet_inv econet_demo" by (simp add: econet_inv_def econet_tables_def econet_demo_def)
  ultimately show ?thesis using econet_always_idle [of econet_demo "econet_happens Timer econet_demo"] by blast
qed

text \<open>There is one receive buffer for all ports: when data for one descriptor has not been read and
  a frame for another port arrives, a read on the first descriptor returns the bytes of the
  second frame.\<close>

theorem econet_pending_overwritten:
  assumes "rx_listening fd p e" and "rx_listening gd q e" and "p \<noteq> q"
    and "rx_len s = 8" "rx_port s = p" and "rx_len t = 8" "rx_port t = q"
    and "4 \<le> unat (rx_len d)" "unat (rx_start d) + unat (rx_len d) < 4294967296"
    and "length buf = unat (rx_len d) - 4"
  shows "\<exists>e'. econet_read fd buf [] (rx_exchange t d second (rx_exchange s d first e)) =
    Inr (int (length buf), map (\<lambda>i. second (unat (rx_start d) + 2 + i)) [0..<length buf], [], e')"
proof -
  let ?e1 = "rx_exchange s d first e" and ?e2 = "rx_exchange t d second (rx_exchange s d first e)"
  note s1 = rx_exchange_state [OF assms(1,4,5), of d first]
  have u: "unat p \<noteq> unat q" using assms(3) word_unat_eq_iff [of p q] by blast
  have l1: "rx_listening gd q ?e1" using assms(1-3) u s1 by (auto simp: rx_listening_def)
  note s2 = rx_exchange_state [OF l1 assms(6,7), of d second]
  have r2: "rx_ready gd ?e2" "payload ?e2 = map (\<lambda>i. second (unat (rx_start d) + 2 + i)) [0..<unat (rx_len d) - 4]"
    using rx_exchange_ready [OF l1 assms(6-9), of second] by auto
  have "rx_ready fd ?e2"
    using r2(1) assms(1) s1 s2 u byte_or_flag by (auto simp: rx_ready_def rx_listening_def)
  then show ?thesis using econet_read_step [of fd ?e2 "[]" buf] r2(2) assms(10) by auto
qed

theorem econet_pending_overwritten_witness:
  "\<exists>e'. econet_read 3 [0, 0] [] (rx_exchange (demo_frame 8 0x90) (demo_frame 6 0) (\<lambda>i. 2)
       (rx_exchange (demo_frame 8 0x99) (demo_frame 6 0) (\<lambda>i. 1) econet_demo)) = Inr (2, [2, 2], [], e')"
  using econet_pending_overwritten [OF demo_listening, of "demo_frame 8 0x99" "demo_frame 8 0x90" "demo_frame 6 0"
      "[0, 0]" "\<lambda>i. 2" "\<lambda>i. 1"]
  by (simp add: demo_frame_def upt_rec)

text \<open>The length of a received frame is read twice, for the comparison with the size of the caller's buffer
  and for its value: a longer frame that is received in between is copied past the end of that buffer.\<close>

lemma econet_read_race:
  "econet_read 3 [0, 0] [Late 1 (Frame (demo_frame 9 0x90) buf)]
     (econet_happens (Frame (demo_frame 8 0x90) buf)
       (rx_exchange (demo_frame 8 0x99) (demo_frame 6 0x99) buf econet_demo)) = Inl Out_Of_Bounds"
proof -
  let ?e1 = "rx_exchange (demo_frame 8 0x99) (demo_frame 6 0x99) buf econet_demo"
  have s: "econet_port_list ?e1 = (econet_port_list econet_demo)[0x99 := 3 OR 0x80]" "fd_rx_portmap ?e1 = fd_rx_portmap econet_demo"
      "ec_mon ?e1 = 0" "handshake_state ?e1 = STATE_WAITSCOUT" "econet_buf_len ?e1 = 2"
    using rx_exchange_state [OF demo_listening(1), of "demo_frame 8 0x99" "demo_frame 6 0x99" buf]
    by (simp_all add: demo_frame_def econet_demo_def)
  have d: "econet_port_list econet_demo = (replicate 256 0)[0x99 := 3, 0x90 := 4]" "fd_rx_portmap econet_demo ! 3 = 0x99"
    by (simp_all add: econet_demo_def)
  have f: "rx_len (demo_frame n p) = n" "rx_port (demo_frame n p) = p" for n p by (simp_all add: demo_frame_def)
  have l: "length (econet_port_list econet_demo) = 256" by (simp add: d)
  let ?e2 = "econet_happens (Frame (demo_frame 8 0x90) buf) ?e1"
  have t: "econet_port_list ?e2 = econet_port_list ?e1" "fd_rx_portmap ?e2 = fd_rx_portmap ?e1" "ec_mon ?e2 = 0"
      "handshake_state ?e2 = STATE_WAITDATA" "econet_buf_len ?e2 = 2"
    using s d by (simp_all add: econet_rx_def scout_ack_def f)
  have u: "econet_buf_len (econet_happens (Frame (demo_frame 9 0x90) buf) ?e2) = 5"
    using t(3,4) by (simp add: econet_rx_def data_ack_def f Let_def)
  have w: "econet_wait (\<lambda>e. econet_port_list e ! 0x99 AND 0x80 = 0) vs ?e2 = Inr (vs, ?e2)" for vs
    using t(1) s(1) l by (intro econet_wait_done) simp
  show ?thesis using t(2,3,5) s(2) d(2) u w
    by (simp add: econet_read_def rx_take_def del: econet_happens.simps)
qed

text \<open>C39: The size check of a write leaves room for eight bytes of header where the data starts at
  offset twelve of the transmit buffer. On an idle line, more than 2040 bytes are refused with \<open>-EMSGSIZE\<close> and
  nothing changes; 2037 to 2040 bytes pass the check and are stored past the end of the 2048-byte
  buffer; up to 2036 bytes stay inside it.\<close>

theorem econet_write_sizes:
  assumes "tx_idle fd e" and "in_waits evs"
  shows "if 2040 < length bs then econet_write fd bs evs e = Inr (- EMSGSIZE, evs, e)
    else if 2036 < length bs then econet_write fd bs evs e = Inl Out_Of_Bounds
    else econet_write fd bs evs e \<noteq> Inl Out_Of_Bounds"
proof -
  have wait: "econet_wait busy vs x \<noteq> Inl Out_Of_Bounds" for busy vs x
    by (induction busy vs x rule: econet_wait.induct) auto
  then have "bindE (econet_wait busy vs x) (\<lambda>(vs', x'). Inr (f vs' x')) \<noteq> Inl Out_Of_Bounds" for busy vs x f
    by (cases "econet_wait busy vs x") auto
  then have "econet_write fd bs evs e \<noteq> Inl Out_Of_Bounds" if "length bs \<le> 2036"
    using that econet_write_idle [OF assms, of bs] by (simp add: econet_start_tx_def)
  moreover have "econet_write fd bs evs e = Inl Out_Of_Bounds" if "2036 < length bs" "length bs \<le> 2040"
    using that econet_write_idle [OF assms, of bs] by (simp add: econet_start_tx_def)
  ultimately show ?thesis by (simp add: econet_write_def)
qed

theorem econet_write_sizes_witness:
  "econet_write 3 (replicate 2037 0) [] econet_demo = Inl Out_Of_Bounds \<and>
   econet_write 3 (replicate 2041 0) [] econet_demo = Inr (- EMSGSIZE, [], econet_demo)"
  using econet_write_sizes [OF demo_tx_idle, of "[]" "replicate 2037 0"] econet_write_sizes [OF demo_tx_idle, of "[]" "replicate 2041 0"]
  by simp

end
