(* ===== verification/BlockDevice.thy ===== *)
theory BlockDevice
  imports FS_Prelude
begin

text \<open>
  The contract between FatFs and the two disks: an array of sectors of 512 bytes that is read and
  written in runs of sectors (the functions \<open>disk_read\<close> and \<open>disk_write\<close> that
  system/diskio.h declares). The contract is the locale \<open>block_device\<close>; the SD card and the
  flash disk are its instances.
\<close>

text \<open>The array after writing the sectors of \<open>buf\<close> from sector \<open>a\<close> on.\<close>

definition blocks_put :: "nat \<Rightarrow> byte list \<Rightarrow> (nat \<Rightarrow> byte list) \<Rightarrow> nat \<Rightarrow> byte list" where
  "blocks_put a buf f = (\<lambda>b. if a \<le> b \<and> b < a + length buf div 512 then take 512 (drop (512 * (b - a)) buf) else f b)"

definition blocks_get :: "nat \<Rightarrow> nat \<Rightarrow> (nat \<Rightarrow> byte list) \<Rightarrow> byte list" where
  "blocks_get a n f = concat (map f [a..<a + n])"

lemma blocks_get_0 [simp]: "blocks_get a 0 f = []"
  by (simp add: blocks_get_def)

lemma blocks_get_Suc: "blocks_get a (Suc n) f = f a @ blocks_get (Suc a) n f"
  by (simp add: blocks_get_def upt_conv_Cons del: upt_Suc)

lemma blocks_put_Nil [simp]: "blocks_put a [] f = f"
  by (rule ext) (auto simp: blocks_put_def)

text \<open>Writing a run is writing its first sector and then the rest.\<close>

lemma blocks_put_step:
  assumes "length buf = 512 * Suc n"
  shows "blocks_put a buf f = blocks_put (Suc a) (drop 512 buf) (f(a := take 512 buf))"
proof
  fix b
  show "blocks_put a buf f b = blocks_put (Suc a) (drop 512 buf) (f(a := take 512 buf)) b"
  proof (cases "Suc a \<le> b")
    case True
    then have "512 * (b - Suc a) + 512 = 512 * (b - a)" by (cases "b - a") auto
    then show ?thesis using True assms by (auto simp: blocks_put_def)
  next
    case False
    then show ?thesis using assms by (auto simp: blocks_put_def)
  qed
qed

lemma blocks_get_put_same:
  "length buf = 512 * n \<Longrightarrow> blocks_get a n (blocks_put a buf f) = buf"
proof (induction n arbitrary: a buf f)
  case (Suc n)
  have "blocks_get (Suc a) n (blocks_put (Suc a) (drop 512 buf) (f(a := take 512 buf))) = drop 512 buf"
    using Suc.prems by (intro Suc.IH) simp
  then show ?case using Suc.prems by (simp add: blocks_put_step [OF Suc.prems] blocks_get_Suc) (simp add: blocks_put_def)
qed simp

lemma blocks_get_put_other:
  "b + n \<le> a \<or> a + length buf div 512 \<le> b \<Longrightarrow> blocks_get b n (blocks_put a buf f) = blocks_get b n f"
  by (auto simp: blocks_get_def blocks_put_def intro!: arg_cong [where f = concat])

text \<open>A sequence of writes, each of whole sectors inside the disk.\<close>

primrec run_writes :: "(nat \<Rightarrow> byte list \<Rightarrow> 's \<Rightarrow> 's option) \<Rightarrow> (nat \<times> byte list) list \<Rightarrow> 's \<Rightarrow> 's option" where
  "run_writes dwrite [] s = Some s"
| "run_writes dwrite (w # ws) s = Option.bind (dwrite (fst w) (snd w) s) (run_writes dwrite ws)"

definition valid_write :: "nat \<Rightarrow> nat \<times> byte list \<Rightarrow> bool" where
  "valid_write capacity w \<longleftrightarrow> 0 < length (snd w) \<and> length (snd w) mod 512 = 0 \<and> fst w + length (snd w) div 512 \<le> capacity"

lemma valid_writeE:
  assumes "valid_write capacity w"
  obtains n where "0 < n" and "length (snd w) = 512 * n" and "fst w + n \<le> capacity"
  using assms by (intro that [of "length (snd w) div 512"]) (auto simp: valid_write_def elim!: dvdE intro!: gr0I)

abbreviation blocks_after :: "(nat \<times> byte list) list \<Rightarrow> (nat \<Rightarrow> byte list) \<Rightarrow> nat \<Rightarrow> byte list" where
  "blocks_after ws f \<equiv> fold (\<lambda>(a, buf). blocks_put a buf) ws f"

section \<open>The contract\<close>

locale block_device =
  fixes dread :: "nat \<Rightarrow> nat \<Rightarrow> 's \<Rightarrow> (byte list \<times> 's) option"
    and dwrite :: "nat \<Rightarrow> byte list \<Rightarrow> 's \<Rightarrow> 's option"
    and ready :: "'s \<Rightarrow> bool"
    and content :: "'s \<Rightarrow> nat \<Rightarrow> byte list"
    and capacity :: nat
  assumes read_content: "ready s \<Longrightarrow> 0 < n \<Longrightarrow> a + n \<le> capacity \<Longrightarrow>
      \<exists>s'. dread a n s = Some (blocks_get a n (content s), s') \<and> ready s' \<and> content s' = content s"
    and write_content: "ready s \<Longrightarrow> 0 < n \<Longrightarrow> a + n \<le> capacity \<Longrightarrow> length buf = 512 * n \<Longrightarrow>
      \<exists>s'. dwrite a buf s = Some s' \<and> ready s' \<and> content s' = blocks_put a buf (content s)"
begin

lemma run_writes_content:
  "ready s \<Longrightarrow> \<forall>w \<in> set ws. valid_write capacity w \<Longrightarrow>
   \<exists>s'. run_writes dwrite ws s = Some s' \<and> ready s' \<and> content s' = blocks_after ws (content s)"
proof (induction ws arbitrary: s)
  case (Cons w ws)
  obtain n where "0 < n" "length (snd w) = 512 * n" "fst w + n \<le> capacity"
    using Cons.prems(2) by (auto elim: valid_writeE)
  then obtain s1 where s1: "dwrite (fst w) (snd w) s = Some s1" "ready s1" "content s1 = blocks_put (fst w) (snd w) (content s)"
    using write_content [OF Cons.prems(1)] by blast
  show ?case using Cons.IH [OF s1(2)] Cons.prems(2) s1 by (auto simp: case_prod_beta)
qed simp

lemma write_then_read:
  assumes "ready s" and "0 < n" and "a + n \<le> capacity" and "length buf = 512 * n"
  shows "\<exists>s' s''. dwrite a buf s = Some s' \<and> dread a n s' = Some (buf, s'')"
proof -
  obtain s' where s': "dwrite a buf s = Some s'" "ready s'" "content s' = blocks_put a buf (content s)"
    using write_content [OF assms] by blast
  then show ?thesis using read_content [OF s'(2) assms(2,3)] assms(4) by (auto simp: blocks_get_put_same)
qed

lemma runs_then_read:
  assumes "ready s" and "\<forall>w \<in> set ws. valid_write capacity w" and "0 < n" and "a + n \<le> capacity"
  shows "\<exists>s' s''. run_writes dwrite ws s = Some s' \<and>
    dread a n s' = Some (blocks_get a n (blocks_after ws (content s)), s'')"
proof -
  obtain s' where "run_writes dwrite ws s = Some s'" "ready s'" "content s' = blocks_after ws (content s)"
    using run_writes_content [OF assms(1,2)] by blast
  then show ?thesis using read_content [of s' n a] assms(3,4) by auto
qed

end

end
