(* ===== verification/SdCard.thy ===== *)
theory SdCard
  imports BlockDevice
begin

text \<open>
  The SD card driver: the SPI-mode command sequences of system/sd\_io.c and the logical sectors of
  system/sd\_ldio.c, which starts at the first partition of the card. The SPI controller with the
  card behind it is the parameter \<open>sd_hw\<close>; what the driver relies on is the hypothesis
  \<open>sd_card\<close>, the SPI-mode protocol of a block-addressed card. The card is an
  instance of the contract \<open>block_device\<close>.
\<close>

section \<open>SPI transfers\<close>

text \<open>
  \<open>spi_set_slave\<close> and \<open>spi_byte\<close> of system/spi.S; the block transfers of the same file shift the
  bytes of memory in address order, in words or bytes depending on the alignment.
\<close>

record 's sd_hw =
  spi_set_slave :: "byte \<Rightarrow> 's \<Rightarrow> 's"
  spi_byte :: "byte \<Rightarrow> 's \<Rightarrow> byte \<times> 's"

primrec spi_write :: "'s sd_hw \<Rightarrow> byte list \<Rightarrow> 's \<Rightarrow> 's" where
  "spi_write hw [] s = s"
| "spi_write hw (b # bs) s = spi_write hw bs (snd (spi_byte hw b s))"

primrec spi_read :: "'s sd_hw \<Rightarrow> nat \<Rightarrow> 's \<Rightarrow> byte list \<times> 's" where
  "spi_read hw 0 s = ([], s)"
| "spi_read hw (Suc n) s =
     (let (b, s1) = spi_byte hw 0xFF s; (bs, s2) = spi_read hw n s1 in (b # bs, s2))"

section \<open>Commands\<close>

record SDCmd =
  sdc_cmd :: byte
  sdc_arg :: "byte list"
  sdc_crc :: byte

definition sdcmd_bytes :: "SDCmd \<Rightarrow> byte list" where
  "sdcmd_bytes c = sdc_cmd c # sdc_arg c @ [sdc_crc c]"

abbreviation SD_SLAVE_ID :: byte where "SD_SLAVE_ID \<equiv> 1"
abbreviation CMD17 :: byte where "CMD17 \<equiv> 0x51"
abbreviation CMD24 :: byte where "CMD24 \<equiv> 0x58"
abbreviation SD_READY :: byte where "SD_READY \<equiv> 0"
abbreviation SD_START_TOKEN :: byte where "SD_START_TOKEN \<equiv> 0xFE"

definition CMD0SEQ :: SDCmd where "CMD0SEQ = \<lparr>sdc_cmd = 0x40, sdc_arg = [0, 0, 0, 0], sdc_crc = 0x95\<rparr>"
definition CMD8SEQ :: SDCmd where "CMD8SEQ = \<lparr>sdc_cmd = 0x48, sdc_arg = [0, 0, 1, 0xAA], sdc_crc = 0x87\<rparr>"
definition CMD55SEQ :: SDCmd where "CMD55SEQ = \<lparr>sdc_cmd = 0x77, sdc_arg = [0, 0, 0, 0], sdc_crc = 0\<rparr>"
definition CMD58SEQ :: SDCmd where "CMD58SEQ = \<lparr>sdc_cmd = 0x7A, sdc_arg = [0, 0, 0, 0], sdc_crc = 0\<rparr>"
definition ACMD41SEQ :: SDCmd where "ACMD41SEQ = \<lparr>sdc_cmd = 0x69, sdc_arg = [0x40, 0, 0, 0], sdc_crc = 0\<rparr>"

text \<open>The block commands \<open>rsb\<close> and \<open>wsb\<close> with their argument filled in.\<close>

definition block_cmd :: "byte \<Rightarrow> u32 \<Rightarrow> SDCmd" where
  "block_cmd op addr = \<lparr>sdc_cmd = op,
     sdc_arg = [ucast (drop_bit 24 addr), ucast (drop_bit 16 addr), ucast (drop_bit 8 addr), ucast addr], sdc_crc = 0\<rparr>"

abbreviation SD_SUCCESS :: int where "SD_SUCCESS \<equiv> 0"
abbreviation SD_IDLEFAIL :: int where "SD_IDLEFAIL \<equiv> - 1"
abbreviation SD_IFCONDFAIL :: int where "SD_IFCONDFAIL \<equiv> - 2"
abbreviation SD_READOCRFAIL :: int where "SD_READOCRFAIL \<equiv> - 3"
abbreviation SD_INITFAIL :: int where "SD_INITFAIL \<equiv> - 5"

text \<open>\<open>while((res1 = spi_byte(0xFF)) == 0xFF) { i++; if(i > 254) break; }\<close>\<close>

function sd_readres1_loop :: "'s sd_hw \<Rightarrow> nat \<Rightarrow> 's \<Rightarrow> byte \<times> 's" where
  "sd_readres1_loop hw i s =
     (let (res1, s1) = spi_byte hw 0xFF s in
      if res1 = 0xFF then if i + 1 > 254 then (res1, s1) else sd_readres1_loop hw (i + 1) s1
      else (res1, s1))"
  by pat_completeness auto
termination
  by (relation "measure (\<lambda>(hw, i, s). 255 - i)") auto

declare sd_readres1_loop.simps [simp del]

definition sd_readres1 :: "'s sd_hw \<Rightarrow> 's \<Rightarrow> byte \<times> 's" where
  "sd_readres1 hw s = sd_readres1_loop hw 0 s"

text \<open>The four data bytes are read only after a good status.\<close>

definition sd_readres37 :: "'s sd_hw \<Rightarrow> 's \<Rightarrow> byte \<times> byte list \<times> 's" where
  "sd_readres37 hw s =
     (let (r1, s1) = sd_readres1 hw s in
      if r1 > 1 then (r1, [], s1) else case spi_read hw 4 s1 of (bs, s2) \<Rightarrow> (r1, bs, s2))"

text \<open>Sending a command and reading its first response byte.\<close>

definition sd_command :: "'s sd_hw \<Rightarrow> SDCmd \<Rightarrow> 's \<Rightarrow> byte \<times> 's" where
  "sd_command hw c s = sd_readres1 hw (spi_write hw (sdcmd_bytes c) s)"

text \<open>
  The initialisation loop, \<open>for(;;) { if(attempts++ > 50) return SD_INITFAIL; ... }\<close>; \<open>None\<close>
  when it gives up. The delay between attempts has no effect on the state.
\<close>

function sd_init_loop :: "'s sd_hw \<Rightarrow> nat \<Rightarrow> 's \<Rightarrow> bool \<times> 's" where
  "sd_init_loop hw attempts s =
     (if attempts > 50 then (False, s)
      else let (rx, s1) = sd_command hw CMD55SEQ s;
               (rx, s2) = (if rx < 2 then sd_command hw ACMD41SEQ s1 else (rx, s1))
           in if rx = SD_READY then (True, s2) else sd_init_loop hw (attempts + 1) s2)"
  by pat_completeness auto
termination
  by (relation "measure (\<lambda>(hw, a, s). 51 - a)") auto

declare sd_init_loop.simps [simp del]

definition sd_init :: "'s sd_hw \<Rightarrow> 's \<Rightarrow> int \<times> 's" where
  "sd_init hw s =
     (let s1 = spi_write hw (replicate 10 0xFF) (spi_set_slave hw SD_SLAVE_ID s);
          (rx, s2) = sd_command hw CMD0SEQ s1
      in if rx \<noteq> 1 then (SD_IDLEFAIL, s2)
      else let (r1, _, s3) = sd_readres37 hw (spi_write hw (sdcmd_bytes CMD8SEQ) s2)
      in if r1 > 1 then (SD_IFCONDFAIL, s3)
      else let (ok, s4) = sd_init_loop hw 0 s3
      in if \<not> ok then (SD_INITFAIL, s4)
      else let (r1, _, s5) = sd_readres37 hw (spi_write hw (sdcmd_bytes CMD58SEQ) s4)
      in if r1 > 1 then (SD_READOCRFAIL, s5) else (SD_SUCCESS, s5))"

section \<open>Blocks\<close>

text \<open>\<open>while(++readAttempts != 65535) if((read = spi_byte(0xFF)) != 0xFF) break;\<close> The value of
  \<open>read\<close> before the loop is never used, because the loop body runs at least once.\<close>

function sd_wait_token :: "'s sd_hw \<Rightarrow> u16 \<Rightarrow> byte \<Rightarrow> 's \<Rightarrow> byte \<times> 's" where
  "sd_wait_token hw readAttempts read s =
     (let n = readAttempts + 1 in
      if n = 65535 then (read, s)
      else let (read, s1) = spi_byte hw 0xFF s in
           if read \<noteq> 0xFF then (read, s1) else sd_wait_token hw n read s1)"
  by pat_completeness auto
termination
proof (relation "measure (\<lambda>(hw, n, r, s). unat (65534 - n))", goal_cases)
  case 1
  then show ?case by simp
next
  case (2 hw readAttempts read s n x s1 y)
  then have "65534 - readAttempts \<noteq> 0" by auto
  then have "unat (65534 - readAttempts - 1) < unat (65534 - readAttempts)" by (rule measure_unat)
  then show ?case using 2 by (simp add: diff_diff_eq)
qed

declare sd_wait_token.simps [simp del]

text \<open>The response, the token and the buffer afterwards.\<close>

definition sd_readsingleblk :: "'s sd_hw \<Rightarrow> u32 \<Rightarrow> byte list \<Rightarrow> 's \<Rightarrow> byte \<times> byte \<times> byte list \<times> 's" where
  "sd_readsingleblk hw addr buf s =
     (let s1 = spi_set_slave hw SD_SLAVE_ID s;
          (rx, s2) = sd_command hw (block_cmd CMD17 addr) s1
      in if rx \<noteq> 0xFF then
           let (read, s3) = sd_wait_token hw 0 0xFF s2
           in if read = 0xFE then
                let (bs, s4) = spi_read hw 512 s3;
                    s5 = snd (spi_byte hw 0xFF (snd (spi_byte hw 0xFF s4)))
                in (rx, read, bs @ drop 512 buf, s5)
              else (rx, read, buf, s3)
         else (rx, 0xFF, buf, s2))"

text \<open>\<open>for(readAttempts = 0; readAttempts < 65535; readAttempts++) ...\<close>\<close>

function sd_wait_response :: "'s sd_hw \<Rightarrow> nat \<Rightarrow> byte \<Rightarrow> 's \<Rightarrow> byte \<times> 's" where
  "sd_wait_response hw readAttempts read s =
     (if readAttempts < 65535 then
        let (read, s1) = spi_byte hw 0xFF s in
        if read \<noteq> 0xFF then (read, s1) else sd_wait_response hw (readAttempts + 1) read s1
      else (read, s))"
  by pat_completeness auto
termination
  by (relation "measure (\<lambda>(hw, n, r, s). 65535 - n)") auto

declare sd_wait_response.simps [simp del]

text \<open>\<open>while(spi_byte(0xFF) == 0x00) if(++readAttempts == 65535) { *token = 0; break; }\<close>;
  \<open>False\<close> when the wait timed out.\<close>

function sd_wait_busy :: "'s sd_hw \<Rightarrow> u16 \<Rightarrow> 's \<Rightarrow> bool \<times> 's" where
  "sd_wait_busy hw readAttempts s =
     (let (b, s1) = spi_byte hw 0xFF s; n = readAttempts + 1 in
      if b = 0 then if n = 65535 then (False, s1) else sd_wait_busy hw n s1 else (True, s1))"
  by pat_completeness auto
termination
proof (relation "measure (\<lambda>(hw, n, s). unat (65534 - n))", goal_cases)
  case 1
  then show ?case by simp
next
  case (2 hw readAttempts s x b s1 n)
  then have "65534 - readAttempts \<noteq> 0" by auto
  then have "unat (65534 - readAttempts - 1) < unat (65534 - readAttempts)" by (rule measure_unat)
  then show ?case using 2 by (simp add: diff_diff_eq)
qed

declare sd_wait_busy.simps [simp del]

text \<open>The token is written only when the card accepted the command.\<close>

definition sd_writesingleblk :: "'s sd_hw \<Rightarrow> u32 \<Rightarrow> byte list \<Rightarrow> 's \<Rightarrow> byte \<times> byte option \<times> 's" where
  "sd_writesingleblk hw addr buf s =
     (let s1 = spi_set_slave hw SD_SLAVE_ID s;
          (rx, s2) = sd_command hw (block_cmd CMD24 addr) s1
      in if rx = SD_READY then
           let s3 = spi_write hw (take 512 buf) (snd (spi_byte hw SD_START_TOKEN s2));
               (read, s4) = sd_wait_response hw 0 0xFF s3;
               token = read AND 0x1F
           in if token = 0x05 then
                let (ok, s5) = sd_wait_busy hw 0 s4 in (rx, Some (if ok then token else 0), s5)
              else (rx, Some token, s4)
         else (rx, None, s2))"

section \<open>Logical sectors\<close>

record sd_part =
  lba_offset :: u32
  lba_sectors :: u32
  sd_status :: byte

datatype DRESULT = RES_OK | RES_ERROR | RES_WRPRT | RES_NOTRDY | RES_PARERR

record PTEntry =
  pt_status :: byte
  starthead :: byte
  startsec :: byte
  startcyl :: byte
  pt_type :: byte
  endhead :: byte
  endsec :: byte
  endcyl :: byte
  startlba :: u32
  sectors :: u32

text \<open>\<open>SET_UINT32\<close>, the little-endian word at an index of a byte buffer.\<close>

definition SET_UINT32 :: "byte list \<Rightarrow> nat \<Rightarrow> u32" where
  "SET_UINT32 bs i = u32_of_bytes (bs ! i) (bs ! (i + 1)) (bs ! (i + 2)) (bs ! (i + 3))"

definition fill_pte :: "byte list \<Rightarrow> PTEntry" where
  "fill_pte p = \<lparr>pt_status = p ! 0, starthead = p ! 1, startsec = p ! 2, startcyl = p ! 3,
     pt_type = p ! 4, endhead = p ! 5, endsec = p ! 6, endcyl = p ! 7,
     startlba = SET_UINT32 p 8, sectors = SET_UINT32 p 12\<rparr>"

text \<open>The contents of \<open>bootsect\<close> before the read are an argument.\<close>

definition sd_readPT :: "'s sd_hw \<Rightarrow> byte list \<Rightarrow> sd_part \<Rightarrow> 's \<Rightarrow> DRESULT \<times> sd_part \<times> 's" where
  "sd_readPT hw bootsect pt s =
     (let (rx, token, buf, s1) = sd_readsingleblk hw 0 bootsect s in
      if token \<noteq> 0xFE \<or> rx > 1 then (RES_ERROR, pt, s1)
      else let pte = fill_pte (drop 0x1BE buf) in
           (RES_OK, pt\<lparr>lba_offset := startlba pte, lba_sectors := sectors pte, sd_status := 0\<rparr>, s1))"

text \<open>The loop of \<open>sd_read\<close>: the bytes of the sectors read so far are returned in order.\<close>

primrec sd_read_loop :: "'s sd_hw \<Rightarrow> nat \<Rightarrow> u32 \<Rightarrow> byte list \<Rightarrow> 's \<Rightarrow> DRESULT \<times> byte list \<times> 's" where
  "sd_read_loop hw 0 phys buf s = (RES_OK, buf, s)"
| "sd_read_loop hw (Suc n) phys buf s =
     (let (rx, token, buf1, s1) = sd_readsingleblk hw phys buf s in
      if token \<noteq> 0xFE \<or> rx > 1 then (RES_ERROR, buf1, s1)
      else let (res, rest, s2) = sd_read_loop hw n (phys + 1) (drop 512 buf1) s1
           in (res, take 512 buf1 @ rest, s2))"

definition sd_read :: "'s sd_hw \<Rightarrow> sd_part \<Rightarrow> byte list \<Rightarrow> u32 \<Rightarrow> u32 \<Rightarrow> 's \<Rightarrow> DRESULT \<times> byte list \<times> 's" where
  "sd_read hw pt buf sector count s = sd_read_loop hw (unat count) (sector + lba_offset pt) buf s"

text \<open>\<open>sd_write\<close> has no return statement after its loop: \<open>None\<close> is a call that returns no value.\<close>

primrec sd_write_loop :: "'s sd_hw \<Rightarrow> nat \<Rightarrow> u32 \<Rightarrow> byte list \<Rightarrow> 's \<Rightarrow> DRESULT option \<times> 's" where
  "sd_write_loop hw 0 phys buf s = (None, s)"
| "sd_write_loop hw (Suc n) phys buf s =
     (let (rx, token, s1) = sd_writesingleblk hw phys buf s in
      if token \<noteq> Some 0x05 \<or> rx \<noteq> 0 then (Some RES_ERROR, s1)
      else sd_write_loop hw n (phys + 1) (drop 512 buf) s1)"

definition sd_write :: "'s sd_hw \<Rightarrow> sd_part \<Rightarrow> byte list \<Rightarrow> u32 \<Rightarrow> u32 \<Rightarrow> 's \<Rightarrow> DRESULT option \<times> 's" where
  "sd_write hw pt buf sector count s = sd_write_loop hw (unat count) (sector + lba_offset pt) buf s"

abbreviation CTRL_SYNC :: byte where "CTRL_SYNC \<equiv> 0"
abbreviation GET_SECTOR_COUNT :: byte where "GET_SECTOR_COUNT \<equiv> 1"
abbreviation GET_SECTOR_SIZE :: byte where "GET_SECTOR_SIZE \<equiv> 2"
abbreviation GET_BLOCK_SIZE :: byte where "GET_BLOCK_SIZE \<equiv> 3"
abbreviation CTRL_TRIM :: byte where "CTRL_TRIM \<equiv> 4"

text \<open>The result and the bytes stored at the start of the caller's buffer.\<close>

definition sd_ioctl :: "sd_part \<Rightarrow> byte \<Rightarrow> DRESULT \<times> byte list" where
  "sd_ioctl pt cmd =
     (if cmd = CTRL_SYNC then (RES_OK, [])
      else if cmd = GET_SECTOR_COUNT then (RES_OK, bytes_of_u32 (lba_sectors pt))
      else if cmd = GET_SECTOR_SIZE then (RES_OK, [0x00, 0x02])
      else if cmd = GET_BLOCK_SIZE then (RES_OK, bytes_of_u32 512)
      else if cmd = CTRL_TRIM then (RES_OK, [])
      else (RES_PARERR, []))"

section \<open>The card the driver expects\<close>

text \<open>
  The SPI-mode protocol of a block-addressed card: the bytes it is about to drive, what it is
  waiting for, its blocks, and the number of ACMD41 commands it still answers with idle.
\<close>

datatype sd_mode = Wait_Cmd "byte list" | Wait_Token nat | Wait_Data nat "byte list" | Wait_Crc nat "byte list" nat

record sdcard =
  sc_out :: "byte list"
  sc_mode :: sd_mode
  sc_blocks :: "nat \<Rightarrow> byte list"
  sc_idle :: nat

definition be32 :: "byte \<Rightarrow> byte \<Rightarrow> byte \<Rightarrow> byte \<Rightarrow> nat" where
  "be32 a b c d = unat (u32_of_bytes d c b a)"

text \<open>The response to a whole command after \<open>d\<close> bytes, and the data after \<open>e\<close> more.\<close>

definition sdcard_command :: "nat \<Rightarrow> nat \<Rightarrow> byte \<Rightarrow> nat \<Rightarrow> sdcard \<Rightarrow> sdcard" where
  "sdcard_command d e op a c =
     (let reply = (\<lambda>bs. c\<lparr>sc_out := replicate d 0xFF @ bs\<rparr>); r1 = (if sc_idle c = 0 then 0 else 1) in
      if op = 0x40 then reply [1]
      else if op = 0x48 then reply [1, 0, 0, 1, 0xAA]
      else if op = 0x77 then reply [r1]
      else if op = 0x69 then (reply [r1])\<lparr>sc_idle := sc_idle c - 1\<rparr>
      else if op = 0x7A then reply [r1, 0xC0, 0xFF, 0x80, 0]
      else if op = 0x51 \<and> sc_idle c = 0 then reply (0 # replicate e 0xFF @ 0xFE # sc_blocks c a @ [0xFF, 0xFF])
      else if op = 0x58 \<and> sc_idle c = 0 then (reply [0])\<lparr>sc_mode := Wait_Token a\<rparr>
      else reply [4])"

definition sdcard_input :: "nat \<Rightarrow> nat \<Rightarrow> byte \<Rightarrow> sdcard \<Rightarrow> sdcard" where
  "sdcard_input d e b c =
     (case sc_mode c of
        Wait_Cmd bs \<Rightarrow>
          if bs = [] \<and> b AND 0xC0 \<noteq> 0x40 then c
          else (case bs of
            [op, a3, a2, a1, a0] \<Rightarrow> sdcard_command d e op (be32 a3 a2 a1 a0) (c\<lparr>sc_mode := Wait_Cmd []\<rparr>)
          | _ \<Rightarrow> c\<lparr>sc_mode := Wait_Cmd (bs @ [b])\<rparr>)
      | Wait_Token a \<Rightarrow> if b = 0xFE then c\<lparr>sc_mode := Wait_Data a []\<rparr> else c
      | Wait_Data a bs \<Rightarrow>
          c\<lparr>sc_mode := (if length bs = 511 then Wait_Crc a (bs @ [b]) 0 else Wait_Data a (bs @ [b]))\<rparr>
      | Wait_Crc a bs n \<Rightarrow>
          if n = 0 then c\<lparr>sc_mode := Wait_Crc a bs 1\<rparr>
          else c\<lparr>sc_mode := Wait_Cmd [], sc_blocks := (sc_blocks c)(a := bs), sc_out := 0xE5 # replicate e 0x00\<rparr>)"

definition sdcard_step :: "nat \<Rightarrow> nat \<Rightarrow> byte \<Rightarrow> sdcard \<Rightarrow> byte \<times> sdcard" where
  "sdcard_step d e b c =
     (case sc_out c of x # xs \<Rightarrow> (x, c\<lparr>sc_out := xs\<rparr>) | [] \<Rightarrow> (0xFF, sdcard_input d e b c))"

text \<open>
  The hardware behaves as a card seen through \<open>A\<close>: a response starts within eight bytes, and a
  data block or the end of the busy signal comes before the driver gives up.
\<close>

definition sd_card :: "'s sd_hw \<Rightarrow> ('s \<Rightarrow> sdcard) \<Rightarrow> bool" where
  "sd_card hw A \<longleftrightarrow>
     (\<forall>s. A (spi_set_slave hw SD_SLAVE_ID s) = A s) \<and>
     (\<forall>b s. \<exists>d e. d \<le> 8 \<and> e < 65534 \<and> sdcard_step d e b (A s) = map_prod id A (spi_byte hw b s))"

definition card_waiting :: "sdcard \<Rightarrow> bool" where
  "card_waiting c \<longleftrightarrow> sc_out c = [] \<and> sc_mode c = Wait_Cmd [] \<and> (\<forall>a. length (sc_blocks c a) = 512)"

definition card_ready :: "sdcard \<Rightarrow> bool" where
  "card_ready c \<longleftrightarrow> card_waiting c \<and> sc_idle c = 0"

section \<open>Driving the card\<close>

lemma card_mode_same: "sc_mode c = m \<Longrightarrow> c\<lparr>sc_mode := m\<rparr> = c"
  by simp

lemma card_out_same: "sc_out c = x \<Longrightarrow> c\<lparr>sc_out := x\<rparr> = c"
  by simp

lemma be32_block_arg:
  "be32 (ucast (drop_bit 24 a)) (ucast (drop_bit 16 a)) (ucast (drop_bit 8 a)) (ucast (a :: u32)) = unat a"
  by (simp add: be32_def u32_of_bytes_of_u32)

locale sd_host =
  fixes hw :: "'s sd_hw" and A :: "'s \<Rightarrow> sdcard"
  assumes card: "sd_card hw A"
begin

lemma select [simp]: "A (spi_set_slave hw SD_SLAVE_ID s) = A s"
  using card by (simp add: sd_card_def)

lemma card_step:
  "\<exists>d e. d \<le> 8 \<and> e < 65534 \<and> sdcard_step d e b (A s) = map_prod id A (spi_byte hw b s)"
  using card unfolding sd_card_def by (elim conjE allE)

lemma byte_out:
  assumes "sc_out (A s) = x # xs"
  obtains s' where "spi_byte hw b s = (x, s')" and "A s' = (A s)\<lparr>sc_out := xs\<rparr>"
proof -
  obtain d e where "sdcard_step d e b (A s) = map_prod id A (spi_byte hw b s)" using card_step by blast
  then show thesis using assms that by (cases "spi_byte hw b s") (auto simp: sdcard_step_def)
qed

lemma byte_in:
  assumes "sc_out (A s) = []"
  obtains d e s' where "d \<le> 8" and "e < 65534" and "spi_byte hw b s = (0xFF, s')" and "A s' = sdcard_input d e b (A s)"
proof -
  obtain d e where "d \<le> 8" "e < 65534" "sdcard_step d e b (A s) = map_prod id A (spi_byte hw b s)"
    using card_step by blast
  then show thesis using assms that by (cases "spi_byte hw b s") (auto simp: sdcard_step_def)
qed

lemma read_out:
  "sc_out (A s) = xs @ ys \<Longrightarrow> \<exists>s'. spi_read hw (length xs) s = (xs, s') \<and> A s' = (A s)\<lparr>sc_out := ys\<rparr>"
proof (induction xs arbitrary: s)
  case Nil
  then show ?case by (simp add: card_out_same)
next
  case (Cons x xs)
  obtain s1 where s1: "spi_byte hw 0xFF s = (x, s1)" "A s1 = (A s)\<lparr>sc_out := xs @ ys\<rparr>"
    using Cons.prems by (metis byte_out append_Cons)
  then have "sc_out (A s1) = xs @ ys" by simp
  from Cons.IH [OF this] show ?case using s1 by (auto simp: Let_def)
qed

lemma res1_out:
  "sc_out (A s) = replicate d 0xFF @ r # ys \<Longrightarrow> r \<noteq> 0xFF \<Longrightarrow> d + i \<le> 254 \<Longrightarrow>
   \<exists>s'. sd_readres1_loop hw i s = (r, s') \<and> A s' = (A s)\<lparr>sc_out := ys\<rparr>"
proof (induction d arbitrary: i s)
  case 0
  then obtain s1 where "spi_byte hw 0xFF s = (r, s1)" "A s1 = (A s)\<lparr>sc_out := ys\<rparr>"
    by (metis byte_out append_Nil replicate_0)
  then show ?case using 0 by (simp add: sd_readres1_loop.simps [of hw i])
next
  case (Suc d)
  then have "sc_out (A s) = 0xFF # replicate d 0xFF @ r # ys" by simp
  then obtain s1 where s1: "spi_byte hw 0xFF s = (0xFF, s1)" "A s1 = (A s)\<lparr>sc_out := replicate d 0xFF @ r # ys\<rparr>"
    by (rule byte_out)
  then have "\<exists>s'. sd_readres1_loop hw (i + 1) s1 = (r, s') \<and> A s' = (A s1)\<lparr>sc_out := ys\<rparr>"
    using Suc.prems by (intro Suc.IH) simp_all
  then show ?case using s1 Suc.prems by (simp add: sd_readres1_loop.simps [of hw i])
qed

lemma token_out:
  "sc_out (A s) = replicate d 0xFF @ r # ys \<Longrightarrow> r \<noteq> 0xFF \<Longrightarrow> unat n + d < 65534 \<Longrightarrow>
   \<exists>s'. sd_wait_token hw n b s = (r, s') \<and> A s' = (A s)\<lparr>sc_out := ys\<rparr>"
proof (induction d arbitrary: n b s)
  case 0
  then have "n + 1 \<noteq> 65535" by (auto simp: eq_diff_eq [symmetric])
  moreover obtain s1 where "spi_byte hw 0xFF s = (r, s1)" "A s1 = (A s)\<lparr>sc_out := ys\<rparr>"
    using 0 by (metis byte_out append_Nil replicate_0)
  ultimately show ?case using 0 by (simp add: sd_wait_token.simps [of hw n])
next
  case (Suc d)
  then have n: "n + 1 \<noteq> 65535" by (auto simp: eq_diff_eq [symmetric])
  have "sc_out (A s) = 0xFF # replicate d 0xFF @ r # ys" using Suc.prems by simp
  then obtain s1 where s1: "spi_byte hw 0xFF s = (0xFF, s1)" "A s1 = (A s)\<lparr>sc_out := replicate d 0xFF @ r # ys\<rparr>"
    by (rule byte_out)
  have "unat (n + 1) = unat n + 1" using Suc.prems by (intro unat_inc16) simp
  then have "\<exists>s'. sd_wait_token hw (n + 1) 0xFF s1 = (r, s') \<and> A s' = (A s1)\<lparr>sc_out := ys\<rparr>"
    using Suc.prems s1 by (intro Suc.IH) simp_all
  then show ?case using s1 n by (simp add: sd_wait_token.simps [of hw n])
qed

lemma busy_out:
  "sc_out (A s) = replicate e 0 \<Longrightarrow> sc_mode (A s) = Wait_Cmd [] \<Longrightarrow> unat n + e < 65535 \<Longrightarrow>
   \<exists>s'. sd_wait_busy hw n s = (True, s') \<and> A s' = (A s)\<lparr>sc_out := []\<rparr>"
proof (induction e arbitrary: n s)
  case 0
  then obtain d e s1 where "spi_byte hw 0xFF s = (0xFF, s1)" "A s1 = sdcard_input d e 0xFF (A s)"
    by (metis byte_in replicate_0)
  then show ?case using 0 by (simp add: sd_wait_busy.simps [of hw n] sdcard_input_def)
next
  case (Suc e)
  then have n: "n + 1 \<noteq> 65535" by (auto simp: eq_diff_eq [symmetric])
  have "sc_out (A s) = 0 # replicate e 0" using Suc.prems by simp
  then obtain s1 where s1: "spi_byte hw 0xFF s = (0, s1)" "A s1 = (A s)\<lparr>sc_out := replicate e 0\<rparr>" by (rule byte_out)
  have "unat (n + 1) = unat n + 1" using Suc.prems by (intro unat_inc16) simp
  then have "\<exists>s'. sd_wait_busy hw (n + 1) s1 = (True, s') \<and> A s' = (A s1)\<lparr>sc_out := []\<rparr>"
    using Suc.prems s1 by (intro Suc.IH) simp_all
  then show ?case using s1 n by (simp add: sd_wait_busy.simps [of hw n])
qed

text \<open>A byte that the card takes in while it has nothing to drive.\<close>

lemma send_in:
  "sc_out (A s) = [] \<Longrightarrow> \<exists>d e. d \<le> 8 \<and> e < 65534 \<and> A (snd (spi_byte hw b s)) = sdcard_input d e b (A s)"
  by (metis byte_in snd_conv)

lemma command_in:
  assumes "sc_out (A s) = []" and "sc_mode (A s) = Wait_Cmd []" and "op AND 0xC0 = 0x40"
  shows "\<exists>d e. d \<le> 8 \<and> e < 65534 \<and>
    A (spi_write hw [op, a3, a2, a1, a0, crc] s) = sdcard_command d e op (be32 a3 a2 a1 a0) (A s)"
proof -
  let ?s1 = "snd (spi_byte hw op s)"
  let ?s2 = "snd (spi_byte hw a3 ?s1)" let ?s3 = "snd (spi_byte hw a2 ?s2)"
  let ?s4 = "snd (spi_byte hw a1 ?s3)" let ?s5 = "snd (spi_byte hw a0 ?s4)"
  have 1: "A ?s1 = (A s)\<lparr>sc_mode := Wait_Cmd [op]\<rparr>" using send_in [of s op] assms by (auto simp: sdcard_input_def)
  have 2: "A ?s2 = (A s)\<lparr>sc_mode := Wait_Cmd [op, a3]\<rparr>" using send_in [of ?s1 a3] 1 assms by (auto simp: sdcard_input_def)
  have 3: "A ?s3 = (A s)\<lparr>sc_mode := Wait_Cmd [op, a3, a2]\<rparr>" using send_in [of ?s2 a2] 2 assms by (auto simp: sdcard_input_def)
  have 4: "A ?s4 = (A s)\<lparr>sc_mode := Wait_Cmd [op, a3, a2, a1]\<rparr>" using send_in [of ?s3 a1] 3 assms by (auto simp: sdcard_input_def)
  have 5: "A ?s5 = (A s)\<lparr>sc_mode := Wait_Cmd [op, a3, a2, a1, a0]\<rparr>" using send_in [of ?s4 a0] 4 assms by (auto simp: sdcard_input_def)
  have out: "sc_out (A ?s5) = []" using 5 assms(1) by simp
  obtain d e where "d \<le> 8" "e < 65534" "A (snd (spi_byte hw crc ?s5)) = sdcard_input d e crc (A ?s5)"
    using send_in [OF out] by blast
  moreover have "sdcard_input d e crc (A ?s5) = sdcard_command d e op (be32 a3 a2 a1 a0) (A s)"
    using 5 assms(2) by (simp add: sdcard_input_def card_mode_same)
  ultimately show ?thesis by (intro exI [of _ d] exI [of _ e]) simp
qed

text \<open>A command whose response is \<open>r\<close> and more bytes.\<close>

lemma command_response:
  assumes "sc_out (A s) = []" and "sc_mode (A s) = Wait_Cmd []" and "sdc_cmd c AND 0xC0 = 0x40"
    and "sdc_arg c = [a3, a2, a1, a0]"
    and "\<And>d e. e < 65534 \<Longrightarrow> \<exists>r ys c'. r \<noteq> 0xFF \<and> P r ys c' \<and>
      sdcard_command d e (sdc_cmd c) (be32 a3 a2 a1 a0) (A s) = c'\<lparr>sc_out := replicate d 0xFF @ r # ys\<rparr>"
  shows "\<exists>r s' ys c'. sd_command hw c s = (r, s') \<and> P r ys c' \<and> A s' = c'\<lparr>sc_out := ys\<rparr>"
proof -
  obtain d e where d: "d \<le> 8" "e < 65534"
    and w: "A (spi_write hw (sdcmd_bytes c) s) = sdcard_command d e (sdc_cmd c) (be32 a3 a2 a1 a0) (A s)"
    using command_in [OF assms(1,2,3), of a3 a2 a1 a0 "sdc_crc c"] assms(4) by (auto simp: sdcmd_bytes_def)
  obtain r ys c' where r: "r \<noteq> 0xFF" "P r ys c'"
    "A (spi_write hw (sdcmd_bytes c) s) = c'\<lparr>sc_out := replicate d 0xFF @ r # ys\<rparr>"
    using assms(5) [OF d(2), of d] w by auto
  then have "\<exists>s'. sd_readres1_loop hw 0 (spi_write hw (sdcmd_bytes c) s) = (r, s') \<and>
      A s' = (A (spi_write hw (sdcmd_bytes c) s))\<lparr>sc_out := ys\<rparr>"
    using d by (intro res1_out [of _ d]) simp_all
  then show ?thesis using r by (auto simp: sd_command_def sd_readres1_def)
qed

lemma data_in:
  "sc_out (A s) = [] \<Longrightarrow> sc_mode (A s) = Wait_Data a pre \<Longrightarrow> length pre + length bs = 512 \<Longrightarrow> bs \<noteq> [] \<Longrightarrow>
   A (spi_write hw bs s) = (A s)\<lparr>sc_mode := Wait_Crc a (pre @ bs) 0\<rparr>"
proof (induction bs arbitrary: pre s)
  case (Cons b bs)
  let ?s1 = "snd (spi_byte hw b s)"
  obtain d e where s1: "A ?s1 = sdcard_input d e b (A s)" using send_in [OF Cons.prems(1), of b] by blast
  show ?case
  proof (cases "bs = []")
    case True
    then show ?thesis using s1 Cons.prems by (simp add: sdcard_input_def)
  next
    case False
    then have m: "A ?s1 = (A s)\<lparr>sc_mode := Wait_Data a (pre @ [b])\<rparr>"
      using s1 Cons.prems by (cases bs) (auto simp: sdcard_input_def)
    then have "A (spi_write hw bs ?s1) = (A ?s1)\<lparr>sc_mode := Wait_Crc a ((pre @ [b]) @ bs) 0\<rparr>"
      using Cons.prems False by (intro Cons.IH) simp_all
    then show ?thesis using m by simp
  qed
qed simp

lemma response_out:
  assumes "sc_out (A s) = []" and "sc_mode (A s) = Wait_Crc a bs 0"
  shows "\<exists>e s'. e < 65534 \<and> sd_wait_response hw 0 b s = (0xE5, s') \<and>
    A s' = (A s)\<lparr>sc_mode := Wait_Cmd [], sc_blocks := (sc_blocks (A s))(a := bs), sc_out := replicate e 0\<rparr>"
proof -
  obtain d e s1 where s1: "spi_byte hw 0xFF s = (0xFF, s1)" "A s1 = sdcard_input d e 0xFF (A s)"
    using byte_in [OF assms(1), of "0xFF"] by metis
  then have a1: "A s1 = (A s)\<lparr>sc_mode := Wait_Crc a bs 1\<rparr>" using assms by (simp add: sdcard_input_def)
  then have "sc_out (A s1) = []" using assms by simp
  then obtain d e s2 where e: "e < 65534" and s2: "spi_byte hw 0xFF s1 = (0xFF, s2)" "A s2 = sdcard_input d e 0xFF (A s1)"
    using byte_in [of s1 "0xFF"] by metis
  then have a2: "A s2 = (A s)\<lparr>sc_mode := Wait_Cmd [], sc_blocks := (sc_blocks (A s))(a := bs), sc_out := 0xE5 # replicate e 0\<rparr>"
    using a1 by (simp add: sdcard_input_def)
  then obtain s3 where s3: "spi_byte hw 0xFF s2 = (0xE5, s3)" "A s3 = (A s2)\<lparr>sc_out := replicate e 0\<rparr>"
    using byte_out [of s2 "0xE5" "replicate e 0" "0xFF"] by auto
  have "sd_wait_response hw 0 b s = (0xE5, s3)"
    using s1(1) s2(1) s3(1) by (simp add: sd_wait_response.simps)
  then show ?thesis using e a2 s3(2) by auto
qed

lemma read_block:
  assumes "card_ready (A s)"
  shows "\<exists>s'. sd_readsingleblk hw a buf s = (0, 0xFE, sc_blocks (A s) (unat a) @ drop 512 buf, s') \<and> A s' = A s"
proof -
  let ?blk = "sc_blocks (A s) (unat a)" let ?s = "spi_set_slave hw SD_SLAVE_ID s"
  let ?P = "\<lambda>r ys c'. r = 0 \<and> c' = A s \<and> (\<exists>e < 65534. ys = replicate e 0xFF @ 0xFE # ?blk @ [0xFF, 0xFF])"
  have w: "sc_out (A s) = []" "sc_mode (A s) = Wait_Cmd []" "length ?blk = 512" "sc_idle (A s) = 0"
    using assms by (simp_all add: card_ready_def card_waiting_def)
  have "\<exists>r s' ys c'. sd_command hw (block_cmd CMD17 a) ?s = (r, s') \<and> ?P r ys c' \<and> A s' = c'\<lparr>sc_out := ys\<rparr>"
    by (rule command_response) (use w in \<open>auto simp: block_cmd_def be32_block_arg sdcard_command_def Let_def\<close>)
  then obtain e s1 where e: "e < 65534" and s1: "sd_command hw (block_cmd CMD17 a) ?s = (0, s1)"
    and a1: "A s1 = (A s)\<lparr>sc_out := replicate e 0xFF @ 0xFE # ?blk @ [0xFF, 0xFF]\<rparr>" by auto
  obtain s2 where s2: "sd_wait_token hw 0 0xFF s1 = (0xFE, s2)" and a2: "A s2 = (A s)\<lparr>sc_out := ?blk @ [0xFF, 0xFF]\<rparr>"
    using token_out [of s1 e "0xFE" "?blk @ [0xFF, 0xFF]" 0 "0xFF"] e a1 by auto
  obtain s3 where s3: "spi_read hw 512 s2 = (?blk, s3)" and a3: "A s3 = (A s)\<lparr>sc_out := [0xFF, 0xFF]\<rparr>"
    using read_out [of s2 ?blk "[0xFF, 0xFF]"] a2 w(3) by auto
  obtain s4 where s4: "spi_byte hw 0xFF s3 = (0xFF, s4)" and a4: "A s4 = (A s)\<lparr>sc_out := [0xFF]\<rparr>"
    using byte_out [of s3 "0xFF" "[0xFF]" "0xFF"] a3 by auto
  obtain s5 where s5: "spi_byte hw 0xFF s4 = (0xFF, s5)" and a5: "A s5 = (A s)\<lparr>sc_out := []\<rparr>"
    using byte_out [of s4 "0xFF" "[]" "0xFF"] a4 by auto
  have "sd_readsingleblk hw a buf s = (0, 0xFE, ?blk @ drop 512 buf, s5)"
    unfolding sd_readsingleblk_def s1 Let_def prod.case using s2 s3 s4 s5 by simp
  then show ?thesis using a5 w(1) by (intro exI [of _ s5]) (simp add: card_out_same)
qed

lemma write_block:
  assumes "card_ready (A s)" and "512 \<le> length buf"
  shows "\<exists>s'. sd_writesingleblk hw a buf s = (0, Some 5, s') \<and>
    A s' = (A s)\<lparr>sc_blocks := (sc_blocks (A s))(unat a := take 512 buf)\<rparr>"
proof -
  let ?s = "spi_set_slave hw SD_SLAVE_ID s" let ?bs = "take 512 buf"
  let ?P = "\<lambda>r ys c'. r = 0 \<and> ys = [] \<and> c' = (A s)\<lparr>sc_mode := Wait_Token (unat a)\<rparr>"
  have w: "sc_out (A s) = []" "sc_mode (A s) = Wait_Cmd []" "sc_idle (A s) = 0"
    using assms by (simp_all add: card_ready_def card_waiting_def)
  have "\<exists>r s' ys c'. sd_command hw (block_cmd CMD24 a) ?s = (r, s') \<and> ?P r ys c' \<and> A s' = c'\<lparr>sc_out := ys\<rparr>"
    by (rule command_response) (use w in \<open>auto simp: block_cmd_def be32_block_arg sdcard_command_def Let_def\<close>)
  then obtain s1 where s1: "sd_command hw (block_cmd CMD24 a) ?s = (0, s1)"
    and a1: "A s1 = (A s)\<lparr>sc_mode := Wait_Token (unat a), sc_out := []\<rparr>" by auto
  let ?s2 = "snd (spi_byte hw SD_START_TOKEN s1)"
  have a2: "A ?s2 = (A s)\<lparr>sc_mode := Wait_Data (unat a) [], sc_out := []\<rparr>"
    using send_in [of s1 SD_START_TOKEN] a1 by (auto simp: sdcard_input_def)
  have a3: "A (spi_write hw ?bs ?s2) = (A s)\<lparr>sc_mode := Wait_Crc (unat a) ?bs 0, sc_out := []\<rparr>"
    using data_in [of ?s2 "unat a" "[]" ?bs] a2 assms(2) by (cases "buf = []") auto
  then obtain e s4 where e: "e < 65534" and s4: "sd_wait_response hw 0 0xFF (spi_write hw ?bs ?s2) = (0xE5, s4)"
    and a4: "A s4 = (A s)\<lparr>sc_mode := Wait_Cmd [], sc_blocks := (sc_blocks (A s))(unat a := ?bs), sc_out := replicate e 0\<rparr>"
    using response_out [of "spi_write hw ?bs ?s2" "unat a" ?bs "0xFF"] by auto
  obtain s5 where s5: "sd_wait_busy hw 0 s4 = (True, s5)" and a5: "A s5 = (A s4)\<lparr>sc_out := []\<rparr>"
    using busy_out [of s4 e 0] a4 e by auto
  have "A s5 = (A s)\<lparr>sc_blocks := (sc_blocks (A s))(unat a := ?bs)\<rparr>" using a5 a4 w by (cases "A s") simp
  then show ?thesis using s1 s4 s5 by (simp add: sd_writesingleblk_def Let_def)
qed

text \<open>A command with a response of one byte, and the commands with five.\<close>

lemma command_short:
  assumes "sc_out (A s) = []" and "sc_mode (A s) = Wait_Cmd []" and "sdc_cmd c AND 0xC0 = 0x40"
    and "sdc_arg c = [a3, a2, a1, a0]" and "r \<noteq> 0xFF"
    and "\<And>d e. sdcard_command d e (sdc_cmd c) (be32 a3 a2 a1 a0) (A s) = c'\<lparr>sc_out := replicate d 0xFF @ [r]\<rparr>"
  shows "\<exists>s'. sd_command hw c s = (r, s') \<and> A s' = c'\<lparr>sc_out := []\<rparr>"
proof -
  have "\<exists>q s' ys c''. sd_command hw c s = (q, s') \<and> (q = r \<and> ys = [] \<and> c'' = c') \<and> A s' = c''\<lparr>sc_out := ys\<rparr>"
    by (rule command_response [OF assms(1-4)]) (use assms(5,6) in auto)
  then show ?thesis by auto
qed

lemma command_long:
  assumes "sc_out (A s) = []" and "sc_mode (A s) = Wait_Cmd []" and "sdc_cmd c AND 0xC0 = 0x40"
    and "sdc_arg c = [a3, a2, a1, a0]" and "r \<le> 1" and "length bs = 4"
    and "\<And>d e. sdcard_command d e (sdc_cmd c) (be32 a3 a2 a1 a0) (A s) = (A s)\<lparr>sc_out := replicate d 0xFF @ r # bs\<rparr>"
  shows "\<exists>s'. sd_readres37 hw (spi_write hw (sdcmd_bytes c) s) = (r, bs, s') \<and> A s' = A s"
proof -
  have ne: "r \<noteq> 0xFF" using assms(5) by (auto simp: word_le_nat_alt)
  have "\<exists>q s' ys c'. sd_command hw c s = (q, s') \<and> (q = r \<and> ys = bs \<and> c' = A s) \<and> A s' = c'\<lparr>sc_out := ys\<rparr>"
    by (rule command_response [OF assms(1-4)]) (use ne assms(7) in auto)
  then obtain s1 where s1: "sd_readres1 hw (spi_write hw (sdcmd_bytes c) s) = (r, s1)" and a1: "A s1 = (A s)\<lparr>sc_out := bs\<rparr>"
    by (auto simp: sd_command_def)
  obtain s2 where s2: "spi_read hw 4 s1 = (bs, s2)" and a2: "A s2 = (A s)\<lparr>sc_out := []\<rparr>"
    using read_out [of s1 bs "[]"] a1 assms(6) by auto
  have "sd_readres37 hw (spi_write hw (sdcmd_bytes c) s) = (r, bs, s2)"
    unfolding sd_readres37_def s1 Let_def prod.case using s2 assms(5) by (simp add: not_less [symmetric])
  then show ?thesis using a2 assms(1) by (intro exI [of _ s2]) (simp add: card_out_same)
qed

lemma send_idle: "card_waiting (A s) \<Longrightarrow> A (spi_write hw (replicate n 0xFF) s) = A s"
proof (induction n arbitrary: s)
  case (Suc n)
  have "A (snd (spi_byte hw 0xFF s)) = A s"
    using send_in [of s "0xFF"] Suc.prems by (auto simp: card_waiting_def sdcard_input_def)
  then show ?case using Suc by simp
qed simp

lemma init_round:
  assumes "card_waiting (A s)"
  shows "\<exists>s1 s2 r. sd_command hw CMD55SEQ s = (r, s1) \<and> r < 2 \<and>
    sd_command hw ACMD41SEQ s1 = (if sc_idle (A s) = 0 then 0 else 1, s2) \<and>
    A s2 = (A s)\<lparr>sc_idle := sc_idle (A s) - 1\<rparr>"
proof -
  let ?r = "if sc_idle (A s) = 0 then 0 else 1 :: byte"
  have w: "sc_out (A s) = []" "sc_mode (A s) = Wait_Cmd []" using assms by (simp_all add: card_waiting_def)
  have ne: "?r \<noteq> 0xFF" by simp
  obtain s1 where s1: "sd_command hw CMD55SEQ s = (?r, s1)" and a1: "A s1 = (A s)\<lparr>sc_out := []\<rparr>"
    using command_short [of s CMD55SEQ 0 0 0 0 ?r "A s"] w ne by (auto simp: CMD55SEQ_def sdcard_command_def Let_def)
  have a1': "A s1 = A s" using a1 w(1) by (simp add: card_out_same)
  obtain s2 where s2: "sd_command hw ACMD41SEQ s1 = (?r, s2)" and a2: "A s2 = (A s)\<lparr>sc_idle := sc_idle (A s) - 1, sc_out := []\<rparr>"
    using command_short [of s1 ACMD41SEQ "0x40" 0 0 0 ?r "(A s)\<lparr>sc_idle := sc_idle (A s) - 1\<rparr>"] w a1' ne
    by (auto simp: ACMD41SEQ_def sdcard_command_def Let_def)
  have "A s2 = (A s)\<lparr>sc_idle := sc_idle (A s) - 1\<rparr>" using a2 w(1) by (cases "A s") simp
  then show ?thesis using s1 s2 by (intro exI [of _ s1] exI [of _ s2] exI [of _ ?r]) simp
qed

lemma init_attempts:
  "card_waiting (A s) \<Longrightarrow> a \<le> 51 \<Longrightarrow>
   \<exists>s'. sd_init_loop hw a s = (sc_idle (A s) + a \<le> 50, s') \<and> A s' = (A s)\<lparr>sc_idle := sc_idle (A s) - (51 - a)\<rparr>"
proof (induction "51 - a" arbitrary: a s)
  case 0
  then show ?case by (simp add: sd_init_loop.simps [of hw 51])
next
  case (Suc k)
  obtain s1 s2 r where r: "sd_command hw CMD55SEQ s = (r, s1)" "r < 2"
    "sd_command hw ACMD41SEQ s1 = (if sc_idle (A s) = 0 then 0 else 1, s2)"
    and a2: "A s2 = (A s)\<lparr>sc_idle := sc_idle (A s) - 1\<rparr>"
    using init_round [OF Suc.prems(1)] by blast
  have "a \<le> 50" using Suc.hyps(2) by simp
  have loop: "sd_init_loop hw a s = (if sc_idle (A s) = 0 then (True, s2) else sd_init_loop hw (a + 1) s2)"
    using r \<open>a \<le> 50\<close> by (subst sd_init_loop.simps) (simp split: if_splits)
  show ?case
  proof (cases "sc_idle (A s) = 0")
    case True
    then show ?thesis using loop a2 Suc.hyps(2) by simp
  next
    case False
    have "\<exists>s'. sd_init_loop hw (a + 1) s2 = (sc_idle (A s2) + (a + 1) \<le> 50, s') \<and>
        A s' = (A s2)\<lparr>sc_idle := sc_idle (A s2) - (51 - (a + 1))\<rparr>"
      using Suc.hyps(2) Suc.prems a2 by (intro Suc.hyps(1)) (simp_all add: card_waiting_def)
    then show ?thesis using False loop a2 Suc.hyps(2) by auto
  qed
qed

lemma init_card:
  assumes "card_waiting (A s)"
  shows "\<exists>s'. sd_init hw s = (if sc_idle (A s) \<le> 50 then SD_SUCCESS else SD_INITFAIL, s') \<and>
    A s' = (A s)\<lparr>sc_idle := sc_idle (A s) - 51\<rparr>"
proof -
  let ?s0 = "spi_set_slave hw SD_SLAVE_ID s" let ?s1 = "spi_write hw (replicate 10 0xFF) ?s0"
  have a1: "A ?s1 = A s" using send_idle [of ?s0 10] assms by simp
  have w: "sc_out (A s) = []" "sc_mode (A s) = Wait_Cmd []" using assms by (simp_all add: card_waiting_def)
  obtain s2 where s2: "sd_command hw CMD0SEQ ?s1 = (1, s2)" and "A s2 = (A s)\<lparr>sc_out := []\<rparr>"
    using command_short [of ?s1 CMD0SEQ 0 0 0 0 1 "A s"] w a1 by (auto simp: CMD0SEQ_def sdcard_command_def Let_def)
  then have a2: "A s2 = A s" using w(1) by (simp add: card_out_same)
  obtain s3 where s3: "sd_readres37 hw (spi_write hw (sdcmd_bytes CMD8SEQ) s2) = (1, [0, 0, 1, 0xAA], s3)" and a3: "A s3 = A s"
    using command_long [of s2 CMD8SEQ 0 0 1 "0xAA" 1 "[0, 0, 1, 0xAA]"] w a2
    by (auto simp: CMD8SEQ_def sdcard_command_def Let_def)
  obtain s4 where s4: "sd_init_loop hw 0 s3 = (sc_idle (A s) \<le> 50, s4)" and a4: "A s4 = (A s)\<lparr>sc_idle := sc_idle (A s) - 51\<rparr>"
    using init_attempts [of s3 0] a3 assms by auto
  show ?thesis
  proof (cases "sc_idle (A s) \<le> 50")
    case True
    obtain s5 where s5: "sd_readres37 hw (spi_write hw (sdcmd_bytes CMD58SEQ) s4) = (0, [0xC0, 0xFF, 0x80, 0], s5)" and "A s5 = A s4"
      using command_long [of s4 CMD58SEQ 0 0 0 0 0 "[0xC0, 0xFF, 0x80, 0]"] w a4 True
      by (auto simp: CMD58SEQ_def sdcard_command_def Let_def)
    then show ?thesis using s2 s3 s4 s5 a4 True by (simp add: sd_init_def Let_def)
  next
    case False
    then show ?thesis using s2 s3 s4 a4 by (simp add: sd_init_def Let_def)
  qed
qed

lemma ready_waiting: "card_ready c \<Longrightarrow> card_waiting c"
  by (simp add: card_ready_def)

lemma ready_blocks: "card_ready c \<Longrightarrow> (\<And>a. length (f a) = 512) \<Longrightarrow> card_ready (c\<lparr>sc_blocks := f\<rparr>)"
  by (simp add: card_ready_def card_waiting_def)

lemma read_sectors:
  "card_ready (A s) \<Longrightarrow> length buf = 512 * n \<Longrightarrow> unat a + n \<le> 4294967296 \<Longrightarrow>
   \<exists>s'. sd_read_loop hw n a buf s = (RES_OK, blocks_get (unat a) n (sc_blocks (A s)), s') \<and> A s' = A s"
proof (induction n arbitrary: a buf s)
  case (Suc n)
  let ?blk = "sc_blocks (A s) (unat a)"
  obtain s1 where s1: "sd_readsingleblk hw a buf s = (0, 0xFE, ?blk @ drop 512 buf, s1)" "A s1 = A s"
    using read_block [OF Suc.prems(1)] by blast
  have blk: "length ?blk = 512" using Suc.prems(1) by (simp add: card_ready_def card_waiting_def)
  show ?case
  proof (cases "n = 0")
    case True
    then show ?thesis using s1 blk Suc.prems(2) by (simp add: blocks_get_Suc)
  next
    case False
    then have "unat (a + 1) = Suc (unat a)" using Suc.prems(3) by (subst unat_add32) simp_all
    moreover from this have "\<exists>s'. sd_read_loop hw n (a + 1) (drop 512 buf) s1 =
        (RES_OK, blocks_get (unat (a + 1)) n (sc_blocks (A s1)), s') \<and> A s' = A s1"
      using Suc.prems s1 by (intro Suc.IH) simp_all
    ultimately show ?thesis using s1 blk by (auto simp: blocks_get_Suc)
  qed
qed simp

lemma write_sectors:
  "card_ready (A s) \<Longrightarrow> length buf = 512 * n \<Longrightarrow> unat a + n \<le> 4294967296 \<Longrightarrow>
   \<exists>s'. sd_write_loop hw n a buf s = (None, s') \<and> card_ready (A s') \<and> sc_blocks (A s') = blocks_put (unat a) buf (sc_blocks (A s))"
proof (induction n arbitrary: a buf s)
  case (Suc n)
  have len: "512 \<le> length buf" using Suc.prems by simp
  obtain s1 where s1: "sd_writesingleblk hw a buf s = (0, Some 5, s1)"
    and a1: "A s1 = (A s)\<lparr>sc_blocks := (sc_blocks (A s))(unat a := take 512 buf)\<rparr>"
    using write_block [OF Suc.prems(1) len] by blast
  have r1: "card_ready (A s1)"
    using Suc.prems(1) len unfolding a1 by (intro ready_blocks) (auto simp: card_ready_def card_waiting_def)
  show ?case
  proof (cases "n = 0")
    case True
    then show ?thesis using s1 a1 r1 Suc.prems(2) by (auto simp: blocks_put_step [OF Suc.prems(2)] fun_eq_iff)
  next
    case False
    then have "unat (a + 1) = Suc (unat a)" using Suc.prems(3) by (subst unat_add32) simp_all
    moreover from this have "\<exists>s'. sd_write_loop hw n (a + 1) (drop 512 buf) s1 = (None, s') \<and> card_ready (A s') \<and>
        sc_blocks (A s') = blocks_put (unat (a + 1)) (drop 512 buf) (sc_blocks (A s1))"
      using Suc.prems r1 by (intro Suc.IH) simp_all
    ultimately show ?thesis using s1 a1 by (auto simp: blocks_put_step [OF Suc.prems(2)])
  qed
qed simp

end

section \<open>The partition as a block device\<close>

text \<open>
  The driver's sector operations on the card as a disk: an error result is a failed operation. A
  write that stored its sectors counts as done, although \<open>sd_write\<close> returns no value then.
\<close>

definition sd_disk_read :: "'s sd_hw \<Rightarrow> sd_part \<Rightarrow> nat \<Rightarrow> nat \<Rightarrow> 's \<Rightarrow> (byte list \<times> 's) option" where
  "sd_disk_read hw pt a n s =
     (case sd_read hw pt (replicate (512 * n) 0) (of_nat a) (of_nat n) s of
        (RES_OK, bs, s') \<Rightarrow> Some (bs, s') | _ \<Rightarrow> None)"

definition sd_disk_write :: "'s sd_hw \<Rightarrow> sd_part \<Rightarrow> nat \<Rightarrow> byte list \<Rightarrow> 's \<Rightarrow> 's option" where
  "sd_disk_write hw pt a buf s =
     (case sd_write hw pt buf (of_nat a) (of_nat (length buf div 512)) s of (None, s') \<Rightarrow> Some s' | _ \<Rightarrow> None)"

text \<open>The sectors of the partition.\<close>

definition sd_view :: "('s \<Rightarrow> sdcard) \<Rightarrow> sd_part \<Rightarrow> 's \<Rightarrow> nat \<Rightarrow> byte list" where
  "sd_view A pt s = (\<lambda>a. sc_blocks (A s) (unat (lba_offset pt) + a))"

lemma blocks_get_shift: "blocks_get a n (\<lambda>b. f (k + b)) = blocks_get (k + a) n f"
  by (induction n arbitrary: a) (simp_all add: blocks_get_Suc)

lemma blocks_put_shift: "(\<lambda>b. blocks_put (k + a) buf f (k + b)) = blocks_put a buf (\<lambda>b. f (k + b))"
  by (rule ext) (simp add: blocks_put_def)

locale sd_disk = sd_host hw A for hw :: "'s sd_hw" and A +
  fixes pt :: sd_part and capacity :: nat
  assumes part: "unat (lba_offset pt) + capacity < 4294967296"

sublocale sd_disk \<subseteq> block_device "sd_disk_read hw pt" "sd_disk_write hw pt" "\<lambda>s. card_ready (A s)" "sd_view A pt" capacity
proof
  fix s n a
  assume s: "card_ready (A s)" and n: "0 < n" "a + n \<le> capacity"
  have u: "unat (of_nat a + lba_offset pt) = unat (lba_offset pt) + a"
    using part n by (subst unat_add32) simp_all
  have un: "unat (of_nat n :: u32) = n" using part n by simp
  show "\<exists>s'. sd_disk_read hw pt a n s = Some (blocks_get a n (sd_view A pt s), s') \<and> card_ready (A s') \<and> sd_view A pt s' = sd_view A pt s"
    using read_sectors [OF s, of "replicate (512 * n) 0" n "of_nat a + lba_offset pt"] part n s u un
    by (auto simp: sd_disk_read_def sd_read_def sd_view_def blocks_get_shift)
next
  fix s n a and buf :: "byte list"
  assume s: "card_ready (A s)" and n: "0 < n" "a + n \<le> capacity" and len: "length buf = 512 * n"
  have u: "unat (of_nat a + lba_offset pt) = unat (lba_offset pt) + a"
    using part n by (subst unat_add32) simp_all
  have un: "unat (of_nat n :: u32) = n" using part n by simp
  show "\<exists>s'. sd_disk_write hw pt a buf s = Some s' \<and> card_ready (A s') \<and> sd_view A pt s' = blocks_put a buf (sd_view A pt s)"
    using write_sectors [OF s len, of "of_nat a + lba_offset pt"] part n s u un len
    by (auto simp: sd_disk_write_def sd_write_def sd_view_def blocks_put_shift [symmetric])
qed

context sd_disk
begin

lemmas sectors_array = runs_then_read

end

section \<open>A reference card\<close>

text \<open>Hardware that answers after two bytes and has the data ready three bytes later.\<close>

definition ref_sd :: "sdcard sd_hw" where
  "ref_sd = \<lparr>spi_set_slave = \<lambda>n c. c, spi_byte = sdcard_step 2 3\<rparr>"

definition ref_part :: sd_part where
  "ref_part = \<lparr>lba_offset = 2048, lba_sectors = 4096, sd_status = 0\<rparr>"

definition ref_card :: sdcard where
  "ref_card = \<lparr>sc_out = [], sc_mode = Wait_Cmd [], sc_blocks = (\<lambda>a. replicate 512 0), sc_idle = 7\<rparr>"

lemma ref_sd_card: "sd_card ref_sd id"
  unfolding sd_card_def
proof (intro conjI allI)
  show "\<exists>d e. d \<le> 8 \<and> e < 65534 \<and> sdcard_step d e b (id s) = map_prod id id (spi_byte ref_sd b s)" for b s
    by (rule exI [of _ 2], rule exI [of _ 3]) (simp add: ref_sd_def map_prod.id)
qed (simp add: ref_sd_def)

interpretation ref_disk: sd_disk ref_sd id ref_part 4096
  by unfold_locales (simp_all add: ref_sd_card ref_part_def)

section \<open>Properties\<close>

text \<open>C35: Initialisation of an SD card: on a card that follows the SPI-mode protocol, \<open>sd_init\<close>
  succeeds exactly when the card leaves its idle state within the fifty-one attempts of the loop;
  the card is then ready for block transfers with its contents unchanged, and otherwise the result
  is \<open>SD_INITFAIL\<close>.\<close>

theorem sd_init_correct:
  assumes "sd_card hw A" and "card_waiting (A s)"
  shows "\<exists>s'. sd_init hw s = (if sc_idle (A s) \<le> 50 then SD_SUCCESS else SD_INITFAIL, s') \<and>
    sc_blocks (A s') = sc_blocks (A s) \<and> card_ready (A s') = (sc_idle (A s) \<le> 51)"
proof -
  from sd_host.init_card [OF sd_host.intro [OF assms(1)] assms(2)] obtain s' where
    "sd_init hw s = (if sc_idle (A s) \<le> 50 then SD_SUCCESS else SD_INITFAIL, s')"
    "A s' = (A s)\<lparr>sc_idle := sc_idle (A s) - 51\<rparr>" by blast
  then show ?thesis using assms(2) by (intro exI [of _ s']) (auto simp: card_ready_def card_waiting_def)
qed

theorem sd_init_correct_witness: "\<exists>s'. sd_init ref_sd ref_card = (SD_SUCCESS, s') \<and> card_ready s'"
  using sd_init_correct [OF ref_sd_card, of ref_card] by (auto simp: ref_card_def card_waiting_def)

text \<open>C34: Sectors of the SD card: on a ready card, any sequence of sector writes inside the
  partition followed by a read of any run of its sectors gives exactly the array of sectors
  that the writes describe, the sectors not written keeping their contents.\<close>

theorem sd_sectors_array:
  assumes "sd_card hw A" and "unat (lba_offset pt) + capacity < 4294967296" and "card_ready (A s)"
    and "\<forall>w \<in> set ws. valid_write capacity w" and "0 < n" and "a + n \<le> capacity"
  shows "\<exists>s' s''. run_writes (sd_disk_write hw pt) ws s = Some s' \<and>
    sd_disk_read hw pt a n s' = Some (blocks_get a n (blocks_after ws (sd_view A pt s)), s'')"
proof -
  have "sd_disk hw A pt capacity" using assms(1,2) by (simp add: sd_disk_def sd_host_def sd_disk_axioms_def)
  then show ?thesis using assms(3-6) by (rule sd_disk.sectors_array)
qed

theorem sd_sectors_array_witness:
  "\<exists>s' s''. run_writes (sd_disk_write ref_sd ref_part) [(5, replicate 1024 7), (6, replicate 512 9)] (ref_card\<lparr>sc_idle := 0\<rparr>) = Some s' \<and>
    sd_disk_read ref_sd ref_part 5 2 s' = Some (replicate 512 7 @ replicate 512 9, s'')"
proof -
  have "card_ready (id (ref_card\<lparr>sc_idle := 0\<rparr>))" by (simp add: ref_card_def card_ready_def card_waiting_def)
  moreover have "\<forall>w \<in> set [(5, replicate 1024 7), (6, replicate 512 (9 :: byte))]. valid_write 4096 w"
    by (simp add: valid_write_def)
  ultimately have "\<exists>s' s''. run_writes (sd_disk_write ref_sd ref_part) [(5, replicate 1024 7), (6, replicate 512 9)] (ref_card\<lparr>sc_idle := 0\<rparr>) = Some s' \<and>
    sd_disk_read ref_sd ref_part 5 2 s' = Some (blocks_get 5 2 (blocks_after [(5, replicate 1024 7), (6, replicate 512 9)] (sd_view id ref_part (ref_card\<lparr>sc_idle := 0\<rparr>))), s'')"
    by (intro sd_sectors_array [where capacity = 4096, OF ref_sd_card]) (simp_all add: ref_part_def)
  moreover have "blocks_get 5 2 (blocks_after [(5, replicate 1024 7), (6, replicate 512 9)] f) = replicate 512 7 @ replicate 512 (9 :: byte)" for f
    by (simp add: blocks_get_def upt_rec blocks_put_def)
  ultimately show ?thesis by simp
qed

end
