(* ===== verification/FileIO.thy ===== *)
theory FileIO
  imports SpiFlash Console RawEconet SdCard
begin

text \<open>
  The kernel state and the file layer on top of FatFs: system/file.c (open files),
  system/directory.c (directory handles), system/file\_ops.c (operations on paths) and the error
  translation and mounting of system/mount.c. FatFs itself is a parameter: the record \<open>fatfs\<close>
  of its API functions, each of which may call back into the kernel (mounting the flash volume
  opens the flash device), so that it acts on the whole kernel state.
\<close>

section \<open>The kernel state\<close>

text \<open>
  \<open>'f\<close> is the hardware of the flash device, \<open>'l\<close> a FatFs file object (FIL), \<open>'d\<close> a directory
  object (DIR), \<open>'v\<close> the state FatFs keeps of its volumes, \<open>'s\<close> the SD card.
\<close>

record 'd DIRHND =
  dh_open :: bool
  dh_dir :: 'd

record ('f, 'l, 'd, 'v, 's) kernel =
  k_fdtab :: fdtab
  k_console :: console
  k_led :: rgbled
  k_flash :: "'f flash_dev"
  k_econet :: econet
  k_events :: "econet_event list"
  k_fhnd :: "'l list"
  k_dhnd :: "'d DIRHND list"
  k_flash_fd :: int
  k_vols :: 'v
  k_sdpart :: sd_part
  k_sd :: 's

section \<open>FatFs\<close>

datatype FRESULT = FR_OK | FR_DISK_ERR | FR_INT_ERR | FR_NOT_READY | FR_NO_FILE | FR_NO_PATH
  | FR_INVALID_NAME | FR_DENIED | FR_EXIST | FR_INVALID_OBJECT | FR_WRITE_PROTECTED
  | FR_INVALID_DRIVE | FR_NOT_ENABLED | FR_NO_FILESYSTEM | FR_MKFS_ABORTED | FR_TIMEOUT
  | FR_LOCKED | FR_NOT_ENOUGH_CORE | FR_TOO_MANY_OPEN_FILES | FR_INVALID_PARAMETER

fun fresult_num :: "FRESULT \<Rightarrow> int" where
  "fresult_num FR_OK = 0" | "fresult_num FR_DISK_ERR = 1" | "fresult_num FR_INT_ERR = 2"
| "fresult_num FR_NOT_READY = 3" | "fresult_num FR_NO_FILE = 4" | "fresult_num FR_NO_PATH = 5"
| "fresult_num FR_INVALID_NAME = 6" | "fresult_num FR_DENIED = 7" | "fresult_num FR_EXIST = 8"
| "fresult_num FR_INVALID_OBJECT = 9" | "fresult_num FR_WRITE_PROTECTED = 10"
| "fresult_num FR_INVALID_DRIVE = 11" | "fresult_num FR_NOT_ENABLED = 12"
| "fresult_num FR_NO_FILESYSTEM = 13" | "fresult_num FR_MKFS_ABORTED = 14"
| "fresult_num FR_TIMEOUT = 15" | "fresult_num FR_LOCKED = 16" | "fresult_num FR_NOT_ENOUGH_CORE = 17"
| "fresult_num FR_TOO_MANY_OPEN_FILES = 18" | "fresult_num FR_INVALID_PARAMETER = 19"

record FILINFO =
  fi_fsize :: u32
  fi_fattrib :: byte
  fi_fname :: string

record ('f, 'l, 'd, 'v, 's) fatfs =
  f_open :: "'l \<Rightarrow> string \<Rightarrow> byte \<Rightarrow> ('f, 'l, 'd, 'v, 's) kernel \<Rightarrow> fault + (FRESULT \<times> 'l \<times> ('f, 'l, 'd, 'v, 's) kernel)"
  f_read :: "'l \<Rightarrow> byte list \<Rightarrow> ('f, 'l, 'd, 'v, 's) kernel \<Rightarrow> fault + (FRESULT \<times> byte list \<times> u32 \<times> 'l \<times> ('f, 'l, 'd, 'v, 's) kernel)"
  f_write :: "'l \<Rightarrow> byte list \<Rightarrow> ('f, 'l, 'd, 'v, 's) kernel \<Rightarrow> fault + (FRESULT \<times> u32 \<times> 'l \<times> ('f, 'l, 'd, 'v, 's) kernel)"
  f_close :: "'l \<Rightarrow> ('f, 'l, 'd, 'v, 's) kernel \<Rightarrow> fault + (FRESULT \<times> 'l \<times> ('f, 'l, 'd, 'v, 's) kernel)"
  f_lseek :: "'l \<Rightarrow> u32 \<Rightarrow> ('f, 'l, 'd, 'v, 's) kernel \<Rightarrow> fault + (FRESULT \<times> 'l \<times> ('f, 'l, 'd, 'v, 's) kernel)"
  f_tell :: "'l \<Rightarrow> u32"
  f_size :: "'l \<Rightarrow> u32"
  f_opendir :: "'d \<Rightarrow> string \<Rightarrow> ('f, 'l, 'd, 'v, 's) kernel \<Rightarrow> fault + (FRESULT \<times> 'd \<times> ('f, 'l, 'd, 'v, 's) kernel)"
  f_closedir :: "'d \<Rightarrow> ('f, 'l, 'd, 'v, 's) kernel \<Rightarrow> fault + (FRESULT \<times> 'd \<times> ('f, 'l, 'd, 'v, 's) kernel)"
  f_readdir :: "'d \<Rightarrow> ('f, 'l, 'd, 'v, 's) kernel \<Rightarrow> fault + (FRESULT \<times> FILINFO \<times> 'd \<times> ('f, 'l, 'd, 'v, 's) kernel)"
  f_stat :: "string \<Rightarrow> ('f, 'l, 'd, 'v, 's) kernel \<Rightarrow> fault + (FRESULT \<times> FILINFO \<times> ('f, 'l, 'd, 'v, 's) kernel)"
  f_unlink :: "string \<Rightarrow> ('f, 'l, 'd, 'v, 's) kernel \<Rightarrow> fault + (FRESULT \<times> ('f, 'l, 'd, 'v, 's) kernel)"
  f_mkdir :: "string \<Rightarrow> ('f, 'l, 'd, 'v, 's) kernel \<Rightarrow> fault + (FRESULT \<times> ('f, 'l, 'd, 'v, 's) kernel)"
  f_chdir :: "string \<Rightarrow> ('f, 'l, 'd, 'v, 's) kernel \<Rightarrow> fault + (FRESULT \<times> ('f, 'l, 'd, 'v, 's) kernel)"
  f_mount :: "nat option \<Rightarrow> string \<Rightarrow> byte \<Rightarrow> ('f, 'l, 'd, 'v, 's) kernel \<Rightarrow> fault + (FRESULT \<times> ('f, 'l, 'd, 'v, 's) kernel)"

section \<open>Error translation\<close>

abbreviation EFATFS_START :: int where "EFATFS_START \<equiv> 2001"

definition fatfs_to_errno :: "FRESULT \<Rightarrow> int" where
  "fatfs_to_errno res =
     (case res of
        FR_OK \<Rightarrow> 0
      | FR_DISK_ERR \<Rightarrow> - EIO
      | FR_NO_FILE \<Rightarrow> - ENOENT
      | FR_NO_PATH \<Rightarrow> - ENOENT
      | FR_NOT_ENOUGH_CORE \<Rightarrow> - ENOMEM
      | FR_TOO_MANY_OPEN_FILES \<Rightarrow> - EMFILE
      | FR_EXIST \<Rightarrow> - EEXIST
      | FR_WRITE_PROTECTED \<Rightarrow> - EROFS
      | _ \<Rightarrow> - (fresult_num res + EFATFS_START))"

section \<open>Open files\<close>

abbreviation FREAD :: u32 where "FREAD \<equiv> 0x0001"
abbreviation FWRITE :: u32 where "FWRITE \<equiv> 0x0002"
abbreviation FAPPEND :: u32 where "FAPPEND \<equiv> 0x0008"
abbreviation FCREAT :: u32 where "FCREAT \<equiv> 0x0200"
abbreviation FTRUNC :: u32 where "FTRUNC \<equiv> 0x0400"
abbreviation FA_READ :: byte where "FA_READ \<equiv> 0x01"
abbreviation FA_WRITE :: byte where "FA_WRITE \<equiv> 0x02"
abbreviation FA_CREATE_ALWAYS :: byte where "FA_CREATE_ALWAYS \<equiv> 0x08"
abbreviation FA_OPEN_APPEND :: byte where "FA_OPEN_APPEND \<equiv> 0x30"

text \<open>The translation of the open flags.\<close>

definition fatfs_flags :: "u32 \<Rightarrow> byte" where
  "fatfs_flags fl =
     (if (fl + 1) AND FREAD \<noteq> 0 then FA_READ else 0) OR
     (if (fl + 1) AND FWRITE \<noteq> 0 then FA_WRITE else 0) OR
     (if fl AND FAPPEND \<noteq> 0 then FA_OPEN_APPEND else 0) OR
     (if fl AND FCREAT \<noteq> 0 then FA_CREATE_ALWAYS else 0) OR
     (if fl AND FTRUNC \<noteq> 0 then FA_CREATE_ALWAYS else 0)"

text \<open>\<open>&fhnd[fd - MIN_FD_NUMBER]\<close>\<close>

definition get_fhnd :: "int \<Rightarrow> ('f, 'l, 'd, 'v, 's) kernel \<Rightarrow> fault + 'l" where
  "get_fhnd fd k =
     (let i = fd - MIN_FD_NUMBER in
      if 0 \<le> i \<and> nat i < length (k_fhnd k) then Inr (k_fhnd k ! nat i) else Inl Out_Of_Bounds)"

definition put_fhnd :: "int \<Rightarrow> 'l \<Rightarrow> ('f, 'l, 'd, 'v, 's) kernel \<Rightarrow> ('f, 'l, 'd, 'v, 's) kernel" where
  "put_fhnd fd fp k = k\<lparr>k_fhnd := (k_fhnd k)[nat (fd - MIN_FD_NUMBER) := fp]\<rparr>"

definition init_fileio :: "'l \<Rightarrow> ('f, 'l, 'd, 'v, 's) kernel \<Rightarrow> ('f, 'l, 'd, 'v, 's) kernel" where
  "init_fileio zero k = k\<lparr>k_fhnd := replicate MAX_FD_COUNT zero\<rparr>"

definition fileio_open ::
  "('f, 'l, 'd, 'v, 's) fatfs \<Rightarrow> string \<Rightarrow> u32 \<Rightarrow> ('f, 'l, 'd, 'v, 's) kernel
    \<Rightarrow> fault + (int \<times> ('f, 'l, 'd, 'v, 's) kernel)" where
  "fileio_open ff path fl k =
     (case fd_alloc (k_fdtab k) of
        None \<Rightarrow> Inr (- EMFILE, k)
      | Some (i, tab) \<Rightarrow>
          let fdnum = int i;
              k1 = k\<lparr>k_fdtab := tab[i := (tab ! i)\<lparr>fd_fdfunc := Some Fileio_func\<rparr>]\<rparr>
          in bindE (get_fhnd fdnum k1) (\<lambda>fp.
             bindE (f_open ff fp path (fatfs_flags fl) k1) (\<lambda>(res, fp1, k2).
             let k3 = put_fhnd fdnum fp1 k2 in
             if res = FR_OK then Inr (fdnum, k3)
             else Inr (fatfs_to_errno res, k3\<lparr>k_fdtab := fd_dealloc i (k_fdtab k3)\<rparr>))))"

definition fileio_read ::
  "('f, 'l, 'd, 'v, 's) fatfs \<Rightarrow> int \<Rightarrow> byte list \<Rightarrow> ('f, 'l, 'd, 'v, 's) kernel
    \<Rightarrow> fault + (int \<times> byte list \<times> ('f, 'l, 'd, 'v, 's) kernel)" where
  "fileio_read ff fd buf k =
     bindE (get_fhnd fd k) (\<lambda>fp.
     bindE (f_read ff fp buf k) (\<lambda>(res, buf1, n, fp1, k1).
     Inr (if res = FR_OK then sint n else fatfs_to_errno res, buf1, put_fhnd fd fp1 k1)))"

definition fileio_write ::
  "('f, 'l, 'd, 'v, 's) fatfs \<Rightarrow> int \<Rightarrow> byte list \<Rightarrow> ('f, 'l, 'd, 'v, 's) kernel
    \<Rightarrow> fault + (int \<times> ('f, 'l, 'd, 'v, 's) kernel)" where
  "fileio_write ff fd buf k =
     bindE (get_fhnd fd k) (\<lambda>fp.
     bindE (f_write ff fp buf k) (\<lambda>(res, n, fp1, k1).
     Inr (if res = FR_OK then sint n else fatfs_to_errno res, put_fhnd fd fp1 k1)))"

definition fileio_close ::
  "('f, 'l, 'd, 'v, 's) fatfs \<Rightarrow> int \<Rightarrow> ('f, 'l, 'd, 'v, 's) kernel \<Rightarrow> fault + (int \<times> ('f, 'l, 'd, 'v, 's) kernel)" where
  "fileio_close ff fd k =
     bindE (get_fhnd fd k) (\<lambda>fp.
     bindE (f_close ff fp k) (\<lambda>(res, fp1, k1). Inr (fatfs_to_errno res, put_fhnd fd fp1 k1)))"

definition fileio_lseek ::
  "('f, 'l, 'd, 'v, 's) fatfs \<Rightarrow> int \<Rightarrow> u32 \<Rightarrow> int \<Rightarrow> ('f, 'l, 'd, 'v, 's) kernel
    \<Rightarrow> fault + (int \<times> ('f, 'l, 'd, 'v, 's) kernel)" where
  "fileio_lseek ff fd offset whence k =
     bindE (get_fhnd fd k) (\<lambda>fp.
     let target = (if whence = SEEK_CUR then f_tell ff fp + offset
                   else if whence = SEEK_END then f_size ff fp + offset else offset) in
     bindE (f_lseek ff fp target k) (\<lambda>(res, fp1, k1).
     Inr (if res = FR_OK then sint (f_tell ff fp1) else fatfs_to_errno res, put_fhnd fd fp1 k1)))"

abbreviation S_IFREG :: u32 where "S_IFREG \<equiv> 0x8000"
abbreviation S_IFDIR :: u32 where "S_IFDIR \<equiv> 0x4000"
abbreviation S_IRUSR :: u32 where "S_IRUSR \<equiv> 0x0100"
abbreviation S_IWUSR :: u32 where "S_IWUSR \<equiv> 0x0080"

definition fileio_fstat ::
  "('f, 'l, 'd, 'v, 's) fatfs \<Rightarrow> int \<Rightarrow> ('f, 'l, 'd, 'v, 's) kernel \<Rightarrow> fault + (int \<times> stat_buf)" where
  "fileio_fstat ff fd k =
     bindE (get_fhnd fd k) (\<lambda>fp. Inr (0, \<lparr>st_mode = S_IFREG, st_size = f_size ff fp, st_nlink = 0\<rparr>))"

section \<open>Directories\<close>

abbreviation MAX_DHND :: nat where "MAX_DHND \<equiv> 8"

definition init_dirs :: "'d DIRHND list \<Rightarrow> 'd DIRHND list" where
  "init_dirs l = map (\<lambda>h. h\<lparr>dh_open := False\<rparr>) l"

text \<open>The search for a free handle; the handle is marked open only when the directory was opened.\<close>

definition dhnd_alloc :: "'d DIRHND list \<Rightarrow> (nat \<times> 'd DIRHND list) option" where
  "dhnd_alloc l =
     (case for_find (\<lambda>i. \<not> dh_open (l ! i)) 0 MAX_DHND of
        Some i \<Rightarrow> Some (i, l[i := (l ! i)\<lparr>dh_open := True\<rparr>])
      | None \<Rightarrow> None)"

definition dhnd_free :: "nat \<Rightarrow> 'd DIRHND list \<Rightarrow> 'd DIRHND list" where
  "dhnd_free i l = l[i := (l ! i)\<lparr>dh_open := False\<rparr>]"

definition put_dir :: "nat \<Rightarrow> 'd \<Rightarrow> ('f, 'l, 'd, 'v, 's) kernel \<Rightarrow> ('f, 'l, 'd, 'v, 's) kernel" where
  "put_dir i d k = k\<lparr>k_dhnd := (k_dhnd k)[i := (k_dhnd k ! i)\<lparr>dh_dir := d\<rparr>]\<rparr>"

definition SYS_opendir ::
  "('f, 'l, 'd, 'v, 's) fatfs \<Rightarrow> string \<Rightarrow> ('f, 'l, 'd, 'v, 's) kernel \<Rightarrow> fault + (int \<times> ('f, 'l, 'd, 'v, 's) kernel)" where
  "SYS_opendir ff path k =
     (case dhnd_alloc (k_dhnd k) of
        None \<Rightarrow> Inr (- ENFILE, k)
      | Some (i, _) \<Rightarrow>
          bindE (f_opendir ff (dh_dir (k_dhnd k ! i)) path k) (\<lambda>(res, d, k1).
          let k2 = put_dir i d k1 in
          if res = FR_OK
          then Inr (int i, k2\<lparr>k_dhnd := (k_dhnd k2)[i := (k_dhnd k2 ! i)\<lparr>dh_open := True\<rparr>]\<rparr>)
          else Inr (fatfs_to_errno res, k2)))"

text \<open>Reading \<open>dhnd[dh]\<close>; the check of \<open>dh\<close> before it admits 8 and negative numbers.\<close>

definition dhnd_entry :: "int \<Rightarrow> ('f, 'l, 'd, 'v, 's) kernel \<Rightarrow> fault + 'd DIRHND" where
  "dhnd_entry dh k =
     (if 0 \<le> dh \<and> nat dh < length (k_dhnd k) then Inr (k_dhnd k ! nat dh) else Inl Out_Of_Bounds)"

definition SYS_closedir ::
  "('f, 'l, 'd, 'v, 's) fatfs \<Rightarrow> int \<Rightarrow> ('f, 'l, 'd, 'v, 's) kernel \<Rightarrow> fault + (int \<times> ('f, 'l, 'd, 'v, 's) kernel)" where
  "SYS_closedir ff dh k =
     (if int MAX_DHND < dh then Inr (- EMFILE, k)
      else bindE (dhnd_entry dh k) (\<lambda>h.
        if \<not> dh_open h then Inr (- EBADF, k)
        else bindE (f_closedir ff (dh_dir h) k) (\<lambda>(res, d, k1).
          let k2 = put_dir (nat dh) d k1 in
          Inr (fatfs_to_errno res,
               if res = FR_OK then k2\<lparr>k_dhnd := dhnd_free (nat dh) (k_dhnd k2)\<rparr> else k2))))"

record dirent =
  d_name :: string
  d_isdir :: bool
  d_size :: u32

abbreviation AM_RDO :: byte where "AM_RDO \<equiv> 0x01"
abbreviation AM_DIR :: byte where "AM_DIR \<equiv> 0x10"

text \<open>\<open>strlcpy\<close> into the 256 bytes of \<open>d_name\<close> keeps at most 255 characters.\<close>

definition dirent_of :: "FILINFO \<Rightarrow> dirent" where
  "dirent_of fno = \<lparr>d_name = take 255 (fi_fname fno), d_isdir = (fi_fattrib fno AND AM_DIR \<noteq> 0), d_size = fi_fsize fno\<rparr>"

definition SYS_readdir ::
  "('f, 'l, 'd, 'v, 's) fatfs \<Rightarrow> int \<Rightarrow> dirent \<Rightarrow> ('f, 'l, 'd, 'v, 's) kernel
    \<Rightarrow> fault + (int \<times> dirent \<times> ('f, 'l, 'd, 'v, 's) kernel)" where
  "SYS_readdir ff dh d k =
     (if int MAX_DHND < dh then Inr (- EMFILE, d, k)
      else bindE (dhnd_entry dh k) (\<lambda>h.
        if \<not> dh_open h then Inr (- EBADF, d, k)
        else bindE (f_readdir ff (dh_dir h) k) (\<lambda>(res, fno, dir, k1).
          Inr (fatfs_to_errno res, if res = FR_OK then dirent_of fno else d, put_dir (nat dh) dir k1))))"

section \<open>Operations on paths\<close>

definition path_op ::
  "(string \<Rightarrow> ('f, 'l, 'd, 'v, 's) kernel \<Rightarrow> fault + (FRESULT \<times> ('f, 'l, 'd, 'v, 's) kernel)) \<Rightarrow> string
    \<Rightarrow> ('f, 'l, 'd, 'v, 's) kernel \<Rightarrow> fault + (int \<times> ('f, 'l, 'd, 'v, 's) kernel)" where
  "path_op f path k = bindE (f path k) (\<lambda>(res, k1). Inr (fatfs_to_errno res, k1))"

definition SYS_unlink ::
  "('f, 'l, 'd, 'v, 's) fatfs \<Rightarrow> string \<Rightarrow> ('f, 'l, 'd, 'v, 's) kernel \<Rightarrow> fault + (int \<times> ('f, 'l, 'd, 'v, 's) kernel)" where
  "SYS_unlink ff = path_op (f_unlink ff)"

definition SYS_mkdir ::
  "('f, 'l, 'd, 'v, 's) fatfs \<Rightarrow> string \<Rightarrow> ('f, 'l, 'd, 'v, 's) kernel \<Rightarrow> fault + (int \<times> ('f, 'l, 'd, 'v, 's) kernel)" where
  "SYS_mkdir ff = path_op (f_mkdir ff)"

definition SYS_chdir ::
  "('f, 'l, 'd, 'v, 's) fatfs \<Rightarrow> string \<Rightarrow> ('f, 'l, 'd, 'v, 's) kernel \<Rightarrow> fault + (int \<times> ('f, 'l, 'd, 'v, 's) kernel)" where
  "SYS_chdir ff = path_op (f_chdir ff)"

definition stat_mode :: "byte \<Rightarrow> u32" where
  "stat_mode attrib =
     (if attrib AND AM_DIR \<noteq> 0 then S_IFDIR else S_IFREG) OR
     (if attrib AND AM_RDO \<noteq> 0 then S_IRUSR else S_IRUSR OR S_IWUSR)"

definition SYS_stat ::
  "('f, 'l, 'd, 'v, 's) fatfs \<Rightarrow> string \<Rightarrow> ('f, 'l, 'd, 'v, 's) kernel
    \<Rightarrow> fault + (int \<times> stat_buf \<times> ('f, 'l, 'd, 'v, 's) kernel)" where
  "SYS_stat ff path k =
     bindE (f_stat ff path k) (\<lambda>(res, fno, k1).
     Inr (fatfs_to_errno res,
          if res = FR_OK then \<lparr>st_mode = stat_mode (fi_fattrib fno), st_size = fi_fsize fno, st_nlink = 0\<rparr>
          else \<lparr>st_mode = 0, st_size = 0, st_nlink = 0\<rparr>, k1))"

section \<open>Mounting\<close>

text \<open>The two file system objects: 0 is \<open>flashfs\<close>, 1 is \<open>sdfs\<close>.\<close>

definition SYS_mount ::
  "('f, 'l, 'd, 'v, 's) fatfs \<Rightarrow> string \<Rightarrow> string \<Rightarrow> ('f, 'l, 'd, 'v, 's) kernel
    \<Rightarrow> fault + (int \<times> ('f, 'l, 'd, 'v, 's) kernel)" where
  "SYS_mount ff src fstype k =
     (let sel = (if src = ''sd'' then Some (1, ''1'') else if src = ''flash'' then Some (0, ''0'') else None) in
      if fstype \<noteq> ''fatfs'' then Inr (- EINVAL, k)
      else case sel of
        None \<Rightarrow> Inr (- EINVAL, k)
      | Some (fs, drv) \<Rightarrow> bindE (f_mount ff (Some fs) drv 1 k) (\<lambda>(res, k1). Inr (fatfs_to_errno res, k1)))"

definition sd_insert_mount :: bool where
  "sd_insert_mount = False"

section \<open>Directory handles\<close>

text \<open>The handles in use; the handles are a pool of numbered slots.\<close>

definition dirs_used :: "'d DIRHND list \<Rightarrow> nat set" where
  "dirs_used l = {i. i < length l \<and> dh_open (l ! i)}"

lemma dirs_used_update:
  "i < length l \<Longrightarrow> dirs_used (l[i := h]) = (if dh_open h then insert i (dirs_used l) else dirs_used l - {i})"
  by (auto simp: dirs_used_def nth_list_update)

interpretation dirpool: slot_pool dhnd_alloc dhnd_free dirs_used "\<lambda>l. length l = MAX_DHND" MAX_DHND
proof unfold_locales
  fix t :: "'d DIRHND list" and i t'
  assume "length t = MAX_DHND" and "dhnd_alloc t = Some (i, t')"
  then show "i \<notin> dirs_used t \<and> i < MAX_DHND \<and> {..<i} \<subseteq> dirs_used t \<and> dirs_used t' = insert i (dirs_used t) \<and> length t' = MAX_DHND"
    by (auto simp: dhnd_alloc_def for_find_Some dirs_used_update dirs_used_def [of t] split: option.splits)
next
  fix t :: "'d DIRHND list"
  assume "length t = MAX_DHND"
  then show "dhnd_alloc t = None \<longleftrightarrow> dirs_used t = {..<MAX_DHND}"
    by (auto simp: dhnd_alloc_def option.case_eq_if for_find_None dirs_used_def)
qed (auto simp: dirs_used_def dhnd_free_def nth_list_update)

text \<open>Opening a directory takes the lowest free handle and closing it gives the handle back, when FatFs leaves the handles alone.\<close>

lemma opendir_closedir:
  assumes "length (k_dhnd k) = MAX_DHND" and "dhnd_alloc (k_dhnd k) = Some (i, l)"
    and "f_opendir ff (dh_dir (k_dhnd k ! i)) path k = Inr (FR_OK, d, k1)" and "k_dhnd k1 = k_dhnd k"
    and "\<And>d k. \<exists>d' k'. f_closedir ff d k = Inr (FR_OK, d', k') \<and> k_dhnd k' = k_dhnd k"
  shows "\<exists>k2 k3. SYS_opendir ff path k = Inr (int i, k2) \<and> i = (LEAST j. j \<notin> dirs_used (k_dhnd k)) \<and>
    dirs_used (k_dhnd k2) = insert i (dirs_used (k_dhnd k)) \<and>
    SYS_closedir ff (int i) k2 = Inr (0, k3) \<and> dirs_used (k_dhnd k3) = dirs_used (k_dhnd k)"
proof -
  note al = dirpool.alloc_some [OF assms(1,2)]
  let ?k2 = "(put_dir i d k1)\<lparr>k_dhnd := (k_dhnd (put_dir i d k1))[i := (k_dhnd (put_dir i d k1) ! i)\<lparr>dh_open := True\<rparr>]\<rparr>"
  have o: "SYS_opendir ff path k = Inr (int i, ?k2)" using assms(2-4) by (simp add: SYS_opendir_def Let_def)
  have len: "length (k_dhnd ?k2) = MAX_DHND" "dh_open (k_dhnd ?k2 ! i)" "i < length (k_dhnd k)"
    using assms(1,4) al by (simp_all add: put_dir_def)
  have u2: "dirs_used (k_dhnd ?k2) = insert i (dirs_used (k_dhnd k))"
    using len(3) assms(4) by (simp add: put_dir_def dirs_used_update)
  obtain d' k' where c: "f_closedir ff (dh_dir (k_dhnd ?k2 ! i)) ?k2 = Inr (FR_OK, d', k')" "k_dhnd k' = k_dhnd ?k2" using assms(5) by blast
  let ?k3 = "(put_dir i d' k')\<lparr>k_dhnd := dhnd_free i (k_dhnd (put_dir i d' k'))\<rparr>"
  have "SYS_closedir ff (int i) ?k2 = Inr (0, ?k3)"
    using c len al by (simp add: SYS_closedir_def dhnd_entry_def fatfs_to_errno_def Let_def)
  moreover have "dirs_used (k_dhnd ?k3) = dirs_used (k_dhnd k)"
    using len al assms(4) c(2) by (auto simp: put_dir_def dhnd_free_def dirs_used_update)
  ultimately show ?thesis using o u2 dirpool.alloc_least [OF assms(1,2)] by blast
qed

end
