(* ===== verification/Syscalls.thy ===== *)
theory Syscalls
  imports FileIO
begin

text \<open>
  The descriptor system calls: the operation tables of the drivers, opening of devices by name
  (system/dev\_open.c) and the dispatch of system/fd.c. A descriptor selects the operations of
  its driver through its entry in the descriptor table; an operation the driver leaves out is a
  null pointer in its table. The theorems show that the calls keep the kernel invariant, which ties the table to the
  flash driver's own list of open descriptors, and what opening and closing devices does.
\<close>

section \<open>Platform\<close>

record ('f, 'l, 'd, 'v, 's) platform =
  pl_flash :: "'f flash_hw"
  pl_fat :: "('f, 'l, 'd, 'v, 's) fatfs"
  pl_sd :: "'s sd_hw"

section \<open>Operation tables\<close>

text \<open>The \<open>fd_read\<close> entries of the five tables; every driver has one.\<close>

definition fd_read ::
  "('f, 'l, 'd, 'v, 's) platform \<Rightarrow> fdclass \<Rightarrow> int \<Rightarrow> byte list \<Rightarrow> ('f, 'l, 'd, 'v, 's) kernel
    \<Rightarrow> fault + (int \<times> byte list \<times> ('f, 'l, 'd, 'v, 's) kernel)" where
  "fd_read pl c fd buf k =
     (case c of
        Cons_func \<Rightarrow> bindE (console_read buf (k_console k)) (\<lambda>(rc, b, con). Inr (rc, b, k\<lparr>k_console := con\<rparr>))
      | Led_func \<Rightarrow> (case rgbled_read buf (k_led k) of (rc, b) \<Rightarrow> Inr (rc, b, k))
      | Spiflash_func \<Rightarrow>
          bindE (spiflash_read (pl_flash pl) fd (of_nat (length buf)) (k_flash k))
            (\<lambda>(rc, b, fl). Inr (rc, if rc < 0 then buf else b, k\<lparr>k_flash := fl\<rparr>))
      | Econet_func \<Rightarrow>
          bindE (econet_read (nat fd) buf (k_events k) (k_econet k))
            (\<lambda>(rc, b, evs, e). Inr (rc, b, k\<lparr>k_econet := e, k_events := evs\<rparr>))
      | Fileio_func \<Rightarrow> fileio_read (pl_fat pl) fd buf k)"

definition fd_write ::
  "('f, 'l, 'd, 'v, 's) platform \<Rightarrow> fdclass \<Rightarrow> int \<Rightarrow> byte list \<Rightarrow> ('f, 'l, 'd, 'v, 's) kernel
    \<Rightarrow> fault + (int \<times> ('f, 'l, 'd, 'v, 's) kernel)" where
  "fd_write pl c fd buf k =
     (case c of
        Cons_func \<Rightarrow> (case console_write buf (k_console k) of (rc, con) \<Rightarrow> Inr (rc, k\<lparr>k_console := con\<rparr>))
      | Led_func \<Rightarrow> (case rgbled_write buf (k_led k) of (rc, l) \<Rightarrow> Inr (rc, k\<lparr>k_led := l\<rparr>))
      | Spiflash_func \<Rightarrow>
          bindE (spiflash_write (pl_flash pl) fd buf (k_flash k)) (\<lambda>(rc, fl). Inr (rc, k\<lparr>k_flash := fl\<rparr>))
      | Econet_func \<Rightarrow>
          bindE (econet_write (nat fd) buf (k_events k) (k_econet k))
            (\<lambda>(rc, evs, e). Inr (rc, k\<lparr>k_econet := e, k_events := evs\<rparr>))
      | Fileio_func \<Rightarrow> fileio_write (pl_fat pl) fd buf k)"

text \<open>The optional entries: \<open>None\<close> is a null pointer.\<close>

definition fd_lseek ::
  "('f, 'l, 'd, 'v, 's) platform \<Rightarrow> fdclass
    \<Rightarrow> (int \<Rightarrow> u32 \<Rightarrow> int \<Rightarrow> ('f, 'l, 'd, 'v, 's) kernel \<Rightarrow> fault + (int \<times> ('f, 'l, 'd, 'v, 's) kernel)) option" where
  "fd_lseek pl c =
     (case c of
        Spiflash_func \<Rightarrow> Some (\<lambda>fd off wh k.
          case spiflash_lseek fd off wh (k_flash k) of (rc, fl) \<Rightarrow> Inr (rc, k\<lparr>k_flash := fl\<rparr>))
      | Fileio_func \<Rightarrow> Some (fileio_lseek (pl_fat pl))
      | _ \<Rightarrow> None)"

definition fd_fstat ::
  "('f, 'l, 'd, 'v, 's) platform \<Rightarrow> fdclass \<Rightarrow> (int \<Rightarrow> ('f, 'l, 'd, 'v, 's) kernel \<Rightarrow> fault + (int \<times> stat_buf)) option" where
  "fd_fstat pl c =
     (case c of
        Cons_func \<Rightarrow> Some (\<lambda>fd k. case console_fstat of (rc, m, n) \<Rightarrow>
          Inr (rc, \<lparr>st_mode = m, st_size = 0, st_nlink = n\<rparr>))
      | Spiflash_func \<Rightarrow> Some (\<lambda>fd k. Inr spiflash_fstat)
      | Fileio_func \<Rightarrow> Some (fileio_fstat (pl_fat pl))
      | _ \<Rightarrow> None)"

definition fd_close ::
  "('f, 'l, 'd, 'v, 's) platform \<Rightarrow> fdclass
    \<Rightarrow> (int \<Rightarrow> ('f, 'l, 'd, 'v, 's) kernel \<Rightarrow> fault + (int \<times> ('f, 'l, 'd, 'v, 's) kernel)) option" where
  "fd_close pl c =
     (case c of
        Cons_func \<Rightarrow> None
      | Led_func \<Rightarrow> Some (\<lambda>fd k. Inr (rgbled_close, k))
      | Spiflash_func \<Rightarrow> Some (\<lambda>fd k.
          bindE (spiflash_close (pl_flash pl) fd (k_flash k)) (\<lambda>(rc, fl). Inr (rc, k\<lparr>k_flash := fl\<rparr>)))
      | Econet_func \<Rightarrow> Some (\<lambda>fd k. case econet_close (nat fd) (k_econet k) of (rc, e) \<Rightarrow> Inr (rc, k\<lparr>k_econet := e\<rparr>))
      | Fileio_func \<Rightarrow> Some (fileio_close (pl_fat pl)))"

definition fd_ioctl ::
  "fdclass \<Rightarrow> (int \<Rightarrow> u32 \<Rightarrow> byte list \<Rightarrow> ('f, 'l, 'd, 'v, 's) kernel
    \<Rightarrow> fault + (int \<times> byte list \<times> ('f, 'l, 'd, 'v, 's) kernel)) option" where
  "fd_ioctl c =
     (case c of
        Cons_func \<Rightarrow> Some (\<lambda>fd req ptr k. case console_ioctl req (k_console k) of (rc, con) \<Rightarrow>
          Inr (rc, [], k\<lparr>k_console := con\<rparr>))
      | Econet_func \<Rightarrow> Some (\<lambda>fd req ptr k.
          bindE (econet_ioctl (nat fd) req ptr (k_econet k)) (\<lambda>(rc, out, e). Inr (rc, out, k\<lparr>k_econet := e\<rparr>)))
      | _ \<Rightarrow> None)"

definition fd_peek :: "fdclass \<Rightarrow> (int \<Rightarrow> ('f, 'l, 'd, 'v, 's) kernel \<Rightarrow> int) option" where
  "fd_peek c =
     (case c of
        Cons_func \<Rightarrow> Some (\<lambda>fd k. console_peek (k_console k))
      | Econet_func \<Rightarrow> Some (\<lambda>fd k. econet_peek (nat fd) (k_econet k))
      | _ \<Rightarrow> None)"

section \<open>Opening devices\<close>

text \<open>The table of devices: what opening one does with the new descriptor.\<close>

definition open_table ::
  "(string \<times> (int \<Rightarrow> ('f, 'l, 'd, 'v, 's) kernel \<Rightarrow> int \<times> fdclass option \<times> ('f, 'l, 'd, 'v, 's) kernel)) list" where
  "open_table =
     [(''console'', \<lambda>fd k. case open_console of (rc, c) \<Rightarrow> (rc, c, k)),
      (''rgbled'', \<lambda>fd k. case rgbled_open of (rc, c) \<Rightarrow> (rc, c, k)),
      (''spiflash'', \<lambda>fd k. case spiflash_open fd (k_flash k) of (rc, c, fl) \<Rightarrow> (rc, c, k\<lparr>k_flash := fl\<rparr>)),
      (''econet'', \<lambda>fd k. case econet_open of (rc, c) \<Rightarrow> (rc, c, k))]"

fun open_lookup :: "(string \<times> 'a) list \<Rightarrow> string \<Rightarrow> 'a option" where
  "open_lookup [] devname = None"
| "open_lookup ((n, impl) # rest) devname = (if n = devname then Some impl else open_lookup rest devname)"

definition open_device ::
  "string \<Rightarrow> u32 \<Rightarrow> ('f, 'l, 'd, 'v, 's) kernel \<Rightarrow> int \<times> ('f, 'l, 'd, 'v, 's) kernel" where
  "open_device devname fl k =
     (case fd_alloc (k_fdtab k) of
        None \<Rightarrow> (- EMFILE, k)
      | Some (i, tab) \<Rightarrow>
          let k1 = k\<lparr>k_fdtab := tab\<rparr> in
          (case open_lookup open_table devname of
             None \<Rightarrow> (- ENOENT, k1\<lparr>k_fdtab := fd_dealloc i (k_fdtab k1)\<rparr>)
           | Some impl \<Rightarrow>
               (case impl (int i) k1 of (rc, c, k2) \<Rightarrow>
                  let tab2 = (case c of None \<Rightarrow> k_fdtab k2
                              | Some cl \<Rightarrow> (k_fdtab k2)[i := (k_fdtab k2 ! i)\<lparr>fd_fdfunc := Some cl\<rparr>])
                  in if rc = 0
                     then (int i, k2\<lparr>k_fdtab := tab2[i := (tab2 ! i)\<lparr>fd_flags := fd_flags (tab2 ! i) OR fl\<rparr>]\<rparr>)
                     else (rc, k2\<lparr>k_fdtab := fd_dealloc i tab2\<rparr>))))"

abbreviation O_RDONLY :: u32 where "O_RDONLY \<equiv> 0"
abbreviation O_WRONLY :: u32 where "O_WRONLY \<equiv> 1"
abbreviation O_RDWR :: u32 where "O_RDWR \<equiv> 2"

definition fd_init :: "('f, 'l, 'd, 'v, 's) kernel \<Rightarrow> ('f, 'l, 'd, 'v, 's) kernel" where
  "fd_init k =
     (let k0 = k\<lparr>k_fdtab := fdtable_cleared\<rparr>;
          k1 = snd (open_device ''console'' O_RDONLY k0);
          k2 = snd (open_device ''console'' O_WRONLY k1)
      in snd (open_device ''console'' O_WRONLY k2))"

section \<open>System calls\<close>

text \<open>
  The common beginning of the calls: the range check, the entry, its flags and its operations.
  \<open>Some c\<close> when the entry is in use; the check lets descriptor 16 through.
\<close>

definition bad_fd :: "int \<Rightarrow> bool" where
  "bad_fd fd \<longleftrightarrow> fd > int MAX_FILE_DESCRIPTORS \<or> fd < 0"

definition fd_class :: "int \<Rightarrow> ('f, 'l, 'd, 'v, 's) kernel \<Rightarrow> fault + fdclass option" where
  "fd_class fd k =
     bindE (fd_entry (k_fdtab k) fd) (\<lambda>ent.
     if fd_flags ent = 0 then Inr None
     else case fd_fdfunc ent of None \<Rightarrow> Inl Null_Pointer | Some c \<Rightarrow> Inr (Some c))"

definition SYS_write ::
  "('f, 'l, 'd, 'v, 's) platform \<Rightarrow> int \<Rightarrow> byte list \<Rightarrow> ('f, 'l, 'd, 'v, 's) kernel
    \<Rightarrow> fault + (int \<times> ('f, 'l, 'd, 'v, 's) kernel)" where
  "SYS_write pl fd buf k =
     (if bad_fd fd then Inr (- EBADF, k)
      else bindE (fd_class fd k) (\<lambda>c. case c of
        None \<Rightarrow> Inr (- EBADF, k) | Some cl \<Rightarrow> fd_write pl cl fd buf k))"

definition SYS_read ::
  "('f, 'l, 'd, 'v, 's) platform \<Rightarrow> int \<Rightarrow> byte list \<Rightarrow> ('f, 'l, 'd, 'v, 's) kernel
    \<Rightarrow> fault + (int \<times> byte list \<times> ('f, 'l, 'd, 'v, 's) kernel)" where
  "SYS_read pl fd buf k =
     (if bad_fd fd then Inr (- EBADF, buf, k)
      else bindE (fd_class fd k) (\<lambda>c. case c of
        None \<Rightarrow> Inr (- EBADF, buf, k) | Some cl \<Rightarrow> fd_read pl cl fd buf k))"

definition SYS_peek :: "int \<Rightarrow> ('f, 'l, 'd, 'v, 's) kernel \<Rightarrow> fault + int" where
  "SYS_peek fd k =
     (if bad_fd fd then Inr (- EBADF)
      else bindE (fd_class fd k) (\<lambda>c. case c of
        None \<Rightarrow> Inr (- EBADF)
      | Some cl \<Rightarrow> (case fd_peek cl of None \<Rightarrow> Inr (- EBADF) | Some op \<Rightarrow> Inr (op fd k))))"

definition SYS_ioctl ::
  "int \<Rightarrow> u32 \<Rightarrow> byte list \<Rightarrow> ('f, 'l, 'd, 'v, 's) kernel \<Rightarrow> fault + (int \<times> byte list \<times> ('f, 'l, 'd, 'v, 's) kernel)" where
  "SYS_ioctl fd request ptr k =
     (if bad_fd fd then Inr (- EBADF, [], k)
      else bindE (fd_class fd k) (\<lambda>c. case c of
        None \<Rightarrow> Inr (- EBADF, [], k)
      | Some cl \<Rightarrow> (case fd_ioctl cl of None \<Rightarrow> Inr (- EBADF, [], k) | Some op \<Rightarrow> op fd request ptr k)))"

definition SYS_fstat ::
  "('f, 'l, 'd, 'v, 's) platform \<Rightarrow> int \<Rightarrow> stat_buf \<Rightarrow> ('f, 'l, 'd, 'v, 's) kernel \<Rightarrow> fault + (int \<times> stat_buf)" where
  "SYS_fstat pl fd st k =
     (if bad_fd fd then Inr (- EBADF, st)
      else bindE (fd_class fd k) (\<lambda>c. case c of
        None \<Rightarrow> Inr (- EBADF, st)
      | Some cl \<Rightarrow> (case fd_fstat pl cl of None \<Rightarrow> Inr (- EBADF, st) | Some op \<Rightarrow> op fd k)))"

definition SYS_lseek ::
  "('f, 'l, 'd, 'v, 's) platform \<Rightarrow> int \<Rightarrow> u32 \<Rightarrow> int \<Rightarrow> ('f, 'l, 'd, 'v, 's) kernel
    \<Rightarrow> fault + (int \<times> ('f, 'l, 'd, 'v, 's) kernel)" where
  "SYS_lseek pl fd offset whence k =
     (if bad_fd fd then Inr (- EBADF, k)
      else bindE (fd_class fd k) (\<lambda>c. case c of
        None \<Rightarrow> Inr (- ESPIPE, k)
      | Some cl \<Rightarrow> (case fd_lseek pl cl of None \<Rightarrow> Inr (- ESPIPE, k) | Some op \<Rightarrow> op fd offset whence k)))"

definition SYS_close ::
  "('f, 'l, 'd, 'v, 's) platform \<Rightarrow> int \<Rightarrow> ('f, 'l, 'd, 'v, 's) kernel \<Rightarrow> fault + (int \<times> ('f, 'l, 'd, 'v, 's) kernel)" where
  "SYS_close pl fd k =
     (if bad_fd fd then Inr (- EBADF, k)
      else if fd < 3 then Inr (0, k)
      else bindE (fd_class fd k) (\<lambda>c. case c of
        None \<Rightarrow> Inr (- EBADF, k)
      | Some cl \<Rightarrow> (case fd_close pl cl of
          None \<Rightarrow> Inr (- EBADF, k)
        | Some op \<Rightarrow> bindE (op fd k) (\<lambda>(rc, k1).
            Inr (rc, k1\<lparr>k_fdtab := fd_dealloc (nat fd) (k_fdtab k1)\<rparr>)))))"

text \<open>\<open>strncmp(pathname, "/dev/", 5)\<close> is zero exactly when the first five characters agree.\<close>

definition SYS_open ::
  "('f, 'l, 'd, 'v, 's) platform \<Rightarrow> string \<Rightarrow> u32 \<Rightarrow> ('f, 'l, 'd, 'v, 's) kernel
    \<Rightarrow> fault + (int \<times> ('f, 'l, 'd, 'v, 's) kernel)" where
  "SYS_open pl pathname fl k =
     (if take 5 pathname = ''/dev/'' then Inr (open_device (drop 5 pathname) fl k)
      else fileio_open (pl_fat pl) pathname fl k)"

section \<open>Which descriptors the flash driver has open\<close>

abbreviation ofds :: "'w flash_dev \<Rightarrow> int list" where
  "ofds dev \<equiv> map ofd_fd (fl_list dev)"

lemma ofds_set_fileptr [simp]: "ofds (set_fileptr i p dev) = ofds dev"
  by (cases "i < length (fl_list dev)")
    (auto simp: set_fileptr_def list_update_beyond map_update intro!: nth_equalityI simp: nth_list_update)

lemma ofds_writebuffer: "spiflash_writebuffer hw dev = Inr dev' \<Longrightarrow> ofds dev' = ofds dev"
  by (auto simp: spiflash_writebuffer_def Let_def split: option.splits)

lemma ofds_sync: "spiflash_sync hw dev = Inr dev' \<Longrightarrow> ofds dev' = ofds dev"
  by (auto simp: spiflash_sync_def dest: ofds_writebuffer split: if_splits)

lemma ofds_read: "spiflash_read hw fd n dev = Inr (rc, bs, dev') \<Longrightarrow> ofds dev' = ofds dev"
  by (auto simp: spiflash_read_def bindE_Inr_iff set_fileptr_def [symmetric] dest!: ofds_sync split: option.splits)

lemma ofds_load_sector: "spiflash_load_sector hw i dev = Inr (rc, dev') \<Longrightarrow> ofds dev' = ofds dev"
  by (auto simp: spiflash_load_sector_def Let_def bindE_Inr_iff split: prod.splits option.splits)

lemma ofds_write_to_sector:
  assumes "spiflash_write_to_sector hw i buf dev = Inr (rc, dev')"
  shows "ofds dev' = ofds dev"
proof -
  obtain rc1 d where d: "ensure_sector hw i (of_nat (length buf) + fileptr i dev) dev = Inr (rc1, d)"
    and r: "d = dev' \<or> (\<exists>wb d2. (d2 = d\<lparr>fl_writebuf := wb\<rparr>) \<and> (spiflash_writebuffer hw d2 = Inr dev' \<or> d2 = dev'))"
    using assms
    by (auto simp: spiflash_write_to_sector_def ensure_sector_def [symmetric] Let_def bindE_Inr_iff
        split: if_splits option.splits)
  have "ofds d = ofds dev"
    using d by (auto simp: ensure_sector_def bindE_Inr_iff dest!: ofds_load_sector ofds_writebuffer split: if_splits)
  then show ?thesis using r by (auto dest!: ofds_writebuffer)
qed

lemma ofds_write_loop_all:
  assumes "spiflash_write_loop hw i buf dev = Some r"
  shows "\<forall>rc dev'. r = Inr (rc, dev') \<longrightarrow> ofds dev' = ofds dev"
proof (rule spiflash_write_loop.raw_induct [where P = "\<lambda>hw i buf dev r. \<forall>rc dev'. r = Inr (rc, dev') \<longrightarrow> ofds dev' = ofds dev",
      OF _ assms], goal_cases)
  case (1 loop hw i buf dev r)
  show ?case
  proof (cases "spiflash_write_to_sector hw i buf dev")
    case (Inl e)
    then show ?thesis using 1(2) by auto
  next
    case (Inr p)
    then obtain b d where p: "spiflash_write_to_sector hw i buf dev = Inr (b, d)" by (cases p) auto
    let ?d = "set_fileptr i (fileptr i d + word_of_int b) d"
    have e: "ofds ?d = ofds dev" "ofds d = ofds dev" using ofds_write_to_sector [OF p] by simp_all
    show ?thesis using 1(2) p e 1(1) [of hw i "drop (nat b) buf" ?d r]
      by (auto simp: Let_def split: if_splits)
  qed
qed

lemma ofds_write_loop: "spiflash_write_loop hw i buf dev = Some (Inr (rc, dev')) \<Longrightarrow> ofds dev' = ofds dev"
  using ofds_write_loop_all by blast

lemma ofds_write: "spiflash_write hw fd buf dev = Inr (rc, dev') \<Longrightarrow> ofds dev' = ofds dev"
  by (auto simp: spiflash_write_def split: option.splits sum.splits dest: ofds_write_loop)

lemma ofds_lseek: "spiflash_lseek fd off wh dev = (rc, dev') \<Longrightarrow> ofds dev' = ofds dev"
  by (auto simp: spiflash_lseek_def Let_def set_fileptr_def [symmetric] split: option.splits if_splits)

section \<open>The kernel invariant\<close>

definition flash_fds :: "fdtab \<Rightarrow> nat set" where
  "flash_fds tab = {n \<in> fds_used tab. fd_fdfunc (tab ! n) = Some Spiflash_func}"

text \<open>
  Every descriptor in use has operations, the three standard descriptors are the console, and the
  list of the flash driver holds each descriptor that was opened on it exactly once.
\<close>

definition kernel_inv :: "('f, 'l, 'd, 'v, 's) kernel \<Rightarrow> bool" where
  "kernel_inv k \<longleftrightarrow> fdtab_ok (k_fdtab k) \<and>
     (\<forall>i \<in> fds_used (k_fdtab k). fd_fdfunc (k_fdtab k ! i) \<noteq> None) \<and>
     (\<forall>i < 3. i \<in> fds_used (k_fdtab k) \<and> fd_fdfunc (k_fdtab k ! i) = Some Cons_func) \<and>
     length (fl_list (k_flash k)) = MAX_FLASH_FDS \<and>
     set (filter (\<lambda>n. n \<noteq> 0) (ofds (k_flash k))) = int ` flash_fds (k_fdtab k) \<and>
     distinct (filter (\<lambda>n. n \<noteq> 0) (ofds (k_flash k)))"

lemma kernel_inv_frame:
  "kernel_inv k \<Longrightarrow> k_fdtab k' = k_fdtab k \<Longrightarrow> ofds (k_flash k') = ofds (k_flash k) \<Longrightarrow> kernel_inv k'"
  unfolding kernel_inv_def by (metis length_map)

lemma kernel_inv_flash:
  "kernel_inv k \<Longrightarrow> ofds fl = ofds (k_flash k) \<Longrightarrow> kernel_inv (k\<lparr>k_flash := fl\<rparr>)"
  by (rule kernel_inv_frame) simp_all

lemma kernel_inv_others [simp]:
  "kernel_inv (k\<lparr>k_console := a\<rparr>) = kernel_inv k" "kernel_inv (k\<lparr>k_led := b\<rparr>) = kernel_inv k"
  "kernel_inv (k\<lparr>k_econet := c\<rparr>) = kernel_inv k" "kernel_inv (k\<lparr>k_events := d\<rparr>) = kernel_inv k"
  "kernel_inv (k\<lparr>k_fhnd := e\<rparr>) = kernel_inv k" "kernel_inv (k\<lparr>k_dhnd := f\<rparr>) = kernel_inv k"
  "kernel_inv (k\<lparr>k_flash_fd := g\<rparr>) = kernel_inv k" "kernel_inv (k\<lparr>k_vols := h\<rparr>) = kernel_inv k"
  "kernel_inv (k\<lparr>k_sdpart := p\<rparr>) = kernel_inv k" "kernel_inv (k\<lparr>k_sd := q\<rparr>) = kernel_inv k"
  by (simp_all add: kernel_inv_def)

lemma fds_used_lt: "kernel_inv k \<Longrightarrow> i \<in> fds_used (k_fdtab k) \<Longrightarrow> i < 16"
  by (auto simp: kernel_inv_def fdtab_ok_def fds_used_def)

lemma fdtab_length [simp]: "kernel_inv k \<Longrightarrow> length (k_fdtab k) = 16"
  by (simp add: kernel_inv_def fdtab_ok_def)

lemma flash_fds_update:
  "i < length tab \<Longrightarrow> flash_fds (tab[i := e]) =
     (if fd_flags e \<noteq> 0 \<and> fd_fdfunc e = Some Spiflash_func then insert i (flash_fds tab) else flash_fds tab - {i})"
  by (auto simp: flash_fds_def fds_used_def nth_list_update)

lemma fd_class_open:
  assumes "kernel_inv k" and "0 \<le> fd" and "fd < 16"
  shows "fd_class fd k = Inr (if nat fd \<in> fds_used (k_fdtab k) then fd_fdfunc (k_fdtab k ! nat fd) else None)"
proof -
  have len: "nat fd < length (k_fdtab k)" using assms by simp
  have "nat fd \<in> fds_used (k_fdtab k) \<longrightarrow> fd_fdfunc (k_fdtab k ! nat fd) \<noteq> None"
    using assms(1) by (simp add: kernel_inv_def)
  then show ?thesis
    using len assms(2) by (auto simp: fd_class_def fd_entry_def fds_used_def)
qed

text \<open>Releasing a descriptor that the flash driver does not know keeps the invariant.\<close>

lemma kernel_inv_dealloc:
  assumes "kernel_inv k" and "3 \<le> i" and "i < 16" and "i \<notin> flash_fds (k_fdtab k)"
  shows "kernel_inv (k\<lparr>k_fdtab := fd_dealloc i (k_fdtab k)\<rparr>)"
proof -
  have len: "i < length (k_fdtab k)" using assms by simp
  have used: "fds_used (fd_dealloc i (k_fdtab k)) = fds_used (k_fdtab k) - {i}"
    using assms by (intro fdpool.used_free) (auto simp: kernel_inv_def)
  have ok: "fdtab_ok (fd_dealloc i (k_fdtab k))"
    using assms by (intro fdpool.ok_free) (auto simp: kernel_inv_def)
  have fl: "flash_fds (fd_dealloc i (k_fdtab k)) = flash_fds (k_fdtab k)"
    using len assms(4) by (simp add: fd_dealloc_def flash_fds_update)
  have at: "fd_dealloc i (k_fdtab k) ! j = k_fdtab k ! j" if "j \<noteq> i" for j
    using that by (simp add: fd_dealloc_def)
  show ?thesis using assms used ok fl at by (auto simp: kernel_inv_def)
qed

text \<open>Entering a descriptor that is not one of the flash driver's.\<close>

lemma kernel_inv_enter:
  assumes k: "kernel_inv k" and a: "fd_alloc (k_fdtab k) = Some (i, tab)" and c: "c \<noteq> Spiflash_func"
    and e: "fd_flags e \<noteq> 0" "fd_fdfunc e = Some c" "fd_fd e = int i"
  shows "kernel_inv (k\<lparr>k_fdtab := tab[i := e]\<rparr>)"
proof -
  have al: "i < 16" "i \<notin> fds_used (k_fdtab k)" "fdtab_ok tab" "fds_used tab = insert i (fds_used (k_fdtab k))"
    using fdpool.alloc_some [OF _ a] k by (auto simp: kernel_inv_def)
  have tab: "tab = (k_fdtab k)[i := (k_fdtab k ! i)\<lparr>fd_flags := FLAG_ALLOCATED, fd_fd := int i\<rparr>]"
    using fd_alloc_cases [OF a] by simp
  have len: "i < length tab" "i < length (k_fdtab k)" using tab al(1) k by simp_all
  have i3: "\<not> i < 3" using al(2) k by (auto simp: kernel_inv_def)
  have "i \<notin> flash_fds (k_fdtab k)" using al(2) by (simp add: flash_fds_def)
  then have fl: "flash_fds (tab[i := e]) = flash_fds (k_fdtab k)"
    using len c e by (simp add: tab flash_fds_update)
  have "fdtab_ok (tab[i := e])" using al(3) e by (intro fdtab_ok_update) auto
  moreover have "fds_used (tab[i := e]) = insert i (fds_used (k_fdtab k))"
    using len e al by (simp add: fds_used_update)
  ultimately show ?thesis using k e fl i3 len by (auto simp: kernel_inv_def tab nth_list_update)
qed

lemma new_fd_Some:
  assumes "new_fd fd l = Some (j, l')" and "length l = 4" and "fd \<noteq> 0" and "fd \<notin> set (map ofd_fd l)"
    and "distinct (filter (\<lambda>n. n \<noteq> 0) (map ofd_fd l))"
  shows "length l' = 4" and "set (filter (\<lambda>n. n \<noteq> 0) (map ofd_fd l')) = insert fd (set (filter (\<lambda>n. n \<noteq> 0) (map ofd_fd l)))"
    and "distinct (filter (\<lambda>n. n \<noteq> 0) (map ofd_fd l'))"
proof -
  have j: "j < 4" "ofd_fd (l ! j) = 0" "l' = l[j := \<lparr>ofd_fd = fd, ofd_fileptr = 0\<rparr>]"
    using assms(1) by (auto simp: new_fd_def for_find_Some split: option.splits)
  obtain a x b where l: "l = a @ x # b" "length a = j"
    using id_take_nth_drop [of j l] j(1) assms(2) by (metis length_take min.absorb2 less_imp_le)
  then have x: "ofd_fd x = 0" using j(2) by auto
  have l': "map ofd_fd l' = map ofd_fd a @ fd # map ofd_fd b" using j(3) l by auto
  have m: "map ofd_fd l = map ofd_fd a @ 0 # map ofd_fd b" using l(1) x by simp
  show "length l' = 4" using j(3) assms(2) by simp
  show "set (filter (\<lambda>n. n \<noteq> 0) (map ofd_fd l')) = insert fd (set (filter (\<lambda>n. n \<noteq> 0) (map ofd_fd l)))"
    using assms(3) by (auto simp: l' m)
  show "distinct (filter (\<lambda>n. n \<noteq> 0) (map ofd_fd l'))"
    using assms(3-5) by (auto simp: l' m)
qed

lemma flags_set: "(FLAG_ALLOCATED OR fl) \<noteq> 0"
proof -
  have "bit (FLAG_ALLOCATED OR fl) 31" by (simp add: bit_simps)
  then show ?thesis by (metis bit_0_eq bot_apply bot_bool_def)
qed

text \<open>What an allocation leaves for the opening code.\<close>

lemma kernel_alloc:
  assumes "kernel_inv k" and "fd_alloc (k_fdtab k) = Some (i, tab)"
  shows "3 \<le> i" and "i < 16" and "i \<notin> fds_used (k_fdtab k)" and "length tab = 16"
    and "tab = (k_fdtab k)[i := (k_fdtab k ! i)\<lparr>fd_flags := FLAG_ALLOCATED, fd_fd := int i\<rparr>]"
proof -
  have al: "i < 16" "i \<notin> fds_used (k_fdtab k)"
    using fdpool.alloc_some [OF _ assms(2)] assms(1) by (auto simp: kernel_inv_def)
  have "i < 3 \<Longrightarrow> i \<in> fds_used (k_fdtab k)" using assms(1) by (simp add: kernel_inv_def)
  then show "3 \<le> i" using al(2) by (meson not_less)
  show "i < 16" "i \<notin> fds_used (k_fdtab k)" by fact+
  show tab: "tab = (k_fdtab k)[i := (k_fdtab k ! i)\<lparr>fd_flags := FLAG_ALLOCATED, fd_fd := int i\<rparr>]"
    using fd_alloc_cases [OF assms(2)] by simp
  show "length tab = 16" using assms(1) by (simp add: tab)
qed

text \<open>A failed open leaves the entry it had taken unused.\<close>

lemma fd_dealloc_alloc:
  assumes "kernel_inv k" and "fd_alloc (k_fdtab k) = Some (i, tab)"
  shows "fds_used (fd_dealloc i (tab[i := e])) = fds_used (k_fdtab k)"
    and "kernel_inv (k\<lparr>k_fdtab := fd_dealloc i (tab[i := e])\<rparr>)"
proof -
  note al = kernel_alloc [OF assms]
  have eq: "fd_dealloc i (tab[i := e]) = (k_fdtab k)[i := e\<lparr>fd_flags := 0, fd_fdfunc := None, fd_data := 0\<rparr>]"
    using al by (simp add: fd_dealloc_def)
  have i: "i < length (k_fdtab k)" using al(2) assms(1) by simp
  show used: "fds_used (fd_dealloc i (tab[i := e])) = fds_used (k_fdtab k)"
    using i al(3) unfolding eq by (simp add: fds_used_update)
  have "i \<notin> flash_fds (k_fdtab k)" using al(3) by (simp add: flash_fds_def)
  then have fl: "flash_fds (fd_dealloc i (tab[i := e])) = flash_fds (k_fdtab k)"
    using i unfolding eq by (simp add: flash_fds_update)
  have "fdtab_ok (fd_dealloc i (tab[i := e]))"
    using assms(1) unfolding eq by (intro fdtab_ok_update) (auto simp: kernel_inv_def)
  moreover have "fd_dealloc i (tab[i := e]) ! j = k_fdtab k ! j" if "j \<in> fds_used (k_fdtab k)" for j
    using that al(3) unfolding eq by (metis nth_list_update_neq)
  ultimately show "kernel_inv (k\<lparr>k_fdtab := fd_dealloc i (tab[i := e])\<rparr>)"
    using assms(1) used fl by (simp add: kernel_inv_def)
qed

lemma fd_dealloc_alloc0:
  assumes "kernel_inv k" and "fd_alloc (k_fdtab k) = Some (i, tab)"
  shows "fds_used (fd_dealloc i tab) = fds_used (k_fdtab k)"
    and "kernel_inv (k\<lparr>k_fdtab := fd_dealloc i tab\<rparr>)"
  using fd_dealloc_alloc [OF assms, of "tab ! i"] by simp_all

text \<open>Entering a descriptor that the flash driver has just taken on.\<close>

lemma kernel_inv_enter_flash:
  assumes k: "kernel_inv k" and a: "fd_alloc (k_fdtab k) = Some (i, tab)"
    and n: "new_fd (int i) (fl_list (k_flash k)) = Some (j, l)"
    and e: "fd_flags e \<noteq> 0" "fd_fdfunc e = Some Spiflash_func" "fd_fd e = int i"
  shows "kernel_inv (k\<lparr>k_flash := (k_flash k)\<lparr>fl_list := l\<rparr>, k_fdtab := tab[i := e]\<rparr>)"
proof -
  note al = kernel_alloc [OF k a]
  have len: "length (fl_list (k_flash k)) = 4" "distinct (filter (\<lambda>n. n \<noteq> 0) (ofds (k_flash k)))"
      "set (filter (\<lambda>n. n \<noteq> 0) (ofds (k_flash k))) = int ` flash_fds (k_fdtab k)"
    using k by (simp_all add: kernel_inv_def)
  have "i \<notin> flash_fds (k_fdtab k)" using al(3) by (simp add: flash_fds_def)
  then have "int i \<notin> set (filter (\<lambda>n. n \<noteq> 0) (ofds (k_flash k)))" using len(3) by auto
  then have "int i \<notin> set (ofds (k_flash k))" using al(1) by auto
  then have l: "length l = 4" "distinct (filter (\<lambda>n. n \<noteq> 0) (map ofd_fd l))"
      "set (filter (\<lambda>n. n \<noteq> 0) (map ofd_fd l)) = int ` insert i (flash_fds (k_fdtab k))"
    using new_fd_Some [OF n len(1) _ _ len(2)] al(1) len(3) by auto
  have i: "i < length (k_fdtab k)" using al(2) k by simp
  have tab: "tab[i := e] = (k_fdtab k)[i := e]" using al(5) by simp
  have "fdtab_ok ((k_fdtab k)[i := e])" using k e by (intro fdtab_ok_update) (auto simp: kernel_inv_def)
  moreover have "fds_used ((k_fdtab k)[i := e]) = insert i (fds_used (k_fdtab k))"
    using i e by (simp add: fds_used_update)
  moreover have "flash_fds ((k_fdtab k)[i := e]) = insert i (flash_fds (k_fdtab k))"
    using i e by (simp add: flash_fds_update)
  ultimately show ?thesis using k l e al(1) i by (auto simp: kernel_inv_def tab nth_list_update)
qed

text \<open>The operations a device name stands for.\<close>

definition device_class :: "string \<Rightarrow> fdclass option" where
  "device_class devname =
     (if devname = ''console'' then Some Cons_func else if devname = ''rgbled'' then Some Led_func
      else if devname = ''spiflash'' then Some Spiflash_func else if devname = ''econet'' then Some Econet_func
      else None)"

lemma open_lookup_table:
  "open_lookup open_table devname =
     (case device_class devname of
        None \<Rightarrow> None
      | Some Spiflash_func \<Rightarrow>
          Some (\<lambda>fd k. case spiflash_open fd (k_flash k) of (rc, c, fl) \<Rightarrow> (rc, c, k\<lparr>k_flash := fl\<rparr>))
      | Some c \<Rightarrow> Some (\<lambda>fd k. (0, Some c, k)))"
  by (auto simp: open_table_def device_class_def open_console_def rgbled_open_def econet_open_def)

text \<open>
  The outcomes of opening a device: the lowest free descriptor with the operations of the device,
  or an error with every descriptor as before.
\<close>

definition open_result :: "string \<Rightarrow> ('f, 'l, 'd, 'v, 's) kernel \<Rightarrow> int \<times> ('f, 'l, 'd, 'v, 's) kernel \<Rightarrow> bool" where
  "open_result devname k r \<longleftrightarrow> kernel_inv (snd r) \<and>
     (if 0 \<le> fst r
      then \<exists>i. fst r = int i \<and> 3 \<le> i \<and> i < MAX_FILE_DESCRIPTORS \<and> i \<notin> fds_used (k_fdtab k) \<and> {..<i} \<subseteq> fds_used (k_fdtab k) \<and>
        fds_used (k_fdtab (snd r)) = insert i (fds_used (k_fdtab k)) \<and>
        fd_fdfunc (k_fdtab (snd r) ! i) = device_class devname \<and> device_class devname \<noteq> None
      else fds_used (k_fdtab (snd r)) = fds_used (k_fdtab k) \<and>
        (fst r = - EMFILE \<or> fst r = - ENOENT \<and> device_class devname = None))"

lemma alloc_lowest:
  "kernel_inv k \<Longrightarrow> fd_alloc (k_fdtab k) = Some (i, tab) \<Longrightarrow> {..<i} \<subseteq> fds_used (k_fdtab k)"
  using fdpool.alloc_some [of "k_fdtab k" i tab] by (simp add: kernel_inv_def)

lemma open_device_result:
  assumes k: "kernel_inv k"
  shows "open_result devname k (open_device devname fl k)"
proof (cases "fd_alloc (k_fdtab k)")
  case None
  then show ?thesis using k by (simp add: open_device_def open_result_def)
next
  case (Some p)
  then obtain i tab where a: "fd_alloc (k_fdtab k) = Some (i, tab)" by (cases p) auto
  note al = kernel_alloc [OF k a] and low = alloc_lowest [OF k a]
  let ?e = "\<lambda>c. (tab ! i)\<lparr>fd_fdfunc := Some c, fd_flags := fd_flags (tab ! i) OR fl\<rparr>"
  have ti: "fd_flags (tab ! i) = FLAG_ALLOCATED" "fd_fd (tab ! i) = int i" "i < length tab"
    using al k by simp_all
  have e: "fd_flags (?e c) \<noteq> 0" "fd_fdfunc (?e c) = Some c" "fd_fd (?e c) = int i" for c
    using ti flags_set by simp_all
  have used: "fds_used (tab[i := ?e c]) = insert i (fds_used (k_fdtab k))" for c
    using ti(3) e(1) [of c] al by (simp add: fds_used_update)
  have enter: "open_result devname k (int i, k'\<lparr>k_fdtab := tab[i := ?e c]\<rparr>)"
    if "kernel_inv (k'\<lparr>k_fdtab := tab[i := ?e c]\<rparr>)" "device_class devname = Some c" for k' c
    using that al low used ti(3) by (simp add: open_result_def)
  show ?thesis
  proof (cases "device_class devname")
    case None
    then show ?thesis using a fd_dealloc_alloc0 [OF k a]
      by (simp add: open_device_def open_lookup_table open_result_def Let_def)
  next
    case (Some c)
    show ?thesis
    proof (cases "c = Spiflash_func")
      case False
      then have "open_device devname fl k = (int i, k\<lparr>k_fdtab := tab[i := ?e c]\<rparr>)"
        using a Some ti(3) by (cases c) (simp_all add: open_device_def open_lookup_table Let_def)
      then show ?thesis using enter [OF kernel_inv_enter [OF k a False e] Some] by simp
    next
      case True
      show ?thesis
      proof (cases "new_fd (int i) (fl_list (k_flash k))")
        case None
        then have "open_device devname fl k = (- EMFILE, k\<lparr>k_flash := k_flash k, k_fdtab := fd_dealloc i tab\<rparr>)"
          using a Some True by (simp add: open_device_def open_lookup_table spiflash_open_def Let_def)
        then show ?thesis using fd_dealloc_alloc0 [OF k a] by (simp add: open_result_def)
      next
        case (Some q)
        then obtain j l where n: "new_fd (int i) (fl_list (k_flash k)) = Some (j, l)" by (cases q) auto
        then have "open_device devname fl k =
            (int i, (k\<lparr>k_flash := (k_flash k)\<lparr>fl_list := l\<rparr>\<rparr>)\<lparr>k_fdtab := tab[i := ?e Spiflash_func]\<rparr>)"
          using a True \<open>device_class devname = Some c\<close> ti(3)
          by (simp add: open_device_def open_lookup_table spiflash_open_def Let_def)
        moreover have "device_class devname = Some Spiflash_func" using \<open>device_class devname = Some c\<close> True by simp
        ultimately show ?thesis using enter kernel_inv_enter_flash [OF k a n e] by simp
      qed
    qed
  qed
qed

section \<open>Closing\<close>

lemma release_fd_split:
  assumes "get_fd fd l = Some j" and "length l = 4"
  obtains a x b where "l = a @ x # b" and "ofd_fd x = fd"
    and "map ofd_fd (release_fd j l) = map ofd_fd a @ 0 # map ofd_fd b"
proof -
  have j: "j < length l" "ofd_fd (l ! j) = fd" using get_fd_Some [OF assms(1)] assms(2) by auto
  have "l = take j l @ l ! j # drop (Suc j) l" by (rule id_take_nth_drop [OF j(1)])
  moreover have "map ofd_fd (release_fd j l) = map ofd_fd (take j l) @ 0 # map ofd_fd (drop (Suc j) l)"
    using j(1) by (simp add: release_fd_def map_update upd_conv_take_nth_drop)
  ultimately show ?thesis using that j(2) by blast
qed

text \<open>A descriptor open on the flash device is in the driver's list.\<close>

lemma flash_fd_known:
  assumes "kernel_inv k" and "i \<in> flash_fds (k_fdtab k)"
  shows "\<exists>j. get_fd (int i) (fl_list (k_flash k)) = Some j"
proof -
  have "int i \<in> set (filter (\<lambda>n. n \<noteq> 0) (ofds (k_flash k)))" using assms by (simp add: kernel_inv_def)
  then have "int i \<in> ofd_fd ` set (fl_list (k_flash k))" by simp
  then obtain j where "j < length (fl_list (k_flash k))" "ofd_fd (fl_list (k_flash k) ! j) = int i"
    by (auto simp: in_set_conv_nth)
  then have "get_fd (int i) (fl_list (k_flash k)) \<noteq> None"
    using assms(1) by (auto simp: get_fd_def for_find_None kernel_inv_def)
  then show ?thesis by blast
qed

lemma kernel_inv_close_flash:
  assumes k: "kernel_inv k" and i: "i \<in> flash_fds (k_fdtab k)" and g: "get_fd (int i) (fl_list (k_flash k)) = Some j"
    and fl: "ofds fl = map ofd_fd (release_fd j (fl_list (k_flash k)))"
  shows "kernel_inv (k\<lparr>k_flash := fl, k_fdtab := fd_dealloc i (k_fdtab k)\<rparr>)"
proof -
  have len4: "length (fl_list (k_flash k)) = 4" using k by (simp add: kernel_inv_def)
  obtain a x b where l: "fl_list (k_flash k) = a @ x # b" "ofd_fd x = int i"
      "ofds fl = map ofd_fd a @ 0 # map ofd_fd b"
    using release_fd_split [OF g len4] fl by metis
  have use: "i \<in> fds_used (k_fdtab k)" "i < 16" "i < length (k_fdtab k)"
    using i k fds_used_lt [OF k] by (auto simp: flash_fds_def)
  have "fd_fdfunc (k_fdtab k ! i) = Some Spiflash_func" using i by (simp add: flash_fds_def)
  moreover have "i < 3 \<Longrightarrow> fd_fdfunc (k_fdtab k ! i) = Some Cons_func" using k by (simp add: kernel_inv_def)
  ultimately have i3: "3 \<le> i" by (cases "i < 3") auto
  have s: "set (filter (\<lambda>n. n \<noteq> 0) (ofds (k_flash k))) = int ` flash_fds (k_fdtab k)"
      "distinct (filter (\<lambda>n. n \<noteq> 0) (ofds (k_flash k)))" using k by (simp_all add: kernel_inv_def)
  have d: "distinct (filter (\<lambda>n. n \<noteq> 0) (ofds fl))"
      "set (filter (\<lambda>n. n \<noteq> 0) (ofds fl)) = set (filter (\<lambda>n. n \<noteq> 0) (ofds (k_flash k))) - {int i}"
    using s(2) l i3 by auto
  have ff: "flash_fds (fd_dealloc i (k_fdtab k)) = flash_fds (k_fdtab k) - {i}"
    using use(3) by (simp add: fd_dealloc_def flash_fds_update)
  have "set (filter (\<lambda>n. n \<noteq> 0) (ofds fl)) = int ` flash_fds (fd_dealloc i (k_fdtab k))"
    unfolding d(2) s(1) ff by auto
  moreover have "fds_used (fd_dealloc i (k_fdtab k)) = fds_used (k_fdtab k) - {i}" "fdtab_ok (fd_dealloc i (k_fdtab k))"
    using k use(2) fdpool.used_free fdpool.ok_free by (auto simp: kernel_inv_def)
  moreover have "length (fl_list fl) = 4" using arg_cong [OF l(3), of length] len4 l(1) by simp
  moreover have "fd_dealloc i (k_fdtab k) ! m = k_fdtab k ! m" if "m \<noteq> i" for m
    using that by (simp add: fd_dealloc_def)
  ultimately show ?thesis using k d(1) i3 by (auto simp: kernel_inv_def)
qed

section \<open>FatFs keeps the kernel invariant\<close>

text \<open>
  What the functions of FatFs, which may call back into the kernel, do to the descriptors: they keep
  the invariant and leave the descriptors that are in use alone. That FatFs does so, because
  it reaches the kernel through the disk functions only, is shown in theory FatCalls.
\<close>

definition fat_keeps_result ::
  "('f, 'l, 'd, 'v, 's) kernel \<Rightarrow> ('f, 'l, 'd, 'v, 's) kernel \<Rightarrow> bool" where
  "fat_keeps_result k k' \<longleftrightarrow> kernel_inv k' \<and>
     (\<forall>i \<in> fds_used (k_fdtab k). i \<in> fds_used (k_fdtab k') \<and> k_fdtab k' ! i = k_fdtab k ! i)"

definition fat_keeps :: "('f, 'l, 'd, 'v, 's) fatfs \<Rightarrow> bool" where
  "fat_keeps ff \<longleftrightarrow> (\<forall>k. kernel_inv k \<longrightarrow>
     (\<forall>fp path b r fp' k'. f_open ff fp path b k = Inr (r, fp', k') \<longrightarrow> fat_keeps_result k k') \<and>
     (\<forall>fp buf r buf' n fp' k'. f_read ff fp buf k = Inr (r, buf', n, fp', k') \<longrightarrow> fat_keeps_result k k') \<and>
     (\<forall>fp buf r n fp' k'. f_write ff fp buf k = Inr (r, n, fp', k') \<longrightarrow> fat_keeps_result k k') \<and>
     (\<forall>fp r fp' k'. f_close ff fp k = Inr (r, fp', k') \<longrightarrow> fat_keeps_result k k') \<and>
     (\<forall>fp off r fp' k'. f_lseek ff fp off k = Inr (r, fp', k') \<longrightarrow> fat_keeps_result k k') \<and>
     (\<forall>d path r d' k'. f_opendir ff d path k = Inr (r, d', k') \<longrightarrow> fat_keeps_result k k') \<and>
     (\<forall>d r d' k'. f_closedir ff d k = Inr (r, d', k') \<longrightarrow> fat_keeps_result k k') \<and>
     (\<forall>d r fi d' k'. f_readdir ff d k = Inr (r, fi, d', k') \<longrightarrow> fat_keeps_result k k') \<and>
     (\<forall>path r fi k'. f_stat ff path k = Inr (r, fi, k') \<longrightarrow> fat_keeps_result k k') \<and>
     (\<forall>path r k'. f_unlink ff path k = Inr (r, k') \<longrightarrow> fat_keeps_result k k') \<and>
     (\<forall>path r k'. f_mkdir ff path k = Inr (r, k') \<longrightarrow> fat_keeps_result k k') \<and>
     (\<forall>path r k'. f_chdir ff path k = Inr (r, k') \<longrightarrow> fat_keeps_result k k') \<and>
     (\<forall>fs path opt r k'. f_mount ff fs path opt k = Inr (r, k') \<longrightarrow> fat_keeps_result k k'))"

lemma kernel_inv_put_fhnd [simp]: "kernel_inv (put_fhnd fd fp k) = kernel_inv k"
  by (simp add: put_fhnd_def kernel_inv_def)

lemma put_fhnd_fdtab [simp]: "k_fdtab (put_fhnd fd fp k) = k_fdtab k"
  by (simp add: put_fhnd_def)

lemma fat_keeps_put_fhnd [simp]: "fat_keeps_result k (put_fhnd fd fp k') = fat_keeps_result k k'"
  by (simp add: fat_keeps_result_def)

lemma fat_keepsD:
  assumes "fat_keeps ff" and "kernel_inv k"
  shows "f_open ff fp path b k = Inr (r, fp', k') \<Longrightarrow> fat_keeps_result k k'"
    and "f_read ff fp buf k = Inr (r, buf', n, fp', k') \<Longrightarrow> fat_keeps_result k k'"
    and "f_write ff fp buf k = Inr (r, n, fp', k') \<Longrightarrow> fat_keeps_result k k'"
    and "f_close ff fp k = Inr (r, fp', k') \<Longrightarrow> fat_keeps_result k k'"
    and "f_lseek ff fp off k = Inr (r, fp', k') \<Longrightarrow> fat_keeps_result k k'"
    and "f_opendir ff d path k = Inr (r, d', k') \<Longrightarrow> fat_keeps_result k k'"
    and "f_closedir ff d k = Inr (r, d', k') \<Longrightarrow> fat_keeps_result k k'"
    and "f_readdir ff d k = Inr (r, fi, d', k') \<Longrightarrow> fat_keeps_result k k'"
    and "f_stat ff path k = Inr (r, fi, k') \<Longrightarrow> fat_keeps_result k k'"
    and "f_unlink ff path k = Inr (r, k') \<Longrightarrow> fat_keeps_result k k'"
    and "f_mkdir ff path k = Inr (r, k') \<Longrightarrow> fat_keeps_result k k'"
    and "f_chdir ff path k = Inr (r, k') \<Longrightarrow> fat_keeps_result k k'"
    and "f_mount ff fs path opt k = Inr (r, k') \<Longrightarrow> fat_keeps_result k k'"
  using assms(1) [unfolded fat_keeps_def, rule_format, OF assms(2)]
  by - (elim conjE, (erule allE)+, erule mp, assumption)+

lemma fileio_keeps:
  assumes "fat_keeps ff" and "kernel_inv k"
  shows "fileio_read ff fd buf k = Inr (rc, buf', k') \<Longrightarrow> fat_keeps_result k k'"
    and "fileio_write ff fd buf k = Inr (rc, k') \<Longrightarrow> fat_keeps_result k k'"
    and "fileio_close ff fd k = Inr (rc, k') \<Longrightarrow> fat_keeps_result k k'"
    and "fileio_lseek ff fd off wh k = Inr (rc, k') \<Longrightarrow> fat_keeps_result k k'"
  by (auto simp: fileio_read_def fileio_write_def fileio_close_def fileio_lseek_def bindE_Inr_iff Let_def
      simp del: fat_keeps_put_fhnd intro!: fat_keeps_put_fhnd [THEN iffD2] dest: fat_keepsD [OF assms])

lemma fileio_open_inv:
  assumes ff: "fat_keeps ff" and k: "kernel_inv k" and o: "fileio_open ff path fl k = Inr (rc, k')"
  shows "kernel_inv k'"
proof (cases "fd_alloc (k_fdtab k)")
  case None
  then show ?thesis using o k by (simp add: fileio_open_def)
next
  case (Some p)
  then obtain i tab where a: "fd_alloc (k_fdtab k) = Some (i, tab)" by (cases p) auto
  note al = kernel_alloc [OF k a]
  let ?e = "(tab ! i)\<lparr>fd_fdfunc := Some Fileio_func\<rparr>" and ?k1 = "k\<lparr>k_fdtab := tab[i := (tab ! i)\<lparr>fd_fdfunc := Some Fileio_func\<rparr>]\<rparr>"
  have i: "i < length tab" "fd_flags (tab ! i) = FLAG_ALLOCATED" "fd_fd (tab ! i) = int i" using al k by simp_all
  have k1: "kernel_inv ?k1" using i by (intro kernel_inv_enter [OF k a, of Fileio_func]) simp_all
  obtain fp res fp1 k2 where f: "f_open ff fp path (fatfs_flags fl) ?k1 = Inr (res, fp1, k2)"
    and r: "k' = put_fhnd (int i) fp1 k2 \<or>
      k' = (put_fhnd (int i) fp1 k2)\<lparr>k_fdtab := fd_dealloc i (k_fdtab (put_fhnd (int i) fp1 k2))\<rparr>"
    using o a by (auto simp: fileio_open_def bindE_Inr_iff Let_def split: if_splits)
  have keep: "fat_keeps_result ?k1 k2" by (rule fat_keepsD(1) [OF ff k1 f])
  have "i \<in> fds_used (k_fdtab ?k1)" using i by (simp add: fds_used_def)
  then have "k_fdtab k2 ! i = ?e" "kernel_inv k2" using keep i(1) by (auto simp: fat_keeps_result_def)
  then have "i \<notin> flash_fds (k_fdtab k2)" by (simp add: flash_fds_def)
  then show ?thesis
    using r \<open>kernel_inv k2\<close> al kernel_inv_dealloc [of "put_fhnd (int i) fp1 k2" i] by auto
qed

section \<open>Every call keeps the invariant\<close>

lemma fat_keeps_resultD: "fat_keeps_result k k' \<Longrightarrow> kernel_inv k'"
  by (simp add: fat_keeps_result_def)

lemma fd_read_inv:
  assumes "fat_keeps (pl_fat pl)" and "kernel_inv k" and "fd_read pl c fd buf k = Inr (rc, buf', k')"
  shows "kernel_inv k'"
proof (cases c)
  case Spiflash_func
  then show ?thesis using assms(2,3) by (auto simp: fd_read_def bindE_Inr_iff intro: kernel_inv_flash dest!: ofds_read split: if_splits)
next
  case Fileio_func
  then show ?thesis using assms(3) fat_keeps_resultD [OF fileio_keeps(1) [OF assms(1,2)]] by (auto simp: fd_read_def)
qed (use assms(2,3) in \<open>auto simp: fd_read_def bindE_Inr_iff rgbled_read_def\<close>)

lemma fd_write_inv:
  assumes "fat_keeps (pl_fat pl)" and "kernel_inv k" and "fd_write pl c fd buf k = Inr (rc, k')"
  shows "kernel_inv k'"
proof (cases c)
  case Spiflash_func
  then show ?thesis using assms(2,3) by (auto simp: fd_write_def bindE_Inr_iff intro: kernel_inv_flash dest!: ofds_write)
next
  case Fileio_func
  then show ?thesis using assms(3) fat_keeps_resultD [OF fileio_keeps(2) [OF assms(1,2)]] by (auto simp: fd_write_def)
qed (use assms(2,3) in \<open>auto simp: fd_write_def bindE_Inr_iff console_write_def rgbled_write_def\<close>)

lemma fd_lseek_inv:
  assumes "fat_keeps (pl_fat pl)" and "kernel_inv k" and "fd_lseek pl c = Some op" and "op fd off wh k = Inr (rc, k')"
  shows "kernel_inv k'"
proof (cases c)
  case Spiflash_func
  then show ?thesis using assms(2-4)
    by (auto simp: fd_lseek_def intro: kernel_inv_flash dest!: ofds_lseek split: prod.splits)
next
  case Fileio_func
  then show ?thesis using assms(3,4) fat_keeps_resultD [OF fileio_keeps(4) [OF assms(1,2)]] by (auto simp: fd_lseek_def)
qed (use assms(3) in \<open>auto simp: fd_lseek_def\<close>)

lemma fd_ioctl_inv:
  "kernel_inv k \<Longrightarrow> fd_ioctl c = Some op \<Longrightarrow> op fd req ptr k = Inr (rc, out, k') \<Longrightarrow> kernel_inv k'"
  by (cases c) (auto simp: fd_ioctl_def bindE_Inr_iff split: prod.splits)

text \<open>Closing a descriptor in use: its operations run and its entry is released.\<close>

lemma SYS_close_inv:
  assumes ff: "fd_fdfunc (k_fdtab k ! nat fd) = Some Fileio_func \<Longrightarrow> fat_keeps (pl_fat pl)" and k: "kernel_inv k"
    and o: "SYS_close pl fd k = Inr (rc, k')"
  shows "kernel_inv k'"
proof (cases "bad_fd fd \<or> fd < 3 \<or> fd = 16")
  case True
  then show ?thesis using o k fdtab_length [OF k]
    by (auto simp: SYS_close_def fd_class_def fd_entry_def bad_fd_def split: if_splits)
next
  case False
  then have fd: "3 \<le> nat fd" "nat fd < 16" "0 \<le> fd" "fd < 16" by (auto simp: bad_fd_def)
  note cl = fd_class_open [OF k fd(3,4)]
  show ?thesis
  proof (cases "nat fd \<in> fds_used (k_fdtab k)")
    case unused: False
    then show ?thesis using o k cl False by (simp add: SYS_close_def)
  next
    case used: True
    then obtain c where c: "fd_fdfunc (k_fdtab k ! nat fd) = Some c" using k by (auto simp: kernel_inv_def)
    have o2: "(case fd_close pl c of None \<Rightarrow> Inr (- EBADF, k)
        | Some op \<Rightarrow> bindE (op fd k) (\<lambda>(rc, k1). Inr (rc, k1\<lparr>k_fdtab := fd_dealloc (nat fd) (k_fdtab k1)\<rparr>))) = Inr (rc, k')"
      using o cl used c False by (simp add: SYS_close_def)
    have nf: "c \<noteq> Spiflash_func \<Longrightarrow> nat fd \<notin> flash_fds (k_fdtab k)" using c by (simp add: flash_fds_def)
    have rel: "kernel_inv (k1\<lparr>k_fdtab := fd_dealloc (nat fd) (k_fdtab k1)\<rparr>)"
      if "kernel_inv k1" "nat fd \<notin> flash_fds (k_fdtab k1)" for k1
      using kernel_inv_dealloc [OF that(1) fd(1,2) that(2)] .
    show ?thesis
    proof (cases c)
      case Cons_func
      then show ?thesis using o2 k by (simp add: fd_close_def)
    next
      case Led_func
      then show ?thesis using o2 rel [OF k nf] by (auto simp: fd_close_def)
    next
      case Spiflash_func
      then have fl: "nat fd \<in> flash_fds (k_fdtab k)" using used c by (simp add: flash_fds_def)
      then obtain j where j: "get_fd (int (nat fd)) (fl_list (k_flash k)) = Some j" using flash_fd_known [OF k] by blast
      obtain dev where dev: "spiflash_sync (pl_flash pl) (k_flash k) = Inr dev"
        "k' = k\<lparr>k_flash := dev\<lparr>fl_list := release_fd j (fl_list dev)\<rparr>, k_fdtab := fd_dealloc (nat fd) (k_fdtab k)\<rparr>"
        using o2 Spiflash_func j fd(3) by (auto simp: fd_close_def spiflash_close_def bindE_Inr_iff)
      have "map ofd_fd (release_fd j (fl_list dev)) = map ofd_fd (release_fd j (fl_list (k_flash k)))"
        using ofds_sync [OF dev(1)] by (simp add: release_fd_def map_update)
      then show ?thesis unfolding dev(2) by (intro kernel_inv_close_flash [OF k fl j]) simp
    next
      case Econet_func
      then obtain e where "k' = k\<lparr>k_econet := e, k_fdtab := fd_dealloc (nat fd) (k_fdtab k)\<rparr>"
        using o2 by (auto simp: fd_close_def split: prod.splits)
      then show ?thesis using rel [of "k\<lparr>k_econet := e\<rparr>"] k nf Econet_func by simp
    next
      case Fileio_func
      then obtain k1 where k1: "fileio_close (pl_fat pl) fd k = Inr (rc, k1)"
        "k' = k1\<lparr>k_fdtab := fd_dealloc (nat fd) (k_fdtab k1)\<rparr>"
        using o2 by (auto simp: fd_close_def bindE_Inr_iff)
      have kr: "fat_keeps_result k k1" using fileio_keeps(3) [OF ff k k1(1)] c Fileio_func by simp
      then have "k_fdtab k1 ! nat fd = k_fdtab k ! nat fd" using used by (simp add: fat_keeps_result_def)
      then have "nat fd \<notin> flash_fds (k_fdtab k1)" using c Fileio_func by (simp add: flash_fds_def)
      then show ?thesis using rel fat_keeps_resultD [OF kr] k1(2) by simp
    qed
  qed
qed

section \<open>The kernel as a state machine\<close>

inductive sys_step ::
  "('f, 'l, 'd, 'v, 's) platform \<Rightarrow> ('f, 'l, 'd, 'v, 's) kernel \<Rightarrow> ('f, 'l, 'd, 'v, 's) kernel \<Rightarrow> bool"
  for pl where
  sys_open: "SYS_open pl path fl k = Inr (rc, k') \<Longrightarrow> sys_step pl k k'"
| sys_close: "SYS_close pl fd k = Inr (rc, k') \<Longrightarrow> sys_step pl k k'"
| sys_read: "SYS_read pl fd buf k = Inr (rc, buf', k') \<Longrightarrow> sys_step pl k k'"
| sys_write: "SYS_write pl fd buf k = Inr (rc, k') \<Longrightarrow> sys_step pl k k'"
| sys_lseek: "SYS_lseek pl fd off wh k = Inr (rc, k') \<Longrightarrow> sys_step pl k k'"
| sys_ioctl: "SYS_ioctl fd req ptr k = Inr (rc, out, k') \<Longrightarrow> sys_step pl k k'"
| sys_irq: "sys_step pl k (k\<lparr>k_econet := econet_happens v (k_econet k)\<rparr>)"

lemma sys_step_inv:
  assumes "sys_step pl k k'" and ff: "fat_keeps (pl_fat pl)" and k: "kernel_inv k"
  shows "kernel_inv k'"
  using assms(1)
proof cases
  case (sys_open path fl rc)
  then show ?thesis
    using open_device_result [OF k, of "drop 5 path" fl] fileio_open_inv [OF ff k, of path fl rc k']
    by (auto simp: SYS_open_def open_result_def split: if_splits)
next
  case (sys_close fd rc)
  then show ?thesis by (rule SYS_close_inv [OF ff k])
next
  case (sys_read fd buf rc buf')
  then show ?thesis using k
    by (auto simp: SYS_read_def bindE_Inr_iff dest: fd_read_inv [OF ff k] split: if_splits option.splits)
next
  case (sys_write fd buf rc)
  then show ?thesis using k
    by (auto simp: SYS_write_def bindE_Inr_iff dest: fd_write_inv [OF ff k] split: if_splits option.splits)
next
  case (sys_lseek fd off wh rc)
  then show ?thesis using k
    by (auto simp: SYS_lseek_def bindE_Inr_iff dest: fd_lseek_inv [OF ff k] split: if_splits option.splits)
next
  case (sys_ioctl fd req ptr rc out)
  then show ?thesis using k
    by (auto simp: SYS_ioctl_def bindE_Inr_iff dest: fd_ioctl_inv [OF k] split: if_splits option.splits)
next
  case (sys_irq v)
  then show ?thesis using k by simp
qed

text \<open>After start-up the three standard descriptors are the console and nothing else is open.\<close>

definition cons_FD :: "int \<Rightarrow> u32 \<Rightarrow> FD" where
  "cons_FD i fl = \<lparr>fd_flags = FLAG_ALLOCATED OR fl, fd_fdfunc = Some Cons_func, fd_data = 0, fd_fd = i\<rparr>"

lemma fd_init_fdtab:
  "k_fdtab (fd_init k) =
     (replicate 16 zero_FD)[0 := cons_FD 0 O_RDONLY, Suc 0 := cons_FD 1 O_WRONLY, Suc (Suc 0) := cons_FD 2 O_WRONLY]"
  by (simp add: fd_init_def open_device_def open_table_def open_console_def fd_alloc_def for_find.simps
      fdtable_cleared_def zero_FD_def cons_FD_def Let_def)

lemma fd_init_flash: "k_flash (fd_init k) = k_flash k"
  by (simp add: fd_init_def open_device_def open_table_def open_console_def Let_def split: option.splits prod.splits)

lemma fd_init_inv:
  assumes "fl_list (k_flash k) = replicate MAX_FLASH_FDS \<lparr>ofd_fd = 0, ofd_fileptr = 0\<rparr>"
  shows "kernel_inv (fd_init k)" and "fds_used (k_fdtab (fd_init k)) = {..<3}"
proof -
  note tab = fd_init_fdtab [of k] and fl = fd_init_flash [of k]
  have len: "length (k_fdtab (fd_init k)) = 16" by (simp add: tab)
  have at: "fd_fdfunc (k_fdtab (fd_init k) ! i) = Some Cons_func \<and> fd_fd (k_fdtab (fd_init k) ! i) = int i \<and>
      fd_flags (k_fdtab (fd_init k) ! i) \<noteq> 0" if "i < 3" for i
  proof -
    have "i = 0 \<or> i = Suc 0 \<or> i = Suc (Suc 0)" using that by auto
    then show ?thesis using flags_set [of O_RDONLY] flags_set [of O_WRONLY] by (auto simp: tab cons_FD_def)
  qed
  have rest: "k_fdtab (fd_init k) ! i = zero_FD" if "\<not> i < 3" "i < 16" for i using that by (simp add: tab)
  have used: "i \<in> fds_used (k_fdtab (fd_init k)) \<longleftrightarrow> i < 3" for i
    using at [of i] rest [of i] len by (cases "i < 3") (auto simp: fds_used_def zero_FD_def)
  show "fds_used (k_fdtab (fd_init k)) = {..<3}" by (simp add: set_eq_iff used)
  have "flash_fds (k_fdtab (fd_init k)) = {}" using used at by (fastforce simp: flash_fds_def)
  moreover have "filter (\<lambda>n. n \<noteq> 0) (ofds (k_flash k)) = []" using assms by simp
  ultimately show "kernel_inv (fd_init k)" using at used len fl assms by (simp add: kernel_inv_def fdtab_ok_def)
qed

section \<open>Opening and closing devices\<close>

text \<open>Opening a device changes one entry of the table, the one it returns.\<close>

lemma open_device_entries:
  assumes "open_device devname fl k = (rc, k1)"
  shows "\<exists>i. (\<forall>j. j \<noteq> i \<longrightarrow> k_fdtab k1 ! j = k_fdtab k ! j) \<and> (0 \<le> rc \<longrightarrow> rc = int i) \<and> (\<exists>tab. fd_alloc (k_fdtab k) = Some (i, tab)) \<or>
    k1 = k \<and> rc = - EMFILE"
proof (cases "fd_alloc (k_fdtab k)")
  case None
  then show ?thesis using assms by (simp add: open_device_def)
next
  case (Some p)
  then obtain i tab where a: "fd_alloc (k_fdtab k) = Some (i, tab)" by (cases p) auto
  then have "tab = (k_fdtab k)[i := (k_fdtab k ! i)\<lparr>fd_flags := FLAG_ALLOCATED, fd_fd := int i\<rparr>]"
    using fd_alloc_cases [OF a] by simp
  then have "(\<forall>j. j \<noteq> i \<longrightarrow> k_fdtab k1 ! j = k_fdtab k ! j) \<and> (0 \<le> rc \<longrightarrow> rc = int i)"
    using assms a
    by (auto simp: open_device_def open_lookup_table fd_dealloc_def spiflash_open_def Let_def
        split: option.splits if_splits prod.splits fdclass.splits)
  then show ?thesis using a by blast
qed

lemma open_device_flash:
  assumes "open_device devname fl k = (rc, k')" and "flash_inv v (k_flash k)"
  shows "flash_inv v (k_flash k')" and "flash_view v (k_flash k') = flash_view v (k_flash k)"
    and "fl_writebuf (k_flash k') = fl_writebuf (k_flash k)"
proof -
  have "length (fl_list (k_flash k')) = length (fl_list (k_flash k)) \<and> fl_writebuf (k_flash k') = fl_writebuf (k_flash k) \<and>
      fl_blk_offset (k_flash k') = fl_blk_offset (k_flash k) \<and> fl_blk_end (k_flash k') = fl_blk_end (k_flash k) \<and>
      fl_hw (k_flash k') = fl_hw (k_flash k)"
    using assms(1)
    by (auto simp: open_device_def open_lookup_table spiflash_open_def new_fd_def Let_def
        split: option.splits if_splits fdclass.splits)
  then show "flash_inv v (k_flash k')" "flash_view v (k_flash k') = flash_view v (k_flash k)"
    "fl_writebuf (k_flash k') = fl_writebuf (k_flash k)"
    using assms(2) by (auto simp: flash_inv_def flash_view_def split: option.split)
qed

text \<open>Closing a device descriptor: for the flash device what its write buffer holds reaches the chip first.\<close>

lemma SYS_close_device:
  assumes k: "kernel_inv k" and i: "fd = int i" "3 \<le> i" "i < 16" and u: "i \<in> fds_used (k_fdtab k)"
    and c: "fd_fdfunc (k_fdtab k ! i) \<in> {Some Led_func, Some Spiflash_func, Some Econet_func}"
    and hw: "nor_flash (pl_flash pl) v" and fl: "flash_inv v (k_flash k)"
  shows "\<exists>k'. SYS_close pl fd k = Inr (0, k') \<and> k_fdtab k' = fd_dealloc i (k_fdtab k) \<and>
    flash_view v (k_flash k') = flash_view v (k_flash k)"
proof -
  have cl: "fd_class fd k = Inr (fd_fdfunc (k_fdtab k ! i))" using fd_class_open [OF k, of fd] i u by simp
  have ok: "\<not> bad_fd fd" "\<not> fd < 3" using i by (auto simp: bad_fd_def)
  show ?thesis
  proof (cases "fd_fdfunc (k_fdtab k ! i) = Some Spiflash_func")
    case True
    then obtain j where j: "get_fd fd (fl_list (k_flash k)) = Some j"
      using flash_fd_known [OF k, of i] u i(1) by (auto simp: flash_fds_def)
    obtain d where d: "spiflash_sync (pl_flash pl) (k_flash k) = Inr d" "fl_writebuf d = None"
        "nor_content (v (fl_hw d)) = flash_view v (k_flash k)"
      using spiflash_sync_view [OF hw fl] by blast
    then have "flash_view v (d\<lparr>fl_list := l\<rparr>) = flash_view v (k_flash k)" for l
      by (simp add: flash_view_def)
    then show ?thesis using True ok cl j d(1) i(1) by (simp add: SYS_close_def fd_close_def spiflash_close_def)
  next
    case False
    then show ?thesis using c ok cl i(1)
      by (auto simp: SYS_close_def fd_close_def rgbled_close_def econet_close_def Let_def)
  qed
qed

section \<open>Properties\<close>

text \<open>A platform for the witnesses: the NOR chip, and a FatFs with no volume mounted.\<close>

type_synonym demo_kernel = "(nor, unit, unit, unit, sdcard) kernel"

definition no_volume :: "(nor, unit, unit, unit, sdcard) fatfs" where
  "no_volume = \<lparr>f_open = (\<lambda>fp path b k. Inr (FR_NOT_ENABLED, fp, k)),
     f_read = (\<lambda>fp buf k. Inr (FR_INVALID_OBJECT, buf, 0, fp, k)),
     f_write = (\<lambda>fp buf k. Inr (FR_INVALID_OBJECT, 0, fp, k)),
     f_close = (\<lambda>fp k. Inr (FR_INVALID_OBJECT, fp, k)),
     f_lseek = (\<lambda>fp off k. Inr (FR_INVALID_OBJECT, fp, k)),
     f_tell = (\<lambda>fp. 0), f_size = (\<lambda>fp. 0),
     f_opendir = (\<lambda>d path k. Inr (FR_NOT_ENABLED, d, k)),
     f_closedir = (\<lambda>d k. Inr (FR_INVALID_OBJECT, d, k)),
     f_readdir = (\<lambda>d k. Inr (FR_INVALID_OBJECT, \<lparr>fi_fsize = 0, fi_fattrib = 0, fi_fname = []\<rparr>, d, k)),
     f_stat = (\<lambda>path k. Inr (FR_NOT_ENABLED, \<lparr>fi_fsize = 0, fi_fattrib = 0, fi_fname = []\<rparr>, k)),
     f_unlink = (\<lambda>path k. Inr (FR_NOT_ENABLED, k)), f_mkdir = (\<lambda>path k. Inr (FR_NOT_ENABLED, k)),
     f_chdir = (\<lambda>path k. Inr (FR_NOT_ENABLED, k)), f_mount = (\<lambda>fs path opt k. Inr (FR_NOT_READY, k))\<rparr>"

definition demo_platform :: "(nor, unit, unit, unit, sdcard) platform" where
  "demo_platform = \<lparr>pl_flash = nor_chip, pl_fat = no_volume, pl_sd = ref_sd\<rparr>"

definition boot_kernel :: demo_kernel where
  "boot_kernel = \<lparr>k_fdtab = [], k_console = \<lparr>con_control = 0, con_fifo = [], con_next = [], con_out = []\<rparr>,
     k_led = \<lparr>led_val = 0, led_reg = []\<rparr>, k_flash = spiflash_init nor_dev, k_econet = econet_demo, k_events = [],
     k_fhnd = replicate 13 (), k_dhnd = replicate 8 \<lparr>dh_open = False, dh_dir = ()\<rparr>, k_flash_fd = -1,
     k_vols = (), k_sdpart = \<lparr>lba_offset = 0, lba_sectors = 0, sd_status = 1\<rparr>, k_sd = ref_card\<rparr>"

lemma demo_fat: "fat_keeps (pl_fat demo_platform)"
  by (simp add: fat_keeps_def fat_keeps_result_def demo_platform_def no_volume_def)

lemma boot_fl_list:
  "fl_list (k_flash boot_kernel) = replicate MAX_FLASH_FDS \<lparr>ofd_fd = 0, ofd_fileptr = 0\<rparr>"
  by (simp add: boot_kernel_def spiflash_init_def)

lemma demo_inv: "kernel_inv (fd_init boot_kernel)"
  by (rule fd_init_inv(1) [OF boot_fl_list])

lemma boot_flash_inv: "flash_inv id (k_flash (fd_init boot_kernel))"
  by (simp add: fd_init_flash boot_kernel_def spiflash_init_def nor_dev_def flash_inv_def nor_idle_def)

text \<open>Values that pass a filter occur once when the filtered list has no duplicates.\<close>

lemma distinct_filter_nth:
  "distinct (filter P xs) \<Longrightarrow> i < length xs \<Longrightarrow> j < length xs \<Longrightarrow> P (xs ! i) \<Longrightarrow> xs ! i = xs ! j \<Longrightarrow> i = j"
proof (induction xs arbitrary: i j)
  case (Cons x xs)
  show ?case
  proof (cases i; cases j)
    fix i' j' assume "i = Suc i'" "j = Suc j'"
    then show ?thesis using Cons.IH [of i' j'] Cons.prems by (auto split: if_splits)
  qed (use Cons.prems in \<open>auto split: if_splits\<close>)
qed simp

text \<open>C16: Opening a device returns the lowest free descriptor, now in use with the operations of that
  device; it fails with \<open>-ENOENT\<close> for an unknown name and \<open>-EMFILE\<close> when the descriptor table or the
  flash driver's list is full, and a failed open leaves no descriptor behind.\<close>

theorem open_device_correct:
  assumes "kernel_inv k" and "SYS_open pl (''/dev/'' @ devname) fl k = Inr (rc, k')"
  shows "if 0 \<le> rc
     then fds_used (k_fdtab k') = insert (nat rc) (fds_used (k_fdtab k)) \<and> nat rc = (LEAST i. i \<notin> fds_used (k_fdtab k)) \<and>
       fd_fdfunc (k_fdtab k' ! nat rc) = device_class devname \<and> device_class devname \<noteq> None
     else fds_used (k_fdtab k') = fds_used (k_fdtab k) \<and>
       (rc = - EMFILE \<or> rc = - ENOENT \<and> device_class devname = None)"
proof -
  have "open_device devname fl k = (rc, k')" using assms(2) by (simp add: SYS_open_def)
  then have r: "open_result devname k (rc, k')" using open_device_result [OF assms(1), of devname fl] by simp
  have least: "i = (LEAST i. i \<notin> fds_used (k_fdtab k))"
    if "i \<notin> fds_used (k_fdtab k)" "{..<i} \<subseteq> fds_used (k_fdtab k)" for i
    using that by (intro Least_equality [symmetric]) (auto simp: not_less [symmetric])
  show ?thesis using r least by (auto simp: open_result_def)
qed

theorem open_device_correct_witness:
  "let (rc, k') = open_device ''rgbled'' 2 (fd_init boot_kernel) in
   if 0 \<le> rc
   then fds_used (k_fdtab k') = insert (nat rc) (fds_used (k_fdtab (fd_init boot_kernel))) \<and>
     fd_fdfunc (k_fdtab k' ! nat rc) = Some Led_func
   else rc = - EMFILE"
proof -
  obtain rc k' where o: "open_device ''rgbled'' 2 (fd_init boot_kernel) = (rc, k')" by fastforce
  then have "SYS_open demo_platform (''/dev/'' @ ''rgbled'') 2 (fd_init boot_kernel) = Inr (rc, k')"
    by (simp add: SYS_open_def)
  from open_device_correct [OF demo_inv this] show ?thesis using o by (auto simp: device_class_def split: if_splits)
qed

text \<open>Every descriptor open on the flash device is known to the flash driver, so that reads, writes,
  seeks and closes on it never end in the driver's \<open>-EIO\<close>, and distinct descriptors have distinct
  file pointers.\<close>

theorem flash_descriptors_known:
  assumes "kernel_inv k" and "i \<in> fds_used (k_fdtab k)" and "fd_fdfunc (k_fdtab k ! i) = Some Spiflash_func"
  shows "\<exists>j < MAX_FLASH_FDS. get_fd (int i) (fl_list (k_flash k)) = Some j \<and>
    (\<forall>j' < MAX_FLASH_FDS. ofd_fd (fl_list (k_flash k) ! j') = int i \<longrightarrow> j' = j)"
proof -
  have fl: "i \<in> flash_fds (k_fdtab k)" using assms(2,3) by (simp add: flash_fds_def)
  then obtain j where j: "get_fd (int i) (fl_list (k_flash k)) = Some j" using flash_fd_known [OF assms(1)] by blast
  have j4: "j < 4" "ofd_fd (fl_list (k_flash k) ! j) = int i" using get_fd_Some [OF j] by auto
  have len: "length (fl_list (k_flash k)) = 4" "distinct (filter (\<lambda>n. n \<noteq> 0) (ofds (k_flash k)))"
    using assms(1) by (simp_all add: kernel_inv_def)
  have "0 < i" using assms by (cases i) (auto simp: kernel_inv_def)
  have uniq: "j' = j" if "j' < 4" "ofd_fd (fl_list (k_flash k) ! j') = int i" for j'
    using distinct_filter_nth [OF len(2), of j' j] that j4 len(1) \<open>0 < i\<close> by simp
  show ?thesis using j j4(1) uniq by blast
qed

lemma demo_flash_open:
  "\<exists>k'. open_device ''spiflash'' 2 (fd_init boot_kernel) = (3, k')"
  using flags_set [of O_RDONLY] flags_set [of O_WRONLY]
  by (simp add: open_device_def open_table_def fd_alloc_def for_find.simps fd_init_fdtab cons_FD_def zero_FD_def
      spiflash_open_def new_fd_def fd_init_flash boot_fl_list Let_def)

theorem flash_descriptors_known_witness:
  "\<exists>j < MAX_FLASH_FDS. get_fd 3 (fl_list (k_flash (snd (open_device ''spiflash'' 2 (fd_init boot_kernel))))) = Some j"
proof -
  obtain k' where k': "open_device ''spiflash'' 2 (fd_init boot_kernel) = (3, k')" using demo_flash_open by blast
  then have "kernel_inv k' \<and> 3 \<in> fds_used (k_fdtab k') \<and> fd_fdfunc (k_fdtab k' ! 3) = Some Spiflash_func"
    using open_device_result [OF demo_inv, of "''spiflash''" 2] by (auto simp: open_result_def device_class_def)
  then show ?thesis using flash_descriptors_known [of k' 3] k' by auto
qed

text \<open>C40: The range check of every call lets descriptor 16 through: read, write, seek, close, stat, peek
  and control requests on it index the sixteen-entry table out of bounds, where 17 and up and
  negative numbers are refused.\<close>

theorem descriptor_16_overruns:
  assumes "kernel_inv k"
  shows "SYS_read pl 16 buf k = Inl Out_Of_Bounds \<and>
    SYS_write pl 16 buf k = Inl Out_Of_Bounds \<and>
    SYS_lseek pl 16 off wh k = Inl Out_Of_Bounds \<and>
    SYS_close pl 16 k = Inl Out_Of_Bounds \<and>
    SYS_fstat pl 16 st k = Inl Out_Of_Bounds \<and>
    SYS_peek 16 k = Inl Out_Of_Bounds \<and>
    SYS_ioctl 16 req ptr k = Inl Out_Of_Bounds \<and>
    SYS_read pl 17 buf k = Inr (- EBADF, buf, k) \<and>
    SYS_read pl (- 1) buf k = Inr (- EBADF, buf, k)"
  using assms
  by (simp_all add: SYS_read_def SYS_write_def SYS_lseek_def SYS_close_def SYS_fstat_def SYS_peek_def SYS_ioctl_def
      bad_fd_def fd_class_def fd_entry_def)

theorem descriptor_16_overruns_witness:
  "SYS_read demo_platform 16 [0] (fd_init boot_kernel) = Inl Out_Of_Bounds"
  using descriptor_16_overruns [OF demo_inv] by blast

text \<open>C20: Every device other than the console that is opened can be closed again, whatever the flash
  driver still holds in its write buffer: the descriptor is given back, every other entry of the table is as it was
  before the open, the invariant holds and the contents of the flash are the same. A descriptor opened on
  the console can never be given back: closing it reports \<open>-EBADF\<close> and it stays in use.\<close>

theorem open_close_device:
  assumes "kernel_inv k" and "SYS_open pl (''/dev/'' @ devname) fl k = Inr (rc, k1)" and "0 \<le> rc"
    and "nor_flash (pl_flash pl) v" and "flash_inv v (k_flash k)"
  shows "if devname = ''console'' then SYS_close pl rc k1 = Inr (- EBADF, k1) \<and> nat rc \<in> fds_used (k_fdtab k1)
    else \<exists>k2. SYS_close pl rc k1 = Inr (0, k2) \<and> kernel_inv k2 \<and> fds_used (k_fdtab k2) = fds_used (k_fdtab k) \<and>
      (\<forall>j. j \<noteq> nat rc \<longrightarrow> k_fdtab k2 ! j = k_fdtab k ! j) \<and> flash_view v (k_flash k2) = flash_view v (k_flash k)"
proof -
  have od: "open_device devname fl k = (rc, k1)" using assms(2) by (simp add: SYS_open_def)
  then have r: "open_result devname k (rc, k1)" using open_device_result [OF assms(1), of devname fl] by simp
  obtain i where i: "rc = int i" "3 \<le> i" "i < 16" "i \<notin> fds_used (k_fdtab k)" "kernel_inv k1"
      "fds_used (k_fdtab k1) = insert i (fds_used (k_fdtab k))" "fd_fdfunc (k_fdtab k1 ! i) = device_class devname"
      "device_class devname \<noteq> None"
    using r assms(3) by (auto simp: open_result_def)
  have cl: "fd_class rc k1 = Inr (device_class devname)" using fd_class_open [OF i(5), of rc] i by simp
  have ok: "\<not> bad_fd rc" "\<not> rc < 3" using i by (auto simp: bad_fd_def)
  have used: "fds_used (fd_dealloc i (k_fdtab k1)) = fds_used (k_fdtab k)"
    using i fdpool.used_free [of "k_fdtab k1" i] by (simp add: kernel_inv_def)
  have "k_fdtab k1 ! j = k_fdtab k ! j" if "j \<noteq> i" for j
    using open_device_entries [OF od] i(1) that by auto
  then have same: "fd_dealloc i (k_fdtab k1) ! j = k_fdtab k ! j" if "j \<noteq> i" for j
    using that by (simp add: fd_dealloc_def)
  note fl = open_device_flash [OF od assms(5)]
  show ?thesis
  proof (cases "devname = ''console''")
    case True
    then show ?thesis using ok cl i by (simp add: SYS_close_def fd_close_def device_class_def)
  next
    case False
    obtain k2 where k2: "SYS_close pl rc k1 = Inr (0, k2)" "k_fdtab k2 = fd_dealloc i (k_fdtab k1)"
        "flash_view v (k_flash k2) = flash_view v (k_flash k)"
      using SYS_close_device [OF i(5,1-3) _ _ assms(4) fl(1)] i(6,7,8) fl(2) False by (auto simp: device_class_def split: if_splits)
    have "fd_fdfunc (k_fdtab k1 ! nat rc) \<noteq> Some Fileio_func" using i(1,7) by (simp add: device_class_def)
    then have "kernel_inv k2" using SYS_close_inv [OF _ i(5) k2(1)] by blast
    then show ?thesis using k2 used same False i(1) by auto
  qed
qed

theorem open_close_device_witness:
  "\<exists>k2. SYS_close demo_platform 3 (snd (open_device ''spiflash'' 2 (fd_init boot_kernel))) = Inr (0, k2) \<and>
     fds_used (k_fdtab k2) = fds_used (k_fdtab (fd_init boot_kernel))"
proof -
  obtain k' where k': "open_device ''spiflash'' 2 (fd_init boot_kernel) = (3, k')" using demo_flash_open by blast
  then have o: "SYS_open demo_platform (''/dev/'' @ ''spiflash'') 2 (fd_init boot_kernel) = Inr (3, k')"
    by (simp add: SYS_open_def)
  have "nor_flash (pl_flash demo_platform) id" by (simp add: demo_platform_def nor_chip_ok)
  from open_close_device [OF demo_inv o _ this boot_flash_inv] show ?thesis using k' by auto
qed

end
