(* ===== verification/Disk.thy ===== *)
theory Disk
  imports Syscalls
begin

text \<open>
  The disks that FatFs is given: the internal flash disk of system/flashdisc.c, which is a client of
  the descriptor system calls on /dev/spiflash, and the switch between it and the SD card in
  system/diskio.c; unmounting (system/mount.c) and the choice of the volume by FatFs from the drive
  string it is given (\<open>get_ldnumber\<close> and the registration in \<open>f_mount\<close> of system/ff.c, with the
  settings of system/ffconf.h). The flash disk is an instance of the contract \<open>block_device\<close>.
\<close>

section \<open>The flash disk\<close>

abbreviation STA_NOINIT :: byte where "STA_NOINIT \<equiv> 1"
abbreviation FS_START :: u32 where "FS_START \<equiv> 0x40000"
abbreviation SECTOR_SIZE :: u32 where "SECTOR_SIZE \<equiv> 512"

definition intflash_init ::
  "('f, 'l, 'd, 'v, 's) platform \<Rightarrow> ('f, 'l, 'd, 'v, 's) kernel \<Rightarrow> fault + (byte \<times> ('f, 'l, 'd, 'v, 's) kernel)" where
  "intflash_init pl k =
     bindE (if k_flash_fd k < 0
            then bindE (SYS_open pl ''/dev/spiflash'' O_RDWR k) (\<lambda>(rc, k1). Inr (k1\<lparr>k_flash_fd := rc\<rparr>))
            else Inr k)
       (\<lambda>k1. Inr (if k_flash_fd k1 > 0 then 0 else STA_NOINIT, k1))"

text \<open>The caller's buffer has room for the sectors, or the transfer runs past it.\<close>

definition intflash_read ::
  "('f, 'l, 'd, 'v, 's) platform \<Rightarrow> byte list \<Rightarrow> u32 \<Rightarrow> u32 \<Rightarrow> ('f, 'l, 'd, 'v, 's) kernel
    \<Rightarrow> fault + (DRESULT \<times> byte list \<times> ('f, 'l, 'd, 'v, 's) kernel)" where
  "intflash_read pl buf sector count k =
     (if k_flash_fd k < 0 then Inr (RES_NOTRDY, buf, k)
      else let flashaddress = FS_START + sector * SECTOR_SIZE; bytecount = unat (count * SECTOR_SIZE) in
      bindE (SYS_lseek pl (k_flash_fd k) flashaddress SEEK_SET k) (\<lambda>(rc, k1).
      if rc < 0 then Inr (RES_ERROR, buf, k1)
      else if length buf < bytecount then Inl Out_Of_Bounds
      else bindE (SYS_read pl (k_flash_fd k1) (take bytecount buf) k1) (\<lambda>(bytes, buf1, k2).
        Inr (if rc > -1 then RES_OK else RES_ERROR, buf1 @ drop bytecount buf, k2))))"

definition intflash_write ::
  "('f, 'l, 'd, 'v, 's) platform \<Rightarrow> byte list \<Rightarrow> u32 \<Rightarrow> u32 \<Rightarrow> ('f, 'l, 'd, 'v, 's) kernel
    \<Rightarrow> fault + (DRESULT \<times> ('f, 'l, 'd, 'v, 's) kernel)" where
  "intflash_write pl buf sector count k =
     (if k_flash_fd k < 0 then Inr (RES_NOTRDY, k)
      else let flashaddress = FS_START + sector * SECTOR_SIZE; bytecount = unat (count * SECTOR_SIZE) in
      bindE (SYS_lseek pl (k_flash_fd k) flashaddress SEEK_SET k) (\<lambda>(rc, k1).
      if rc < 0 then Inr (RES_ERROR, k1)
      else if length buf < bytecount then Inl Out_Of_Bounds
      else bindE (SYS_write pl (k_flash_fd k1) (take bytecount buf) k1) (\<lambda>(bytes, k2).
        Inr (if rc > -1 then RES_OK else RES_ERROR, k2))))"

definition intflash_sync ::
  "('f, 'l, 'd, 'v, 's) platform \<Rightarrow> ('f, 'l, 'd, 'v, 's) kernel \<Rightarrow> fault + (DRESULT \<times> ('f, 'l, 'd, 'v, 's) kernel)" where
  "intflash_sync pl k =
     bindE (spiflash_sync (pl_flash pl) (k_flash k)) (\<lambda>fl. Inr (RES_OK, k\<lparr>k_flash := fl\<rparr>))"

text \<open>The queries assign to the parameter and store nothing for the caller.\<close>

definition intflash_ioctl ::
  "('f, 'l, 'd, 'v, 's) platform \<Rightarrow> byte \<Rightarrow> ('f, 'l, 'd, 'v, 's) kernel
    \<Rightarrow> fault + (DRESULT \<times> byte list \<times> ('f, 'l, 'd, 'v, 's) kernel)" where
  "intflash_ioctl pl cmd k =
     (if cmd = CTRL_SYNC then bindE (intflash_sync pl k) (\<lambda>(res, k1). Inr (res, [], k1))
      else if cmd = GET_SECTOR_COUNT \<or> cmd = GET_SECTOR_SIZE \<or> cmd = GET_BLOCK_SIZE \<or> cmd = CTRL_TRIM
      then Inr (RES_OK, [], k)
      else Inr (RES_PARERR, [], k))"

definition intflash_release ::
  "('f, 'l, 'd, 'v, 's) platform \<Rightarrow> ('f, 'l, 'd, 'v, 's) kernel \<Rightarrow> fault + ('f, 'l, 'd, 'v, 's) kernel" where
  "intflash_release pl k =
     bindE (if k_flash_fd k > 0 then bindE (SYS_close pl (k_flash_fd k) k) (\<lambda>(rc, k1). Inr k1) else Inr k)
       (\<lambda>k1. Inr (k1\<lparr>k_flash_fd := -1\<rparr>))"

section \<open>The two drives\<close>

abbreviation DEV_SPIFLASH :: byte where "DEV_SPIFLASH \<equiv> 0"
abbreviation DEV_SDCARD :: byte where "DEV_SDCARD \<equiv> 1"

primrec dresult_num :: "DRESULT \<Rightarrow> byte" where
  "dresult_num RES_OK = 0" | "dresult_num RES_ERROR = 1" | "dresult_num RES_WRPRT = 2"
| "dresult_num RES_NOTRDY = 3" | "dresult_num RES_PARERR = 4"

definition disk_status :: "byte \<Rightarrow> ('f, 'l, 'd, 'v, 's) kernel \<Rightarrow> byte" where
  "disk_status pdrv k =
     (if pdrv = DEV_SPIFLASH then 0 else if pdrv = DEV_SDCARD then sd_status (k_sdpart k) else STA_NOINIT)"

definition disk_initialize ::
  "('f, 'l, 'd, 'v, 's) platform \<Rightarrow> byte \<Rightarrow> ('f, 'l, 'd, 'v, 's) kernel \<Rightarrow> fault + (byte \<times> ('f, 'l, 'd, 'v, 's) kernel)" where
  "disk_initialize pl pdrv k =
     (if pdrv = DEV_SPIFLASH then intflash_init pl k
      else if pdrv = DEV_SDCARD then
        (case sd_init (pl_sd pl) (k_sd k) of (rc, s) \<Rightarrow>
           if rc = SD_SUCCESS
           then (case sd_readPT (pl_sd pl) (replicate 512 0) (k_sdpart k) s of (res, pt, s1) \<Rightarrow>
                   Inr (dresult_num res, k\<lparr>k_sd := s1, k_sdpart := pt\<rparr>))
           else Inr (STA_NOINIT, k\<lparr>k_sd := s\<rparr>))
      else Inr (STA_NOINIT, k))"

definition disk_read ::
  "('f, 'l, 'd, 'v, 's) platform \<Rightarrow> byte \<Rightarrow> byte list \<Rightarrow> u32 \<Rightarrow> u32 \<Rightarrow> ('f, 'l, 'd, 'v, 's) kernel
    \<Rightarrow> fault + (DRESULT \<times> byte list \<times> ('f, 'l, 'd, 'v, 's) kernel)" where
  "disk_read pl pdrv buff sector count k =
     (if pdrv = DEV_SPIFLASH then intflash_read pl buff sector count k
      else if pdrv = DEV_SDCARD then
        (case sd_read (pl_sd pl) (k_sdpart k) buff sector count (k_sd k) of (res, bs, s) \<Rightarrow> Inr (res, bs, k\<lparr>k_sd := s\<rparr>))
      else Inr (RES_PARERR, buff, k))"

text \<open>A value that \<open>sd_write\<close> did not return is used here.\<close>

definition disk_write ::
  "('f, 'l, 'd, 'v, 's) platform \<Rightarrow> byte \<Rightarrow> byte list \<Rightarrow> u32 \<Rightarrow> u32 \<Rightarrow> ('f, 'l, 'd, 'v, 's) kernel
    \<Rightarrow> fault + (DRESULT \<times> ('f, 'l, 'd, 'v, 's) kernel)" where
  "disk_write pl pdrv buff sector count k =
     (if pdrv = DEV_SPIFLASH then intflash_write pl buff sector count k
      else if pdrv = DEV_SDCARD then
        (case sd_write (pl_sd pl) (k_sdpart k) buff sector count (k_sd k) of
           (None, s) \<Rightarrow> Inl Uninitialised | (Some res, s) \<Rightarrow> Inr (res, k\<lparr>k_sd := s\<rparr>))
      else Inr (RES_PARERR, k))"

definition disk_ioctl ::
  "('f, 'l, 'd, 'v, 's) platform \<Rightarrow> byte \<Rightarrow> byte \<Rightarrow> ('f, 'l, 'd, 'v, 's) kernel
    \<Rightarrow> fault + (DRESULT \<times> byte list \<times> ('f, 'l, 'd, 'v, 's) kernel)" where
  "disk_ioctl pl pdrv cmd k =
     (if pdrv = DEV_SPIFLASH then intflash_ioctl pl cmd k
      else if pdrv = DEV_SDCARD then (case sd_ioctl (k_sdpart k) cmd of (res, out) \<Rightarrow> Inr (res, out, k))
      else Inr (RES_PARERR, [], k))"

section \<open>Unmounting and the choice of the volume\<close>

definition SYS_umount ::
  "('f, 'l, 'd, 'v, 's) platform \<Rightarrow> string \<Rightarrow> ('f, 'l, 'd, 'v, 's) kernel \<Rightarrow> fault + (int \<times> ('f, 'l, 'd, 'v, 's) kernel)" where
  "SYS_umount pl target k =
     bindE (f_mount (pl_fat pl) None target 0 k) (\<lambda>(res, k1).
     bindE (if target = ''0'' then intflash_release pl k1 else Inr k1) (\<lambda>k2.
     Inr (fatfs_to_errno res, k2)))"

abbreviation FF_VOLUMES :: nat where "FF_VOLUMES \<equiv> 1"

text \<open>\<open>IsTerminator\<close> with long file names enabled: the NUL and the control characters.\<close>

definition IsTerminator :: "char \<Rightarrow> bool" where
  "IsTerminator c \<longleftrightarrow> (of_char c :: nat) < 32"

text \<open>\<open>do tc = *tt++; while(!IsTerminator(tc) && tc != ':')\<close>: the characters before the colon
  and the rest after it, \<open>None\<close> when the path ends first.\<close>

fun find_colon :: "string \<Rightarrow> (string \<times> string) option" where
  "find_colon [] = None"
| "find_colon (c # cs) =
     (if IsTerminator c then None
      else if c = CHR '':'' then Some ([], cs)
      else map_option (\<lambda>(pre, rest). (c # pre, rest)) (find_colon cs))"

definition is_digit :: "char \<Rightarrow> bool" where
  "is_digit c \<longleftrightarrow> 48 \<le> (of_char c :: nat) \<and> (of_char c :: nat) \<le> 57"

text \<open>The logical drive, \<open>None\<close> for -1, and the path with the drive prefix removed.\<close>

definition get_ldnumber :: "nat \<Rightarrow> string \<Rightarrow> nat option \<times> string" where
  "get_ldnumber CurrVol path =
     (case find_colon path of
        Some (pre, rest) \<Rightarrow>
          let i = (case pre of [c] \<Rightarrow> if is_digit c then of_char c - 48 else FF_VOLUMES | _ \<Rightarrow> FF_VOLUMES)
          in if i < FF_VOLUMES then (Some i, rest) else (None, path)
      | None \<Rightarrow> (Some CurrVol, path))"

text \<open>
  The registration part of \<open>f_mount\<close>: \<open>FatFs\<close> holds the file system object of each volume, by
  number, and each object knows the physical drive it is hosted on.
\<close>

record ff_state =
  FatFs :: "nat option list"
  CurrVol :: nat
  fs_pdrv :: "nat \<Rightarrow> byte"
  fs_type :: "nat \<Rightarrow> nat"

definition f_mount_register :: "nat option \<Rightarrow> string \<Rightarrow> 'x ff_state_scheme \<Rightarrow> 'x ff_state_scheme option" where
  "f_mount_register fs path st =
     (case get_ldnumber (CurrVol st) path of
        (None, _) \<Rightarrow> None
      | (Some vol, _) \<Rightarrow>
          let st1 = (case FatFs st ! vol of None \<Rightarrow> st
                     | Some cfs \<Rightarrow> st\<lparr>FatFs := (FatFs st)[vol := None], fs_type := (fs_type st)(cfs := 0)\<rparr>)
          in Some (case fs of None \<Rightarrow> st1
                   | Some f \<Rightarrow> st1\<lparr>fs_pdrv := (fs_pdrv st1)(f := of_nat vol), fs_type := (fs_type st1)(f := 0),
                                  FatFs := (FatFs st1)[vol := Some f]\<rparr>))"

section \<open>The flash disk as a block device\<close>

text \<open>A descriptor that is open on the flash device.\<close>

definition flash_open :: "('f \<Rightarrow> nor) \<Rightarrow> int \<Rightarrow> ('f, 'l, 'd, 'v, 's) kernel \<Rightarrow> bool" where
  "flash_open v fd k \<longleftrightarrow> kernel_inv k \<and> flash_inv v (k_flash k) \<and> 0 < fd \<and> nat fd \<in> flash_fds (k_fdtab k)"

text \<open>The flash disk is usable: the driver holds such a descriptor.\<close>

definition flash_mounted :: "('f \<Rightarrow> nor) \<Rightarrow> ('f, 'l, 'd, 'v, 's) kernel \<Rightarrow> bool" where
  "flash_mounted v k \<longleftrightarrow> flash_open v (k_flash_fd k) k"

definition flash_sectors :: "('f \<Rightarrow> nor) \<Rightarrow> ('f, 'l, 'd, 'v, 's) kernel \<Rightarrow> nat \<Rightarrow> byte list" where
  "flash_sectors v k a = map (\<lambda>j. flash_view v (k_flash k) (0x40000 + 512 * a + j)) [0..<512]"

text \<open>The flash disk reaches to the end of the chip.\<close>

abbreviation FLASH_SECTORS :: nat where "FLASH_SECTORS \<equiv> 32256"

lemma get_fd_cong: "map ofd_fd l = map ofd_fd l' \<Longrightarrow> length l = 4 \<Longrightarrow> get_fd fd l = get_fd fd l'"
proof -
  assume m: "map ofd_fd l = map ofd_fd l'" and len: "length l = 4"
  then have len': "length l' = 4" by (metis length_map)
  have eq: "ofd_fd (l ! i) = ofd_fd (l' ! i)" if "i < 4" for i
    using arg_cong [OF m, of "\<lambda>xs. xs ! i"] that len len' by simp
  show ?thesis
  proof (cases "get_fd fd l'")
    case None
    then have "get_fd fd l = None" using eq by (auto simp: get_fd_def for_find_None)
    then show ?thesis using None by simp
  next
    case (Some j)
    then have "get_fd fd l = Some j" using eq by (auto simp: get_fd_def for_find_Some)
    then show ?thesis using Some by simp
  qed
qed

lemma flash_open_fd:
  assumes "flash_open v fd k"
  shows "\<not> bad_fd fd" and "fd_class fd k = Inr (Some Spiflash_func)" and "\<exists>i. get_fd fd (fl_list (k_flash k)) = Some i"
proof -
  have k: "kernel_inv k" "0 < fd" "nat fd \<in> flash_fds (k_fdtab k)" using assms by (simp_all add: flash_open_def)
  then have u: "nat fd \<in> fds_used (k_fdtab k)" "fd_fdfunc (k_fdtab k ! nat fd) = Some Spiflash_func"
    by (simp_all add: flash_fds_def)
  then have lt: "fd < 16" using fds_used_lt [OF k(1) u(1)] by simp
  then show "\<not> bad_fd fd" using k(2) by (simp add: bad_fd_def)
  show "fd_class fd k = Inr (Some Spiflash_func)" using fd_class_open [OF k(1), of fd] k(2) lt u by simp
  show "\<exists>i. get_fd fd (fl_list (k_flash k)) = Some i" using flash_fd_known [OF k(1,3)] k(2) by simp
qed

lemma flash_open_flash:
  "flash_open v fd k \<Longrightarrow> flash_inv v fl \<Longrightarrow> ofds fl = ofds (k_flash k) \<Longrightarrow> flash_open v fd (k\<lparr>k_flash := fl\<rparr>)"
  by (auto simp: flash_open_def intro: kernel_inv_flash)

lemma flash_open_get_fd:
  assumes "flash_open v fd k" and "ofds fl = ofds (k_flash k)"
  shows "get_fd fd (fl_list fl) = get_fd fd (fl_list (k_flash k))"
  using assms get_fd_cong [of "fl_list (k_flash k)" "fl_list fl"]
  by (simp add: flash_open_def flash_inv_def)

text \<open>Seeking and reading a descriptor of the flash device.\<close>

lemma flash_seek:
  assumes m: "flash_open v fd k" and i: "get_fd fd (fl_list (k_flash k)) = Some i" and p: "unat p < 2147483648"
  defines "k1 \<equiv> k\<lparr>k_flash := set_fileptr i p (k_flash k)\<rparr>"
  shows "SYS_lseek pl fd p SEEK_SET k = Inr (int (unat p), k1)"
    and "flash_open v fd k1" and "flash_view v (k_flash k1) = flash_view v (k_flash k)"
    and "get_fd fd (fl_list (k_flash k1)) = Some i" and "fileptr i (k_flash k1) = p"
proof -
  have inv: "flash_inv v (k_flash k)" and len: "length (fl_list (k_flash k)) = 4"
    using m by (simp_all add: flash_open_def flash_inv_def)
  show "SYS_lseek pl fd p SEEK_SET k = Inr (int (unat p), k1)"
    using flash_open_fd [OF m] i p
    by (simp add: SYS_lseek_def fd_lseek_def spiflash_lseek_def k1_def sint_small Let_def)
  have "flash_inv v (set_fileptr i p (k_flash k))" using inv by (simp add: set_fileptr_def flash_inv_def)
  then show "flash_open v fd k1" using m by (simp add: k1_def flash_open_flash)
  show "flash_view v (k_flash k1) = flash_view v (k_flash k)" by (simp add: k1_def set_fileptr_def flash_view_def split: option.split)
  show "get_fd fd (fl_list (k_flash k1)) = Some i"
    using i flash_open_get_fd [OF m, of "set_fileptr i p (k_flash k)"] by (simp add: k1_def)
  show "fileptr i (k_flash k1) = p" using get_fd_Some [OF i] len by (simp add: k1_def set_fileptr_def)
qed

lemma flash_read:
  assumes hw: "nor_flash (pl_flash pl) v" and m: "flash_open v fd k" and i: "get_fd fd (fl_list (k_flash k)) = Some i"
    and n: "4 \<le> length buf" "unat (fileptr i (k_flash k)) + length buf \<le> 16777216"
  shows "\<exists>k'. SYS_read pl fd buf k =
      Inr (int (length buf), map (\<lambda>j. flash_view v (k_flash k) (unat (fileptr i (k_flash k)) + j)) [0..<length buf], k') \<and>
    flash_open v fd k' \<and> flash_view v (k_flash k') = flash_view v (k_flash k) \<and> k_flash_fd k' = k_flash_fd k \<and>
    get_fd fd (fl_list (k_flash k')) = Some i \<and> unat (fileptr i (k_flash k')) = unat (fileptr i (k_flash k)) + length buf"
proof -
  define cnt :: u32 where "cnt = of_nat (length buf)"
  have un: "unat cnt = length buf" using n unfolding cnt_def by (intro unat_of_nat32) simp
  have inv: "flash_inv v (k_flash k)" and len: "length (fl_list (k_flash k)) = 4"
    using m by (simp_all add: flash_open_def flash_inv_def)
  obtain dev where r: "spiflash_read (pl_flash pl) fd cnt (k_flash k) =
      Inr (int (length buf), map (\<lambda>j. flash_view v (k_flash k) (unat (fileptr i (k_flash k)) + j)) [0..<length buf], dev)"
    "flash_inv v dev" "flash_view v dev = flash_view v (k_flash k)"
    "fl_list dev = (fl_list (k_flash k))[i := (fl_list (k_flash k) ! i)\<lparr>ofd_fileptr := fileptr i (k_flash k) + cnt\<rparr>]"
    using spiflash_read_view [OF hw inv i, of cnt] n un unfolding un by auto
  have o: "ofds dev = ofds (k_flash k)" using ofds_read [OF r(1)] .
  have "SYS_read pl fd buf k =
      Inr (int (length buf), map (\<lambda>j. flash_view v (k_flash k) (unat (fileptr i (k_flash k)) + j)) [0..<length buf], k\<lparr>k_flash := dev\<rparr>)"
    using flash_open_fd [OF m] r(1) by (simp add: SYS_read_def fd_read_def cnt_def)
  moreover have "flash_open v fd (k\<lparr>k_flash := dev\<rparr>)" using m r(2) o by (rule flash_open_flash)
  moreover have "get_fd fd (fl_list dev) = Some i" using flash_open_get_fd [OF m o] i by simp
  moreover have "unat (fileptr i dev) = unat (fileptr i (k_flash k)) + length buf"
    using r(4) get_fd_Some [OF i] len n un by (simp add: unat_add32)
  ultimately show ?thesis using r(3) by auto
qed

lemma flash_write:
  assumes hw: "nor_flash (pl_flash pl) v" and mem: "\<not> no_memory (pl_flash pl)" and m: "flash_open v fd k"
    and i: "get_fd fd (fl_list (k_flash k)) = Some i" and n: "buf \<noteq> []" "unat (fileptr i (k_flash k)) + length buf \<le> 16777216"
  shows "\<exists>fl. SYS_write pl fd buf k = Inr (int (length buf), k\<lparr>k_flash := fl\<rparr>) \<and> flash_open v fd (k\<lparr>k_flash := fl\<rparr>) \<and>
    ofds fl = ofds (k_flash k) \<and> flash_inv v fl \<and>
    flash_view v fl = patch (unat (fileptr i (k_flash k))) buf (flash_view v (k_flash k))"
proof -
  have inv: "flash_inv v (k_flash k)" using m by (simp add: flash_open_def)
  from spiflash_write_view [OF hw inv i n] mem obtain fl where
    w: "spiflash_write (pl_flash pl) fd buf (k_flash k) = Inr (int (length buf), fl)"
      "flash_inv v fl" "flash_view v fl = patch (unat (fileptr i (k_flash k))) buf (flash_view v (k_flash k))"
    by auto
  have o: "ofds fl = ofds (k_flash k)" using ofds_write [OF w(1)] .
  have "SYS_write pl fd buf k = Inr (int (length buf), k\<lparr>k_flash := fl\<rparr>)"
    using flash_open_fd [OF m] w(1) by (simp add: SYS_write_def fd_write_def)
  then show ?thesis using flash_open_flash [OF m w(2) o] o w(2,3) by blast
qed

text \<open>Sectors and bytes of the device.\<close>

lemma blocks_get_flash:
  "blocks_get a n (flash_sectors v k) = map (\<lambda>j. flash_view v (k_flash k) (0x40000 + 512 * a + j)) [0..<512 * n]"
proof (induction n arbitrary: a)
  case (Suc n)
  have "[0..<512 * Suc n] = [0..<512] @ map (\<lambda>j. 512 + j) [0..<512 * n]"
    by (simp add: upt_add_eq_append [of 0 512 "512 * n", simplified] map_add_upt add.commute)
  then show ?case using Suc.IH [of "Suc a"]
    by (simp add: blocks_get_Suc flash_sectors_def [of v k a] algebra_simps comp_def)
qed simp

lemma flash_sectors_patch:
  assumes "length buf = 512 * n" and "flash_view v (k_flash k') = patch (0x40000 + 512 * a) buf (flash_view v (k_flash k))"
  shows "flash_sectors v k' = blocks_put a buf (flash_sectors v k)"
proof
  fix b
  show "flash_sectors v k' b = blocks_put a buf (flash_sectors v k) b"
  proof (cases "a \<le> b \<and> b < a + n")
    case True
    then obtain c where c: "b = a + c" "c < n" using le_Suc_ex by auto
    then have "512 * c + 512 \<le> length buf" using assms(1) by simp
    then show ?thesis using c assms
      by (intro nth_equalityI) (auto simp: flash_sectors_def blocks_put_def patch_def algebra_simps)
  next
    case False
    then have "b < a \<or> a + n \<le> b" by auto
    then have "patch (0x40000 + 512 * a) buf f (0x40000 + 512 * b + j) = f (0x40000 + 512 * b + j)" if "j < 512" for f j
      using that assms(1) by (auto simp: patch_def)
    then show ?thesis using False assms by (auto simp: flash_sectors_def blocks_put_def)
  qed
qed

lemma flash_address:
  assumes "a + n \<le> FLASH_SECTORS"
  shows "unat (FS_START + of_nat a * SECTOR_SIZE) = 0x40000 + 512 * a" and "unat (of_nat n * SECTOR_SIZE) = 512 * n"
proof -
  have "(of_nat a * SECTOR_SIZE :: u32) = of_nat (512 * a)" "(of_nat n * SECTOR_SIZE :: u32) = of_nat (512 * n)" by simp_all
  moreover have "unat (of_nat (512 * a) :: u32) = 512 * a" "unat (of_nat (512 * n) :: u32) = 512 * n"
    using assms by (intro unat_of_nat32; simp)+
  ultimately show "unat (FS_START + of_nat a * SECTOR_SIZE) = 0x40000 + 512 * a" "unat (of_nat n * SECTOR_SIZE) = 512 * n"
    using assms by (auto simp: unat_add32 simp del: of_nat_mult)
qed

lemma intflash_read_sectors:
  assumes hw: "nor_flash (pl_flash pl) v" and m: "flash_mounted v k" and n: "0 < n" "a + n \<le> FLASH_SECTORS"
    and len: "length buf = 512 * n"
  shows "\<exists>k'. intflash_read pl buf (of_nat a) (of_nat n) k = Inr (RES_OK, blocks_get a n (flash_sectors v k), k') \<and>
    flash_mounted v k' \<and> flash_sectors v k' = flash_sectors v k"
proof -
  let ?p = "FS_START + of_nat a * SECTOR_SIZE"
  have o: "flash_open v (k_flash_fd k) k" "0 < k_flash_fd k" using m by (simp_all add: flash_mounted_def flash_open_def)
  obtain i where i: "get_fd (k_flash_fd k) (fl_list (k_flash k)) = Some i" using flash_open_fd(3) [OF o(1)] by blast
  have p: "unat ?p = 0x40000 + 512 * a" and c: "unat (of_nat n * SECTOR_SIZE) = 512 * n" by (rule flash_address [OF n(2)])+
  have p31: "unat ?p < 2147483648" using n p by simp
  define k1 where "k1 = k\<lparr>k_flash := set_fileptr i ?p (k_flash k)\<rparr>"
  have nn: "- 1 < uint ?p" using uint_ge_0 [of ?p] by linarith
  note s = flash_seek [OF o(1) i p31, folded k1_def]
  have fd: "k_flash_fd k1 = k_flash_fd k" by (simp add: k1_def)
  have "4 \<le> length buf" "unat (fileptr i (k_flash k1)) + length buf \<le> 16777216" using len n s(5) p by simp_all
  from flash_read [OF hw s(2,4) this] obtain k2 where
    r: "SYS_read pl (k_flash_fd k) buf k1 = Inr (int (length buf), blocks_get a n (flash_sectors v k), k2)"
      "flash_open v (k_flash_fd k) k2" "flash_view v (k_flash k2) = flash_view v (k_flash k)" "k_flash_fd k2 = k_flash_fd k"
    using s(3,5) p len fd by (auto simp: blocks_get_flash)
  have "intflash_read pl buf (of_nat a) (of_nat n) k = Inr (RES_OK, blocks_get a n (flash_sectors v k), k2)"
    using s(1) nn fd o(2) r(1) c len unfolding intflash_read_def by (simp add: Let_def)
  moreover have "flash_mounted v k2" using r(2,4) by (simp add: flash_mounted_def)
  moreover have "flash_sectors v k2 = flash_sectors v k" using r(3) by (simp add: flash_sectors_def fun_eq_iff)
  ultimately show ?thesis by blast
qed

lemma intflash_write_sectors:
  assumes hw: "nor_flash (pl_flash pl) v" and mem: "\<not> no_memory (pl_flash pl)" and m: "flash_mounted v k"
    and n: "0 < n" "a + n \<le> FLASH_SECTORS" and len: "length buf = 512 * n"
  shows "\<exists>k'. intflash_write pl buf (of_nat a) (of_nat n) k = Inr (RES_OK, k') \<and>
    flash_mounted v k' \<and> flash_sectors v k' = blocks_put a buf (flash_sectors v k)"
proof -
  let ?p = "FS_START + of_nat a * SECTOR_SIZE"
  have m': "flash_open v (k_flash_fd k) k" using m by (simp add: flash_mounted_def)
  obtain i where i: "get_fd (k_flash_fd k) (fl_list (k_flash k)) = Some i" using flash_open_fd(3) [OF m'] by blast
  have p: "unat ?p = 0x40000 + 512 * a" and c: "unat (of_nat n * SECTOR_SIZE) = 512 * n" by (rule flash_address [OF n(2)])+
  have p31: "unat ?p < 2147483648" using n p by simp
  define k1 where "k1 = k\<lparr>k_flash := set_fileptr i ?p (k_flash k)\<rparr>"
  have nn: "- 1 < uint ?p" using uint_ge_0 [of ?p] by linarith
  note s = flash_seek [OF m' i p31, folded k1_def]
  have fd: "k_flash_fd k1 = k_flash_fd k" "0 < k_flash_fd k" using m by (simp_all add: k1_def flash_mounted_def flash_open_def)
  have "buf \<noteq> []" "unat (fileptr i (k_flash k1)) + length buf \<le> 16777216" using len n s(5) p by auto
  from flash_write [OF hw mem s(2,4) this] obtain dev where
    w: "SYS_write pl (k_flash_fd k1) buf k1 = Inr (int (length buf), k1\<lparr>k_flash := dev\<rparr>)"
      "flash_open v (k_flash_fd k) (k1\<lparr>k_flash := dev\<rparr>)" "flash_view v dev = patch (0x40000 + 512 * a) buf (flash_view v (k_flash k1))"
    using s(5) p fd(1) by auto
  have "intflash_write pl buf (of_nat a) (of_nat n) k = Inr (RES_OK, k1\<lparr>k_flash := dev\<rparr>)"
    using s(1) w(1) nn fd c len unfolding intflash_write_def by (simp add: Let_def)
  moreover have "flash_mounted v (k1\<lparr>k_flash := dev\<rparr>)" using w(2) fd by (simp add: flash_mounted_def)
  moreover have "flash_sectors v (k1\<lparr>k_flash := dev\<rparr>) = blocks_put a buf (flash_sectors v k)"
    using w(3) s(3) len by (intro flash_sectors_patch) simp_all
  ultimately show ?thesis by blast
qed

text \<open>The drive as FatFs sees it: a result other than \<open>RES_OK\<close> is a failed operation.\<close>

definition drive_read ::
  "('f, 'l, 'd, 'v, 's) platform \<Rightarrow> byte \<Rightarrow> nat \<Rightarrow> nat \<Rightarrow> ('f, 'l, 'd, 'v, 's) kernel
    \<Rightarrow> (byte list \<times> ('f, 'l, 'd, 'v, 's) kernel) option" where
  "drive_read pl pdrv a n k =
     (case disk_read pl pdrv (replicate (512 * n) 0) (of_nat a) (of_nat n) k of
        Inr (RES_OK, bs, k') \<Rightarrow> Some (bs, k') | _ \<Rightarrow> None)"

definition drive_write ::
  "('f, 'l, 'd, 'v, 's) platform \<Rightarrow> byte \<Rightarrow> nat \<Rightarrow> byte list \<Rightarrow> ('f, 'l, 'd, 'v, 's) kernel
    \<Rightarrow> ('f, 'l, 'd, 'v, 's) kernel option" where
  "drive_write pl pdrv a buf k =
     (case disk_write pl pdrv buf (of_nat a) (of_nat (length buf div 512)) k of
        Inr (RES_OK, k') \<Rightarrow> Some k' | _ \<Rightarrow> None)"

locale flash_disk =
  fixes pl :: "('f, 'l, 'd, 'v, 's) platform" and v :: "'f \<Rightarrow> nor"
  assumes chip: "nor_flash (pl_flash pl) v" and memory: "\<not> no_memory (pl_flash pl)"

sublocale flash_disk \<subseteq> block_device "drive_read pl DEV_SPIFLASH" "drive_write pl DEV_SPIFLASH"
  "flash_mounted v" "flash_sectors v" FLASH_SECTORS
proof
  fix k :: "('f, 'l, 'd, 'v, 's) kernel" and n a
  assume "flash_mounted v k" "0 < n" "a + n \<le> FLASH_SECTORS"
  then show "\<exists>k'. drive_read pl DEV_SPIFLASH a n k = Some (blocks_get a n (flash_sectors v k), k') \<and>
      flash_mounted v k' \<and> flash_sectors v k' = flash_sectors v k"
    using intflash_read_sectors [OF chip, of k n a "replicate (512 * n) 0"]
    by (auto simp: drive_read_def disk_read_def)
next
  fix k :: "('f, 'l, 'd, 'v, 's) kernel" and n a and buf :: "byte list"
  assume "flash_mounted v k" "0 < n" "a + n \<le> FLASH_SECTORS" "length buf = 512 * n"
  then show "\<exists>k'. drive_write pl DEV_SPIFLASH a buf k = Some k' \<and> flash_mounted v k' \<and>
      flash_sectors v k' = blocks_put a buf (flash_sectors v k)"
    using intflash_write_sectors [OF chip memory, of k n a buf] by (auto simp: drive_write_def disk_write_def)
qed

context flash_disk
begin

lemmas sectors_array = runs_then_read

end

section \<open>Concrete disks\<close>

interpretation demo_disk: flash_disk demo_platform id
  by unfold_locales (simp_all add: demo_platform_def nor_chip_ok nor_chip_memory)

section \<open>Properties\<close>

text \<open>Initialising the flash disk opens the flash device once: the disk is reported ready
  exactly when the driver now holds a descriptor on the device, no sector changes, and an already
  initialised disk keeps its descriptor.\<close>

theorem intflash_init_correct:
  assumes "kernel_inv k" and "flash_inv v (k_flash k)"
    and "k_flash_fd k < 0 \<or> flash_mounted v k"
  shows "\<exists>st k'. intflash_init pl k = Inr (st, k') \<and> (st = 0 \<longleftrightarrow> flash_mounted v k') \<and> (st \<noteq> 0 \<longrightarrow> k_flash_fd k' = - EMFILE) \<and>
    flash_sectors v k' = flash_sectors v k \<and> (0 < k_flash_fd k \<longrightarrow> k' = k)"
proof (cases "k_flash_fd k < 0")
  case True
  obtain rc k1 where o: "open_device ''spiflash'' O_RDWR k = (rc, k1)" by fastforce
  have r: "open_result ''spiflash'' k (rc, k1)" using open_device_result [OF assms(1), of "''spiflash''" O_RDWR] o by simp
  note f = open_device_flash [OF o assms(2)]
  have i: "intflash_init pl k = Inr (if rc > 0 then 0 else STA_NOINIT, k1\<lparr>k_flash_fd := rc\<rparr>)"
    using True o by (simp add: intflash_init_def SYS_open_def)
  have s: "flash_sectors v (k1\<lparr>k_flash_fd := rc\<rparr>) = flash_sectors v k"
    using f(2) by (simp add: flash_sectors_def fun_eq_iff)
  show ?thesis
  proof (cases "0 \<le> rc")
    case rc: True
    then have "0 < rc" "flash_mounted v (k1\<lparr>k_flash_fd := rc\<rparr>)"
      using r f(1) by (auto simp: open_result_def flash_mounted_def flash_open_def flash_fds_def device_class_def)
    then show ?thesis using i s True by auto
  next
    case rc: False
    then have "rc = - EMFILE" using r by (auto simp: open_result_def device_class_def)
    then show ?thesis using i s True by (auto simp: flash_mounted_def flash_open_def)
  qed
next
  case False
  then have m: "flash_mounted v k" using assms(3) by simp
  then have "0 < k_flash_fd k" by (simp add: flash_mounted_def flash_open_def)
  then have "intflash_init pl k = Inr (0, k)" by (simp add: intflash_init_def)
  then show ?thesis using m by auto
qed

lemma boot_flash_fd: "k_flash_fd (fd_init boot_kernel) < 0"
  by (simp add: fd_init_def open_device_def open_table_def open_console_def boot_kernel_def fdtable_cleared_def
      Let_def split: option.splits)

lemma demo_mounted:
  "\<exists>k'. intflash_init demo_platform (fd_init boot_kernel) = Inr (0, k') \<and> flash_mounted id k' \<and> fl_writebuf (k_flash k') = None"
proof -
  obtain k1 where o: "open_device ''spiflash'' 2 (fd_init boot_kernel) = (3, k1)" using demo_flash_open by blast
  have "open_result ''spiflash'' (fd_init boot_kernel) (3, k1)"
    using open_device_result [OF demo_inv, of "''spiflash''" 2] o by simp
  then have "flash_mounted id (k1\<lparr>k_flash_fd := 3\<rparr>)"
    using open_device_flash(1) [OF o boot_flash_inv]
    by (auto simp: open_result_def flash_mounted_def flash_open_def flash_fds_def device_class_def)
  moreover have "fl_writebuf (k_flash k1) = None"
    using open_device_flash(3) [OF o boot_flash_inv]
    by (simp add: fd_init_flash boot_kernel_def spiflash_init_def nor_dev_def)
  ultimately show ?thesis using boot_flash_fd o by (simp add: intflash_init_def SYS_open_def)
qed

theorem intflash_init_correct_witness:
  "\<exists>k'. intflash_init demo_platform (fd_init boot_kernel) = Inr (0, k') \<and>
    flash_sectors id k' = flash_sectors id (fd_init boot_kernel)"
proof -
  obtain k' where k': "intflash_init demo_platform (fd_init boot_kernel) = Inr (0, k')" using demo_mounted by blast
  show ?thesis using boot_flash_fd intflash_init_correct [OF demo_inv boot_flash_inv, of demo_platform] k' by auto
qed

text \<open>C33: The flash disk is an array of sectors for FatFs: after any sequence of sector writes through
  \<open>disk_write\<close>, however they share erase sectors of the chip, \<open>disk_read\<close> of any run of sectors
  returns what the writes describe, as long as memory for the write buffer does not run out.\<close>

theorem flash_disk_array:
  assumes "nor_flash (pl_flash pl) v" and "\<not> no_memory (pl_flash pl)" and "flash_mounted v k"
    and "\<forall>w \<in> set ws. valid_write FLASH_SECTORS w" and "0 < n" and "a + n \<le> FLASH_SECTORS"
  shows "\<exists>k' k''. run_writes (drive_write pl DEV_SPIFLASH) ws k = Some k' \<and>
    drive_read pl DEV_SPIFLASH a n k' = Some (blocks_get a n (blocks_after ws (flash_sectors v k)), k'')"
  by (rule flash_disk.sectors_array [OF flash_disk.intro [OF assms(1,2)] assms(3-6)])

theorem flash_disk_array_witness:
  "\<exists>k k' k''. run_writes (drive_write demo_platform DEV_SPIFLASH) [(6, replicate 1024 1), (7, replicate 512 2)] k = Some k' \<and>
    drive_read demo_platform DEV_SPIFLASH 7 1 k' = Some (replicate 512 2, k'')"
proof -
  obtain k where k: "flash_mounted id (k :: demo_kernel)" using demo_mounted by blast
  have chip: "nor_flash (pl_flash demo_platform) id" "\<not> no_memory (pl_flash demo_platform)"
    by (simp_all add: demo_platform_def nor_chip_ok nor_chip_memory)
  have ws: "\<forall>w \<in> set [(6, replicate 1024 1), (7, replicate 512 (2 :: byte))]. valid_write FLASH_SECTORS w"
    by (simp add: valid_write_def)
  have "blocks_get 7 1 (blocks_after [(6, replicate 1024 1), (7, replicate 512 (2 :: byte))] f) = replicate 512 2" for f
    by (simp add: blocks_get_def blocks_put_def)
  then show ?thesis using flash_disk_array [OF chip k ws, of 1 7] by auto
qed

text \<open>C19: Through the system calls, what is written to the flash device through one descriptor is what is
  read from it through any descriptor on the device, the same or another: after seeking to an offset and writing,
  the write reports all bytes, a seek to that offset and a read on the other descriptor return
  exactly those bytes, no other byte of the flash has changed, and the descriptor table is untouched. Reads
  need at least four bytes.\<close>

theorem flash_syscalls_roundtrip:
  assumes "nor_flash (pl_flash pl) v" and "\<not> no_memory (pl_flash pl)" and "flash_open v fd k" and "flash_open v gd k"
    and "4 \<le> length bs" and "unat p + length bs \<le> 16777216" and "length buf = length bs"
  shows "\<exists>k1 k2 k3 k4. SYS_lseek pl fd p SEEK_SET k = Inr (int (unat p), k1) \<and>
    SYS_write pl fd bs k1 = Inr (int (length bs), k2) \<and>
    SYS_lseek pl gd p SEEK_SET k2 = Inr (int (unat p), k3) \<and>
    SYS_read pl gd buf k3 = Inr (int (length bs), bs, k4) \<and>
    flash_view v (k_flash k4) = patch (unat p) bs (flash_view v (k_flash k)) \<and> k_fdtab k4 = k_fdtab k"
proof -
  have p31: "unat p < 2147483648" using assms(6) by simp
  obtain i where i: "get_fd fd (fl_list (k_flash k)) = Some i" using flash_open_fd(3) [OF assms(3)] by blast
  define k1 where "k1 = k\<lparr>k_flash := set_fileptr i p (k_flash k)\<rparr>"
  note s = flash_seek [OF assms(3) i p31, folded k1_def]
  have "bs \<noteq> []" "unat (fileptr i (k_flash k1)) + length bs \<le> 16777216" using assms(5,6) s(5) by auto
  from flash_write [OF assms(1,2) s(2,4) this] obtain fl where
    w: "SYS_write pl fd bs k1 = Inr (int (length bs), k1\<lparr>k_flash := fl\<rparr>)" "ofds fl = ofds (k_flash k1)" "flash_inv v fl"
      "flash_view v fl = patch (unat p) bs (flash_view v (k_flash k))"
    using s(3,5) by auto
  define k2 where "k2 = k1\<lparr>k_flash := fl\<rparr>"
  have "flash_open v gd k1" using assms(4) s(2) by (simp add: flash_open_def k1_def)
  then have g2: "flash_open v gd k2" unfolding k2_def using w(3,2) by (rule flash_open_flash)
  obtain j where j: "get_fd gd (fl_list (k_flash k2)) = Some j" using flash_open_fd(3) [OF g2] by blast
  define k3 where "k3 = k2\<lparr>k_flash := set_fileptr j p (k_flash k2)\<rparr>"
  note t = flash_seek [OF g2 j p31, folded k3_def]
  have n: "4 \<le> length buf" "unat (fileptr j (k_flash k3)) + length buf \<le> 16777216" using assms(5-7) t(5) by simp_all
  obtain k4 where r: "SYS_read pl gd buf k3 = Inr (int (length buf),
      map (\<lambda>a. flash_view v (k_flash k3) (unat (fileptr j (k_flash k3)) + a)) [0..<length buf], k4)"
      "flash_view v (k_flash k4) = flash_view v (k_flash k3)"
    using flash_read [OF assms(1) t(2,4) n] by blast
  have view: "flash_view v (k_flash k3) = patch (unat p) bs (flash_view v (k_flash k))"
    using t(3) w(4) by (simp add: k2_def)
  have "map (\<lambda>a. flash_view v (k_flash k3) (unat p + a)) [0..<length buf] = bs"
    unfolding view using assms(7) by (intro nth_equalityI) (simp_all add: patch_def)
  then have "SYS_read pl gd buf k3 = Inr (int (length bs), bs, k4)" using r(1) t(5) assms(7) by simp
  moreover have "k_fdtab k4 = k_fdtab k"
    using calculation flash_open_fd [OF t(2)]
    by (auto simp: SYS_read_def fd_read_def bindE_Inr_iff k3_def k2_def k1_def)
  ultimately show ?thesis using s(1) w(1) t(1) r(2) view unfolding k2_def [symmetric] by metis
qed

text \<open>Two descriptors on the flash device.\<close>

lemma demo_two_open:
  "\<exists>k. flash_open id 3 (k :: demo_kernel) \<and> flash_open id 4 k"
proof -
  obtain k1 where o: "open_device ''spiflash'' 2 (fd_init boot_kernel) = (3, k1)" using demo_flash_open by blast
  have r: "open_result ''spiflash'' (fd_init boot_kernel) (3, k1)"
    using open_device_result [OF demo_inv, of "''spiflash''" 2] o by simp
  then have u: "kernel_inv k1" "fds_used (k_fdtab k1) = {..<4}" "fd_fdfunc (k_fdtab k1 ! 3) = Some Spiflash_func"
    using fd_init_inv(2) [OF boot_fl_list] by (auto simp: open_result_def device_class_def)
  obtain rc k2 where o2: "open_device ''spiflash'' 2 k1 = (rc, k2)" by fastforce
  have r2: "open_result ''spiflash'' k1 (rc, k2)" using open_device_result [OF u(1), of "''spiflash''" 2] o2 by simp
  have "0 \<le> rc" using o o2 flags_set [of O_RDONLY] flags_set [of O_WRONLY] flags_set [of 2]
    by (auto simp: open_device_def open_table_def fd_alloc_def for_find.simps fd_init_fdtab cons_FD_def zero_FD_def
        spiflash_open_def new_fd_def fd_init_flash boot_fl_list Let_def split: option.splits)
  then have f: "rc = 4" "kernel_inv k2" "4 \<in> flash_fds (k_fdtab k2)" "3 \<in> fds_used (k_fdtab k2)"
    using r2 u(2) by (auto simp: open_result_def device_class_def flash_fds_def lessThan_subset_iff)
  moreover have "k_fdtab k2 ! 3 = k_fdtab k1 ! 3" using open_device_entries [OF o2] f(1) by auto
  moreover have "flash_inv id (k_flash k2)"
    using open_device_flash(1) [OF o2 open_device_flash(1) [OF o boot_flash_inv]] .
  ultimately show ?thesis using u(3) by (intro exI [of _ k2]) (simp add: flash_open_def flash_fds_def)
qed

theorem flash_syscalls_roundtrip_witness:
  "\<exists>k k2 k3 k4. SYS_write demo_platform 3 [1, 2, 3, 4, 5] k = Inr (5, k2) \<and>
    SYS_lseek demo_platform 4 4094 SEEK_SET k2 = Inr (4094, k3) \<and>
    SYS_read demo_platform 4 [0, 0, 0, 0, 0] k3 = Inr (5, [1, 2, 3, 4, 5], k4)"
proof -
  obtain k where k: "flash_open id 3 (k :: demo_kernel)" "flash_open id 4 k" using demo_two_open by blast
  have chip: "nor_flash (pl_flash demo_platform) id" "\<not> no_memory (pl_flash demo_platform)"
    by (simp_all add: demo_platform_def nor_chip_ok nor_chip_memory)
  show ?thesis using flash_syscalls_roundtrip [OF chip k, of "[1, 2, 3, 4, 5]" 4094 "[0, 0, 0, 0, 0]"] by auto
qed

text \<open>A sector write that finds no memory for the write buffer is lost without a trace: the
  result of the write system call is ignored, so the flash disk answers \<open>RES_OK\<close> although no byte
  of the device has changed.\<close>

theorem intflash_write_unreported:
  assumes "nor_flash (pl_flash pl) v" and "\<And>n w. fst (hw_kmalloc (pl_flash pl) n w) = None"
    and "flash_mounted v k" and "fl_writebuf (k_flash k) = None"
    and "0 < n" and "a + n \<le> FLASH_SECTORS" and "length buf = 512 * n"
  shows "\<exists>k'. intflash_write pl buf (of_nat a) (of_nat n) k = Inr (RES_OK, k') \<and> flash_sectors v k' = flash_sectors v k"
proof -
  let ?p = "FS_START + of_nat a * SECTOR_SIZE"
  have m': "flash_open v (k_flash_fd k) k" using assms(3) by (simp add: flash_mounted_def)
  obtain i where i: "get_fd (k_flash_fd k) (fl_list (k_flash k)) = Some i" using flash_open_fd(3) [OF m'] by blast
  have c: "unat (of_nat n * SECTOR_SIZE) = 512 * n" "unat ?p < 2147483648" using flash_address [OF assms(6)] assms(6) by simp_all
  define k1 where "k1 = k\<lparr>k_flash := set_fileptr i ?p (k_flash k)\<rparr>"
  have nn: "- 1 < uint ?p" using uint_ge_0 [of ?p] by linarith
  note s = flash_seek [OF m' i c(2), folded k1_def]
  have fd: "k_flash_fd k1 = k_flash_fd k" "0 < k_flash_fd k" using assms(3) by (simp_all add: k1_def flash_mounted_def flash_open_def)
  have wb: "fl_writebuf (k_flash k1) = None" using assms(4) by (simp add: k1_def set_fileptr_def)
  obtain w where w: "hw_kmalloc (pl_flash pl) WRITE_SECTOR_SIZE (fl_hw (k_flash k1)) = (None, w)"
    using assms(2) by (metis prod.collapse)
  have vw: "v w = v (fl_hw (k_flash k1))" using nor_flashD(6) [OF assms(1), of WRITE_SECTOR_SIZE "fl_hw (k_flash k1)"] w by simp
  let ?dev = "(k_flash k1)\<lparr>fl_writebuf := None, fl_hw := w\<rparr>"
  have "spiflash_write (pl_flash pl) (k_flash_fd k1) buf (k_flash k1) = Inr (- ENOMEM, ?dev)"
    using s(4) fd(1) wb w by (simp add: spiflash_write_def spiflash_write_loop.simps spiflash_write_to_sector_def spiflash_load_sector_def Let_def)
  then have "SYS_write pl (k_flash_fd k1) buf k1 = Inr (- ENOMEM, k1\<lparr>k_flash := ?dev\<rparr>)"
    using flash_open_fd [OF s(2)] fd(1) by (simp add: SYS_write_def fd_write_def)
  then have "intflash_write pl buf (of_nat a) (of_nat n) k = Inr (RES_OK, k1\<lparr>k_flash := ?dev\<rparr>)"
    using s(1) nn fd c(1) assms(7) unfolding intflash_write_def by (simp add: Let_def)
  moreover have "flash_sectors v (k1\<lparr>k_flash := ?dev\<rparr>) = flash_sectors v k"
    using s(3) wb vw by (simp add: flash_sectors_def flash_view_def fun_eq_iff)
  ultimately show ?thesis by blast
qed

definition nor_full :: "nor flash_hw" where
  "nor_full = nor_chip\<lparr>hw_kmalloc := (\<lambda>n c. (None, c))\<rparr>"

lemma nor_full_ok: "nor_flash nor_full id"
  using nor_chip_ok by (simp add: nor_full_def nor_flash_def)

theorem intflash_write_unreported_witness:
  "\<exists>k k'. intflash_write (demo_platform\<lparr>pl_flash := nor_full\<rparr>) (replicate 512 1) 0 1 k = Inr (RES_OK, k') \<and>
    flash_sectors id k' = flash_sectors id (k :: demo_kernel)"
proof -
  obtain k where k: "flash_mounted id (k :: demo_kernel)" "fl_writebuf (k_flash k) = None" using demo_mounted by blast
  have "nor_flash (pl_flash (demo_platform\<lparr>pl_flash := nor_full\<rparr>)) id" by (simp add: nor_full_ok)
  moreover have "fst (hw_kmalloc (pl_flash (demo_platform\<lparr>pl_flash := nor_full\<rparr>)) n w) = None" for n w
    by (simp add: nor_full_def)
  ultimately have "\<exists>k'. intflash_write (demo_platform\<lparr>pl_flash := nor_full\<rparr>) (replicate 512 1) (of_nat 0) (of_nat 1) k = Inr (RES_OK, k') \<and>
      flash_sectors id k' = flash_sectors id k"
    using k by (intro intflash_write_unreported) simp_all
  then show ?thesis by auto
qed

text \<open>A write to the SD card never reports success: when all sectors have been stored,
  \<open>sd_write\<close> ends without a return statement and \<open>disk_write\<close> hands on a value that does not
  exist. The sectors themselves are on the card.\<close>

theorem sd_write_no_result:
  assumes "sd_card (pl_sd pl) A" and "card_ready (A (k_sd k))" and "length buf = 512 * n"
    and "unat (lba_offset (k_sdpart k)) + a + n < 4294967296"
  shows "disk_write pl DEV_SDCARD buf (of_nat a) (of_nat n) k = Inl Uninitialised \<and>
    (\<exists>s'. sd_write (pl_sd pl) (k_sdpart k) buf (of_nat a) (of_nat n) (k_sd k) = (None, s') \<and>
      sc_blocks (A s') = blocks_put (unat (lba_offset (k_sdpart k)) + a) buf (sc_blocks (A (k_sd k))))"
proof -
  have u: "unat (of_nat a + lba_offset (k_sdpart k)) = unat (lba_offset (k_sdpart k)) + a"
    using assms(4) by (subst unat_add32) simp_all
  have "unat (of_nat n :: u32) = n" using assms(4) by simp
  then obtain s' where "sd_write (pl_sd pl) (k_sdpart k) buf (of_nat a) (of_nat n) (k_sd k) = (None, s')"
    "sc_blocks (A s') = blocks_put (unat (lba_offset (k_sdpart k)) + a) buf (sc_blocks (A (k_sd k)))"
    using sd_host.write_sectors [OF sd_host.intro [OF assms(1)] assms(2,3), of "of_nat a + lba_offset (k_sdpart k)"] u assms(4)
    by (auto simp: sd_write_def)
  then show ?thesis by (simp add: disk_write_def)
qed

theorem sd_write_no_result_witness:
  "disk_write demo_platform DEV_SDCARD (replicate 512 1) 0 1 (boot_kernel\<lparr>k_sd := ref_card\<lparr>sc_idle := 0\<rparr>\<rparr>) = Inl Uninitialised"
proof -
  have "sd_card (pl_sd demo_platform) id" by (simp add: demo_platform_def ref_sd_card)
  moreover have "card_ready (id (k_sd (boot_kernel\<lparr>k_sd := ref_card\<lparr>sc_idle := 0\<rparr>\<rparr>)))"
    by (simp add: ref_card_def card_ready_def card_waiting_def)
  ultimately show ?thesis
    using sd_write_no_result [of demo_platform id "boot_kernel\<lparr>k_sd := ref_card\<lparr>sc_idle := 0\<rparr>\<rparr>" "replicate 512 1" 1 0]
    by (simp add: boot_kernel_def)
qed

end
