(* ===== verification/ElfLoad.thy ===== *)
theory ElfLoad
  imports UserMem Disk
begin

text \<open>
  Starting user programs: the ELF loader of system/elfload.c and the return to the init program of
  system/exit.c. The loader is a client of the descriptor system calls; the user's memory is the
  byte memory of the machine, and the program break is set from the segments. What the loader needs
  of a descriptor is the locale \<open>seekable\<close>, which the flash device provides. Messages printed on
  the console are left out.
\<close>

section \<open>ELF structures\<close>

definition le32 :: "byte list \<Rightarrow> nat \<Rightarrow> u32" where
  "le32 bs i = u32_of_bytes (bs ! i) (bs ! (i + 1)) (bs ! (i + 2)) (bs ! (i + 3))"

definition le16 :: "byte list \<Rightarrow> nat \<Rightarrow> u16" where
  "le16 bs i = u16_of_bytes (bs ! i) (bs ! (i + 1))"

abbreviation ELF_MAGIC :: u32 where "ELF_MAGIC \<equiv> 0x464c457f"
abbreviation FLASH_OFFSET :: u32 where "FLASH_OFFSET \<equiv> 0x30000"
abbreviation USRMEM_START :: addr where "USRMEM_START \<equiv> 0x10000"
abbreviation USER_SP :: addr where "USER_SP \<equiv> 0x21C00"
abbreviation EM_RISCV :: u16 where "EM_RISCV \<equiv> 243"
abbreviation ET_EXEC :: u16 where "ET_EXEC \<equiv> 2"
abbreviation PT_LOAD :: u32 where "PT_LOAD \<equiv> 1"

text \<open>Fields of the 52-byte file header and of the 32-byte program headers.\<close>

abbreviation e_type :: "byte list \<Rightarrow> u16" where "e_type h \<equiv> le16 h 16"
abbreviation e_machine :: "byte list \<Rightarrow> u16" where "e_machine h \<equiv> le16 h 18"
abbreviation e_entry :: "byte list \<Rightarrow> u32" where "e_entry h \<equiv> le32 h 24"
abbreviation e_phoff :: "byte list \<Rightarrow> u32" where "e_phoff h \<equiv> le32 h 28"
abbreviation e_phnum :: "byte list \<Rightarrow> u16" where "e_phnum h \<equiv> le16 h 44"
abbreviation p_type :: "byte list \<Rightarrow> u32" where "p_type p \<equiv> le32 p 0"
abbreviation p_offset :: "byte list \<Rightarrow> u32" where "p_offset p \<equiv> le32 p 4"
abbreviation p_paddr :: "byte list \<Rightarrow> u32" where "p_paddr p \<equiv> le32 p 12"
abbreviation p_filesz :: "byte list \<Rightarrow> u32" where "p_filesz p \<equiv> le32 p 16"
abbreviation p_memsz :: "byte list \<Rightarrow> u32" where "p_memsz p \<equiv> le32 p 20"

section \<open>Loading\<close>

definition ehdr_status :: "byte list \<Rightarrow> int" where
  "ehdr_status h =
     (if le32 h 0 \<noteq> ELF_MAGIC then ENOEXEC
      else if h ! 4 \<noteq> 1 then ENOEXEC
      else if h ! 5 \<noteq> 1 then ENOEXEC
      else if e_machine h \<noteq> EM_RISCV then ENOEXEC
      else if e_type h \<noteq> ET_EXEC then ENOEXEC
      else 0)"

text \<open>The buffer the header is read into keeps what it held if the read fails; the results of the
  seek and the read are not looked at.\<close>

definition elf_read_ehdr ::
  "('f, 'l, 'd, 'v, 's) platform \<Rightarrow> int \<Rightarrow> u32 \<Rightarrow> byte list \<Rightarrow> ('f, 'l, 'd, 'v, 's) kernel
    \<Rightarrow> fault + (int \<times> byte list \<times> ('f, 'l, 'd, 'v, 's) kernel)" where
  "elf_read_ehdr pl fd offset header k =
     bindE (SYS_lseek pl fd offset SEEK_SET k) (\<lambda>(_, k1).
     bindE (SYS_read pl fd header k1) (\<lambda>(_, h, k2). Inr (ehdr_status h, h, k2)))"

primrec elf_validate_loop ::
  "('f, 'l, 'd, 'v, 's) platform \<Rightarrow> int \<Rightarrow> nat \<Rightarrow> byte list \<Rightarrow> ('f, 'l, 'd, 'v, 's) kernel
    \<Rightarrow> fault + (int \<times> ('f, 'l, 'd, 'v, 's) kernel)" where
  "elf_validate_loop pl fd 0 phdr k = Inr (0, k)"
| "elf_validate_loop pl fd (Suc n) phdr k =
     bindE (SYS_read pl fd phdr k) (\<lambda>(_, p, k1).
     if p_type p = PT_LOAD \<and> p_paddr p < USRMEM_START then Inr (ENOEXEC, k1)
     else elf_validate_loop pl fd n p k1)"

definition elf_validate_phdr ::
  "('f, 'l, 'd, 'v, 's) platform \<Rightarrow> int \<Rightarrow> u32 \<Rightarrow> byte list \<Rightarrow> byte list \<Rightarrow> ('f, 'l, 'd, 'v, 's) kernel
    \<Rightarrow> fault + (int \<times> ('f, 'l, 'd, 'v, 's) kernel)" where
  "elf_validate_phdr pl fd offset header phdr k =
     bindE (SYS_lseek pl fd (offset + e_phoff header) SEEK_SET k) (\<lambda>(_, k1).
     elf_validate_loop pl fd (unat (e_phnum header)) phdr k1)"

text \<open>The second pass copies the segments; \<open>False\<close> is the early return of 0.\<close>

primrec elf_load_loop ::
  "('f, 'l, 'd, 'v, 's) platform \<Rightarrow> int \<Rightarrow> u32 \<Rightarrow> nat \<Rightarrow> byte list \<Rightarrow> ('f, 'l, 'd, 'v, 's) kernel \<Rightarrow> mem \<Rightarrow> brk_state
    \<Rightarrow> fault + (bool \<times> ('f, 'l, 'd, 'v, 's) kernel \<times> mem \<times> brk_state)" where
  "elf_load_loop pl fd offset 0 phdr k m b = Inr (True, k, m, b)"
| "elf_load_loop pl fd offset (Suc n) phdr k m b =
     bindE (SYS_read pl fd phdr k) (\<lambda>(_, p, k1).
     bindE (SYS_lseek pl fd 0 SEEK_CUR k1) (\<lambda>(curpos, k2).
     if p_type p = PT_LOAD then
       if p_paddr p < USRMEM_START then Inr (False, k2, m, b)
       else
         bindE (SYS_lseek pl fd (offset + p_offset p) SEEK_SET k2) (\<lambda>(_, k3).
         bindE (SYS_read pl fd (load_bytes m (p_paddr p) (unat (p_filesz p))) k3) (\<lambda>(_, bs, k4).
         bindE (SYS_lseek pl fd (word_of_int curpos) SEEK_SET k4) (\<lambda>(_, k5).
         elf_load_loop pl fd offset n p k5 (store_bytes m (p_paddr p) bs) (set_min_brk (p_paddr p + p_memsz p) b))))
     else elf_load_loop pl fd offset n p k2 m b))"

text \<open>The entry address (0 on failure), the status and the state; \<open>header\<close> and \<open>phdr\<close> are what the
  two local buffers hold before.\<close>

definition elf_load_fd ::
  "('f, 'l, 'd, 'v, 's) platform \<Rightarrow> int \<Rightarrow> u32 \<Rightarrow> addr \<Rightarrow> byte list \<Rightarrow> byte list \<Rightarrow> ('f, 'l, 'd, 'v, 's) kernel \<Rightarrow> mem \<Rightarrow> brk_state
    \<Rightarrow> fault + (addr \<times> int \<times> ('f, 'l, 'd, 'v, 's) kernel \<times> mem \<times> brk_state)" where
  "elf_load_fd pl fd offset stack_ptr header phdr k m b =
     bindE (elf_read_ehdr pl fd offset header k) (\<lambda>(status, h, k1).
     if status \<noteq> 0 then Inr (0, status, k1, m, b)
     else bindE (elf_validate_phdr pl fd offset h phdr k1) (\<lambda>(status, k2).
     if status \<noteq> 0 then Inr (0, status, k2, m, b)
     else let memsz = stack_ptr - USRMEM_START in
     if sint memsz < 1 then Inl Breakpoint
     else bindE (SYS_lseek pl fd (offset + e_phoff h) SEEK_SET k2) (\<lambda>(_, k3).
     bindE (elf_load_loop pl fd offset (unat (e_phnum h)) phdr k3 (memset m USRMEM_START 0 memsz) b) (\<lambda>(ok, k4, m', b').
     Inr (if ok then e_entry h else 0, 0, k4, m', b')))))"

text \<open>When the file cannot be opened the caller's status variable is not written: \<open>None\<close>.\<close>

definition elf_load ::
  "('f, 'l, 'd, 'v, 's) platform \<Rightarrow> string \<Rightarrow> u32 \<Rightarrow> addr \<Rightarrow> byte list \<Rightarrow> byte list \<Rightarrow> ('f, 'l, 'd, 'v, 's) kernel \<Rightarrow> mem \<Rightarrow> brk_state
    \<Rightarrow> fault + (addr \<times> int option \<times> ('f, 'l, 'd, 'v, 's) kernel \<times> mem \<times> brk_state)" where
  "elf_load pl filename offset stack_ptr header phdr k m b =
     bindE (SYS_open pl filename O_RDONLY k) (\<lambda>(fd, k1).
     if fd < 0 then Inr (0, None, k1, m, b)
     else bindE (elf_load_fd pl fd offset stack_ptr header phdr k1 m b) (\<lambda>(s, status, k2, m', b').
     bindE (SYS_close pl fd k2) (\<lambda>(_, k3). Inr (s, Some status, k3, m', b'))))"

definition elf_boot ::
  "('f, 'l, 'd, 'v, 's) platform \<Rightarrow> byte list \<Rightarrow> byte list \<Rightarrow> ('f, 'l, 'd, 'v, 's) kernel \<Rightarrow> mem \<Rightarrow> brk_state
    \<Rightarrow> fault + (addr \<times> int option \<times> ('f, 'l, 'd, 'v, 's) kernel \<times> mem \<times> brk_state)" where
  "elf_boot pl = elf_load pl ''/dev/spiflash'' FLASH_OFFSET USER_SP"

section \<open>Arguments\<close>

abbreviation MAXARGS :: nat where "MAXARGS \<equiv> 7"

text \<open>The length of the copy of the arguments, a multiple of 16.\<close>

definition stack_arg_bytes :: "u32 \<Rightarrow> u16" where
  "stack_arg_bytes len =
     (let argbytes = ucast (len + 1) :: u16 in
      if argbytes AND 0xFFF0 \<noteq> argbytes then (argbytes AND 0xFFF0) + 16 else argbytes)"

text \<open>
  The new stack pointer, the address of the copied arguments (passed back as the file name), the
  memory and the static pointer of \<open>strtok\<close>. The local array of pointers, cleared at first, and the
  count are stored below the arguments; \<open>delim\<close> is the address of the literal " ".
\<close>

definition setup_stack_args ::
  "addr \<Rightarrow> addr \<Rightarrow> addr \<Rightarrow> addr \<Rightarrow> mem \<Rightarrow> (addr \<times> addr \<times> mem \<times> addr) option" where
  "setup_stack_args delim unparsed_args sp lst m =
     Option.bind (strlen m unparsed_args) (\<lambda>len.
     let argbytes = ucast (stack_arg_bytes len); stackptr = sp - argbytes; m1 = memset m stackptr 0 argbytes in
     Option.bind (strlen m1 unparsed_args) (\<lambda>len1.
     let m2 = memcpy m1 stackptr unparsed_args len1 in
     Option.bind (strtok_line MAXARGS m2 stackptr delim lst) (\<lambda>(args, m3, lst').
     let m4 = store_bytes m3 (stackptr - 28) (concat (map bytes_of_u32 (args @ replicate (MAXARGS - length args) 0)));
         m5 = store32 m4 (stackptr - 32) (of_nat (length args))
     in Some (stackptr - 32, stackptr, m5, lst'))))"

section \<open>Running programs\<close>

text \<open>The string at an address, as a path.\<close>

partial_function (option) read_cstr :: "mem \<Rightarrow> addr \<Rightarrow> string option" where
  "read_cstr m p =
     (if m p = 0 then Some [] else Option.bind (read_cstr m (p + 1)) (\<lambda>s. Some (char_of (unat (m p)) # s)))"

text \<open>A started program with its stack pointer and entry address, or the status that is returned.\<close>

datatype run_result = Run addr addr | Not_Run "int option"

record ('f, 'l, 'd, 'v, 's) machine =
  mc_kernel :: "('f, 'l, 'd, 'v, 's) kernel"
  mc_mem :: mem
  mc_brk :: brk_state
  mc_strtok :: addr

text \<open>Loading with the arguments on the stack and entering the program.\<close>

definition load_and_enter ::
  "('f, 'l, 'd, 'v, 's) platform \<Rightarrow> string \<Rightarrow> u32 \<Rightarrow> addr \<Rightarrow> byte list \<Rightarrow> byte list \<Rightarrow> ('f, 'l, 'd, 'v, 's) machine
    \<Rightarrow> fault + (run_result \<times> ('f, 'l, 'd, 'v, 's) machine)" where
  "load_and_enter pl filename offset user_sp header phdr mc =
     bindE (elf_load pl filename offset user_sp header phdr (mc_kernel mc) (mc_mem mc) (mc_brk mc)) (\<lambda>(s, status, k, m, b).
     Inr (if s \<noteq> 0 then Run user_sp s else Not_Run status, mc\<lparr>mc_kernel := k, mc_mem := m, mc_brk := b\<rparr>))"

text \<open>
  \<open>elf_run\<close>: arguments outside the kernel are copied into a block of the kernel heap first, because
  the new stack may overlap them; \<open>tmp\<close> is the address \<open>kmalloc\<close> returns, 0 when there is no memory.
\<close>

definition elf_run ::
  "('f, 'l, 'd, 'v, 's) platform \<Rightarrow> addr \<Rightarrow> addr \<Rightarrow> addr \<Rightarrow> byte list \<Rightarrow> byte list \<Rightarrow> ('f, 'l, 'd, 'v, 's) machine
    \<Rightarrow> (fault + (run_result \<times> ('f, 'l, 'd, 'v, 's) machine)) option" where
  "elf_run pl delim tmp args header phdr mc =
     (let start = (\<lambda>a m. Option.bind (setup_stack_args delim a USER_SP (mc_strtok mc) m) (\<lambda>(sp, fname, m1, lst).
            Option.bind (read_cstr m1 fname) (\<lambda>filename.
            Some (load_and_enter pl filename 0 sp header phdr (mc\<lparr>mc_mem := m1, mc_strtok := lst\<rparr>)))))
      in if 10000 < unat args
         then if tmp = 0 then Some (Inr (Not_Run (Some (- ENOMEM)), mc))
              else Option.bind (strlen (mc_mem mc) args) (\<lambda>len. start tmp (memcpy (mc_mem mc) tmp args (len + 1)))
         else start args (mc_mem mc))"

text \<open>
  \<open>SYS_exit\<close> and the boot command of the supervisor reload the init program from flash with the
  arguments at \<open>warm\<close>, the literal "init warm"; when that fails, the caller falls back to the
  supervisor shell or prints the status.
\<close>

definition SYS_exit ::
  "('f, 'l, 'd, 'v, 's) platform \<Rightarrow> addr \<Rightarrow> addr \<Rightarrow> byte list \<Rightarrow> byte list \<Rightarrow> ('f, 'l, 'd, 'v, 's) machine
    \<Rightarrow> (fault + (run_result \<times> ('f, 'l, 'd, 'v, 's) machine)) option" where
  "SYS_exit pl delim warm header phdr mc =
     Option.bind (setup_stack_args delim warm USER_SP (mc_strtok mc) (mc_mem mc)) (\<lambda>(sp, _, m1, lst).
     Some (load_and_enter pl ''/dev/spiflash'' FLASH_OFFSET sp header phdr (mc\<lparr>mc_mem := m1, mc_strtok := lst\<rparr>)))"

definition super_elf ::
  "('f, 'l, 'd, 'v, 's) platform \<Rightarrow> addr \<Rightarrow> addr \<Rightarrow> addr \<Rightarrow> byte list \<Rightarrow> byte list \<Rightarrow> string \<Rightarrow> addr list
    \<Rightarrow> ('f, 'l, 'd, 'v, 's) machine \<Rightarrow> (fault + (run_result \<times> ('f, 'l, 'd, 'v, 's) machine)) option" where
  "super_elf pl delim warm tmp header phdr argv0 argv mc =
     (if argv0 = ''boot'' then SYS_exit pl delim warm header phdr mc
      else if length argv \<noteq> 2 then Some (Inr (Not_Run None, mc))
      else elf_run pl delim tmp (argv ! 1) header phdr mc)"

section \<open>The start-up stack\<close>

lemma unat_and_fff0: "unat (x AND 0xFFF0 :: u16) = 16 * (unat x div 16)"
proof -
  have "x AND 0xFFF0 = push_bit 4 (drop_bit 4 x)"
  proof -
    have "(0xFFF0 :: u16) = NOT (mask 4)" by (simp add: mask_eq_exp_minus_1 not_eq_complement)
    then show ?thesis by (simp only: and_not_mask)
  qed
  then have "unat (x AND 0xFFF0) = take_bit 16 (push_bit 4 (unat (drop_bit 4 x)))"
    by (simp only: unsigned_push_bit_eq) simp
  also have "\<dots> = (16 * (unat x div 16)) mod 65536"
    by (simp only: unat_drop_bit_eq) (simp add: drop_bit_eq_div push_bit_eq_mult take_bit_eq_mod mult.commute)
  also have "\<dots> = 16 * (unat x div 16)"
    using unsigned_less [of x, where 'a = nat] less_mult_imp_div_less [of "unat x" 4096 16] by (intro mod_less) simp
  finally show ?thesis .
qed

lemma round_up16:
  fixes n :: nat
  shows "16 * ((n + 16) div 16) = (if 16 * ((n + 1) div 16) = n + 1 then n + 1 else 16 * ((n + 1) div 16) + 16)"
proof -
  define q r where "q = n div 16" and "r = n mod 16"
  have n: "n = 16 * q + r" "r < 16" by (simp_all add: q_def r_def)
  have "(n + 1) div 16 = q + (r + 1) div 16" using div_mult_self2 [of 16 "r + 1" q] n(1) by (simp add: add.assoc)
  moreover have "(r + 1) div 16 = (if r = 15 then 1 else 0)" using n(2) by (cases "r = 15") simp_all
  moreover have "(n + 16) div 16 = q + 1" by (simp add: q_def)
  ultimately show ?thesis using n by auto
qed

lemma stack_arg_bytes_val:
  assumes "n + 1 \<le> 65520"
  shows "unat (stack_arg_bytes (of_nat n)) = 16 * ((n + 16) div 16)"
proof -
  define x :: u16 where "x = ucast (of_nat n + 1 :: u32)"
  have "unat (of_nat n + 1 :: u32) = n + 1" using assms by (subst unat_add32) simp_all
  then have x: "unat x = n + 1" using assms by (simp add: x_def unsigned_ucast_eq take_bit_nat_eq_self)
  have sb: "stack_arg_bytes (of_nat n) = (if x AND 0xFFF0 \<noteq> x then (x AND 0xFFF0) + 16 else x)"
    by (simp add: stack_arg_bytes_def x_def Let_def)
  have eq: "x AND 0xFFF0 = x \<longleftrightarrow> 16 * ((n + 1) div 16) = n + 1"
    using x unat_and_fff0 [of x] by (metis word_unat_eq_iff)
  show ?thesis
  proof (cases "x AND 0xFFF0 = x")
    case True
    then show ?thesis using sb x eq unfolding round_up16 by simp
  next
    case False
    have "n + 1 \<noteq> 65520" using eq False by auto
    then have "(n + 1) div 16 < 4095" using assms by (intro less_mult_imp_div_less) simp
    then have "unat (x AND 0xFFF0) + 16 < 65536" using unat_and_fff0 [of x] x by simp
    then have "unat ((x AND 0xFFF0) + 16) = 16 * ((n + 1) div 16) + 16"
      using unat_and_fff0 [of x] x unat_add_lem [of "x AND 0xFFF0" 16] by simp
    then show ?thesis using sb False eq unfolding round_up16 by simp
  qed
qed

text \<open>Memory that is written in one piece, or piece by piece, inside a range.\<close>

lemma changed_within_store:
  assumes "lo \<le> unat p" and "unat p + length bs \<le> hi" and "hi \<le> 4294967296"
  shows "changed_within lo hi m (store_bytes m p bs)"
  unfolding changed_within_def
proof (intro allI impI)
  fix a assume ne: "store_bytes m p bs a \<noteq> m a"
  then have lt: "unat (a - p) < length bs"
    using assms by (subst (asm) store_bytes_apply) (auto split: if_splits)
  have "unat (p + (a - p)) = unat p + unat (a - p)" using lt assms by (intro unat_add32) simp
  then show "lo \<le> unat a \<and> unat a < hi" using lt assms by simp
qed

lemma concat_words_length: "length (concat (map bytes_of_u32 ws)) = 4 * length ws"
  by (induction ws) auto

lemma load32_concat_words:
  assumes "i < length ws" and "4 * length ws \<le> 4294967296"
  shows "load32 (store_bytes m p (concat (map bytes_of_u32 ws))) (p + of_nat (4 * i)) = ws ! i"
proof -
  let ?bs = "concat (map bytes_of_u32 ws)"
  have nth: "?bs ! (4 * i + j) = bytes_of_u32 (ws ! i) ! j" if "j < 4" for j
    using assms(1) that
  proof (induction ws arbitrary: i)
    case (Cons w ws)
    then show ?case by (cases i) (auto simp: nth_append)
  qed simp
  have at: "store_bytes m p ?bs (p + of_nat (4 * i) + of_nat j) = bytes_of_u32 (ws ! i) ! j" if "j < 4" for j
  proof -
    have d: "p + of_nat (4 * i) + of_nat j - p = of_nat (4 * i + j)" by simp
    have u: "unat (of_nat (4 * i + j) :: u32) = 4 * i + j" using assms that by (intro unat_of_nat32) simp
    have "length ?bs \<le> 4294967296" using assms(2) by (simp add: concat_words_length)
    then show ?thesis unfolding store_bytes_apply [OF \<open>length ?bs \<le> 4294967296\<close>] d u
      using assms(1) that nth [OF that] by (simp add: concat_words_length)
  qed
  have "load32 (store_bytes m p ?bs) (p + of_nat (4 * i)) =
      u32_of_bytes (bytes_of_u32 (ws ! i) ! 0) (bytes_of_u32 (ws ! i) ! 1) (bytes_of_u32 (ws ! i) ! 2) (bytes_of_u32 (ws ! i) ! 3)"
    using at [of 0] at [of 1] at [of 2] at [of 3] by (simp add: load32_def)
  then show ?thesis by (simp add: bytes_of_u32_def u32_of_bytes_of_u32)
qed

text \<open>The bytes below the old stack pointer that the start-up data occupies.\<close>

definition stack_space :: "byte list \<Rightarrow> nat" where
  "stack_space s = 16 * ((length s + 16) div 16)"

lemma stack_space_len: "length s < stack_space s"
proof -
  have "length s = 16 * (length s div 16) + length s mod 16" by simp
  moreover have "(length s + 16) div 16 = length s div 16 + 1" by simp
  ultimately show ?thesis unfolding stack_space_def using mod_less_divisor [of 16 "length s"] by linarith
qed

text \<open>A string outside the part of the stack that is written.\<close>

definition outside_stack :: "addr \<Rightarrow> nat \<Rightarrow> addr \<Rightarrow> nat \<Rightarrow> bool" where
  "outside_stack p n sp sz \<longleftrightarrow> unat p + n < 4294967296 \<and> (unat p + n < unat sp - sz \<or> unat sp \<le> unat p)"

lemma unat_sub_of_nat: "n \<le> unat sp \<Longrightarrow> unat (sp - of_nat n :: u32) = unat sp - n"
proof -
  assume n: "n \<le> unat sp"
  moreover have "n < 4294967296" using n unat_lt32 [of sp] by linarith
  ultimately show ?thesis by (subst unat_sub) (simp_all add: word_le_nat_alt)
qed

lemma args_copied:
  assumes s: "cstr m args s" and len: "length s + 1 \<le> 65520" and sp: "stack_space s + 32 \<le> unat sp"
    and a: "outside_stack args (length s) sp (stack_space s + 32)"
  defines "stp \<equiv> sp - of_nat (stack_space s)"
  shows "ucast (stack_arg_bytes (of_nat (length s))) = (of_nat (stack_space s) :: u32)"
    and "\<exists>m2. memcpy (memset m stp 0 (of_nat (stack_space s))) stp args (of_nat (length s)) = m2 \<and>
      strlen (memset m stp 0 (of_nat (stack_space s))) args = Some (of_nat (length s)) \<and>
      cstr m2 stp s \<and> changed_within (unat stp) (unat sp) m m2"
proof -
  let ?A = "stack_space s" let ?n = "of_nat (length s) :: u32"
  have A: "length s < ?A" "?A < 4294967296" using stack_space_len [of s] sp unat_lt32 [of sp] by linarith+
  have u: "unat stp = unat sp - ?A" "unat stp + ?A = unat sp" using sp by (simp_all add: stp_def unat_sub_of_nat)
  have un: "unat ?n = length s" "unat (of_nat ?A :: u32) = ?A" using A by simp_all
  show "ucast (stack_arg_bytes ?n) = (of_nat ?A :: u32)"
    using stack_arg_bytes_val [OF len] un(2) A(2)
    by (simp add: stack_space_def [symmetric] word_unat_eq_iff unsigned_ucast_eq take_bit_nat_eq_self)
  define m1 where "m1 = memset m stp 0 (of_nat ?A)"
  have m1: "m1 = store_bytes m stp (replicate ?A 0)" using un by (simp add: m1_def memset_correct)
  have dis: "disjoint_range args (Suc (length s)) stp ?A"
    using a u less_imp_le [OF unat_lt32 [of sp]] by (intro disjoint_rangeI_nat) (auto simp: outside_stack_def)
  have c1: "cstr m1 args s" using s dis A unfolding m1 by (subst cstr_store_disjoint) simp_all
  then have str: "strlen m1 args = Some ?n" by (rule strlen_cstr)
  have "disjoint_range args (length s) stp (length s)"
    using disjoint_range_sub [OF dis, of 0 "length s" "length s"] A by simp
  then have m2: "memcpy m1 stp args ?n = store_bytes m1 stp s"
    using memcpy_eq [of args ?n stp m1] c1 un by (simp add: cstr_iff)
  have "store_bytes m1 stp s (stp + ?n) = 0"
    using A by (simp add: store_bytes_apply m1 un)
  then have c2: "cstr (store_bytes m1 stp s) stp s"
    using cstr_nonzero [OF s] A by (simp add: cstr_iff load_store_same)
  have "changed_within (unat stp) (unat sp) m m1"
    unfolding m1 using u unat_lt32 [of sp] by (intro changed_within_store) simp_all
  moreover have "changed_within (unat stp) (unat sp) m1 (store_bytes m1 stp s)"
    using u A unat_lt32 [of sp] by (intro changed_within_store) simp_all
  ultimately have "changed_within (unat stp) (unat sp) m (store_bytes m1 stp s)"
    by (rule changed_within_trans) simp_all
  then show "\<exists>m2. memcpy (memset m stp 0 (of_nat ?A)) stp args ?n = m2 \<and>
      strlen (memset m stp 0 (of_nat ?A)) args = Some ?n \<and> cstr m2 stp s \<and> changed_within (unat stp) (unat sp) m m2"
    using m2 str c2 unfolding m1_def [symmetric] by blast
qed

text \<open>The count and the seven pointers below an address.\<close>

lemma arg_words:
  fixes as :: "addr list" and m3 :: mem and stp :: addr
  assumes "length as \<le> MAXARGS" and "32 \<le> unat stp"
  defines "m4 \<equiv> store_bytes m3 (stp - 28) (concat (map bytes_of_u32 (as @ replicate (MAXARGS - length as) 0)))"
  shows "load32 (store32 m4 (stp - 32) w) (stp - 32) = w"
    and "i < MAXARGS \<Longrightarrow> load32 (store32 m4 (stp - 32) w) (stp - 28 + of_nat (4 * i)) = (if i < length as then as ! i else 0)"
    and "changed_within (unat (stp - 32)) (unat stp) m3 (store32 m4 (stp - 32) w)"
proof -
  let ?ws = "as @ replicate (MAXARGS - length as) 0" let ?m5 = "store32 m4 (stp - 32) w"
  have ws: "length ?ws = 7" using assms(1) by simp
  have u: "unat (stp - 32) = unat stp - 32" "unat (stp - 28) = unat stp - 28"
    using unat_sub_of_nat [of 32 stp] unat_sub_of_nat [of 28 stp] assms(2) by simp_all
  show "load32 ?m5 (stp - 32) = w" by (rule load32_store32)
  show "load32 ?m5 (stp - 28 + of_nat (4 * i)) = (if i < length as then as ! i else 0)" if i: "i < MAXARGS"
  proof -
    let ?q = "stp - 28 + of_nat (4 * i)"
    have i4: "unat (of_nat (4 * i) :: u32) = 4 * i" using i by (intro unat_of_nat32) simp
    have b: "unat (stp - 28) + 4 * i < 4294967296" using i u(2) assms(2) unat_lt32 [of stp] by linarith
    have "unat ?q = unat stp - 28 + 4 * i" using b u(2) i4 by (subst unat_add32) (simp_all del: of_nat_mult)
    then have "unat (stp - 32) + 4 \<le> unat ?q" "unat ?q + 4 \<le> 4294967296" "unat (stp - 32) + 4 \<le> 4294967296"
      using u i assms(2) unat_lt32 [of stp] by linarith+
    then have "disjoint_range ?q 4 (stp - 32) 4" by (intro disjoint_rangeI_nat) simp_all
    then have eq: "?m5 (?q + of_nat j) = m4 (?q + of_nat j)" if "j < 4" for j
      using that by (simp add: store32_def store_bytes_apply disjoint_range_def not_less [symmetric])
    have "load32 ?m5 ?q = load32 m4 ?q"
      using eq [of 0] eq [of 1] eq [of 2] eq [of 3] by (simp add: load32_def)
    also have "\<dots> = ?ws ! i" unfolding m4_def using i ws by (intro load32_concat_words) simp_all
    finally show ?thesis using i assms(1) by (simp add: nth_append)
  qed
  have "changed_within (unat (stp - 32)) (unat stp) m3 m4"
    unfolding m4_def
  proof (rule changed_within_store)
    show "unat (stp - 28) + length (concat (map bytes_of_u32 ?ws)) \<le> unat stp"
      unfolding concat_words_length ws using u assms(2) by simp
  qed (use u in simp_all)
  moreover have "changed_within (unat (stp - 32)) (unat stp) m4 ?m5"
    unfolding store32_def using u assms(2) unat_lt32 [of stp] by (intro changed_within_store) simp_all
  ultimately show "changed_within (unat (stp - 32)) (unat stp) m3 ?m5"
    by (rule changed_within_trans) simp_all
qed

lemma setup_stack_args_result:
  assumes s: "cstr m args s" and len: "length s + 1 \<le> 65520" and sp: "stack_space s + 32 < unat sp"
    and a: "outside_stack args (length s) sp (stack_space s + 32)"
    and d: "cstr m delim [32]" "outside_stack delim 1 sp (stack_space s + 32)"
  shows "\<exists>as m' lst'. setup_stack_args delim args sp lst m =
      Some (sp - of_nat (stack_space s + 32), sp - of_nat (stack_space s), m', lst') \<and>
    list_all2 (cstr m') as (take MAXARGS (tokens [32] s)) \<and>
    load32 m' (sp - of_nat (stack_space s + 32)) = of_nat (length as) \<and>
    (\<forall>i < MAXARGS. load32 m' (sp - of_nat (stack_space s + 28) + of_nat (4 * i)) = (if i < length as then as ! i else 0)) \<and>
    changed_within (unat sp - (stack_space s + 32)) (unat sp) m m'"
proof -
  let ?A = "stack_space s" let ?n = "of_nat (length s) :: u32"
  define stp where "stp = sp - of_nat ?A"
  have sp': "?A + 32 \<le> unat sp" using sp by simp
  have u: "unat stp = unat sp - ?A" using sp by (simp add: stp_def unat_sub_of_nat)
  obtain m2 where m2: "memcpy (memset m stp 0 (of_nat ?A)) stp args ?n = m2"
    "strlen (memset m stp 0 (of_nat ?A)) args = Some ?n" "cstr m2 stp s" "changed_within (unat stp) (unat sp) m m2"
    using args_copied(2) [OF s len sp' a] unfolding stp_def by blast
  have ab: "ucast (stack_arg_bytes ?n) = (of_nat ?A :: u32)" by (rule args_copied(1) [OF s len sp' a])
  have d2: "cstr m2 delim [32]"
  proof (rule cstr_changed_within [OF m2(4) _ _ d(1)])
    show "unat delim + length [32 :: byte] < unat stp \<or> unat sp \<le> unat delim"
      using d(2) u by (auto simp: outside_stack_def)
  qed (use d(2) in \<open>simp add: outside_stack_def\<close>)
  have lt: "unat stp + length s < 4294967296" using u stack_space_len [of s] sp unat_lt32 [of sp] by linarith
  have hi: "unat stp + length s \<le> unat sp" using u stack_space_len [of s] sp by linarith
  have nz: "stp \<noteq> 0" using u sp by auto
  have d3: "unat delim + length [32 :: byte] < unat stp \<or> unat stp + length s \<le> unat delim"
    using d(2) u hi by (auto simp: outside_stack_def)
  obtain as m3 lst' where t: "strtok_line MAXARGS m2 stp delim lst = Some (as, m3, lst')"
    "list_all2 (cstr_above (unat stp) m3) as (take MAXARGS (tokens [32] s))"
    "changed_within (unat stp) (unat stp + length s) m2 m3"
    using strtok_line_splits [OF m2(3) nz lt d2 _ d3, of MAXARGS lst] d(2) by (auto simp: outside_stack_def)
  have as: "length as \<le> MAXARGS" using list_all2_lengthD [OF t(2)] by simp
  have stp32: "32 \<le> unat stp" using u sp by simp
  define m4 where "m4 = store_bytes m3 (stp - 28) (concat (map bytes_of_u32 (as @ replicate (MAXARGS - length as) 0)))"
  define m5 where "m5 = store32 m4 (stp - 32) (of_nat (length as))"
  note w = arg_words [OF as stp32, where w = "of_nat (length as)" and ?m3.0 = m3, folded m4_def, folded m5_def]
  have p: "sp - of_nat (?A + 32) = stp - 32" "sp - of_nat (?A + 28) = stp - 28" by (simp_all add: stp_def)
  have eq: "setup_stack_args delim args sp lst m = Some (stp - 32, stp, m5, lst')"
    using strlen_cstr [OF s] ab m2(1,2) t(1)
    by (simp add: setup_stack_args_def Let_def m4_def m5_def stp_def [symmetric])
  have keep: "list_all2 (cstr m5) as (take MAXARGS (tokens [32] s))"
    using t(2)
  proof (rule list_all2_mono)
    fix x y assume "cstr_above (unat stp) m3 x y"
    then show "cstr m5 x y" using cstr_changed_within [OF w(3)] by (simp add: cstr_above_def)
  qed
  have "changed_within (unat stp) (unat sp) m m3"
    using m2(4) t(3) by (rule changed_within_trans) (use hi in simp_all)
  then have "changed_within (unat stp - 32) (unat sp) m m5"
    using w(3) by (rule changed_within_trans) (use u sp unat_sub_of_nat [OF stp32] in simp_all)
  then have "changed_within (unat sp - (?A + 32)) (unat sp) m m5" using u by (simp add: diff_diff_eq)
  then show ?thesis unfolding p using eq keep w(1,2) by (simp add: stp_def [symmetric]) blast
qed

section \<open>Loading from a seekable descriptor\<close>

text \<open>The bytes of a file from a position on.\<close>

definition fetch :: "(nat \<Rightarrow> byte) \<Rightarrow> nat \<Rightarrow> nat \<Rightarrow> byte list" where
  "fetch f p n = map (\<lambda>i. f (p + i)) [0..<n]"

definition phdrs :: "(nat \<Rightarrow> byte) \<Rightarrow> nat \<Rightarrow> nat \<Rightarrow> byte list list" where
  "phdrs f p n = map (\<lambda>i. fetch f (p + 32 * i) 32) [0..<n]"

lemma length_fetch [simp]: "length (fetch f p n) = n"
  by (simp add: fetch_def)

lemma phdrs_Suc: "phdrs f p (Suc n) = fetch f p 32 # phdrs f (p + 32) n"
proof -
  have "[0..<Suc n] = 0 # map Suc [0..<n]" by (simp only: upt_conv_Cons map_Suc_upt)
  then show ?thesis by (simp add: phdrs_def comp_def algebra_simps del: upt_Suc)
qed

text \<open>What loading the segments leaves in memory and as program break.\<close>

primrec load_segments :: "(nat \<Rightarrow> byte) \<Rightarrow> nat \<Rightarrow> byte list list \<Rightarrow> mem \<Rightarrow> brk_state \<Rightarrow> mem \<times> brk_state" where
  "load_segments f off [] m b = (m, b)"
| "load_segments f off (p # ps) m b =
     (if p_type p = PT_LOAD
      then load_segments f off ps (store_bytes m (p_paddr p) (fetch f (off + unat (p_offset p)) (unat (p_filesz p))))
             (set_min_brk (p_paddr p + p_memsz p) b)
      else load_segments f off ps m b)"

definition segment_ok :: "nat \<Rightarrow> nat \<Rightarrow> byte list \<Rightarrow> bool" where
  "segment_ok off limit p \<longleftrightarrow> (p_type p = PT_LOAD \<longrightarrow>
     USRMEM_START \<le> p_paddr p \<and> 4 \<le> unat (p_filesz p) \<and> off + unat (p_offset p) + unat (p_filesz p) \<le> limit)"

text \<open>A loadable image at a byte offset of a file.\<close>

definition elf_image :: "(nat \<Rightarrow> byte) \<Rightarrow> nat \<Rightarrow> nat \<Rightarrow> bool" where
  "elf_image f off limit \<longleftrightarrow>
     (let h = fetch f off 52; ph = off + unat (e_phoff h); n = unat (e_phnum h) in
      off + 52 \<le> limit \<and> ehdr_status h = 0 \<and> ph + 32 * n \<le> limit \<and> (\<forall>p \<in> set (phdrs f ph n). segment_ok off limit p))"

locale seekable =
  fixes pl :: "('f, 'l, 'd, 'v, 's) platform" and fd :: int and ready :: "('f, 'l, 'd, 'v, 's) kernel \<Rightarrow> bool"
    and pos :: "('f, 'l, 'd, 'v, 's) kernel \<Rightarrow> u32" and content :: "('f, 'l, 'd, 'v, 's) kernel \<Rightarrow> nat \<Rightarrow> byte" and limit :: nat
  assumes limit: "limit < 2147483648"
    and seek_set: "ready k \<Longrightarrow> unat p \<le> limit \<Longrightarrow>
      \<exists>rc k'. SYS_lseek pl fd p SEEK_SET k = Inr (rc, k') \<and> ready k' \<and> pos k' = p \<and> content k' = content k"
    and seek_cur: "ready k \<Longrightarrow> unat (pos k) \<le> limit \<Longrightarrow>
      \<exists>k'. SYS_lseek pl fd 0 SEEK_CUR k = Inr (int (unat (pos k)), k') \<and> ready k' \<and> pos k' = pos k \<and> content k' = content k"
    and read_at: "ready k \<Longrightarrow> 4 \<le> length buf \<Longrightarrow> unat (pos k) + length buf \<le> limit \<Longrightarrow>
      \<exists>rc k'. SYS_read pl fd buf k = Inr (rc, fetch (content k) (unat (pos k)) (length buf), k') \<and> ready k' \<and>
        unat (pos k') = unat (pos k) + length buf \<and> content k' = content k"
begin

lemma validate_headers:
  "ready k \<Longrightarrow> length phdr = 32 \<Longrightarrow> unat (pos k) + 32 * n \<le> limit \<Longrightarrow>
   \<forall>p \<in> set (phdrs (content k) (unat (pos k)) n). segment_ok off limit p \<Longrightarrow>
   \<exists>k'. elf_validate_loop pl fd n phdr k = Inr (0, k') \<and> ready k' \<and> content k' = content k"
proof (induction n arbitrary: k phdr)
  case (Suc n)
  let ?p = "fetch (content k) (unat (pos k)) 32"
  obtain rc k1 where r: "SYS_read pl fd phdr k = Inr (rc, ?p, k1)" "ready k1" "unat (pos k1) = unat (pos k) + 32" "content k1 = content k"
    using read_at [OF Suc.prems(1), of phdr] Suc.prems(2,3) by auto
  have ok: "segment_ok off limit ?p" "\<forall>p \<in> set (phdrs (content k1) (unat (pos k1)) n). segment_ok off limit p"
    using Suc.prems(4) r(3,4) by (simp_all add: phdrs_Suc)
  have "\<exists>k'. elf_validate_loop pl fd n ?p k1 = Inr (0, k') \<and> ready k' \<and> content k' = content k1"
    using r(2,3) ok(2) Suc.prems(3) by (intro Suc.IH) simp_all
  then show ?case using r ok(1) by (auto simp: segment_ok_def)
qed simp

lemma load_headers:
  "ready k \<Longrightarrow> length phdr = 32 \<Longrightarrow> unat (pos k) + 32 * n \<le> limit \<Longrightarrow>
   \<forall>p \<in> set (phdrs (content k) (unat (pos k)) n). segment_ok (unat offset) limit p \<Longrightarrow>
   \<exists>k'. elf_load_loop pl fd offset n phdr k m b =
     Inr (True, k', load_segments (content k) (unat offset) (phdrs (content k) (unat (pos k)) n) m b) \<and> ready k' \<and> content k' = content k"
proof (induction n arbitrary: k phdr m b)
  case 0
  then show ?case by (simp add: phdrs_def)
next
  case (Suc n)
  let ?f = "content k" let ?p = "fetch ?f (unat (pos k)) 32"
  obtain rc k1 where r: "SYS_read pl fd phdr k = Inr (rc, ?p, k1)" "ready k1" "unat (pos k1) = unat (pos k) + 32" "content k1 = ?f"
    using read_at [OF Suc.prems(1), of phdr] Suc.prems(2,3) by auto
  have ok: "segment_ok (unat offset) limit ?p" "\<forall>p \<in> set (phdrs ?f (unat (pos k) + 32) n). segment_ok (unat offset) limit p"
    using Suc.prems(4) by (simp_all add: phdrs_Suc)
  obtain k2 where c: "SYS_lseek pl fd 0 SEEK_CUR k1 = Inr (int (unat (pos k1)), k2)" "ready k2" "pos k2 = pos k1" "content k2 = ?f"
    using seek_cur [OF r(2)] r(3,4) Suc.prems(3) by auto
  show ?case
  proof (cases "p_type ?p = PT_LOAD")
    case False
    have "\<exists>k'. elf_load_loop pl fd offset n ?p k2 m b =
        Inr (True, k', load_segments (content k2) (unat offset) (phdrs (content k2) (unat (pos k2)) n) m b) \<and> ready k' \<and> content k' = content k2"
      using c r(3) ok(2) Suc.prems(3) by (intro Suc.IH) simp_all
    then show ?thesis using False r c by (auto simp: phdrs_Suc)
  next
    case True
    then have seg: "\<not> p_paddr ?p < USRMEM_START" "4 \<le> unat (p_filesz ?p)"
        "unat offset + unat (p_offset ?p) + unat (p_filesz ?p) \<le> limit"
      using ok(1) by (auto simp: segment_ok_def)
    have u: "unat (offset + p_offset ?p) = unat offset + unat (p_offset ?p)"
      using seg(3) limit by (intro unat_add32) linarith
    obtain rc3 k3 where s3: "SYS_lseek pl fd (offset + p_offset ?p) SEEK_SET k2 = Inr (rc3, k3)" "ready k3"
        "pos k3 = offset + p_offset ?p" "content k3 = ?f"
      using seek_set [OF c(2), of "offset + p_offset ?p"] u seg(3) c(4) by auto
    let ?bs = "fetch ?f (unat offset + unat (p_offset ?p)) (unat (p_filesz ?p))"
    obtain rc4 k4 where s4: "SYS_read pl fd (load_bytes m (p_paddr ?p) (unat (p_filesz ?p))) k3 = Inr (rc4, ?bs, k4)" "ready k4" "content k4 = ?f"
      using read_at [OF s3(2), of "load_bytes m (p_paddr ?p) (unat (p_filesz ?p))"] s3(3,4) u seg by auto
    obtain rc5 k5 where s5: "SYS_lseek pl fd (pos k1) SEEK_SET k4 = Inr (rc5, k5)" "ready k5" "pos k5 = pos k1" "content k5 = ?f"
      using seek_set [OF s4(2), of "pos k1"] r(3) Suc.prems(3) s4(3) by auto
    have step: "elf_load_loop pl fd offset (Suc n) phdr k m b =
        elf_load_loop pl fd offset n ?p k5 (store_bytes m (p_paddr ?p) ?bs) (set_min_brk (p_paddr ?p + p_memsz ?p) b)"
      using True seg(1) r(1) c(1) s3(1) s4(1) s5(1) by simp
    have "\<exists>k'. elf_load_loop pl fd offset n ?p k5 (store_bytes m (p_paddr ?p) ?bs) (set_min_brk (p_paddr ?p + p_memsz ?p) b) =
        Inr (True, k', load_segments (content k5) (unat offset) (phdrs (content k5) (unat (pos k5)) n)
          (store_bytes m (p_paddr ?p) ?bs) (set_min_brk (p_paddr ?p + p_memsz ?p) b)) \<and> ready k' \<and> content k' = content k5"
      using s5 r(3) ok(2) Suc.prems(3) by (intro Suc.IH) simp_all
    then show ?thesis using True s5(3,4) r(3) unfolding step phdrs_Suc by simp
  qed
qed

lemma load_image:
  assumes k: "ready k" and e: "elf_image (content k) (unat offset) limit" and b: "length header = 52" "length phdr = 32"
    and sp: "1 \<le> sint (stack_ptr - USRMEM_START)"
  defines "h \<equiv> fetch (content k) (unat offset) 52"
  shows "\<exists>k'. elf_load_fd pl fd offset stack_ptr header phdr k m brk =
      Inr (e_entry h, 0, k', load_segments (content k) (unat offset)
        (phdrs (content k) (unat offset + unat (e_phoff h)) (unat (e_phnum h))) (memset m USRMEM_START 0 (stack_ptr - USRMEM_START)) brk) \<and>
      ready k' \<and> content k' = content k"
proof -
  let ?f = "content k" let ?ph = "unat offset + unat (e_phoff h)" let ?n = "unat (e_phnum h)"
  have img: "unat offset + 52 \<le> limit" "ehdr_status h = 0" "?ph + 32 * ?n \<le> limit"
      "\<forall>p \<in> set (phdrs ?f ?ph ?n). segment_ok (unat offset) limit p"
    using e by (simp_all add: elf_image_def h_def Let_def)
  have u: "unat (offset + e_phoff h) = ?ph" using img(3) limit by (intro unat_add32) linarith
  obtain rc1 k1 where s1: "SYS_lseek pl fd offset SEEK_SET k = Inr (rc1, k1)" "ready k1" "pos k1 = offset" "content k1 = ?f"
    using seek_set [OF k, of offset] img(1) by auto
  obtain rc2 k2 where s2: "SYS_read pl fd header k1 = Inr (rc2, h, k2)" "ready k2" "content k2 = ?f"
    using read_at [OF s1(2), of header] s1(3,4) b(1) img(1) by (auto simp: h_def)
  obtain rc3 k3 where s3: "SYS_lseek pl fd (offset + e_phoff h) SEEK_SET k2 = Inr (rc3, k3)" "ready k3" "pos k3 = offset + e_phoff h" "content k3 = ?f"
    using seek_set [OF s2(2), of "offset + e_phoff h"] img(3) u s2(3) by auto
  obtain k4 where s4: "elf_validate_loop pl fd ?n phdr k3 = Inr (0, k4)" "ready k4" "content k4 = ?f"
    using validate_headers [OF s3(2) b(2), of ?n "unat offset"] img s3(3,4) u by auto
  obtain rc5 k5 where s5: "SYS_lseek pl fd (offset + e_phoff h) SEEK_SET k4 = Inr (rc5, k5)" "ready k5" "pos k5 = offset + e_phoff h" "content k5 = ?f"
    using seek_set [OF s4(2), of "offset + e_phoff h"] img(3) u s4(3) by auto
  let ?m = "memset m USRMEM_START 0 (stack_ptr - USRMEM_START)"
  obtain k6 where s6: "elf_load_loop pl fd offset ?n phdr k5 ?m brk =
      Inr (True, k6, load_segments ?f (unat offset) (phdrs ?f ?ph ?n) ?m brk)" "ready k6" "content k6 = ?f"
    using load_headers [OF s5(2) b(2), of ?n offset ?m brk] img s5(3,4) u by auto
  have eh: "elf_read_ehdr pl fd offset header k = Inr (0, h, k2)" using s1(1) s2(1) img(2) by (simp add: elf_read_ehdr_def)
  have ev: "elf_validate_phdr pl fd offset h phdr k2 = Inr (0, k4)" using s3(1) s4(1) by (simp add: elf_validate_phdr_def)
  have "\<not> sint (stack_ptr - USRMEM_START) < 1" using sp by simp
  then have "elf_load_fd pl fd offset stack_ptr header phdr k m brk =
      Inr (e_entry h, 0, k6, load_segments ?f (unat offset) (phdrs ?f ?ph ?n) ?m brk)"
    unfolding elf_load_fd_def eh bindE_simps prod.case using ev s5(1) s6(1) by (simp add: Let_def)
  then show ?thesis using s6(2,3) by blast
qed

end

section \<open>Loading from the flash device\<close>

text \<open>An open descriptor of the flash device is seekable.\<close>

definition flash_pos :: "int \<Rightarrow> ('f, 'l, 'd, 'v, 's) kernel \<Rightarrow> u32" where
  "flash_pos fd k = fileptr (the (get_fd fd (fl_list (k_flash k)))) (k_flash k)"

lemma flash_seek_cur:
  assumes m: "flash_open v fd k" and p: "unat (flash_pos fd k) < 2147483648"
  shows "\<exists>k'. SYS_lseek pl fd 0 SEEK_CUR k = Inr (int (unat (flash_pos fd k)), k') \<and> flash_open v fd k' \<and>
    flash_pos fd k' = flash_pos fd k \<and> flash_view v (k_flash k') = flash_view v (k_flash k)"
proof -
  obtain i where i: "get_fd fd (fl_list (k_flash k)) = Some i" using flash_open_fd(3) [OF m] by blast
  have "SYS_lseek pl fd 0 SEEK_CUR k = SYS_lseek pl fd (flash_pos fd k) SEEK_SET k"
    using flash_open_fd [OF m] i by (simp add: SYS_lseek_def fd_lseek_def spiflash_lseek_def flash_pos_def Let_def)
  then show ?thesis using flash_seek [OF m i p] by (auto simp: flash_pos_def)
qed

locale flash_file =
  fixes pl :: "('f, 'l, 'd, 'v, 's) platform" and v :: "'f \<Rightarrow> nor" and fd :: int
  assumes chip: "nor_flash (pl_flash pl) v"

sublocale flash_file \<subseteq> seekable pl fd "flash_open v fd" "flash_pos fd" "\<lambda>k. flash_view v (k_flash k)" 16777216
proof
  fix k :: "('f, 'l, 'd, 'v, 's) kernel" and p :: u32 and buf :: "byte list"
  assume m: "flash_open v fd k"
  obtain i where i: "get_fd fd (fl_list (k_flash k)) = Some i" using flash_open_fd(3) [OF m] by blast
  show "unat p \<le> 16777216 \<Longrightarrow> \<exists>rc k'. SYS_lseek pl fd p SEEK_SET k = Inr (rc, k') \<and> flash_open v fd k' \<and> flash_pos fd k' = p \<and>
      flash_view v (k_flash k') = flash_view v (k_flash k)"
    using flash_seek [OF m i, of p] by (auto simp: flash_pos_def)
  show "unat (flash_pos fd k) \<le> 16777216 \<Longrightarrow> \<exists>k'. SYS_lseek pl fd 0 SEEK_CUR k = Inr (int (unat (flash_pos fd k)), k') \<and>
      flash_open v fd k' \<and> flash_pos fd k' = flash_pos fd k \<and> flash_view v (k_flash k') = flash_view v (k_flash k)"
    by (rule flash_seek_cur [OF m]) simp
  show "4 \<le> length buf \<Longrightarrow> unat (flash_pos fd k) + length buf \<le> 16777216 \<Longrightarrow>
      \<exists>rc k'. SYS_read pl fd buf k = Inr (rc, fetch (flash_view v (k_flash k)) (unat (flash_pos fd k)) (length buf), k') \<and>
        flash_open v fd k' \<and> unat (flash_pos fd k') = unat (flash_pos fd k) + length buf \<and>
        flash_view v (k_flash k') = flash_view v (k_flash k)"
    using flash_read [OF chip m i, of buf] i by (auto simp: flash_pos_def fetch_def)
qed simp

context flash_file
begin

lemmas load_flash_image = load_image

end

interpretation demo_file: flash_file demo_platform id 3
  by unfold_locales (simp add: demo_platform_def nor_chip_ok)

lemma flash_close:
  assumes hw: "nor_flash (pl_flash pl) v" and m: "flash_open v fd k" and fd: "3 \<le> fd"
  shows "\<exists>k'. SYS_close pl fd k = Inr (0, k') \<and> flash_view v (k_flash k') = flash_view v (k_flash k) \<and>
    k_fdtab k' = fd_dealloc (nat fd) (k_fdtab k)"
proof -
  obtain i where i: "get_fd fd (fl_list (k_flash k)) = Some i" using flash_open_fd(3) [OF m] by blast
  have inv: "flash_inv v (k_flash k)" using m by (simp add: flash_open_def)
  obtain d where d: "spiflash_sync (pl_flash pl) (k_flash k) = Inr d" "fl_writebuf d = None"
    "nor_content (v (fl_hw d)) = flash_view v (k_flash k)" "fl_list d = fl_list (k_flash k)"
    using spiflash_sync_view [OF hw inv] by blast
  then show ?thesis using flash_open_fd [OF m] i fd
    by (simp add: SYS_close_def fd_close_def spiflash_close_def release_fd_def flash_view_def)
qed

text \<open>Segments that do not run past the end of the address space stay above the kernel.\<close>

definition segment_in_memory :: "byte list \<Rightarrow> bool" where
  "segment_in_memory p \<longleftrightarrow> (p_type p = PT_LOAD \<longrightarrow> unat (p_paddr p) + unat (p_filesz p) \<le> 4294967296)"

lemma load_segments_above:
  assumes "\<forall>p \<in> set ps. segment_ok off limit p \<and> segment_in_memory p"
  shows "changed_within 0x10000 4294967296 m (fst (load_segments f off ps m b))"
  using assms
proof (induction ps arbitrary: m b)
  case (Cons p ps)
  show ?case
  proof (cases "p_type p = PT_LOAD")
    case True
    let ?m = "store_bytes m (p_paddr p) (fetch f (off + unat (p_offset p)) (unat (p_filesz p)))"
    have "0x10000 \<le> unat (p_paddr p)" "unat (p_paddr p) + unat (p_filesz p) \<le> 4294967296"
      using Cons.prems True by (auto simp: segment_ok_def segment_in_memory_def word_le_nat_alt)
    then have "changed_within 0x10000 4294967296 m ?m" by (intro changed_within_store) simp_all
    moreover have "changed_within 0x10000 4294967296 ?m (fst (load_segments f off ps ?m (set_min_brk (p_paddr p + p_memsz p) b)))"
      using Cons by simp
    ultimately show ?thesis using True by (auto intro: changed_within_trans)
  qed (use Cons in simp)
qed simp

lemma memset_above:
  assumes "1 \<le> sint (stack_ptr - USRMEM_START)"
  shows "changed_within 0x10000 4294967296 m (memset m USRMEM_START 0 (stack_ptr - USRMEM_START))"
proof -
  let ?n = "stack_ptr - USRMEM_START"
  have "unat ?n < 2147483648" using assms by (intro unat_nonneg_sint) simp
  then show ?thesis by (simp add: memset_correct changed_within_store)
qed

lemma elf_load_flash:
  assumes hw: "nor_flash (pl_flash pl) v" and k: "kernel_inv k" "flash_inv v (k_flash k)"
    and o: "open_device ''spiflash'' O_RDONLY k = (fd, k1)" "0 \<le> fd"
    and e: "elf_image (flash_view v (k_flash k)) (unat offset) 16777216" and b: "length header = 52" "length phdr = 32"
    and sp: "1 \<le> sint (stack_ptr - USRMEM_START)"
  defines "h \<equiv> fetch (flash_view v (k_flash k)) (unat offset) 52"
  defines "ps \<equiv> phdrs (flash_view v (k_flash k)) (unat offset + unat (e_phoff h)) (unat (e_phnum h))"
  shows "\<exists>k'. elf_load pl ''/dev/spiflash'' offset stack_ptr header phdr k m brk =
      Inr (e_entry h, Some 0, k', load_segments (flash_view v (k_flash k)) (unat offset) ps
        (memset m USRMEM_START 0 (stack_ptr - USRMEM_START)) brk) \<and>
      flash_view v (k_flash k') = flash_view v (k_flash k)"
proof -
  have r: "open_result ''spiflash'' k (fd, k1)" using open_device_result [OF k(1), of "''spiflash''" O_RDONLY] o(1) by simp
  note f = open_device_flash [OF o(1) k(2)]
  have m1: "flash_open v fd k1" and fd: "3 \<le> fd"
    using r o(2) f(1) by (auto simp: open_result_def flash_open_def flash_fds_def device_class_def)
  have "elf_image (flash_view v (k_flash k1)) (unat offset) 16777216" using e f(2) by simp
  from flash_file.load_flash_image [OF flash_file.intro [OF hw] m1 this b sp, of m brk] obtain k2 where
    l: "elf_load_fd pl fd offset stack_ptr header phdr k1 m brk =
      Inr (e_entry h, 0, k2, load_segments (flash_view v (k_flash k)) (unat offset) ps (memset m USRMEM_START 0 (stack_ptr - USRMEM_START)) brk)"
      "flash_open v fd k2" "flash_view v (k_flash k2) = flash_view v (k_flash k)"
    unfolding h_def ps_def f(2) by blast
  obtain k3 where c: "SYS_close pl fd k2 = Inr (0, k3)" "flash_view v (k_flash k3) = flash_view v (k_flash k2)"
    using flash_close [OF hw l(2) fd] by blast
  have "SYS_open pl ''/dev/spiflash'' O_RDONLY k = Inr (fd, k1)" using o(1) by (simp add: SYS_open_def)
  then have "elf_load pl ''/dev/spiflash'' offset stack_ptr header phdr k m brk =
      Inr (e_entry h, Some 0, k3, load_segments (flash_view v (k_flash k)) (unat offset) ps (memset m USRMEM_START 0 (stack_ptr - USRMEM_START)) brk)"
    using o(2) l(1) c(1) unfolding elf_load_def by (simp split: prod.split)
  then show ?thesis using c(2) l(3) by auto
qed

section \<open>Properties\<close>

text \<open>C21: Booting loads the program image that the flash holds at its boot offset: when the file
  header is that of a RISC-V executable and the program headers and segments lie inside the chip and
  above the kernel, \<open>elf_boot\<close> ends with status 0 and the entry address of the header; the user's
  memory is cleared up to the stack and then holds the loadable segments in the order of their
  headers, the break is the end of the last of them, the flash is unchanged, and, unless a segment runs over
  the end of the address space, so is the memory of the kernel.\<close>

theorem elf_boot_loads:
  assumes "nor_flash (pl_flash pl) v" and "kernel_inv k" and "flash_inv v (k_flash k)"
    and "open_device ''spiflash'' O_RDONLY k = (fd, k1)" and "0 \<le> fd"
    and "elf_image (flash_view v (k_flash k)) 0x30000 16777216" and "length header = 52" and "length phdr = 32"
  defines "h \<equiv> fetch (flash_view v (k_flash k)) 0x30000 52"
  defines "ps \<equiv> phdrs (flash_view v (k_flash k)) (0x30000 + unat (e_phoff h)) (unat (e_phnum h))"
  shows "\<exists>k' m' b'. elf_boot pl header phdr k m b = Inr (e_entry h, Some 0, k', m', b') \<and>
    (m', b') = load_segments (flash_view v (k_flash k)) 0x30000 ps (memset m USRMEM_START 0 (USER_SP - USRMEM_START)) b \<and>
    flash_view v (k_flash k') = flash_view v (k_flash k) \<and>
    ((\<forall>p \<in> set ps. segment_in_memory p) \<longrightarrow> changed_within 0x10000 4294967296 m m')"
proof -
  let ?f = "flash_view v (k_flash k)" let ?m = "memset m USRMEM_START 0 (USER_SP - USRMEM_START)"
  obtain m' b' where l: "load_segments ?f 0x30000 ps ?m b = (m', b')" by fastforce
  have u: "unat FLASH_OFFSET = 0x30000" by simp
  have sp: "1 \<le> sint (USER_SP - USRMEM_START)" by simp
  obtain k' where k': "elf_boot pl header phdr k m b = Inr (e_entry h, Some 0, k', m', b')" "flash_view v (k_flash k') = ?f"
    using elf_load_flash [OF assms(1-5), where offset = FLASH_OFFSET and header = header and phdr = phdr and stack_ptr = USER_SP and m = m and brk = b] assms(6-8) sp l
    unfolding elf_boot_def h_def ps_def u by auto
  have "changed_within 0x10000 4294967296 m m'" if "\<forall>p \<in> set ps. segment_in_memory p"
  proof -
    have "\<forall>p \<in> set ps. segment_ok 0x30000 16777216 p"
      using assms(6) by (simp add: elf_image_def ps_def h_def Let_def)
    then have "changed_within 0x10000 4294967296 ?m m'"
      using that load_segments_above [of ps "0x30000" 16777216 ?m ?f b] l by simp
    then show ?thesis using memset_above [OF sp] by (auto intro: changed_within_trans)
  qed
  then show ?thesis using k' l by auto
qed

text \<open>An image with one loadable segment, four bytes of the file header, at 0x10000.\<close>

definition demo_elf :: "byte list" where
  "demo_elf = [0x7F, 0x45, 0x4C, 0x46, 1, 1, 1, 0, 0, 0, 0, 0, 0, 0, 0, 0, 2, 0, 243, 0, 1, 0, 0, 0,
     0x74, 0, 1, 0, 52, 0, 0, 0, 0, 0, 0, 0, 0, 0, 0, 0, 52, 0, 32, 0, 1, 0, 0, 0, 0, 0, 0, 0,
     1, 0, 0, 0, 0, 0, 0, 0, 0, 0, 1, 0, 0, 0, 1, 0, 4, 0, 0, 0, 8, 0, 0, 0, 5, 0, 0, 0, 0, 0, 0, 0]"

definition elf_kernel :: demo_kernel where
  "elf_kernel = (let k = fd_init boot_kernel in
     k\<lparr>k_flash := (k_flash k)\<lparr>fl_hw := (fl_hw (k_flash k))\<lparr>nor_content :=
       (\<lambda>a. if 0x30000 \<le> a \<and> a < 0x30000 + 84 then demo_elf ! (a - 0x30000) else 0xFF)\<rparr>\<rparr>\<rparr>)"

lemma elf_kernel_inv: "kernel_inv elf_kernel" "flash_inv id (k_flash elf_kernel)"
  using demo_inv boot_flash_inv
  by (simp_all add: elf_kernel_def Let_def kernel_inv_flash flash_inv_def nor_idle_def split: option.splits)

lemma elf_kernel_open: "\<exists>k1. open_device ''spiflash'' O_RDONLY elf_kernel = (3, k1)"
  using flags_set [of O_RDONLY] flags_set [of O_WRONLY]
  by (simp add: open_device_def open_table_def fd_alloc_def for_find.simps fd_init_fdtab cons_FD_def zero_FD_def
      spiflash_open_def new_fd_def fd_init_flash boot_fl_list elf_kernel_def Let_def)

lemma elf_kernel_view:
  "flash_view id (k_flash elf_kernel) = (\<lambda>a. if 0x30000 \<le> a \<and> a < 0x30000 + 84 then demo_elf ! (a - 0x30000) else 0xFF)"
  by (simp add: flash_view_def elf_kernel_def Let_def fd_init_flash boot_kernel_def spiflash_init_def nor_dev_def)

lemma fetch_list:
  "p + n \<le> length bs \<Longrightarrow> fetch (\<lambda>a. if base \<le> a \<and> a < base + length bs then bs ! (a - base) else d) (base + p) n = take n (drop p bs)"
  by (rule nth_equalityI) (simp_all add: fetch_def)

theorem elf_boot_loads_witness:
  "\<exists>k' m' b'. elf_boot demo_platform (replicate 52 0) (replicate 32 0) elf_kernel (\<lambda>a. 0x55) \<lparr>program_brk = 0, min_brk = 0\<rparr> = Inr (0x10074, Some 0, k', m', b') \<and>
     (m', b') = (store_bytes (memset (\<lambda>a. 0x55) USRMEM_START 0 (USER_SP - USRMEM_START)) 0x10000 [0x7F, 0x45, 0x4C, 0x46], set_min_brk 0x10008 \<lparr>program_brk = 0, min_brk = 0\<rparr>) \<and>
     changed_within 0x10000 4294967296 (\<lambda>a. 0x55) m'"
proof -
  let ?f = "flash_view id (k_flash elf_kernel)"
  have f: "fetch ?f (0x30000 + p) n = take n (drop p demo_elf)" if "p + n \<le> 84" for p n
    using that fetch_list [of p n demo_elf "0x30000"] by (simp add: elf_kernel_view demo_elf_def)
  have h: "fetch ?f 0x30000 52 = take 52 demo_elf" using f [of 0 52] by simp
  have ph: "phdrs ?f (0x30000 + 52) 1 = [drop 52 demo_elf]" using f [of 52 32] by (simp add: phdrs_def demo_elf_def)
  have hd: "unat (e_phoff (take 52 demo_elf)) = 52" "unat (e_phnum (take 52 demo_elf)) = 1" "e_entry (take 52 demo_elf) = 0x10074"
      "ehdr_status (take 52 demo_elf) = 0"
    by (simp_all add: demo_elf_def le32_def le16_def u32_of_bytes_def u16_of_bytes_def ehdr_status_def)
  let ?p = "drop 52 demo_elf"
  have p: "p_type ?p = PT_LOAD" "p_paddr ?p = 0x10000" "p_filesz ?p = 4" "p_memsz ?p = 8" "p_offset ?p = 0"
    by (simp_all add: demo_elf_def le32_def u32_of_bytes_def)
  have seg: "segment_ok 0x30000 16777216 ?p" "segment_in_memory ?p" using p by (simp_all add: segment_ok_def segment_in_memory_def)
  have img: "elf_image ?f 0x30000 16777216" using h hd ph seg by (simp add: elf_image_def)
  have "fetch ?f 0x30000 4 = [0x7F, 0x45, 0x4C, 0x46]" using f [of 0 4] by (simp add: demo_elf_def)
  moreover obtain k1 where o: "open_device ''spiflash'' O_RDONLY elf_kernel = (3, k1)" using elf_kernel_open by blast
  moreover have "nor_flash (pl_flash demo_platform) id" by (simp add: demo_platform_def nor_chip_ok)
  ultimately show ?thesis
    using elf_boot_loads [OF _ elf_kernel_inv o _ img, of demo_platform "replicate 52 0" "replicate 32 0" "\<lambda>a. 0x55" "\<lparr>program_brk = 0, min_brk = 0\<rparr>"] h hd ph p seg by auto
qed

text \<open>C23: A file that is refused changes nothing: whenever loading ends with a status other than 0, for
  a file that is not a RISC-V executable or has a segment below the user's memory, no entry address
  is returned and the memory and the program break are as before, whatever the descriptor returned.\<close>

theorem elf_load_rejects:
  assumes "elf_load pl filename offset stack_ptr header phdr k m b = Inr (s, Some status, k', m', b')" and "status \<noteq> 0"
  shows "status = ENOEXEC \<and> s = 0 \<and> m' = m \<and> b' = b"
proof -
  have v: "st = 0 \<or> st = ENOEXEC" if "elf_validate_loop pl fd n p k = Inr (st, k')" for fd n p k st k'
    using that by (induction n arbitrary: p k) (auto simp: bindE_Inr_iff split: if_splits)
  show ?thesis using assms
    by (auto simp: elf_load_def elf_load_fd_def elf_read_ehdr_def elf_validate_phdr_def ehdr_status_def bindE_Inr_iff Let_def
        split: if_splits dest!: v)
qed

theorem elf_load_rejects_witness:
  "\<exists>k'. elf_load demo_platform ''/dev/rgbled'' 0 USER_SP (replicate 52 0) (replicate 32 0) (fd_init boot_kernel)
     (\<lambda>a. 0x55) \<lparr>program_brk = 0, min_brk = 0\<rparr> = Inr (0, Some ENOEXEC, k', \<lambda>a. 0x55, \<lparr>program_brk = 0, min_brk = 0\<rparr>)"
proof -
  let ?r = "elf_load demo_platform ''/dev/rgbled'' 0 USER_SP (replicate 52 0) (replicate 32 0) (fd_init boot_kernel)
     (\<lambda>a. 0x55) \<lparr>program_brk = 0, min_brk = 0\<rparr>"
  obtain rc k1 where o: "open_device ''rgbled'' O_RDONLY (fd_init boot_kernel) = (rc, k1)" by fastforce
  have "rc = 3"
    using o flags_set [of O_RDONLY] flags_set [of O_WRONLY]
    by (simp add: open_device_def open_table_def fd_alloc_def for_find.simps fd_init_fdtab cons_FD_def zero_FD_def rgbled_open_def Let_def)
  then have k1: "kernel_inv k1" "fd_class 3 k1 = Inr (Some Led_func)"
    using open_device_result [OF demo_inv, of "''rgbled''" O_RDONLY] o fd_class_open [of k1 3]
    by (auto simp: open_result_def device_class_def)
  have "\<exists>status k' m' b'. ?r = Inr (0, Some status, k', m', b') \<and> status \<noteq> 0"
    using o \<open>rc = 3\<close> k1(2)
    by (simp add: elf_load_def SYS_open_def elf_load_fd_def elf_read_ehdr_def SYS_lseek_def SYS_read_def SYS_close_def bad_fd_def
        fd_lseek_def fd_read_def fd_close_def rgbled_read_def rgbled_close_def ehdr_status_def le32_def u32_of_bytes_def
        split: prod.split)
  then obtain status k' m' b' where r: "?r = Inr (0, Some status, k', m', b')" "status \<noteq> 0" by blast
  then show ?thesis using elf_load_rejects [OF r] by auto
qed

text \<open>C22: The start-up stack of a program: whatever the command line (up to 64 kB) and wherever it lies
  outside the new stack area, \<open>setup_stack_args\<close> ends and leaves on the stack the count of
  arguments, seven argument pointers (null after the last) and the argument strings, which are the
  first seven blank-separated words of the line; the stack pointer stays a multiple of 16 below the
  old one and nothing else in memory changes.\<close>

theorem setup_stack_args_correct:
  assumes "cstr m args s" and "length s + 1 \<le> 65520" and "stack_space s + 32 < unat sp"
    and "outside_stack args (length s) sp (stack_space s + 32)"
    and "cstr m delim [32]" and "outside_stack delim 1 sp (stack_space s + 32)"
  shows "\<exists>as m' lst'. setup_stack_args delim args sp lst m =
      Some (sp - of_nat (stack_space s + 32), sp - of_nat (stack_space s), m', lst') \<and> 16 dvd stack_space s + 32 \<and>
    list_all2 (cstr m') as (take MAXARGS (tokens [32] s)) \<and>
    load32 m' (sp - of_nat (stack_space s + 32)) = of_nat (length as) \<and>
    (\<forall>i < MAXARGS. load32 m' (sp - of_nat (stack_space s + 28) + of_nat (4 * i)) = (if i < length as then as ! i else 0)) \<and>
    changed_within (unat sp - (stack_space s + 32)) (unat sp) m m'"
proof -
  have "16 dvd stack_space s + 32" by (simp add: stack_space_def)
  then show ?thesis using setup_stack_args_result [OF assms] by simp
qed

theorem setup_stack_args_correct_witness:
  "\<exists>as m' lst'. setup_stack_args 0x100A 0x1000 USER_SP 0 demo_mem = Some (0x21BD0, 0x21BF0, m', lst') \<and>
    list_all2 (cstr m') as [[108, 115], [97, 46, 116, 120, 116]] \<and> load32 m' 0x21BD0 = of_nat (length as)"
proof -
  let ?s = "[108, 115, 32, 32, 97, 46, 116, 120, 116] :: byte list"
  have t: "tokens [32] ?s = [[108, 115], [97, 46, 116, 120, 116]]" by (simp add: tokens.simps)
  have "cstr demo_mem 0x1000 ?s" "cstr demo_mem 0x100A [32]" by (simp_all add: demo_mem_def)
  moreover have "stack_space ?s = 16" by (simp add: stack_space_def)
  ultimately show ?thesis
    using setup_stack_args_correct [of demo_mem "0x1000" ?s USER_SP "0x100A" 0] t by (auto simp: outside_stack_def)
qed

end
