(* ===== verification/Supervisor.thy ===== *)
theory Supervisor
  imports ElfLoad
begin

text \<open>
  The supervisor: printing on the console (system/printk.c, with the conversions of the formatter
  that are used here written out), the hexadecimal dump and the peek and poke commands of
  system/hexdump.c, which init/peekpoke.c repeats, and the supervisor shell of
  system/super\_shell.c. Commands work on the memory of the machine; their arguments are addresses of
  strings, as \<open>strtok\<close> leaves them. A string that does not end is the fault \<open>Blocks_Forever\<close>.
\<close>

section \<open>Printing\<close>

definition npf_putc :: "byte \<Rightarrow> console \<Rightarrow> console" where
  "npf_putc c con = (if c = 10 then serial_putc 10 (serial_putc 13 con) else serial_putc c con)"

text \<open>\<open>printk\<close> of a formatted text.\<close>

definition printk :: "byte list \<Rightarrow> console \<Rightarrow> console" where
  "printk bs con = fold npf_putc bs con"

definition text_bytes :: "string \<Rightarrow> byte list" where
  "text_bytes s = map of_char s"

text \<open>The conversions \<open>%02x\<close>, \<open>%04x\<close> and \<open>%08x\<close> of values that fit.\<close>

definition hex_digit :: "u32 \<Rightarrow> byte" where
  "hex_digit d = (if d < 10 then ucast (d + 48) else ucast (d + 87))"

primrec hex_fixed :: "nat \<Rightarrow> u32 \<Rightarrow> byte list" where
  "hex_fixed 0 w = []"
| "hex_fixed (Suc n) w = hex_fixed n (drop_bit 4 w) @ [hex_digit (w AND 15)]"

section \<open>Hexadecimal numbers\<close>

definition hex_value :: "byte \<Rightarrow> u32 option" where
  "hex_value c =
     (if 48 \<le> c \<and> c \<le> 57 then Some (ucast c - 48)
      else if 97 \<le> c \<and> c \<le> 102 then Some (ucast c - 97 + 10)
      else None)"

text \<open>The loop over \<open>hexstr[i]\<close> for \<open>i\<close> from \<open>n - 1\<close> down to 0.\<close>

primrec hextoint_loop :: "mem \<Rightarrow> addr \<Rightarrow> nat \<Rightarrow> nat \<Rightarrow> u32 \<Rightarrow> fault + (bool \<times> u32)" where
  "hextoint_loop m p 0 shift val = Inr (True, val)"
| "hextoint_loop m p (Suc n) shift val =
     (case hex_value (m (p + of_nat n)) of
        None \<Rightarrow> Inr (False, val)
      | Some tmpval \<Rightarrow>
          if 32 \<le> shift then Inl Undefined_Shift
          else hextoint_loop m p n (shift + 4) (val OR push_bit shift tmpval))"

definition returns :: "'a option \<Rightarrow> fault + 'a" where
  "returns r = (case r of None \<Rightarrow> Inl Blocks_Forever | Some x \<Rightarrow> Inr x)"

definition hextoint :: "mem \<Rightarrow> addr \<Rightarrow> fault + (bool \<times> u32)" where
  "hextoint m hexstr = bindE (returns (strlen m hexstr)) (\<lambda>len. hextoint_loop m hexstr (unat len) 0 0)"

section \<open>The dump\<close>

primrec hexline_loop :: "mem \<Rightarrow> addr \<Rightarrow> nat \<Rightarrow> nat \<Rightarrow> console \<Rightarrow> console" where
  "hexline_loop m buf i 0 con = con"
| "hexline_loop m buf i (Suc n) con =
     (let con1 = printk (hex_fixed 2 (ucast (m buf)) @ text_bytes '' '') con;
          con2 = (if i = 7 then serial_putc 32 con1 else con1)
      in hexline_loop m (buf + 1) (i + 1) n con2)"

primrec hexline_pad :: "nat \<Rightarrow> nat \<Rightarrow> console \<Rightarrow> console" where
  "hexline_pad i 0 con = con"
| "hexline_pad i (Suc n) con =
     (let con1 = printk (text_bytes ''   '') con; con2 = (if i = 7 then serial_putc 32 con1 else con1)
      in hexline_pad (i + 1) n con2)"

definition hexline :: "mem \<Rightarrow> addr \<Rightarrow> nat \<Rightarrow> console \<Rightarrow> console" where
  "hexline m buf sz con =
     (let con1 = hexline_loop m buf 0 sz con in if sz < 16 then hexline_pad sz (16 - sz) con1 else con1)"

primrec printchars_loop :: "mem \<Rightarrow> addr \<Rightarrow> nat \<Rightarrow> console \<Rightarrow> console" where
  "printchars_loop m buf 0 con = con"
| "printchars_loop m buf (Suc n) con =
     printchars_loop m (buf + 1) n (serial_putc (if m buf > 31 \<and> m buf < 127 then m buf else 46) con)"

text \<open>The counter is a byte: it never reaches a size above 255.\<close>

definition printchars :: "mem \<Rightarrow> addr \<Rightarrow> nat \<Rightarrow> console \<Rightarrow> fault + console" where
  "printchars m buf sz con =
     (if sz > 255 then Inl Blocks_Forever
      else Inr (printk [124, 10] (printchars_loop m buf sz (serial_putc 124 con))))"

text \<open>The length of a line is kept in 16 bits; the loop body runs at least once. \<open>size -= 16\<close> is on the
  32-bit \<open>int\<close> and wraps at its lower end, as the machine's subtraction does.\<close>

definition size_left :: "int \<Rightarrow> int" where
  "size_left sz = (if sz - 16 < - (2 ^ 31) then sz - 16 + 2 ^ 32 else sz - 16)"

function hexdump :: "mem \<Rightarrow> addr \<Rightarrow> int \<Rightarrow> u32 \<Rightarrow> console \<Rightarrow> fault + console" where
  "hexdump m buf sz addr con =
     (let linelen = (if sz \<ge> 16 then 16 else nat (sz mod 65536)) in
      bindE (printchars m buf linelen (hexline m buf linelen (printk (hex_fixed 8 addr @ text_bytes ''   '') con))) (\<lambda>con1.
      if size_left sz > 0 then hexdump m (buf + 16) (size_left sz) (addr + 16) con1 else Inr con1))"
  by pat_completeness auto
termination
  by (relation "measure (\<lambda>(m, buf, sz, addr, con). nat (if sz - 16 < - (2 ^ 31) then 2 ^ 32 else sz))")
    (auto simp: size_left_def split: if_splits)

declare hexdump.simps [simp del]

section \<open>Commands\<close>

definition mc_print :: "byte list \<Rightarrow> ('f, 'l, 'd, 'v, 's) machine \<Rightarrow> ('f, 'l, 'd, 'v, 's) machine" where
  "mc_print bs mc = mc\<lparr>mc_kernel := (mc_kernel mc)\<lparr>k_console := printk bs (k_console (mc_kernel mc))\<rparr>\<rparr>"

definition super_hexdump :: "addr list \<Rightarrow> ('f, 'l, 'd, 'v, 's) machine \<Rightarrow> fault + ('f, 'l, 'd, 'v, 's) machine" where
  "super_hexdump argv mc =
     (if length argv \<noteq> 3 then Inr (mc_print (text_bytes ''usage: hexdump [hex address] [hex length]'' @ [10]) mc)
      else bindE (hextoint (mc_mem mc) (argv ! 1)) (\<lambda>(ok, start).
      if \<not> ok then Inr (mc_print (text_bytes ''invalid start address'' @ [10]) mc)
      else bindE (hextoint (mc_mem mc) (argv ! 2)) (\<lambda>(ok, len).
      if \<not> ok then Inr (mc_print (text_bytes ''invalid length'' @ [10]) mc)
      else bindE (hexdump (mc_mem mc) start (sint len) start (k_console (mc_kernel mc))) (\<lambda>con.
      Inr (mc\<lparr>mc_kernel := (mc_kernel mc)\<lparr>k_console := con\<rparr>\<rparr>)))))"

text \<open>\<open>peek\<close> and \<open>poke\<close>, with \<open>w\<close>, \<open>h\<close> and \<open>b\<close> for the size.\<close>

definition super_peek :: "addr list \<Rightarrow> ('f, 'l, 'd, 'v, 's) machine \<Rightarrow> fault + ('f, 'l, 'd, 'v, 's) machine" where
  "super_peek argv mc =
     (if length argv \<noteq> 3 then Inr (mc_print (text_bytes ''usage: peek [w|h|b] [address]'' @ [10]) mc)
      else bindE (hextoint (mc_mem mc) (argv ! 2)) (\<lambda>(ok, addr).
      if \<not> ok then Inr (mc_print (text_bytes ''invalid address'' @ [10]) mc)
      else let sz = mc_mem mc (argv ! 1); m = mc_mem mc in
           Inr (mc_print (if sz = 119 then hex_fixed 8 (load32 m addr) @ [10]
                          else if sz = 104 then hex_fixed 4 (ucast (u16_of_bytes (m addr) (m (addr + 1)))) @ [10]
                          else if sz = 98 then hex_fixed 2 (ucast (m addr)) @ [10]
                          else text_bytes ''invalid size'' @ [10]) mc)))"

definition super_poke :: "addr list \<Rightarrow> ('f, 'l, 'd, 'v, 's) machine \<Rightarrow> fault + ('f, 'l, 'd, 'v, 's) machine" where
  "super_poke argv mc =
     (if length argv \<noteq> 4 then Inr (mc_print (text_bytes ''usage: poke [w|h|b] [address] [value]'' @ [10]) mc)
      else bindE (hextoint (mc_mem mc) (argv ! 2)) (\<lambda>(ok, addr).
      if \<not> ok then Inr (mc_print (text_bytes ''invalid address'' @ [10]) mc)
      else bindE (hextoint (mc_mem mc) (argv ! 3)) (\<lambda>(ok, val).
      if \<not> ok then Inr (mc_print (text_bytes ''invalid value'' @ [10]) mc)
      else let sz = mc_mem mc (argv ! 1); m = mc_mem mc in
           Inr (if sz = 119 then mc\<lparr>mc_mem := store32 m addr val\<rparr>
                else if sz = 104 then mc\<lparr>mc_mem := store_bytes m addr [ucast val, ucast (drop_bit 8 val)]\<rparr>
                else if sz = 98 then mc\<lparr>mc_mem := m(addr := ucast val)\<rparr>
                else mc_print (text_bytes ''invalid size'' @ [10]) mc))))"

section \<open>The shell\<close>

text \<open>What a command line leads to: the next prompt, the end of the shell, or a started program.\<close>

datatype shell_step = Prompt | Leave | Start addr addr

abbreviation SUPER_MAXARGS :: nat where "SUPER_MAXARGS \<equiv> 4"

text \<open>The command table in order; \<open>ret\<close> has no function.\<close>

definition super_command ::
  "('f, 'l, 'd, 'v, 's) platform \<Rightarrow> addr \<Rightarrow> addr \<Rightarrow> addr \<Rightarrow> byte list \<Rightarrow> byte list \<Rightarrow> string \<Rightarrow> addr list
    \<Rightarrow> ('f, 'l, 'd, 'v, 's) machine \<Rightarrow> fault + (shell_step \<times> ('f, 'l, 'd, 'v, 's) machine)" where
  "super_command pl delim warm tmp header phdr cmd argv mc =
     (if cmd = ''hexdump'' then bindE (super_hexdump argv mc) (\<lambda>mc1. Inr (Prompt, mc1))
      else if cmd = ''peek'' then bindE (super_peek argv mc) (\<lambda>mc1. Inr (Prompt, mc1))
      else if cmd = ''poke'' then bindE (super_poke argv mc) (\<lambda>mc1. Inr (Prompt, mc1))
      else if cmd = ''boot'' \<or> cmd = ''run''
      then bindE (bindE (returns (super_elf pl delim warm tmp header phdr cmd argv mc)) id) (\<lambda>(r, mc1).
           Inr (case r of Run sp s \<Rightarrow> Start sp s | Not_Run _ \<Rightarrow> Prompt, mc1))
      else if cmd = ''ret'' then Inr (Leave, mc)
      else Inr (Prompt, mc_print (text_bytes ''Bad command'' @ [10]) mc))"

text \<open>One round: the prompt, a line of at most 47 bytes in the cleared buffer, its words, the command.\<close>

definition super_line ::
  "('f, 'l, 'd, 'v, 's) platform \<Rightarrow> addr \<Rightarrow> addr \<Rightarrow> addr \<Rightarrow> byte list \<Rightarrow> byte list \<Rightarrow> addr
    \<Rightarrow> ('f, 'l, 'd, 'v, 's) machine \<Rightarrow> fault + (shell_step \<times> ('f, 'l, 'd, 'v, 's) machine)" where
  "super_line pl delim warm tmp header phdr cmdbuf mc =
     bindE (SYS_write pl 1 (text_bytes ''S> '') (mc_kernel mc)) (\<lambda>(_, k1).
     let m1 = memset (mc_mem mc) cmdbuf 0 48 in
     bindE (SYS_read pl 0 (load_bytes m1 cmdbuf 47) k1) (\<lambda>(bytes, bs, k2).
     let m2 = store_bytes m1 cmdbuf bs in
     bindE (SYS_ioctl 0 CONSOLE_DISCARD_RXBUF [] k2) (\<lambda>(_, _, k3).
     if bytes = 0 then Inr (Prompt, mc\<lparr>mc_kernel := k3, mc_mem := m2\<rparr>)
     else bindE (returns (strtok_line SUPER_MAXARGS m2 cmdbuf delim (mc_strtok mc))) (\<lambda>(args, m3, lst).
     let mc1 = mc\<lparr>mc_kernel := k3, mc_mem := m3, mc_strtok := lst\<rparr> in
     if args = [] then Inr (Prompt, mc1)
     else bindE (returns (read_cstr m3 (args ! 0))) (\<lambda>cmd.
     super_command pl delim warm tmp header phdr cmd args mc1)))))"

partial_function (option) super_shell_loop ::
  "('f, 'l, 'd, 'v, 's) platform \<Rightarrow> addr \<Rightarrow> addr \<Rightarrow> addr \<Rightarrow> byte list \<Rightarrow> byte list \<Rightarrow> addr
    \<Rightarrow> ('f, 'l, 'd, 'v, 's) machine \<Rightarrow> (fault + (shell_step \<times> ('f, 'l, 'd, 'v, 's) machine)) option" where
  "super_shell_loop pl delim warm tmp header phdr cmdbuf mc =
     (case super_line pl delim warm tmp header phdr cmdbuf mc of
        Inl e \<Rightarrow> Some (Inl e)
      | Inr (s, mc1) \<Rightarrow> if s = Prompt then super_shell_loop pl delim warm tmp header phdr cmdbuf mc1 else Some (Inr (s, mc1)))"

definition super_shell ::
  "('f, 'l, 'd, 'v, 's) platform \<Rightarrow> addr \<Rightarrow> addr \<Rightarrow> addr \<Rightarrow> byte list \<Rightarrow> byte list \<Rightarrow> addr
    \<Rightarrow> ('f, 'l, 'd, 'v, 's) machine \<Rightarrow> (fault + (shell_step \<times> ('f, 'l, 'd, 'v, 's) machine)) option" where
  "super_shell pl delim warm tmp header phdr cmdbuf mc =
     (let mc1 = mc_print (text_bytes ''Supervisor'' @ [10]) mc in
      case bindE (SYS_ioctl 0 CONSOLE_DISCARD_RXBUF [] (mc_kernel mc1)) (\<lambda>(_, _, k1).
           bindE (SYS_ioctl 0 CONSOLE_SET_INTERACTIVE [] k1) (\<lambda>(_, _, k2). Inr k2)) of
        Inl e \<Rightarrow> Some (Inl e)
      | Inr k2 \<Rightarrow> super_shell_loop pl delim warm tmp header phdr cmdbuf (mc1\<lparr>mc_kernel := k2\<rparr>))"

section \<open>Numbers are read as they are printed\<close>

lemma length_hex_fixed [simp]: "length (hex_fixed n w) = n"
  by (induction n arbitrary: w) simp_all

lemma hex_value_digit: "d < 16 \<Longrightarrow> hex_value (hex_digit d) = Some d"
proof -
  assume "d < 16"
  then have "unat d \<in> set [0..<16]" by (simp add: word_less_nat_alt)
  moreover have "list_all (\<lambda>n. hex_value (hex_digit (of_nat n)) = Some (of_nat n)) [0..<16]" by code_simp
  ultimately have "hex_value (hex_digit (of_nat (unat d))) = Some (of_nat (unat d))" by (simp only: list_all_iff)
  then show ?thesis by simp
qed

lemma and_15: "w AND 15 = take_bit 4 (w :: u32)" "take_bit 4 w < (16 :: u32)"
proof -
  have "(15 :: u32) = mask 4" by (simp add: mask_eq_exp_minus_1)
  then show "w AND 15 = take_bit 4 w" by (simp only: take_bit_eq_mask)
  have "unat (take_bit 4 w) < 16" using take_bit_nat_less_exp [of 4 "unat w"] by (simp add: unsigned_take_bit_eq)
  then show "take_bit 4 w < (16 :: u32)" by (simp add: word_less_nat_alt)
qed

lemma hex_step:
  assumes "shift + 4 \<le> 32"
  shows "push_bit shift (take_bit 4 w) OR push_bit (shift + 4) (take_bit n (drop_bit 4 w)) = push_bit shift (take_bit (n + 4) (w :: u32))"
proof (rule bit_word_eqI)
  fix i assume "i < LENGTH(32)"
  moreover have "4 + (i - (shift + 4)) = i - shift" if "\<not> i < shift + 4" using that by simp
  ultimately show "bit (push_bit shift (take_bit 4 w) OR push_bit (shift + 4) (take_bit n (drop_bit 4 w)) :: u32) i =
      bit (push_bit shift (take_bit (n + 4) w)) i"
    by (cases "i < shift + 4") (auto simp: bit_simps)
qed

lemma hextoint_loop_digits:
  "(\<And>i. i < n \<Longrightarrow> m (p + of_nat i) = hex_fixed n w ! i) \<Longrightarrow> shift + 4 * n \<le> 32 \<Longrightarrow>
   hextoint_loop m p n shift val = Inr (True, val OR push_bit shift (take_bit (4 * n) w))"
proof (induction n arbitrary: w shift val)
  case (Suc n)
  have "m (p + of_nat n) = hex_digit (w AND 15)" using Suc.prems(1) [of n] by (simp add: nth_append)
  then have v: "hex_value (m (p + of_nat n)) = Some (take_bit 4 w)" by (simp only: and_15 hex_value_digit)
  have "hextoint_loop m p n (shift + 4) (val OR push_bit shift (take_bit 4 w)) =
      Inr (True, (val OR push_bit shift (take_bit 4 w)) OR push_bit (shift + 4) (take_bit (4 * n) (drop_bit 4 w)))"
    using Suc.prems(1) [OF less_SucI] Suc.prems(2) by (intro Suc.IH) (simp_all add: nth_append)
  also have "\<dots> = Inr (True, val OR push_bit shift (take_bit (4 * Suc n) w))"
    using hex_step [of shift w "4 * n"] Suc.prems(2) by (simp add: or.assoc add.commute)
  finally show ?case using v Suc.prems(2) by simp
qed simp

lemma hextoint_hex_fixed:
  assumes "cstr m p (hex_fixed n w)" and "n \<le> 8"
  shows "hextoint m p = Inr (True, take_bit (4 * n) w)"
proof -
  have "unat (of_nat n :: u32) = n" using assms(2) by (intro unat_of_nat32) simp
  then show ?thesis
    using strlen_cstr [OF assms(1)] hextoint_loop_digits [of n m p w 0 0] cstr_nth [OF assms(1)] assms(2)
    by (simp add: hextoint_def returns_def)
qed

section \<open>Properties\<close>

text \<open>C26: The supervisor reads numbers as it prints them: a word that is poked with an address and a
  value typed as eight hexadecimal digits changes exactly the four bytes at the address, and a peek at
  the same address then prints the digits that were typed, as long as the command line itself is not
  overwritten.\<close>

theorem poke_peek:
  fixes mc :: "('f, 'l, 'd, 'v, 's) machine"
  assumes "cstr (mc_mem mc) q (119 # t)" and "cstr (mc_mem mc) r (hex_fixed 8 a)" and "cstr (mc_mem mc) s (hex_fixed 8 v)"
    and "disjoint_range q (Suc (length (119 # t))) a 4" and "disjoint_range r (Suc 8) a 4"
  shows "\<exists>mc'. super_poke [c, q, r, s] mc = Inr mc' \<and> mc_mem mc' = store_bytes (mc_mem mc) a (bytes_of_u32 v) \<and>
    super_peek [c, q, r] mc' = Inr (mc_print (hex_fixed 8 v @ [10]) mc')"
proof -
  let ?m = "store32 (mc_mem mc) a v"
  have n: "hextoint (mc_mem mc) r = Inr (True, a)" "hextoint (mc_mem mc) s = Inr (True, v)"
    using hextoint_hex_fixed [OF assms(2)] hextoint_hex_fixed [OF assms(3)] by (simp_all add: take_bit_word_eq_self)
  have q: "mc_mem mc q = 119" using assms(1) by simp
  have l: "length (bytes_of_u32 v) = 4" by (simp add: bytes_of_u32_def)
  have "cstr ?m q (119 # t)" "cstr ?m r (hex_fixed 8 a)"
    unfolding store32_def using assms l by (subst cstr_store_disjoint; simp)+
  then have q': "?m q = 119" "hextoint ?m r = Inr (True, a)"
    using hextoint_hex_fixed [of ?m r 8 a] by (simp_all add: take_bit_word_eq_self)
  have "super_poke [c, q, r, s] mc = Inr (mc\<lparr>mc_mem := ?m\<rparr>)" using n q by (simp add: super_poke_def)
  moreover have "super_peek [c, q, r] (mc\<lparr>mc_mem := ?m\<rparr>) = Inr (mc_print (hex_fixed 8 v @ [10]) (mc\<lparr>mc_mem := ?m\<rparr>))"
    using q' by (simp add: super_peek_def load32_store32)
  ultimately show ?thesis by (simp add: store32_def)
qed

definition demo_line :: mem where
  "demo_line = store_bytes (\<lambda>a. 0) 0x1000 ([119, 0] @ [48, 48, 48, 50, 48, 48, 48, 48, 0] @ [100, 101, 97, 100, 98, 101, 101, 102, 0])"

definition demo_machine :: "(nor, unit, unit, unit, sdcard) machine" where
  "demo_machine = \<lparr>mc_kernel = fd_init boot_kernel, mc_mem = demo_line, mc_brk = \<lparr>program_brk = 0x10000, min_brk = 0x10000\<rparr>, mc_strtok = 0\<rparr>"

theorem poke_peek_witness:
  "\<exists>mc'. super_poke [0, 0x1000, 0x1002, 0x100B] demo_machine = Inr mc' \<and>
    mc_mem mc' = store_bytes demo_line 0x20000 [0xEF, 0xBE, 0xAD, 0xDE] \<and>
    super_peek [0, 0x1000, 0x1002] mc' = Inr (mc_print [100, 101, 97, 100, 98, 101, 101, 102, 10] mc')"
proof -
  let ?mc = demo_machine
  have mem: "mc_mem ?mc = demo_line" by (simp add: demo_machine_def)
  have h: "hex_fixed 8 0x20000 = [48, 48, 48, 50, 48, 48, 48, 48]" "hex_fixed 8 0xDEADBEEF = [100, 101, 97, 100, 98, 101, 101, 102]"
    by code_simp+
  have b: "bytes_of_u32 0xDEADBEEF = [0xEF, 0xBE, 0xAD, 0xDE]" by code_simp
  have c: "cstr (mc_mem ?mc) 0x1000 [119]" "cstr (mc_mem ?mc) 0x1002 (hex_fixed 8 0x20000)" "cstr (mc_mem ?mc) 0x100B (hex_fixed 8 0xDEADBEEF)"
    unfolding h mem by (simp_all add: demo_line_def)
  have d: "disjoint_range 0x1000 (Suc (length [119 :: byte])) 0x20000 4" "disjoint_range 0x1002 (Suc 8) 0x20000 4"
    by (rule disjoint_rangeI_nat; simp)+
  show ?thesis using poke_peek [OF c d, of 0] unfolding h b mem by simp
qed

text \<open>Numbers of more than eight digits shift a word by its width or more.\<close>

lemma hextoint_nine_digits:
  assumes "cstr m p s" and "\<forall>c \<in> set s. hex_value c \<noteq> None" and "9 \<le> length s"
  shows "hextoint m p = Inl Undefined_Shift"
proof -
  have "hextoint_loop m p n sh val = Inl Undefined_Shift"
    if "n \<le> length s" "32 < sh + 4 * n" "sh \<le> 32" "4 dvd sh" for n sh val
    using that
  proof (induction n arbitrary: sh val)
    case (Suc n)
    have "hex_value (m (p + of_nat n)) \<noteq> None" using assms(2) cstr_nth [OF assms(1), of n] Suc.prems(1) by simp
    moreover have "sh + 4 \<le> 32" if "\<not> 32 \<le> sh" using that Suc.prems(4) by presburger
    ultimately show ?case using Suc.IH [of "sh + 4"] Suc.prems by auto
  qed simp
  moreover have "unat (of_nat (length s) :: u32) = length s" using cstr_length [OF assms(1)] by (intro unat_of_nat32)
  ultimately show ?thesis
    using strlen_cstr [OF assms(1)] assms(3) by (simp add: hextoint_def returns_def)
qed

end
