(* ===== verification/Poll.thy ===== *)
theory Poll
  imports Syscalls
begin

text \<open>
  Waiting for descriptors: system/poll.c with the clock of system/time.c. The system call peeks at
  descriptors until one is ready or the time is over, while interrupts change the kernel: the kernel
  at the moment of each peek and the clock after each pass are functions of the number of the pass,
  so that every interleaving is covered.
\<close>

section \<open>The system call\<close>

record pollfd =
  pfd :: int
  pevents :: int
  prevents :: int

abbreviation POLLIN :: int where "POLLIN \<equiv> 1"
abbreviation POLLERR :: int where "POLLERR \<equiv> 4"

text \<open>The time from the cycle counter.\<close>

definition get_ms :: "u64 \<Rightarrow> u64" where
  "get_ms cyc = drop_bit 13 cyc"

primrec poll_pass :: "(nat \<Rightarrow> ('f, 'l, 'd, 'v, 's) kernel) \<Rightarrow> nat \<Rightarrow> pollfd list \<Rightarrow> int \<Rightarrow> fault + (pollfd list \<times> int)" where
  "poll_pass at i [] ready = Inr ([], ready)"
| "poll_pass at i (p # ps) ready =
     (if pfd p < 0 then bindE (poll_pass at (i + 1) ps ready) (\<lambda>(ps', r). Inr (p # ps', r))
      else bindE (SYS_peek (pfd p) (at i)) (\<lambda>bytes.
           let (revents, ready1) = (if bytes < 0 then (POLLERR, ready + 1)
                                    else if bytes > 0 then (POLLIN, ready + 1) else (0, ready)) in
           bindE (poll_pass at (i + 1) ps ready1) (\<lambda>(ps', r). Inr (p\<lparr>prevents := revents\<rparr> # ps', r))))"

partial_function (option) poll_loop ::
  "(nat \<Rightarrow> nat \<Rightarrow> ('f, 'l, 'd, 'v, 's) kernel) \<Rightarrow> (nat \<Rightarrow> u64) \<Rightarrow> int \<Rightarrow> u64 \<Rightarrow> nat \<Rightarrow> pollfd list
    \<Rightarrow> (fault + (int \<times> pollfd list)) option" where
  "poll_loop at clock timeout end_time n fds =
     (case poll_pass (at n) 0 fds 0 of
        Inl e \<Rightarrow> Some (Inl e)
      | Inr (fds1, ready) \<Rightarrow>
          if ready \<noteq> 0 then Some (Inr (ready, fds1))
          else if timeout = 0 \<or> get_ms (clock n) < end_time then poll_loop at clock timeout end_time (Suc n) fds1
          else Some (Inr (0, fds1)))"

text \<open>\<open>end_time\<close> is only set, and only looked at, when there is a timeout.\<close>

definition SYS_poll ::
  "(nat \<Rightarrow> nat \<Rightarrow> ('f, 'l, 'd, 'v, 's) kernel) \<Rightarrow> u64 \<Rightarrow> (nat \<Rightarrow> u64) \<Rightarrow> pollfd list \<Rightarrow> int
    \<Rightarrow> (fault + (int \<times> pollfd list)) option" where
  "SYS_poll at now clock fds timeout = poll_loop at clock timeout (get_ms now + word_of_int timeout) 0 fds"

section \<open>One pass\<close>

text \<open>Descriptors a call can be made on, in a kernel that keeps its invariant.\<close>

definition poll_ok :: "(nat \<Rightarrow> nat \<Rightarrow> ('f, 'l, 'd, 'v, 's) kernel) \<Rightarrow> pollfd list \<Rightarrow> bool" where
  "poll_ok at fds \<longleftrightarrow> (\<forall>n i. kernel_inv (at n i)) \<and> (\<forall>p \<in> set fds. pfd p < 16)"

definition poll_ready :: "(nat \<Rightarrow> ('f, 'l, 'd, 'v, 's) kernel) \<Rightarrow> nat \<Rightarrow> pollfd list \<Rightarrow> bool" where
  "poll_ready at i fds \<longleftrightarrow> (\<exists>j < length fds. 0 \<le> pfd (fds ! j) \<and> SYS_peek (pfd (fds ! j)) (at (i + j)) \<noteq> Inr 0)"

definition poll_count :: "pollfd list \<Rightarrow> int" where
  "poll_count fds = int (length (filter (\<lambda>p. 0 \<le> pfd p \<and> prevents p \<noteq> 0) fds))"

lemma SYS_peek_result: "kernel_inv k \<Longrightarrow> 0 \<le> fd \<Longrightarrow> fd < 16 \<Longrightarrow> \<exists>b. SYS_peek fd k = Inr b"
  using fd_class_open [of k fd] by (auto simp: SYS_peek_def bad_fd_def split: option.split)

lemma poll_ready_Cons:
  "poll_ready at i (p # ps) \<longleftrightarrow> 0 \<le> pfd p \<and> SYS_peek (pfd p) (at i) \<noteq> Inr 0 \<or> poll_ready at (i + 1) ps"
  unfolding poll_ready_def by (auto simp: less_Suc_eq_0_disj)

lemma poll_pass_result:
  "\<forall>i. kernel_inv (at i) \<Longrightarrow> \<forall>p \<in> set fds. pfd p < 16 \<Longrightarrow>
   \<exists>fds'. poll_pass at i fds r = Inr (fds', r + poll_count fds') \<and> map pfd fds' = map pfd fds \<and>
     (poll_count fds' = 0 \<longleftrightarrow> \<not> poll_ready at i fds)"
proof (induction fds arbitrary: i r)
  case Nil
  then show ?case by (simp add: poll_count_def poll_ready_def)
next
  case (Cons p ps)
  show ?case
  proof (cases "pfd p < 0")
    case True
    obtain ps' where "poll_pass at (i + 1) ps r = Inr (ps', r + poll_count ps')" "map pfd ps' = map pfd ps"
        "poll_count ps' = 0 \<longleftrightarrow> \<not> poll_ready at (i + 1) ps"
      using Cons.IH [of "i + 1" r] Cons.prems by auto
    then show ?thesis using True by (auto simp: poll_ready_Cons poll_count_def)
  next
    case False
    obtain b where b: "SYS_peek (pfd p) (at i) = Inr b"
      using SYS_peek_result [of "at i" "pfd p"] Cons.prems False by auto
    define rev where "rev = (if b < 0 then POLLERR else if b > 0 then POLLIN else 0)"
    define r1 where "r1 = (if b = 0 then r else r + 1)"
    obtain ps' where ps: "poll_pass at (i + 1) ps r1 = Inr (ps', r1 + poll_count ps')" "map pfd ps' = map pfd ps"
        "poll_count ps' = 0 \<longleftrightarrow> \<not> poll_ready at (i + 1) ps"
      using Cons.IH [of "i + 1" r1] Cons.prems by auto
    have "poll_pass at i (p # ps) r = Inr (p\<lparr>prevents := rev\<rparr> # ps', r1 + poll_count ps')"
      using False b ps(1) by (auto simp: rev_def r1_def)
    moreover have "r1 + poll_count ps' = r + poll_count (p\<lparr>prevents := rev\<rparr> # ps')"
      using False by (auto simp: rev_def r1_def poll_count_def)
    moreover have "poll_count (p\<lparr>prevents := rev\<rparr> # ps') = 0 \<longleftrightarrow> \<not> poll_ready at i (p # ps)"
      using False b ps(3) by (auto simp: rev_def poll_ready_Cons poll_count_def)
    ultimately show ?thesis using ps(2) by auto
  qed
qed

lemma poll_ready_cong: "map pfd fds = map pfd fds' \<Longrightarrow> poll_ready at i fds = poll_ready at i fds'"
  unfolding poll_ready_def by (auto simp: list_eq_iff_nth_eq)

section \<open>Waiting\<close>

text \<open>The passes after which the wait is over.\<close>

definition poll_stops :: "(nat \<Rightarrow> nat \<Rightarrow> ('f, 'l, 'd, 'v, 's) kernel) \<Rightarrow> (nat \<Rightarrow> u64) \<Rightarrow> int \<Rightarrow> u64 \<Rightarrow> pollfd list \<Rightarrow> nat \<Rightarrow> bool" where
  "poll_stops at clock timeout end_time fds n \<longleftrightarrow>
     poll_ready (at n) 0 fds \<or> timeout \<noteq> 0 \<and> end_time \<le> get_ms (clock n)"

lemma poll_loop_step:
  assumes "poll_ok at fds"
  shows "\<exists>fds'. map pfd fds' = map pfd fds \<and> poll_ok at fds' \<and> (poll_count fds' = 0 \<longleftrightarrow> \<not> poll_ready (at n) 0 fds) \<and>
    poll_loop at clock timeout end_time n fds =
      (if poll_stops at clock timeout end_time fds n then Some (Inr (poll_count fds', fds'))
       else poll_loop at clock timeout end_time (Suc n) fds')"
proof -
  have "\<forall>i. kernel_inv (at n i)" "\<forall>p \<in> set fds. pfd p < 16" using assms by (simp_all add: poll_ok_def)
  from poll_pass_result [OF this, of 0 0] obtain fds' where
    p: "poll_pass (at n) 0 fds 0 = Inr (fds', poll_count fds')" "map pfd fds' = map pfd fds" "poll_count fds' = 0 \<longleftrightarrow> \<not> poll_ready (at n) 0 fds"
    by auto
  have "set (map pfd fds') = set (map pfd fds)" using p(2) by simp
  then have "poll_ok at fds'" using assms by (force simp: poll_ok_def)
  moreover have "poll_loop at clock timeout end_time n fds =
      (if poll_stops at clock timeout end_time fds n then Some (Inr (poll_count fds', fds'))
       else poll_loop at clock timeout end_time (Suc n) fds')"
    using p(1,3) by (subst poll_loop.simps) (auto simp: poll_stops_def not_less)
  ultimately show ?thesis using p by blast
qed

lemma poll_stops_cong: "map pfd fds = map pfd fds' \<Longrightarrow> poll_stops at clock timeout e fds n = poll_stops at clock timeout e fds' n"
  using poll_ready_cong [of fds fds' "at n" 0] by (simp add: poll_stops_def)

lemma poll_loop_returns:
  assumes "poll_ok at fds" and "poll_stops at clock timeout e fds (n + d)" and "\<forall>j < d. \<not> poll_stops at clock timeout e fds (n + j)"
  shows "\<exists>fds'. poll_loop at clock timeout e n fds = Some (Inr (poll_count fds', fds')) \<and> map pfd fds' = map pfd fds \<and>
    (poll_count fds' = 0 \<longleftrightarrow> \<not> poll_ready (at (n + d)) 0 fds)"
  using assms
proof (induction d arbitrary: n fds)
  case 0
  then show ?case using poll_loop_step [OF 0(1), of n clock timeout e] by auto
next
  case (Suc d)
  obtain fds1 where f: "map pfd fds1 = map pfd fds" "poll_ok at fds1"
      "poll_loop at clock timeout e n fds = poll_loop at clock timeout e (Suc n) fds1"
    using poll_loop_step [OF Suc.prems(1), of n clock timeout e] Suc.prems(3) [THEN spec, of 0] by auto
  have "poll_stops at clock timeout e fds1 (Suc n + d)" "\<forall>j < d. \<not> poll_stops at clock timeout e fds1 (Suc n + j)"
    using Suc.prems(2,3) poll_stops_cong [OF f(1), of at clock timeout e] by auto
  from Suc.IH [OF f(2) this] show ?case using f poll_ready_cong [OF f(1), of "at (n + Suc d)" 0] by auto
qed

lemma poll_loop_stops:
  assumes "poll_loop at clock timeout e n fds = Some y" and "poll_ok at fds"
  shows "\<exists>d. poll_stops at clock timeout e fds (n + d)"
proof -
  have "poll_ok at fds \<longrightarrow> (\<exists>d. poll_stops at clock timeout e fds (n + d))"
  proof (rule poll_loop.raw_induct [OF _ assms(1), where P = "\<lambda>at clock timeout e n fds y.
      poll_ok at fds \<longrightarrow> (\<exists>d. poll_stops at clock timeout e fds (n + d))"], intro impI)
    fix f and at :: "nat \<Rightarrow> nat \<Rightarrow> ('a, 'b, 'c, 'd, 'e) kernel" and clock timeout e n fds y
    assume IH: "\<And>at clock timeout e n fds y. f at clock timeout e n fds = Some y \<Longrightarrow>
        poll_ok at fds \<longrightarrow> (\<exists>d. poll_stops at clock timeout e fds (n + d))"
      and s: "(case poll_pass (at n) 0 fds 0 of
        Inl e \<Rightarrow> Some (Inl e)
      | Inr (fds1, ready) \<Rightarrow>
          if ready \<noteq> 0 then Some (Inr (ready, fds1))
          else if timeout = 0 \<or> get_ms (clock n) < e then f at clock timeout e (Suc n) fds1
          else Some (Inr (0, fds1))) = Some y"
      and ok: "poll_ok at fds"
    have "\<forall>i. kernel_inv (at n i)" "\<forall>p \<in> set fds. pfd p < 16" using ok by (simp_all add: poll_ok_def)
    from poll_pass_result [OF this, of 0 0] obtain fds' where
      p: "poll_pass (at n) 0 fds 0 = Inr (fds', poll_count fds')" "map pfd fds' = map pfd fds" "poll_count fds' = 0 \<longleftrightarrow> \<not> poll_ready (at n) 0 fds"
      by auto
    show "\<exists>d. poll_stops at clock timeout e fds (n + d)"
    proof (cases "poll_stops at clock timeout e fds n")
      case True
      then show ?thesis by (intro exI [of _ 0]) simp
    next
      case False
      then have "f at clock timeout e (Suc n) fds' = Some y" using s p(1,3) by (auto simp: poll_stops_def split: if_splits)
      moreover have "set (map pfd fds') = set (map pfd fds)" using p(2) by simp
      then have "poll_ok at fds'" using ok by (force simp: poll_ok_def)
      ultimately obtain d where "poll_stops at clock timeout e fds' (Suc n + d)" using IH by blast
      then show ?thesis using poll_stops_cong [OF p(2), of at clock timeout e] by (intro exI [of _ "Suc d"]) simp
    qed
  qed
  then show ?thesis using assms(2) by blast
qed

section \<open>Properties\<close>

text \<open>C24: \<open>SYS_poll\<close> returns exactly when a descriptor becomes ready or has an error at some pass, or a
  timeout was given and the clock has reached its end after some pass; then the result is the number
  of entries that are marked, and it is 0 only when nothing was ready at the last pass. With a
  timeout of 0 and nothing ready the call never returns.\<close>

theorem poll_returns:
  assumes "poll_ok at fds"
  shows "(case SYS_poll at now clock fds timeout of
     None \<Rightarrow> \<forall>n. \<not> poll_ready (at n) 0 fds \<and> (timeout \<noteq> 0 \<longrightarrow> get_ms (clock n) < get_ms now + word_of_int timeout)
   | Some r \<Rightarrow> \<exists>fds' n. r = Inr (poll_count fds', fds') \<and> map pfd fds' = map pfd fds \<and>
       (poll_count fds' = 0 \<longleftrightarrow> \<not> poll_ready (at n) 0 fds) \<and>
       (poll_ready (at n) 0 fds \<or> timeout \<noteq> 0 \<and> get_ms now + word_of_int timeout \<le> get_ms (clock n)) \<and>
       (\<forall>j < n. \<not> poll_ready (at j) 0 fds))"
proof (cases "\<exists>n. poll_stops at clock timeout (get_ms now + word_of_int timeout) fds n")
  case True
  define n where "n = (LEAST n. poll_stops at clock timeout (get_ms now + word_of_int timeout) fds n)"
  have n: "poll_stops at clock timeout (get_ms now + word_of_int timeout) fds (0 + n)"
      "\<forall>j < n. \<not> poll_stops at clock timeout (get_ms now + word_of_int timeout) fds (0 + j)"
    using LeastI_ex [OF True] not_less_Least by (auto simp: n_def)
  obtain fds' where r: "SYS_poll at now clock fds timeout = Some (Inr (poll_count fds', fds'))" "map pfd fds' = map pfd fds"
      "poll_count fds' = 0 \<longleftrightarrow> \<not> poll_ready (at n) 0 fds"
    using poll_loop_returns [OF assms n] by (auto simp: SYS_poll_def)
  have "\<forall>j < n. \<not> poll_ready (at j) 0 fds" using n(2) by (simp add: poll_stops_def)
  moreover have "poll_ready (at n) 0 fds \<or> timeout \<noteq> 0 \<and> get_ms now + word_of_int timeout \<le> get_ms (clock n)"
    using n(1) by (simp add: poll_stops_def)
  ultimately show ?thesis using r by auto
next
  case False
  then have "SYS_poll at now clock fds timeout = None"
    using poll_loop_stops [OF _ assms] unfolding SYS_poll_def by (metis add_0 not_None_eq)
  then show ?thesis using False by (auto simp: poll_stops_def not_le)
qed

theorem poll_returns_witness:
  "\<exists>fds'. SYS_poll (\<lambda>n i. fd_init boot_kernel) 0 (\<lambda>n. 0xFFFFFF) [\<lparr>pfd = 0, pevents = 1, prevents = 0\<rparr>] 5 =
     Some (Inr (poll_count fds', fds')) \<and> map pfd fds' = [0]"
proof -
  have "poll_ok (\<lambda>n i. fd_init boot_kernel) [\<lparr>pfd = 0, pevents = 1, prevents = 0\<rparr>]" using demo_inv by (simp add: poll_ok_def)
  moreover have "\<not> get_ms 0xFFFFFF < get_ms 0 + word_of_int 5" by (simp add: get_ms_def)
  ultimately show ?thesis
    using poll_returns [where at = "\<lambda>n i. fd_init boot_kernel" and now = 0 and clock = "\<lambda>n. 0xFFFFFF" and timeout = 5
        and fds = "[\<lparr>pfd = 0, pevents = 1, prevents = 0\<rparr>]"]
    by (auto split: option.splits)
qed

end
