(* ===== verification/UserLib.thy ===== *)
theory UserLib
  imports Supervisor Poll
begin

text \<open>
  The user side of the system calls: what a user program sees of a call is -1 and \<open>errno\<close> when the
  kernel returns a negative number. The wrappers of the C library (open, read, write, close and the
  calls of lib/syscall.S) store the positive error number; lib/ioctl.c and lib/readdir.c are
  translated as they are. A user program is the machine with the kernel, the memory it shares with it and
  its \<open>errno\<close>; text that programs print for the user is left out, unless it goes through the dump
  of the kernel.
\<close>

record ('f, 'l, 'd, 'v, 's) uproc =
  up_mc :: "('f, 'l, 'd, 'v, 's) machine"
  up_errno :: int

abbreviation up_kernel :: "('f, 'l, 'd, 'v, 's) uproc \<Rightarrow> ('f, 'l, 'd, 'v, 's) kernel" where
  "up_kernel u \<equiv> mc_kernel (up_mc u)"

abbreviation up_mem :: "('f, 'l, 'd, 'v, 's) uproc \<Rightarrow> mem" where
  "up_mem u \<equiv> mc_mem (up_mc u)"

definition with_kernel :: "('f, 'l, 'd, 'v, 's) kernel \<Rightarrow> ('f, 'l, 'd, 'v, 's) uproc \<Rightarrow> ('f, 'l, 'd, 'v, 's) uproc" where
  "with_kernel k u = u\<lparr>up_mc := (up_mc u)\<lparr>mc_kernel := k\<rparr>\<rparr>"

definition with_mem :: "mem \<Rightarrow> ('f, 'l, 'd, 'v, 's) uproc \<Rightarrow> ('f, 'l, 'd, 'v, 's) uproc" where
  "with_mem m u = u\<lparr>up_mc := (up_mc u)\<lparr>mc_mem := m\<rparr>\<rparr>"

lemma with_simps [simp]:
  "up_kernel (with_kernel k u) = k" "up_mem (with_kernel k u) = up_mem u" "up_errno (with_kernel k u) = up_errno u"
  "up_kernel (with_mem m u) = up_kernel u" "up_mem (with_mem m u) = m" "up_errno (with_mem m u) = up_errno u"
  "mc_strtok (up_mc (with_kernel k u)) = mc_strtok (up_mc u)" "mc_strtok (up_mc (with_mem m u)) = mc_strtok (up_mc u)"
  by (simp_all add: with_kernel_def with_mem_def)

text \<open>Reading a string of the memory.\<close>

lemma read_cstr_eq: "cstr m p s \<Longrightarrow> read_cstr m p = Some (map (\<lambda>b. char_of (unat b)) s)"
  by (induction s arbitrary: p) (simp_all add: read_cstr.simps)

section \<open>Wrappers\<close>

definition sysret :: "int \<Rightarrow> ('f, 'l, 'd, 'v, 's) uproc \<Rightarrow> int \<times> ('f, 'l, 'd, 'v, 's) uproc" where
  "sysret rc u = (if rc < 0 then (- 1, u\<lparr>up_errno := - rc\<rparr>) else (rc, u))"

definition u_open :: "('f, 'l, 'd, 'v, 's) platform \<Rightarrow> string \<Rightarrow> u32 \<Rightarrow> ('f, 'l, 'd, 'v, 's) uproc \<Rightarrow> fault + (int \<times> ('f, 'l, 'd, 'v, 's) uproc)" where
  "u_open pl path fl u = bindE (SYS_open pl path fl (up_kernel u)) (\<lambda>(rc, k). Inr (sysret rc (with_kernel k u)))"

definition u_close :: "('f, 'l, 'd, 'v, 's) platform \<Rightarrow> int \<Rightarrow> ('f, 'l, 'd, 'v, 's) uproc \<Rightarrow> fault + (int \<times> ('f, 'l, 'd, 'v, 's) uproc)" where
  "u_close pl fd u = bindE (SYS_close pl fd (up_kernel u)) (\<lambda>(rc, k). Inr (sysret rc (with_kernel k u)))"

text \<open>Reading into and writing from the memory of the program.\<close>

definition u_read :: "('f, 'l, 'd, 'v, 's) platform \<Rightarrow> int \<Rightarrow> addr \<Rightarrow> nat \<Rightarrow> ('f, 'l, 'd, 'v, 's) uproc \<Rightarrow> fault + (int \<times> ('f, 'l, 'd, 'v, 's) uproc)" where
  "u_read pl fd buf n u =
     bindE (SYS_read pl fd (load_bytes (up_mem u) buf n) (up_kernel u)) (\<lambda>(rc, bs, k).
     Inr (sysret rc (with_mem (store_bytes (up_mem u) buf bs) (with_kernel k u))))"

definition u_write :: "('f, 'l, 'd, 'v, 's) platform \<Rightarrow> int \<Rightarrow> byte list \<Rightarrow> ('f, 'l, 'd, 'v, 's) uproc \<Rightarrow> fault + (int \<times> ('f, 'l, 'd, 'v, 's) uproc)" where
  "u_write pl fd bs u = bindE (SYS_write pl fd bs (up_kernel u)) (\<lambda>(rc, k). Inr (sysret rc (with_kernel k u)))"

definition fd_peek_call :: "int \<Rightarrow> ('f, 'l, 'd, 'v, 's) uproc \<Rightarrow> fault + (int \<times> ('f, 'l, 'd, 'v, 's) uproc)" where
  "fd_peek_call fd u = bindE (SYS_peek fd (up_kernel u)) (\<lambda>rc. Inr (sysret rc u))"

text \<open>lib/ioctl.c keeps the negative number as \<open>errno\<close> and returns 0 for every success. The bytes are what
  the pointer argument leads to before and after.\<close>

definition ioctl :: "int \<Rightarrow> u32 \<Rightarrow> byte list \<Rightarrow> ('f, 'l, 'd, 'v, 's) uproc \<Rightarrow> fault + (int \<times> byte list \<times> ('f, 'l, 'd, 'v, 's) uproc)" where
  "ioctl fd request p u =
     bindE (SYS_ioctl fd request p (up_kernel u)) (\<lambda>(rc, bs, k).
     let u1 = with_kernel k u in
     Inr (if rc < 0 then (- 1, bs, u1\<lparr>up_errno := rc\<rparr>) else (0, bs, u1)))"

text \<open>lib/readdir.c: the static entry \<open>d\<close> is given and returned.\<close>

definition readdir ::
  "('f, 'l, 'd, 'v, 's) platform \<Rightarrow> int \<Rightarrow> dirent \<Rightarrow> ('f, 'l, 'd, 'v, 's) uproc \<Rightarrow> fault + (dirent option \<times> dirent \<times> ('f, 'l, 'd, 'v, 's) uproc)" where
  "readdir pl dirhnd d u =
     bindE (SYS_readdir (pl_fat pl) dirhnd d (up_kernel u)) (\<lambda>(rc, d1, k).
     case sysret rc (with_kernel k u) of (rc1, u1) \<Rightarrow>
       Inr (if rc1 < 0 \<or> d_name d1 = '''' then None else Some d1, d1, u1))"

end
