(* ===== verification/FileServer.thy ===== *)
theory FileServer
  imports UserLib
begin

text \<open>
  The file server: fileserver/message.c receives requests from the network and fileserver/starcmd.c
  handles command lines, the only function that is implemented. The loop never ends, so it is
  given by its first rounds. Requests stay where the read put them, at \<open>econet_buf\<close> in the
  memory of the program; \<open>delim\<close> is the address of the literal " ". The specification
  \<open>netfs_reply\<close> says, from the bytes of a request alone, what is sent to whom.
\<close>

section \<open>Messages\<close>

abbreviation NETFS_PORT :: u32 where "NETFS_PORT \<equiv> 0x99"
abbreviation FC_COMMANDLINE :: byte where "FC_COMMANDLINE \<equiv> 0"

record NetFSMsg =
  reply_net :: byte
  reply_station :: byte
  reply_port :: byte
  function_code :: byte
  urd :: byte
  csd :: byte
  lib :: byte
  paysize :: u16
  payload :: addr

record ('f, 'l, 'd, 'v, 's) fserver =
  fs_proc :: "('f, 'l, 'd, 'v, 's) uproc"
  econet_fd :: int

abbreviation ECONET_BUFSZ :: nat where "ECONET_BUFSZ \<equiv> 2048"

definition netfs_init ::
  "('f, 'l, 'd, 'v, 's) platform \<Rightarrow> byte \<Rightarrow> ('f, 'l, 'd, 'v, 's) fserver \<Rightarrow> fault + (int \<times> ('f, 'l, 'd, 'v, 's) fserver)" where
  "netfs_init pl station s =
     bindE (u_open pl ''/dev/econet'' O_RDWR (fs_proc s)) (\<lambda>(fd, u1).
     let s1 = s\<lparr>fs_proc := u1, econet_fd := fd\<rparr> in
     if fd < 0 then Inr (fd, s1)
     else bindE (ioctl fd (ECONET_SET_ADDR OR ucast station) [] u1) (\<lambda>(rc, _, u2).
     if rc < 0 then Inr (rc, s1\<lparr>fs_proc := u2\<rparr>)
     else bindE (ioctl fd (ECONET_SET_RECV_PORT OR NETFS_PORT) [] u2) (\<lambda>(rc, _, u3).
     if rc < 0 then Inr (rc, s1\<lparr>fs_proc := u3\<rparr>)
     else Inr (0, s1\<lparr>fs_proc := u3\<rparr>))))"

text \<open>The address structure holds port, network and station in this order.\<close>

definition econet_send ::
  "('f, 'l, 'd, 'v, 's) platform \<Rightarrow> NetFSMsg \<Rightarrow> byte list \<Rightarrow> ('f, 'l, 'd, 'v, 's) fserver \<Rightarrow> fault + ('f, 'l, 'd, 'v, 's) fserver" where
  "econet_send pl origin msg s =
     bindE (ioctl (econet_fd s) ECONET_SET_SEND_ADDR [reply_port origin, reply_net origin, reply_station origin] (fs_proc s)) (\<lambda>(rc, _, u1).
     if rc < 0 then Inr (s\<lparr>fs_proc := u1\<rparr>)
     else bindE (u_write pl (econet_fd s) msg u1) (\<lambda>(_, u2). Inr (s\<lparr>fs_proc := u2\<rparr>)))"

section \<open>Commands\<close>

abbreviation NETFS_MAXARGS :: nat where "NETFS_MAXARGS \<equiv> 8"

definition cmd_i_am :: "('f, 'l, 'd, 'v, 's) platform \<Rightarrow> NetFSMsg \<Rightarrow> ('f, 'l, 'd, 'v, 's) fserver \<Rightarrow> fault + ('f, 'l, 'd, 'v, 's) fserver" where
  "cmd_i_am pl msg s = econet_send pl msg [0x05, 0x00, 3, 5, 6, 0] s"

text \<open>The code 0, the result 1 and the text "Test" with a line feed and its terminator.\<close>

definition cmd_echo :: "('f, 'l, 'd, 'v, 's) platform \<Rightarrow> NetFSMsg \<Rightarrow> ('f, 'l, 'd, 'v, 's) fserver \<Rightarrow> fault + ('f, 'l, 'd, 'v, 's) fserver" where
  "cmd_echo pl msg s = econet_send pl msg [0x00, 0x01, 84, 101, 115, 116, 10, 0] s"

text \<open>\<open>strcasecmp\<close> of the C library finds two strings equal when they differ in case only.\<close>

definition lower :: "char \<Rightarrow> char" where
  "lower c = (let n = of_char c :: nat in if 65 \<le> n \<and> n \<le> 90 then char_of (n + 32) else c)"

definition strcaseeq :: "string \<Rightarrow> string \<Rightarrow> bool" where
  "strcaseeq s t \<longleftrightarrow> map lower s = map lower t"

definition handle_starcmd ::
  "('f, 'l, 'd, 'v, 's) platform \<Rightarrow> addr \<Rightarrow> NetFSMsg \<Rightarrow> ('f, 'l, 'd, 'v, 's) fserver \<Rightarrow> fault + ('f, 'l, 'd, 'v, 's) fserver" where
  "handle_starcmd pl delim msg s =
     bindE (if paysize msg > 0
            then returns (strtok_line NETFS_MAXARGS (up_mem (fs_proc s)) (payload msg) delim (mc_strtok (up_mc (fs_proc s))))
            else Inr ([], up_mem (fs_proc s), mc_strtok (up_mc (fs_proc s)))) (\<lambda>(args, m, lst).
     let u = fs_proc s; s1 = s\<lparr>fs_proc := u\<lparr>up_mc := (up_mc u)\<lparr>mc_mem := m, mc_strtok := lst\<rparr>\<rparr>\<rparr> in
     if args = [] then Inr s1
     else bindE (returns (read_cstr m (args ! 0))) (\<lambda>cmd.
     if strcaseeq ''i'' cmd then cmd_i_am pl msg s1
     else if strcaseeq ''echo'' cmd then cmd_echo pl msg s1
     else Inr s1))"

definition econet_handle_message ::
  "('f, 'l, 'd, 'v, 's) platform \<Rightarrow> addr \<Rightarrow> NetFSMsg \<Rightarrow> ('f, 'l, 'd, 'v, 's) fserver \<Rightarrow> fault + ('f, 'l, 'd, 'v, 's) fserver" where
  "econet_handle_message pl delim msg s =
     (if function_code msg = FC_COMMANDLINE then handle_starcmd pl delim msg s else Inr s)"

section \<open>The loop\<close>

definition netfs_msg :: "mem \<Rightarrow> addr \<Rightarrow> int \<Rightarrow> NetFSMsg" where
  "netfs_msg m buf rxbytes =
     \<lparr>reply_net = m (buf + 1), reply_station = m buf, reply_port = m (buf + 2), function_code = m (buf + 3),
      urd = m (buf + 4), csd = m (buf + 5), lib = m (buf + 6), paysize = word_of_int (rxbytes - 7), payload = buf + 7\<rparr>"

text \<open>One round. The terminator after the message is written at \<open>econet_buf[rxbytes]\<close>.\<close>

definition msgloop_round ::
  "('f, 'l, 'd, 'v, 's) platform \<Rightarrow> addr \<Rightarrow> addr \<Rightarrow> ('f, 'l, 'd, 'v, 's) fserver \<Rightarrow> fault + ('f, 'l, 'd, 'v, 's) fserver" where
  "msgloop_round pl delim buf s =
     bindE (u_read pl (econet_fd s) buf ECONET_BUFSZ (fs_proc s)) (\<lambda>(rxbytes, u1).
     if rxbytes < 7 then Inr (s\<lparr>fs_proc := u1\<rparr>)
     else let msg = netfs_msg (up_mem u1) buf rxbytes in
     if rxbytes \<ge> int ECONET_BUFSZ then Inl Out_Of_Bounds
     else econet_handle_message pl delim msg
            (s\<lparr>fs_proc := with_mem ((up_mem u1)(buf + word_of_int rxbytes := 0)) u1\<rparr>))"

primrec econet_msgloop ::
  "('f, 'l, 'd, 'v, 's) platform \<Rightarrow> addr \<Rightarrow> addr \<Rightarrow> nat \<Rightarrow> ('f, 'l, 'd, 'v, 's) fserver \<Rightarrow> fault + ('f, 'l, 'd, 'v, 's) fserver" where
  "econet_msgloop pl delim buf 0 s = Inr s"
| "econet_msgloop pl delim buf (Suc n) s = bindE (msgloop_round pl delim buf s) (econet_msgloop pl delim buf n)"

text \<open>\<open>main\<close>: the result of the initialisation is not looked at.\<close>

definition fileserver_main ::
  "('f, 'l, 'd, 'v, 's) platform \<Rightarrow> addr \<Rightarrow> addr \<Rightarrow> nat \<Rightarrow> ('f, 'l, 'd, 'v, 's) fserver \<Rightarrow> fault + ('f, 'l, 'd, 'v, 's) fserver" where
  "fileserver_main pl delim buf n s =
     bindE (netfs_init pl 254 s) (\<lambda>(_, s1). econet_msgloop pl delim buf n s1)"

section \<open>What a request leads to\<close>

text \<open>The destination (port, network, station) and the bytes of the reply, from the bytes of a request.\<close>

definition netfs_command :: "byte list \<Rightarrow> string option" where
  "netfs_command bs =
     (case tokens [32] (takeWhile (\<lambda>b. b \<noteq> 0) (drop 7 bs)) of [] \<Rightarrow> None | c # _ \<Rightarrow> Some (map (\<lambda>b. char_of (unat b)) c))"

definition netfs_reply :: "byte list \<Rightarrow> (byte list \<times> byte list) option" where
  "netfs_reply bs =
     (if length bs < 7 \<or> bs ! 3 \<noteq> FC_COMMANDLINE then None
      else case netfs_command bs of
        None \<Rightarrow> None
      | Some cmd \<Rightarrow>
          if strcaseeq ''i'' cmd then Some ([bs ! 2, bs ! 1, bs ! 0], [0x05, 0x00, 3, 5, 6, 0])
          else if strcaseeq ''echo'' cmd then Some ([bs ! 2, bs ! 1, bs ! 0], [0x00, 0x01, 84, 101, 115, 116, 10, 0])
          else None)"

definition netfs_transmit ::
  "('f, 'l, 'd, 'v, 's) platform \<Rightarrow> byte list \<times> byte list \<Rightarrow> ('f, 'l, 'd, 'v, 's) fserver \<Rightarrow> fault + ('f, 'l, 'd, 'v, 's) fserver" where
  "netfs_transmit pl r s =
     bindE (ioctl (econet_fd s) ECONET_SET_SEND_ADDR (fst r) (fs_proc s)) (\<lambda>(rc, _, u1).
     if rc < 0 then Inr (s\<lparr>fs_proc := u1\<rparr>)
     else bindE (u_write pl (econet_fd s) (snd r) u1) (\<lambda>(_, u2). Inr (s\<lparr>fs_proc := u2\<rparr>)))"

lemma econet_send_transmit:
  "econet_send pl msg bs s = netfs_transmit pl ([reply_port msg, reply_net msg, reply_station msg], bs) s"
  by (simp only: econet_send_def netfs_transmit_def fst_conv snd_conv)

text \<open>Bytes followed by a terminator are a string up to their first zero.\<close>

lemma cstr_takeWhile:
  assumes "load_bytes m p (length xs) = xs" and "m (p + of_nat (length xs)) = 0"
  shows "cstr m p (takeWhile (\<lambda>b. b \<noteq> 0) xs)"
  using assms
proof (induction xs arbitrary: p)
  case (Cons x xs)
  have "m p = x" "load_bytes m (p + 1) (length xs) = xs" using Cons.prems(1) by (simp_all add: load_bytes_Suc)
  moreover have "m (p + 1 + of_nat (length xs)) = 0" using Cons.prems(2) by (simp add: algebra_simps)
  ultimately show ?case using Cons.IH [of "p + 1"] by simp
qed simp

lemma starcmd_reply:
  assumes c: "cstr (up_mem (fs_proc s)) (payload msg) line" "payload msg \<noteq> 0" "unat (payload msg) + length line < 4294967296"
    and d: "cstr (up_mem (fs_proc s)) delim [32]" "unat delim + 1 < 4294967296"
      "unat delim + 1 < unat (payload msg) \<or> unat (payload msg) + length line \<le> unat delim"
    and p: "paysize msg = 0 \<Longrightarrow> line = []"
  shows "\<exists>s1. up_kernel (fs_proc s1) = up_kernel (fs_proc s) \<and> econet_fd s1 = econet_fd s \<and>
    handle_starcmd pl delim msg s =
      (case tokens [32] line of
         [] \<Rightarrow> Inr s1
       | w # _ \<Rightarrow> let cmd = map (\<lambda>b. char_of (unat b)) w in
           if strcaseeq ''i'' cmd then cmd_i_am pl msg s1 else if strcaseeq ''echo'' cmd then cmd_echo pl msg s1 else Inr s1)"
proof (cases "paysize msg > 0")
  case True
  obtain args m lst where t: "strtok_line NETFS_MAXARGS (up_mem (fs_proc s)) (payload msg) delim (mc_strtok (up_mc (fs_proc s))) = Some (args, m, lst)"
      "list_all2 (cstr_above (unat (payload msg)) m) args (take NETFS_MAXARGS (tokens [32] line))"
    using strtok_line_splits [OF c d(1) _ _, of NETFS_MAXARGS "mc_strtok (up_mc (fs_proc s))"] d(2,3) by auto
  let ?s1 = "s\<lparr>fs_proc := (fs_proc s)\<lparr>up_mc := (up_mc (fs_proc s))\<lparr>mc_mem := m, mc_strtok := lst\<rparr>\<rparr>\<rparr>"
  show ?thesis
  proof (cases "tokens [32] line")
    case Nil
    then have "args = []" using t(2) by simp
    then have "handle_starcmd pl delim msg s = Inr ?s1" using True t(1) by (simp add: handle_starcmd_def returns_def Let_def)
    then show ?thesis using Nil by (intro exI [of _ ?s1]) simp
  next
    case (Cons w ws)
    then obtain a as where a: "args = a # as" "cstr m a w" using t(2) by (cases args) (auto simp: cstr_above_def)
    have "handle_starcmd pl delim msg s = (let cmd = map (\<lambda>b. char_of (unat b)) w in
           if strcaseeq ''i'' cmd then cmd_i_am pl msg ?s1 else if strcaseeq ''echo'' cmd then cmd_echo pl msg ?s1 else Inr ?s1)"
      using True t(1) a(1) read_cstr_eq [OF a(2)] by (simp add: handle_starcmd_def returns_def Let_def)
    then show ?thesis using Cons by (intro exI [of _ ?s1]) simp
  qed
next
  case False
  then have "line = []" using p word_gt_0 [of "paysize msg"] by simp
  then have "tokens [32] line = []" by (simp add: tokens.simps)
  moreover have "handle_starcmd pl delim msg s = Inr s" using False by (simp add: handle_starcmd_def)
  ultimately show ?thesis by (intro exI [of _ s]) simp
qed

section \<open>Properties\<close>

text \<open>C11: One round of the file server: for a request of up to 2047 bytes the server does what the bytes of
  the request call for and nothing else. A request that is too short, that asks for another function
  than a command line, or whose first word is not a command is ignored; to I and ECHO, in any case of
  the letters, the server answers with one transmission to the reply port of the station that
  asked.\<close>

theorem netfs_round:
  assumes r: "SYS_read pl (econet_fd s) (load_bytes (up_mem (fs_proc s)) buf ECONET_BUFSZ) (up_kernel (fs_proc s)) = Inr (rc, bs, k)"
    and b: "length bs = ECONET_BUFSZ" "rc < 2048"
    and m: "0 < unat buf" "unat buf + 2048 < 4294967296"
    and d: "cstr (up_mem (fs_proc s)) delim [32]" "unat delim + 1 < unat buf"
  shows "\<exists>s1. up_kernel (fs_proc s1) = k \<and> econet_fd s1 = econet_fd s \<and>
    msgloop_round pl delim buf s =
      (case netfs_reply (take (nat rc) bs) of None \<Rightarrow> Inr s1 | Some reply \<Rightarrow> netfs_transmit pl reply s1)"
proof (cases "rc < 7")
  case True
  then have "msgloop_round pl delim buf s =
      Inr (s\<lparr>fs_proc := snd (sysret rc (with_mem (store_bytes (up_mem (fs_proc s)) buf bs) (with_kernel k (fs_proc s))))\<rparr>)"
    using r by (simp add: msgloop_round_def u_read_def sysret_def)
  moreover have "min (length bs) (nat rc) < 7" using True by linarith
  then have "netfs_reply (take (nat rc) bs) = None" by (simp add: netfs_reply_def)
  ultimately show ?thesis
    by (intro exI [of _ "s\<lparr>fs_proc := snd (sysret rc (with_mem (store_bytes (up_mem (fs_proc s)) buf bs) (with_kernel k (fs_proc s))))\<rparr>"])
      (simp add: sysret_def)
next
  case False
  define n where "n = nat rc"
  have n: "rc = int n" "7 \<le> n" "n < 2048" using False b(2) by (auto simp: n_def)
  define m1 where "m1 = store_bytes (up_mem (fs_proc s)) buf bs"
  define m2 where "m2 = m1(buf + of_nat n := 0)"
  define u where "u = with_mem m1 (with_kernel k (fs_proc s))"
  define msg where "msg = netfs_msg m1 buf rc"
  let ?s0 = "s\<lparr>fs_proc := with_mem m2 u\<rparr>" let ?line = "takeWhile (\<lambda>b. b \<noteq> 0) (drop 7 (take n bs))"
  have at: "m1 (buf + of_nat i) = bs ! i" if "i < 2048" for i
  proof -
    have "unat (of_nat i :: u32) = i" using that by (intro unat_of_nat32) simp
    then show ?thesis using that b(1) by (simp add: m1_def store_bytes_apply)
  qed
  have msg: "reply_port msg = bs ! 2" "reply_net msg = bs ! 1" "reply_station msg = bs ! 0" "function_code msg = bs ! 3"
    using at [of 0] at [of 1] at [of 2] at [of 3] by (simp_all add: msg_def netfs_msg_def)
  have pay: "payload msg = buf + of_nat 7" "unat (payload msg) = unat buf + 7" "paysize msg = 0 \<Longrightarrow> n = 7"
  proof -
    show "payload msg = buf + of_nat 7" by (simp add: msg_def netfs_msg_def)
    then show "unat (payload msg) = unat buf + 7" using m(2) by (subst \<open>payload msg = _\<close>, subst unat_add32) simp_all
    have "paysize msg = word_of_int (int n - 7)" by (simp add: msg_def netfs_msg_def n(1))
    also have "int n - 7 = int (n - 7)" using n(2) by simp
    finally have "paysize msg = of_nat (n - 7)" by (simp only: of_int_of_nat_eq)
    then have "unat (paysize msg) = n - 7" using n(3) by (simp add: unsigned_of_nat take_bit_nat_eq_self)
    then show "paysize msg = 0 \<Longrightarrow> n = 7" using n by simp
  qed
  have rnd: "msgloop_round pl delim buf s = econet_handle_message pl delim msg ?s0"
    using r n by (simp add: msgloop_round_def u_read_def sysret_def m1_def m2_def u_def msg_def)
  have line: "cstr (up_mem (fs_proc ?s0)) (payload msg) ?line"
  proof -
    have ne: "m2 (buf + of_nat i) = bs ! i" if "i < n" for i
    proof -
      have "unat (of_nat i :: u32) = i" "unat (of_nat n :: u32) = n" using that n by (intro unat_of_nat32; simp)+
      then have "(of_nat i :: u32) \<noteq> of_nat n" using that by (metis less_irrefl)
      then show ?thesis using at [of i] that n by (simp add: m2_def)
    qed
    have "m2 (buf + (7 + of_nat i)) = bs ! (7 + i)" if "i < n - 7" for i using ne [of "7 + i"] that by simp
    then have "load_bytes m2 (payload msg) (n - 7) = drop 7 (take n bs)"
      using b(1) n by (intro nth_equalityI) (auto simp: pay(1) add.assoc)
    moreover have "m2 (payload msg + of_nat (n - 7)) = 0" using n by (simp add: pay(1) m2_def of_nat_diff)
    ultimately show ?thesis using cstr_takeWhile [of m2 "payload msg" "drop 7 (take n bs)"] b(1) n by simp
  qed
  have len: "length ?line \<le> n - 7" using length_takeWhile_le [of "\<lambda>b. b \<noteq> 0" "drop 7 (take n bs)"] b(1) n by simp
  have dm: "cstr (up_mem (fs_proc ?s0)) delim [32]"
  proof -
    have "changed_within (unat buf) (unat buf + 2048) (up_mem (fs_proc s)) m1"
      using m b(1) by (simp add: m1_def changed_within_store)
    moreover have "changed_within (unat buf) (unat buf + 2048) m1 m2"
      using n m unat_add32 [of buf "of_nat n"] unat_of_nat32 [of n] by (auto simp: m2_def changed_within_def)
    ultimately have "changed_within (unat buf) (unat buf + 2048) (up_mem (fs_proc s)) m2" by (auto intro: changed_within_trans)
    then have "cstr m2 delim [32]" using d m by (intro cstr_changed_within [OF _ _ _ d(1)]) auto
    then show ?thesis by simp
  qed
  show ?thesis
  proof (cases "function_code msg = FC_COMMANDLINE")
    case fc: True
    obtain s1 where s1: "up_kernel (fs_proc s1) = up_kernel (fs_proc ?s0)" "econet_fd s1 = econet_fd ?s0"
      "handle_starcmd pl delim msg ?s0 =
      (case tokens [32] ?line of
         [] \<Rightarrow> Inr s1
       | w # _ \<Rightarrow> let cmd = map (\<lambda>b. char_of (unat b)) w in
           if strcaseeq ''i'' cmd then cmd_i_am pl msg s1 else if strcaseeq ''echo'' cmd then cmd_echo pl msg s1 else Inr s1)"
    proof -
      have "payload msg \<noteq> 0" using pay(2) by auto
      moreover have "unat (payload msg) + length ?line < 4294967296" using pay(2) len n m(2) by linarith
      moreover have "unat delim + 1 < 4294967296" "unat delim + 1 < unat (payload msg)" using d(2) pay(2) m(2) by linarith+
      moreover have "paysize msg = 0 \<Longrightarrow> ?line = []" using pay(3) len by simp
      ultimately show ?thesis using starcmd_reply [OF line _ _ dm, of pl] that by blast
    qed
    have rp: "netfs_reply (take n bs) = (case netfs_command (take n bs) of
        None \<Rightarrow> None
      | Some cmd \<Rightarrow>
          if strcaseeq ''i'' cmd then Some ([bs ! 2, bs ! 1, bs ! 0], [0x05, 0x00, 3, 5, 6, 0])
          else if strcaseeq ''echo'' cmd then Some ([bs ! 2, bs ! 1, bs ! 0], [0x00, 0x01, 84, 101, 115, 116, 10, 0])
          else None)"
      using n b(1) fc msg(4) by (simp add: netfs_reply_def split: option.split)
    have "econet_handle_message pl delim msg ?s0 = (case netfs_reply (take n bs) of None \<Rightarrow> Inr s1 | Some reply \<Rightarrow> netfs_transmit pl reply s1)"
      unfolding rp netfs_command_def using fc s1(3) msg
      by (simp add: econet_handle_message_def cmd_i_am_def cmd_echo_def econet_send_transmit Let_def split: list.split)
    then show ?thesis using s1(1,2) rnd by (auto simp: u_def n_def)
  next
    case False
    then have "msgloop_round pl delim buf s = Inr ?s0" using rnd by (simp add: econet_handle_message_def)
    moreover have "netfs_reply (take n bs) = None" using False msg(4) n b(1) by (simp add: netfs_reply_def)
    ultimately show ?thesis by (intro exI [of _ ?s0]) (simp add: u_def n_def)
  qed
qed

text \<open>A server whose driver holds a command line "I am X" from station 7 with reply port 0x90.\<close>

definition demo_request :: "byte list" where
  "demo_request = [7, 0, 0x90, 0, 1, 2, 3, 73, 32, 97, 109, 32, 88]"

definition demo_server :: "(nor, unit, unit, unit, sdcard) fserver" where
  "demo_server = \<lparr>fs_proc = \<lparr>up_mc = demo_machine\<lparr>
       mc_kernel := (snd (open_device ''econet'' O_RDWR (fd_init boot_kernel)))\<lparr>k_econet := econet_demo\<lparr>
         econet_port_list := (econet_port_list econet_demo)[0x99 := 0x83], econet_buf_len := 13,
         ec_rxbuf := (\<lambda>i. if i < 13 then demo_request ! i else 0)\<rparr>, k_events := []\<rparr>,
       mc_mem := (\<lambda>a. 0)(0x11000 := 32)\<rparr>, up_errno = 0\<rparr>, econet_fd = 3\<rparr>"

lemma demo_server_class: "fd_class 3 (up_kernel (fs_proc demo_server)) = Inr (Some Econet_func)"
proof -
  obtain rc k1 where o: "open_device ''econet'' O_RDWR (fd_init boot_kernel) = (rc, k1)" by fastforce
  have "rc = 3"
    using o flags_set [of O_RDONLY] flags_set [of O_WRONLY]
    by (simp add: open_device_def open_table_def fd_alloc_def for_find.simps fd_init_fdtab cons_FD_def zero_FD_def econet_open_def Let_def)
  then have "fd_class 3 k1 = Inr (Some Econet_func)"
    using open_device_result [OF demo_inv, of "''econet''" O_RDWR] o fd_class_open [of k1 3]
    by (auto simp: open_result_def device_class_def)
  then show ?thesis using o by (simp add: demo_server_def demo_machine_def fd_class_def fd_entry_def)
qed

theorem netfs_round_witness:
  "\<exists>s1. msgloop_round demo_platform 0x11000 0x12000 demo_server = netfs_transmit demo_platform ([0x90, 0, 7], [0x05, 0x00, 3, 5, 6, 0]) s1"
proof -
  let ?m = "up_mem (fs_proc demo_server)" let ?k = "up_kernel (fs_proc demo_server)"
  let ?bs = "demo_request @ drop 13 (load_bytes ?m 0x12000 ECONET_BUFSZ)"
  have l13: "length demo_request = 13" by (simp add: demo_request_def)
  have "map (\<lambda>i. if i < 13 then demo_request ! i else 0) [0..<13] = demo_request"
    using l13 by (intro nth_equalityI) simp_all
  then have "econet_read 3 (load_bytes ?m 0x12000 ECONET_BUFSZ) [] (k_econet ?k) =
      Inr (13, ?bs, [], (k_econet ?k)\<lparr>econet_port_list := (econet_port_list (k_econet ?k))[0x99 := 3]\<rparr>)"
    by (simp add: demo_server_def demo_machine_def econet_demo_def econet_read_def rx_take_quiet rx_advance_quiet)
  then have "\<exists>k. SYS_read demo_platform (econet_fd demo_server) (load_bytes ?m 0x12000 ECONET_BUFSZ) ?k = Inr (13, ?bs, k)"
    using demo_server_class by (simp add: SYS_read_def bad_fd_def fd_read_def demo_server_def)
  then obtain k where r: "SYS_read demo_platform (econet_fd demo_server) (load_bytes ?m 0x12000 ECONET_BUFSZ) ?k = Inr (13, ?bs, k)" by blast
  have len: "length ?bs = ECONET_BUFSZ" using l13 by simp
  have d: "cstr ?m 0x11000 [32]" by (simp add: demo_server_def)
  have "netfs_command demo_request = Some ''I''"
    by (simp add: netfs_command_def demo_request_def tokens.simps) code_simp
  moreover have "strcaseeq ''i'' ''I''" by code_simp
  ultimately have "netfs_reply (take (nat 13) ?bs) = Some ([0x90, 0, 7], [0x05, 0x00, 3, 5, 6, 0])"
    using l13 by (simp add: netfs_reply_def) (simp add: demo_request_def)
  then show ?thesis using netfs_round [OF r len _ _ _ d] by fastforce
qed

text \<open>A message that fills the buffer has its terminator written behind it.\<close>

lemma netfs_full_buffer:
  assumes "SYS_read pl (econet_fd s) (load_bytes (up_mem (fs_proc s)) buf ECONET_BUFSZ) (up_kernel (fs_proc s)) = Inr (2048, bs, k)"
  shows "msgloop_round pl delim buf s = Inl Out_Of_Bounds"
  using assms by (simp add: msgloop_round_def u_read_def sysret_def)

end
