(* ===== verification/Monitor.thy ===== *)
theory Monitor
  imports UserLib
begin

text \<open>
  The network monitor: monitor/decoder.c prints one line for a frame and collapses repeated
  acknowledgements, monitor/monitor.c reads frames until a key ends it. What is printed is a list of
  texts and of dumps of memory; the formatted numbers are written out.
\<close>

section \<open>Output\<close>

datatype item = Text "byte list" | Dump "byte list"

text \<open>The conversions \<open>%d\<close>, \<open>%03d\<close> and \<open>%02x\<close> of numbers that are not negative.\<close>

fun decimal :: "nat \<Rightarrow> byte list" where
  "decimal n = (if n < 10 then [of_nat (48 + n)] else decimal (n div 10) @ [of_nat (48 + n mod 10)])"

declare decimal.simps [simp del]

definition decimal3 :: "nat \<Rightarrow> byte list" where
  "decimal3 n = replicate (3 - length (decimal n)) 48 @ decimal n"

definition hex2 :: "byte \<Rightarrow> byte list" where
  "hex2 b = hex_fixed 2 (ucast b)"

abbreviation crlf :: "byte list" where "crlf \<equiv> [13, 10]"

section \<open>The decoder\<close>

abbreviation SCOUT_LEN :: nat where "SCOUT_LEN \<equiv> 8"
abbreviation IMMSCOUT_LEN :: nat where "IMMSCOUT_LEN \<equiv> 10"
abbreviation ACK_LEN :: nat where "ACK_LEN \<equiv> 6"
abbreviation FIRST_IMM :: byte where "FIRST_IMM \<equiv> 0x81"
abbreviation LAST_IMM :: byte where "LAST_IMM \<equiv> 0x89"

record decoder =
  lastack :: "byte list"
  ack_count :: u16
  dc_out :: "item list"

definition emit :: "byte list \<Rightarrow> decoder \<Rightarrow> decoder" where
  "emit bs d = d\<lparr>dc_out := dc_out d @ [Text bs]\<rparr>"

definition imm_ops :: "string list" where
  "imm_ops = [''PEEK'', ''POKE'', ''JSR'', ''UserProc'', ''OsProc'', ''Halt'', ''Cont'', ''MachType'', ''GetReg'']"

definition decode_address :: "byte list \<Rightarrow> decoder \<Rightarrow> decoder" where
  "decode_address buf d =
     emit (decimal3 (unat (buf ! 3)) @ [46] @ decimal3 (unat (buf ! 2)) @ text_bytes '' > '' @
           decimal3 (unat (buf ! 1)) @ [46] @ decimal3 (unat (buf ! 0)) @ [9]) d"

definition decode_scout :: "byte list \<Rightarrow> decoder \<Rightarrow> decoder" where
  "decode_scout buf d = emit (text_bytes ''SCOUT: ctl '' @ hex2 (buf ! 0) @ text_bytes '' port '' @ hex2 (buf ! 1) @ crlf) d"

definition decode_immscout :: "byte list \<Rightarrow> decoder \<Rightarrow> decoder" where
  "decode_immscout buf d =
     (let idx = unat (buf ! 0 - FIRST_IMM);
          ty = (if FIRST_IMM \<le> buf ! 0 \<and> buf ! 0 \<le> LAST_IMM then imm_ops ! idx else ''Unknown'')
      in emit (text_bytes ''IMM: '' @ hex2 (buf ! 0) @ [32] @ text_bytes ty @ crlf) d)"

definition decode_data :: "byte list \<Rightarrow> nat \<Rightarrow> decoder \<Rightarrow> decoder" where
  "decode_data buf len d =
     (let d1 = emit (text_bytes ''DATA: len '' @ decimal len @ crlf) d;
          dumplen = (if len > 256 then 256 else len)
      in d1\<lparr>dc_out := dc_out d1 @ [Dump (take dumplen buf)]\<rparr>)"

definition decode_bcast :: "byte list \<Rightarrow> decoder \<Rightarrow> decoder" where
  "decode_bcast buf d = emit (text_bytes ''BCAST: ctl '' @ hex2 (buf ! 0) @ text_bytes '' port '' @ hex2 (buf ! 1) @ [32]) d"

text \<open>The report on repeated acknowledgements that is due before another frame.\<close>

definition flush_acks :: "nat \<Rightarrow> decoder \<Rightarrow> decoder" where
  "flush_acks len d =
     (if len \<noteq> ACK_LEN \<and> ack_count d \<noteq> 0
      then let d1 = (if ack_count d > 1
                     then emit (decimal (unat (ack_count d)) @ text_bytes '' acks received'' @ crlf) (decode_address (lastack d) d)
                     else d)
           in d1\<lparr>ack_count := 0, lastack := [0, 0, 0, 0]\<rparr>
      else d)"

definition decode_frame :: "byte list \<Rightarrow> nat \<Rightarrow> decoder \<Rightarrow> decoder" where
  "decode_frame buf len d0 =
     (let d = flush_acks len d0 in
      if len = SCOUT_LEN then decode_scout (drop 4 buf) (decode_address buf d)
      else if len = IMMSCOUT_LEN then decode_immscout (drop 4 buf) (decode_address buf d)
      else if len = ACK_LEN then
        if take 4 buf = lastack d then d\<lparr>ack_count := ack_count d + 1\<rparr>
        else (emit (text_bytes ''ack '' @ hex2 (buf ! 4) @ [32] @ hex2 (buf ! 5) @ crlf) (decode_address buf d))
               \<lparr>lastack := take 4 buf, ack_count := 0\<rparr>
      else if buf ! 0 = 0 then decode_bcast (drop 4 buf) (decode_address buf d)
      else decode_data (drop 4 buf) (len - 4) (decode_address buf d))"

section \<open>The program\<close>

text \<open>
  The store to the status register that \<open>econet_init\<close> ends with is left out. A round of the loop: the
  network, then the keyboard; \<open>True\<close> ends the loop. Interrupts happen between the rounds and are the
  function \<open>env\<close>.
\<close>

definition monitor_init ::
  "('f, 'l, 'd, 'v, 's) platform \<Rightarrow> ('f, 'l, 'd, 'v, 's) uproc \<Rightarrow> fault + (int \<times> ('f, 'l, 'd, 'v, 's) uproc)" where
  "monitor_init pl u =
     bindE (u_open pl ''/dev/econet'' O_RDWR u) (\<lambda>(fd, u1). Inr (if fd < 0 then - 1 else fd, u1))"

datatype monitor_next = Again | Quit | Read_Error

definition monitor_keyboard ::
  "('f, 'l, 'd, 'v, 's) platform \<Rightarrow> addr \<Rightarrow> ('f, 'l, 'd, 'v, 's) uproc \<Rightarrow> fault + (monitor_next \<times> ('f, 'l, 'd, 'v, 's) uproc)" where
  "monitor_keyboard pl buf u =
     bindE (fd_peek_call 0 u) (\<lambda>(n, u1).
     if n > 0 then bindE (u_read pl 0 buf 1 u1) (\<lambda>(_, u2). Inr (if up_mem u2 buf = 113 then Quit else Again, u2))
     else Inr (Again, u1))"

definition monitor_round ::
  "('f, 'l, 'd, 'v, 's) platform \<Rightarrow> int \<Rightarrow> addr \<Rightarrow> ('f, 'l, 'd, 'v, 's) uproc \<Rightarrow> decoder
    \<Rightarrow> fault + (monitor_next \<times> ('f, 'l, 'd, 'v, 's) uproc \<times> decoder)" where
  "monitor_round pl fd buf u d =
     bindE (fd_peek_call fd u) (\<lambda>(n, u1).
     if n > 0
     then bindE (u_read pl fd buf 2048 u1) (\<lambda>(bytes, u2).
          if bytes < 0 then Inr (Read_Error, u2, d)
          else let d1 = (if bytes > 5 then decode_frame (load_bytes (up_mem u2) buf 2048) (nat bytes) d
                         else emit (text_bytes ''weird '' @ decimal (nat bytes) @ text_bytes '' byte frame'' @ [10]) d)
               in bindE (monitor_keyboard pl buf u2) (\<lambda>(nx, u3). Inr (nx, u3, d1)))
     else bindE (monitor_keyboard pl buf u1) (\<lambda>(nx, u2). Inr (nx, u2, d)))"

primrec monitor_loop ::
  "('f, 'l, 'd, 'v, 's) platform \<Rightarrow> int \<Rightarrow> addr \<Rightarrow> (('f, 'l, 'd, 'v, 's) kernel \<Rightarrow> ('f, 'l, 'd, 'v, 's) kernel) list
    \<Rightarrow> ('f, 'l, 'd, 'v, 's) uproc \<Rightarrow> decoder \<Rightarrow> fault + (monitor_next \<times> ('f, 'l, 'd, 'v, 's) uproc \<times> decoder)" where
  "monitor_loop pl fd buf [] u d = Inr (Again, u, d)"
| "monitor_loop pl fd buf (env # envs) u d =
     bindE (monitor_round pl fd buf (with_kernel (env (up_kernel u)) u) d) (\<lambda>(nx, u1, d1).
     if nx = Again then monitor_loop pl fd buf envs u1 d1 else Inr (nx, u1, d1))"

text \<open>\<open>main\<close>: the result, or \<open>None\<close> while the loop still runs.\<close>

definition monitor_main ::
  "('f, 'l, 'd, 'v, 's) platform \<Rightarrow> addr \<Rightarrow> (('f, 'l, 'd, 'v, 's) kernel \<Rightarrow> ('f, 'l, 'd, 'v, 's) kernel) list
    \<Rightarrow> ('f, 'l, 'd, 'v, 's) uproc \<Rightarrow> decoder \<Rightarrow> fault + (int option \<times> ('f, 'l, 'd, 'v, 's) uproc \<times> decoder)" where
  "monitor_main pl buf envs u d =
     bindE (monitor_init pl u) (\<lambda>(fd, u1).
     if fd < 0 then Inr (Some (- 1), u1, d)
     else bindE (ioctl 0 CONSOLE_SET_RAW [] u1) (\<lambda>(_, _, u2).
     bindE (monitor_loop pl fd buf envs u2 d) (\<lambda>(nx, u3, d1).
     case nx of
       Again \<Rightarrow> Inr (None, u3, d1)
     | Read_Error \<Rightarrow> Inr (Some (- 1), u3, d1)
     | Quit \<Rightarrow> bindE (ioctl fd ECONET_SET_MONITOR [] u3) (\<lambda>(_, _, u4).
         bindE (u_close pl fd u4) (\<lambda>(_, u5). Inr (Some 0, u5, d1))))))"

section \<open>Repeated acknowledgements\<close>

text \<open>What a frame prints on its own.\<close>

definition frame_items :: "byte list \<Rightarrow> item list" where
  "frame_items f = dc_out (decode_frame f (length f) \<lparr>lastack = [0, 0, 0, 0], ack_count = 0, dc_out = []\<rparr>)"

lemma emit_simps [simp]:
  "lastack (emit bs d) = lastack d" "ack_count (emit bs d) = ack_count d" "dc_out (emit bs d) = dc_out d @ [Text bs]"
  by (simp_all add: emit_def)

lemma address_simps [simp]:
  "lastack (decode_address buf d) = lastack d" "ack_count (decode_address buf d) = ack_count d"
  by (simp_all add: decode_address_def)

lemma same_acks:
  "take 4 a = lastack d \<Longrightarrow> length a = ACK_LEN \<Longrightarrow>
   fold (\<lambda>f d. decode_frame f (length f) d) (replicate n a) d = d\<lparr>ack_count := ack_count d + of_nat n\<rparr>"
  by (induction n arbitrary: d) (simp_all add: decode_frame_def flush_acks_def algebra_simps)

text \<open>A frame other than an acknowledgement prints the same whatever came before.\<close>

lemma decode_other:
  assumes "length f \<noteq> ACK_LEN" and "ack_count d = 0"
  shows "dc_out (decode_frame f (length f) d) = dc_out d @ frame_items f"
  using assms
  by (simp add: decode_frame_def flush_acks_def frame_items_def decode_scout_def decode_immscout_def decode_bcast_def
      decode_data_def decode_address_def Let_def)

section \<open>Properties\<close>

text \<open>C28: Repeated acknowledgements are collapsed: of a run of acknowledgements with the same addresses
  only the first is printed; when another kind of frame follows, the number of repetitions is
  printed once, if there were at least two, and then that frame as it would be printed on its
  own.\<close>

theorem acks_collapsed:
  assumes "length a = ACK_LEN" and "take 4 a \<noteq> lastack d" and "n < 65536" and "length f \<noteq> ACK_LEN"
  shows "dc_out (fold (\<lambda>f d. decode_frame f (length f) d) (replicate (Suc n) a @ [f]) d) =
    dc_out (emit (text_bytes ''ack '' @ hex2 (a ! 4) @ [32] @ hex2 (a ! 5) @ crlf) (decode_address a d)) @
    (if n > 1 then dc_out (emit (decimal n @ text_bytes '' acks received'' @ crlf) (decode_address a (d\<lparr>dc_out := []\<rparr>))) else []) @
    frame_items f"
proof -
  let ?d1 = "(emit (text_bytes ''ack '' @ hex2 (a ! 4) @ [32] @ hex2 (a ! 5) @ crlf) (decode_address a d))\<lparr>lastack := take 4 a, ack_count := 0\<rparr>"
  have "decode_frame a (length a) d = ?d1" using assms(1,2) by (simp add: decode_frame_def flush_acks_def)
  then have run: "fold (\<lambda>f d. decode_frame f (length f) d) (replicate (Suc n) a) d = ?d1\<lparr>ack_count := of_nat n\<rparr>"
    using same_acks [of a ?d1 n] assms(1) by simp
  let ?d2 = "flush_acks (length f) (?d1\<lparr>ack_count := of_nat n\<rparr>)"
  have u: "unat (of_nat n :: u16) = n" using assms(3) by (simp add: unsigned_of_nat take_bit_nat_eq_self)
  then have z: "(of_nat n :: u16) = 0 \<longleftrightarrow> n = 0" "(of_nat n :: u16) > 1 \<longleftrightarrow> n > 1" by (auto simp: word_less_nat_alt simp flip: unat_eq_0)
  have d2: "ack_count ?d2 = 0" "dc_out ?d2 = dc_out ?d1 @
      (if n > 1 then dc_out (emit (decimal n @ text_bytes '' acks received'' @ crlf) (decode_address a (d\<lparr>dc_out := []\<rparr>))) else [])"
    using assms(1,4) z u by (auto simp: flush_acks_def decode_address_def)
  have "decode_frame f (length f) (?d1\<lparr>ack_count := of_nat n\<rparr>) = decode_frame f (length f) ?d2"
    using assms(4) d2(1) by (simp add: decode_frame_def flush_acks_def Let_def)
  then show ?thesis using run decode_other [OF assms(4) d2(1)] d2(2) by simp
qed

theorem acks_collapsed_witness:
  "dc_out (fold (\<lambda>f d. decode_frame f (length f) d) (replicate (Suc 2) [7, 0, 254, 0, 1, 2] @ [[254, 0, 7, 0, 0x80, 0x99, 0, 0]])
      \<lparr>lastack = [0, 0, 0, 0], ack_count = 0, dc_out = []\<rparr>) =
   [Text (text_bytes ''000.254 > 000.007'' @ [9]), Text (text_bytes ''ack 01 02'' @ crlf),
    Text (text_bytes ''000.254 > 000.007'' @ [9]), Text (text_bytes ''2 acks received'' @ crlf),
    Text (text_bytes ''000.007 > 000.254'' @ [9]), Text (text_bytes ''SCOUT: ctl 80 port 99'' @ crlf)]"
proof -
  let ?a = "[7, 0, 254, 0, 1, 2] :: byte list" and ?f = "[254, 0, 7, 0, 0x80, 0x99, 0, 0] :: byte list"
  let ?d = "\<lparr>lastack = [0, 0, 0, 0], ack_count = 0, dc_out = []\<rparr>"
  have "length ?a = ACK_LEN" "take 4 ?a \<noteq> lastack ?d" "2 < (65536::nat)" "length ?f \<noteq> ACK_LEN" by simp_all
  note run = acks_collapsed [OF this]
  have ack: "dc_out (emit (text_bytes ''ack '' @ hex2 (?a ! 4) @ [32] @ hex2 (?a ! 5) @ crlf) (decode_address ?a ?d)) =
      [Text (text_bytes ''000.254 > 000.007'' @ [9]), Text (text_bytes ''ack 01 02'' @ crlf)]" by code_simp
  have count: "dc_out (emit (decimal 2 @ text_bytes '' acks received'' @ crlf) (decode_address ?a (?d\<lparr>dc_out := []\<rparr>))) =
      [Text (text_bytes ''000.254 > 000.007'' @ [9]), Text (text_bytes ''2 acks received'' @ crlf)]" by code_simp
  have scout: "frame_items ?f = [Text (text_bytes ''000.007 > 000.254'' @ [9]), Text (text_bytes ''SCOUT: ctl 80 port 99'' @ crlf)]"
    by code_simp
  show ?thesis unfolding run ack scout using count by simp
qed

end
