(* ===== verification/Xmodem.thy ===== *)
theory Xmodem
  imports FS_Prelude
begin

text \<open>
  The receiving side of the XMODEM protocol: the state machine of init/xmodem\_server.c, which is fed
  bytes and polled with the time, and the body of the loop of \<open>i_receive_xmodem\<close> in
  init/icommands.c that drives it. The callback that transmits a byte appends to the list
  \<open>xm_tx\<close>. The locale \<open>checksum\<close> states when a checksum finds a damaged message; the CRC-16 of the
  source is its instance.
\<close>

section \<open>State\<close>

datatype xmodem_server_state = START | SOH | BLOCK_NUM | BLOCK_NEG | DATA | CRC0 | CRC1 | PROCESS_PACKET | SUCCESSFUL | FAILURE

record xmodem_server =
  xm_state :: xmodem_server_state
  packet_data :: "byte list"
  packet_pos :: nat
  xm_crc :: u16
  packet_size :: nat
  repeating :: bool
  last_event_time :: int
  block_num :: u32
  error_count :: u32
  xm_tx :: "byte list"

abbreviation XMODEM_MAX_PACKET_SIZE :: nat where "XMODEM_MAX_PACKET_SIZE \<equiv> 1024"
abbreviation XMODEM_SOH :: byte where "XMODEM_SOH \<equiv> 0x01"
abbreviation XMODEM_STX :: byte where "XMODEM_STX \<equiv> 0x02"
abbreviation XMODEM_EOT :: byte where "XMODEM_EOT \<equiv> 0x04"
abbreviation XMODEM_ACK :: byte where "XMODEM_ACK \<equiv> 0x06"
abbreviation XMODEM_NACK :: byte where "XMODEM_NACK \<equiv> 0x15"
abbreviation XMODEM_CAN :: byte where "XMODEM_CAN \<equiv> 0x18"
abbreviation XMODEM_C :: byte where "XMODEM_C \<equiv> 0x43"
abbreviation XMODEM_PACKET_TIMEOUT :: int where "XMODEM_PACKET_TIMEOUT \<equiv> 1000"
abbreviation XMODEM_MAX_ERRORS :: u32 where "XMODEM_MAX_ERRORS \<equiv> 100"

definition tx_byte :: "byte \<Rightarrow> xmodem_server \<Rightarrow> xmodem_server" where
  "tx_byte b x = x\<lparr>xm_tx := xm_tx x @ [b]\<rparr>"

section \<open>Operations\<close>

definition state_name :: "xmodem_server_state \<Rightarrow> string" where
  "state_name s = (case s of
       START \<Rightarrow> ''START'' | SOH \<Rightarrow> ''SOH'' | BLOCK_NUM \<Rightarrow> ''BLOCK_NUM'' | BLOCK_NEG \<Rightarrow> ''BLOCK_NEG''
     | DATA \<Rightarrow> ''DATA'' | CRC0 \<Rightarrow> ''CRC0'' | CRC1 \<Rightarrow> ''CRC1'' | PROCESS_PACKET \<Rightarrow> ''PROCESS_PACKET''
     | SUCCESSFUL \<Rightarrow> ''SUCCESSFUL'' | FAILURE \<Rightarrow> ''FAILURE'')"

primrec crc_shift :: "nat \<Rightarrow> u16 \<Rightarrow> u16" where
  "crc_shift 0 crc = crc"
| "crc_shift (Suc n) crc =
     crc_shift n (if crc AND 0x8000 \<noteq> 0 then push_bit 1 crc XOR 0x1021 else push_bit 1 crc)"

definition xmodem_server_crc :: "u16 \<Rightarrow> byte \<Rightarrow> u16" where
  "xmodem_server_crc crc b = crc_shift 8 (crc XOR push_bit 8 (ucast b))"

text \<open>The loop over a packet.\<close>

definition crc_of :: "byte list \<Rightarrow> u16" where
  "crc_of bs = foldl xmodem_server_crc 0 bs"

definition rx_soh :: "byte \<Rightarrow> xmodem_server \<Rightarrow> xmodem_server" where
  "rx_soh b x =
     (if b = XMODEM_SOH then x\<lparr>xm_state := BLOCK_NUM, packet_size := 128\<rparr>
      else if b = XMODEM_STX then x\<lparr>xm_state := BLOCK_NUM, packet_size := 1024\<rparr>
      else if b = XMODEM_EOT then tx_byte XMODEM_ACK (x\<lparr>xm_state := SUCCESSFUL\<rparr>)
      else x)"

definition rx_block_num :: "byte \<Rightarrow> xmodem_server \<Rightarrow> xmodem_server" where
  "rx_block_num b x =
     (if ucast b = (block_num x + 1) AND 0xFF then x\<lparr>xm_state := BLOCK_NEG, repeating := False\<rparr>
      else if ucast b = block_num x AND 0xFF then x\<lparr>xm_state := BLOCK_NEG, repeating := True\<rparr>
      else if b = XMODEM_SOH \<or> b = XMODEM_STX then x\<lparr>xm_state := BLOCK_NUM\<rparr>
      else x\<lparr>xm_state := SOH\<rparr>)"

definition rx_block_neg :: "byte \<Rightarrow> xmodem_server \<Rightarrow> xmodem_server" where
  "rx_block_neg b x =
     (let neg_block = ucast (NOT (if repeating x then block_num x else block_num x + 1) AND 0xFF) in
      if b = neg_block then x\<lparr>packet_pos := 0, xm_state := DATA\<rparr>
      else if b = XMODEM_SOH \<or> b = XMODEM_STX then x\<lparr>xm_state := BLOCK_NUM\<rparr>
      else x\<lparr>xm_state := SOH\<rparr>)"

text \<open>\<open>packet_data[packet_pos++] = byte\<close>\<close>

definition rx_data :: "byte \<Rightarrow> xmodem_server \<Rightarrow> fault + xmodem_server" where
  "rx_data b x =
     (if packet_pos x \<ge> length (packet_data x) then Inl Out_Of_Bounds
      else let x1 = x\<lparr>packet_data := (packet_data x)[packet_pos x := b], packet_pos := packet_pos x + 1\<rparr>
           in Inr (if packet_pos x1 \<ge> packet_size x1 then x1\<lparr>xm_state := CRC0\<rparr> else x1))"

definition rx_crc1 :: "byte \<Rightarrow> xmodem_server \<Rightarrow> fault + xmodem_server" where
  "rx_crc1 b x =
     (if packet_size x > length (packet_data x) then Inl Out_Of_Bounds
      else let x1 = x\<lparr>xm_crc := xm_crc x OR ucast b\<rparr> in
           Inr (if crc_of (take (packet_size x) (packet_data x)) \<noteq> xm_crc x1
                then tx_byte XMODEM_NACK (x1\<lparr>error_count := error_count x + 1, xm_state := SOH\<rparr>)
                else if repeating x then x1\<lparr>xm_state := SOH\<rparr>
                else x1\<lparr>xm_state := PROCESS_PACKET\<rparr>))"

definition xmodem_server_rx_byte :: "xmodem_server \<Rightarrow> byte \<Rightarrow> fault + (bool \<times> xmodem_server)" where
  "xmodem_server_rx_byte x b =
     bindE (case xm_state x of
              START \<Rightarrow> Inr (rx_soh b x)
            | SOH \<Rightarrow> Inr (rx_soh b x)
            | BLOCK_NUM \<Rightarrow> Inr (rx_block_num b x)
            | BLOCK_NEG \<Rightarrow> Inr (rx_block_neg b x)
            | DATA \<Rightarrow> rx_data b x
            | CRC0 \<Rightarrow> Inr (x\<lparr>xm_crc := push_bit 8 (ucast b), xm_state := CRC1\<rparr>)
            | CRC1 \<Rightarrow> rx_crc1 b x
            | _ \<Rightarrow> Inr x)
       (\<lambda>x'. Inr (xm_state x' = PROCESS_PACKET, x'))"

text \<open>The callback of the only caller is not null.\<close>

definition xmodem_server_init :: xmodem_server where
  "xmodem_server_init =
     tx_byte XMODEM_C \<lparr>xm_state = START, packet_data = replicate XMODEM_MAX_PACKET_SIZE 0, packet_pos = 0, xm_crc = 0,
       packet_size = 0, repeating = False, last_event_time = 0, block_num = 0, error_count = 0, xm_tx = []\<rparr>"

definition xmodem_server_is_done :: "xmodem_server \<Rightarrow> bool" where
  "xmodem_server_is_done x \<longleftrightarrow> xm_state x = SUCCESSFUL \<or> xm_state x = FAILURE"

text \<open>The steps of \<open>xmodem_server_process\<close> before a packet is handed over.\<close>

definition xm_timers :: "int \<Rightarrow> xmodem_server \<Rightarrow> xmodem_server" where
  "xm_timers ms_time x =
     (let x1 = (if last_event_time x = 0 then x\<lparr>last_event_time := ms_time\<rparr> else x);
          x2 = (if xm_state x1 = START \<and> ms_time - last_event_time x1 > 500
                then (tx_byte XMODEM_C x1)\<lparr>last_event_time := ms_time\<rparr> else x1);
          x3 = (if ms_time - last_event_time x2 > XMODEM_PACKET_TIMEOUT
                then (tx_byte XMODEM_NACK (x2\<lparr>error_count := error_count x2 + 1, xm_state := SOH\<rparr>))\<lparr>last_event_time := ms_time\<rparr>
                else x2)
      in if error_count x3 \<ge> XMODEM_MAX_ERRORS
         then (tx_byte XMODEM_CAN (x3\<lparr>xm_state := FAILURE\<rparr>))\<lparr>last_event_time := ms_time\<rparr>
         else x3)"

text \<open>The packet and its number when one is returned, \<open>None\<close> for the result 0.\<close>

definition xmodem_server_process :: "xmodem_server \<Rightarrow> int \<Rightarrow> (byte list \<times> u32) option \<times> xmodem_server" where
  "xmodem_server_process x t =
     (if xmodem_server_is_done x then (None, x)
      else let ms_time = (if t = 0 then 1 else t); x1 = xm_timers ms_time x in
           if xm_state x1 \<noteq> PROCESS_PACKET then (None, x1)
           else (Some (take (packet_size x1) (packet_data x1), block_num x1),
                 tx_byte XMODEM_ACK (x1\<lparr>last_event_time := ms_time, block_num := block_num x1 + 1, xm_state := SOH\<rparr>)))"

text \<open>
  One round of the loop of \<open>i_receive_xmodem\<close>: a byte if the console has one, then the poll with the
  counter of rounds as time; the result is what is written to the file.
\<close>

definition xm_round :: "byte option \<Rightarrow> u32 \<Rightarrow> xmodem_server \<Rightarrow> fault + (byte list \<times> xmodem_server)" where
  "xm_round inp faketime x =
     bindE (case inp of None \<Rightarrow> Inr x | Some b \<Rightarrow> bindE (xmodem_server_rx_byte x b) (\<lambda>(_, x1). Inr x1)) (\<lambda>x1.
     case xmodem_server_process x1 (uint (drop_bit 2 faketime)) of
       (None, x2) \<Rightarrow> Inr ([], x2)
     | (Some (resp, _), x2) \<Rightarrow> Inr (resp, x2))"

text \<open>The loop, fed with the given rounds of input.\<close>

primrec xm_receive :: "byte option list \<Rightarrow> u32 \<Rightarrow> xmodem_server \<Rightarrow> fault + (byte list \<times> u32 \<times> xmodem_server)" where
  "xm_receive [] faketime x = Inr ([], faketime, x)"
| "xm_receive (inp # inps) faketime x =
     (if xmodem_server_is_done x then Inr ([], faketime, x)
      else bindE (xm_round inp faketime x) (\<lambda>(bs, x1).
           bindE (xm_receive inps (faketime + 1) x1) (\<lambda>(bs', t, x2). Inr (bs @ bs', t, x2))))"

section \<open>The checksum\<close>

lemma crc_top: "crc AND 0x8000 \<noteq> 0 \<longleftrightarrow> bit (crc :: u16) 15"
  by (simp add: bit_iff_and_push_bit_not_eq_0)

lemma bit_shl [simp]: "bit (a * 2 :: u16) j \<longleftrightarrow> 0 < j \<and> j < 16 \<and> bit a (j - 1)"
  using bit_double_iff [of a j] by (auto simp: mult.commute)

lemma crc_shift_xor: "crc_shift n (a XOR b) = crc_shift n a XOR crc_shift n b"
proof (induction n arbitrary: a b)
  case (Suc n)
  have "crc_shift (Suc n) c = crc_shift n (push_bit 1 c XOR (if bit c 15 then 0x1021 else 0))" for c
    by (simp only: crc_shift.simps crc_top) simp
  then show ?case
    by (simp only: Suc [symmetric]) (simp add: bit_xor_iff push_bit_xor xor.assoc xor.left_commute)
qed simp

text \<open>No message but the zero word is shifted to zero: the polynomial is odd.\<close>

lemma crc_shift_eq_0: "crc_shift n a = 0 \<Longrightarrow> a = 0"
proof (induction n arbitrary: a)
  case (Suc n)
  let ?s = "if a AND 0x8000 \<noteq> 0 then push_bit 1 a XOR 0x1021 else push_bit 1 a"
  have z: "?s = 0" using Suc by simp
  show ?case
  proof (cases "bit a 15")
    case True
    then have "bit ?s 0" by (simp add: crc_top bit_xor_iff)
    then show ?thesis using z by simp
  next
    case False
    then have p: "push_bit 1 a = 0" using z by (simp only: crc_top) simp
    show ?thesis
    proof (rule bit_word_eqI)
      fix i assume i: "i < LENGTH(16)"
      have "a * 2 = 0" using p by simp
      then have "\<not> bit (a * 2) (Suc i)" by (simp only: bit_0_eq) simp
      then have "i \<noteq> 15 \<Longrightarrow> \<not> bit a i" using i by simp
      then show "bit a i = bit 0 i" using False by (cases "i = 15") simp_all
    qed
  qed
qed simp

lemma crc_shift_inj: "crc_shift n a = crc_shift n b \<longleftrightarrow> a = b"
proof
  assume "crc_shift n a = crc_shift n b"
  then have "a XOR b = 0" using crc_shift_eq_0 [of n "a XOR b"] by (simp add: crc_shift_xor)
  then have "(a XOR b) XOR b = b" by simp
  then show "a = b" by (simp add: xor.assoc)
qed simp

lemma crc_shift_push: "(\<And>j. 16 - n \<le> j \<Longrightarrow> \<not> bit a j) \<Longrightarrow> n \<le> 16 \<Longrightarrow> crc_shift n a = push_bit n a"
proof (induction n arbitrary: a)
  case (Suc n)
  have "\<not> bit a 15" using Suc.prems by simp
  moreover have "crc_shift n (push_bit 1 a) = push_bit n (push_bit 1 a)"
    using Suc.prems by (intro Suc.IH) auto
  ultimately show ?case by (simp only: crc_shift.simps crc_top) (simp add: push_bit_push_bit)
qed simp

lemma crc_shift_add: "crc_shift (m + n) a = crc_shift n (crc_shift m a)"
  by (induction m arbitrary: a) auto

text \<open>Two bytes are one 16-bit step.\<close>

lemma crc_two:
  "xmodem_server_crc (xmodem_server_crc c a) b = crc_shift 16 (c XOR push_bit 8 (ucast a) XOR ucast b)"
proof -
  have "crc_shift 8 (ucast b) = push_bit 8 (ucast b)"
    by (rule crc_shift_push) (auto simp: bit_ucast_iff dest: bit_imp_le_length)
  then show ?thesis using crc_shift_add [of 8 8] by (simp add: xmodem_server_crc_def crc_shift_xor xor.assoc)
qed

text \<open>
  A checksum computed byte by byte. When a step can be undone and two steps tell every pair of bytes
  apart, a message that is damaged in two neighbouring bytes has another checksum.
\<close>

locale checksum =
  fixes step :: "'c \<Rightarrow> 'b \<Rightarrow> 'c" and start :: 'c
  assumes step_inj: "step c b = step d b \<Longrightarrow> c = d"
    and pair_inj: "step (step c a) b = step (step c a') b' \<Longrightarrow> a = a' \<and> b = b'"
begin

definition sum_of :: "'b list \<Rightarrow> 'c" where
  "sum_of bs = foldl step start bs"

lemma fold_inj: "foldl step c bs = foldl step d bs \<Longrightarrow> c = d"
  by (induction bs arbitrary: c d) (auto dest: step_inj)

lemma damage_found:
  "sum_of (p @ [a, b] @ q) = sum_of (p @ [a', b'] @ q) \<longleftrightarrow> a = a' \<and> b = b'"
  by (auto simp: sum_of_def dest!: fold_inj pair_inj)

end

lemma xor_cancel_left: "c XOR a = c XOR b \<longleftrightarrow> a = (b :: u16)"
  by (metis xor.assoc xor.left_neutral xor_self_eq)

lemma xor_cancel_right: "a XOR c = b XOR c \<longleftrightarrow> a = (b :: u16)"
  using xor_cancel_left [of c a b] by (simp only: xor.commute)

lemma two_bytes_inj:
  fixes a b a' b' :: byte
  assumes "push_bit 8 (ucast a) XOR ucast b = (push_bit 8 (ucast a') XOR ucast b' :: u16)"
  shows "a = a' \<and> b = b'"
proof -
  have bits: "bit (push_bit 8 (ucast x) XOR ucast y :: u16) i \<longleftrightarrow> (if i < 8 then bit y i else i < 16 \<and> bit x (i - 8))"
    for x y :: byte and i
    by (auto simp: bit_simps dest: bit_imp_le_length)
  have "bit b i \<longleftrightarrow> bit b' i" if "i < 8" for i using bits [of a b i] bits [of a' b' i] assms that by simp
  moreover have "bit a i \<longleftrightarrow> bit a' i" if "i < 8" for i using bits [of a b "i + 8"] bits [of a' b' "i + 8"] assms that by simp
  ultimately show ?thesis by (auto intro!: bit_word_eqI)
qed

interpretation crc16: checksum xmodem_server_crc 0
proof
  fix c d :: u16 and a b a' b' :: byte
  show "xmodem_server_crc c b = xmodem_server_crc d b \<Longrightarrow> c = d"
    by (simp add: xmodem_server_crc_def crc_shift_inj xor_cancel_right)
  show "xmodem_server_crc (xmodem_server_crc c a) b = xmodem_server_crc (xmodem_server_crc c a') b' \<Longrightarrow> a = a' \<and> b = b'"
    using two_bytes_inj by (simp add: crc_two crc_shift_inj xor.assoc xor_cancel_left)
qed

lemma crc_of_sum: "crc_of = crc16.sum_of"
  by (simp add: fun_eq_iff crc_of_def crc16.sum_of_def)

section \<open>The receiver keeps inside its buffer\<close>

definition xm_inv :: "xmodem_server \<Rightarrow> bool" where
  "xm_inv x \<longleftrightarrow> length (packet_data x) = XMODEM_MAX_PACKET_SIZE \<and>
     (xm_state x \<in> {BLOCK_NUM, BLOCK_NEG, DATA, CRC0, CRC1, PROCESS_PACKET} \<longrightarrow> packet_size x = 128 \<or> packet_size x = 1024) \<and>
     (xm_state x = DATA \<longrightarrow> packet_pos x < packet_size x) \<and>
     (xm_state x = PROCESS_PACKET \<longrightarrow> \<not> repeating x \<and> crc_of (take (packet_size x) (packet_data x)) = xm_crc x)"

lemma tx_byte_simps [simp]:
  "xm_state (tx_byte b x) = xm_state x" "packet_data (tx_byte b x) = packet_data x" "packet_pos (tx_byte b x) = packet_pos x"
  "xm_crc (tx_byte b x) = xm_crc x" "packet_size (tx_byte b x) = packet_size x" "repeating (tx_byte b x) = repeating x"
  "last_event_time (tx_byte b x) = last_event_time x" "block_num (tx_byte b x) = block_num x"
  "error_count (tx_byte b x) = error_count x" "xm_tx (tx_byte b x) = xm_tx x @ [b]"
  by (simp_all add: tx_byte_def)

lemma xm_inv_init: "xm_inv xmodem_server_init"
  by (simp add: xm_inv_def xmodem_server_init_def)

lemma rx_byte_inv:
  assumes "xm_inv x"
  shows "\<exists>r x'. xmodem_server_rx_byte x b = Inr (r, x') \<and> xm_inv x' \<and> last_event_time x' = last_event_time x \<and> block_num x' = block_num x"
proof (cases "xm_state x")
  case DATA
  then have "packet_pos x < length (packet_data x)" using assms by (auto simp: xm_inv_def)
  then show ?thesis using DATA assms by (auto simp: xmodem_server_rx_byte_def rx_data_def xm_inv_def Let_def)
next
  case CRC1
  then have "\<not> packet_size x > length (packet_data x)" using assms by (auto simp: xm_inv_def)
  then show ?thesis using CRC1 assms by (auto simp: xmodem_server_rx_byte_def rx_crc1_def xm_inv_def Let_def)
qed (use assms in \<open>auto simp: xmodem_server_rx_byte_def rx_soh_def rx_block_num_def rx_block_neg_def xm_inv_def Let_def\<close>)

lemma xm_timers_inv: "xm_inv x \<Longrightarrow> xm_inv (xm_timers t x)"
  by (auto simp: xm_timers_def xm_inv_def Let_def)

lemma xm_timers_keep:
  "packet_data (xm_timers t x) = packet_data x" "packet_size (xm_timers t x) = packet_size x" "block_num (xm_timers t x) = block_num x"
  "xm_crc (xm_timers t x) = xm_crc x"
  "xm_state (xm_timers t x) = PROCESS_PACKET \<Longrightarrow> xm_state x = PROCESS_PACKET"
  by (auto simp: xm_timers_def Let_def split: if_splits)

text \<open>A poll delivers nothing, or one packet whose checksum is right, and then counts it.\<close>

lemma process_inv:
  assumes "xm_inv x"
  shows "\<exists>r x'. xmodem_server_process x t = (r, x') \<and> xm_inv x' \<and>
    (case r of None \<Rightarrow> block_num x' = block_num x
     | Some (bs, n) \<Rightarrow> (length bs = 128 \<or> length bs = 1024) \<and> crc_of bs = xm_crc x \<and> n = block_num x \<and> block_num x' = block_num x + 1)"
proof -
  define ms x1 where "ms = (if t = 0 then 1 else t)" and "x1 = xm_timers ms x"
  have inv: "xm_inv x1" unfolding x1_def by (rule xm_timers_inv [OF assms])
  note keep = xm_timers_keep [of ms x, folded x1_def]
  have p: "xmodem_server_process x t =
      (if xmodem_server_is_done x then (None, x) else if xm_state x1 \<noteq> PROCESS_PACKET then (None, x1)
       else (Some (take (packet_size x1) (packet_data x1), block_num x1),
             tx_byte XMODEM_ACK (x1\<lparr>last_event_time := ms, block_num := block_num x1 + 1, xm_state := SOH\<rparr>)))"
    by (simp add: xmodem_server_process_def ms_def x1_def Let_def)
  show ?thesis
  proof (cases "xmodem_server_is_done x \<or> xm_state x1 \<noteq> PROCESS_PACKET")
    case True
    then show ?thesis using p assms inv keep(3) by auto
  next
    case False
    then have "packet_size x1 = 128 \<or> packet_size x1 = 1024" "length (packet_data x1) = 1024" "crc_of (take (packet_size x1) (packet_data x1)) = xm_crc x"
      using inv keep(4) by (auto simp: xm_inv_def)
    then show ?thesis using False p keep(3) by (auto simp: xm_inv_def)
  qed
qed

lemma xm_round_inv:
  assumes x: "xm_inv x"
  shows "\<exists>bs x'. xm_round inp t x = Inr (bs, x') \<and> xm_inv x' \<and>
    (bs = [] \<and> block_num x' = block_num x \<or> (length bs = 128 \<or> length bs = 1024) \<and> block_num x' = block_num x + 1)"
proof -
  obtain x1 where x1: "(case inp of None \<Rightarrow> Inr x | Some b \<Rightarrow> bindE (xmodem_server_rx_byte x b) (\<lambda>(_, x1). Inr x1)) = Inr x1"
      "xm_inv x1" "block_num x1 = block_num x"
  proof (cases inp)
    case (Some b)
    then show ?thesis using that rx_byte_inv [OF x, of b] by auto
  qed (use x that in simp)
  show ?thesis using x1 process_inv [OF x1(2), of "uint (drop_bit 2 t)"]
    by (auto simp: xm_round_def split: option.splits)
qed

lemma xm_receive_inv:
  "xm_inv x \<Longrightarrow> \<exists>pkts t' x'. xm_receive inps t x = Inr (concat pkts, t', x') \<and> xm_inv x' \<and>
     block_num x' = block_num x + of_nat (length pkts) \<and> (\<forall>p \<in> set pkts. length p = 128 \<or> length p = 1024)"
proof (induction inps arbitrary: t x)
  case (Cons inp inps)
  show ?case
  proof (cases "xmodem_server_is_done x")
    case True
    then show ?thesis using Cons.prems by (auto intro: exI [of _ "[]"])
  next
    case False
    obtain bs x1 where r: "xm_round inp t x = Inr (bs, x1)" "xm_inv x1"
        "bs = [] \<and> block_num x1 = block_num x \<or> (length bs = 128 \<or> length bs = 1024) \<and> block_num x1 = block_num x + 1"
      using xm_round_inv [OF Cons.prems] by blast
    obtain pkts t' x' where s: "xm_receive inps (t + 1) x1 = Inr (concat pkts, t', x')" "xm_inv x'"
        "block_num x' = block_num x1 + of_nat (length pkts)" "\<forall>p \<in> set pkts. length p = 128 \<or> length p = 1024"
      using Cons.IH [OF r(2)] by blast
    show ?thesis
    proof (cases "bs = []")
      case True
      then show ?thesis using False r s by (intro exI [of _ pkts]) auto
    next
      case nil: False
      then show ?thesis using False r s by (intro exI [of _ "bs # pkts"]) auto
    qed
  qed
qed (auto intro: exI [of _ "[]"])

section \<open>A transfer without damage\<close>

text \<open>What a sender transmits for the block with number \<open>n\<close>, counted from 0.\<close>

definition xm_packet :: "u32 \<Rightarrow> byte list \<Rightarrow> byte list" where
  "xm_packet n blk =
     [if length blk = 128 then XMODEM_SOH else XMODEM_STX, ucast (n + 1), NOT (ucast (n + 1))] @ blk @
     [ucast (drop_bit 8 (crc_of blk)), ucast (crc_of blk)]"

text \<open>The bytes that arrive during some rounds.\<close>

definition arrived :: "byte option list \<Rightarrow> byte list" where
  "arrived inps = concat (map (\<lambda>i. case i of None \<Rightarrow> [] | Some b \<Rightarrow> [b]) inps)"

lemma arrived_simps [simp]:
  "arrived [] = []" "arrived (None # inps) = arrived inps" "arrived (Some b # inps) = b # arrived inps"
  "arrived (is @ js) = arrived is @ arrived js" "arrived (replicate k None) = []"
  by (simp_all add: arrived_def)

lemma arrived_Cons:
  "arrived inps = b # bs \<Longrightarrow> \<exists>k inps'. inps = replicate k None @ Some b # inps' \<and> arrived inps' = bs"
proof (induction inps)
  case (Cons i inps)
  show ?case
  proof (cases i)
    case None
    then obtain k inps' where "inps = replicate k None @ Some b # inps'" "arrived inps' = bs" using Cons by auto
    then show ?thesis using None by (intro exI [of _ "Suc k"]) auto
  qed (use Cons in \<open>auto intro: exI [of _ 0]\<close>)
qed simp

text \<open>The time of a round, and rounds that end before the packet timer does.\<close>

definition ms_of :: "u32 \<Rightarrow> int" where
  "ms_of t = (let m = uint (drop_bit 2 t) in if m = 0 then 1 else m)"

definition in_time :: "int \<Rightarrow> u32 \<Rightarrow> nat \<Rightarrow> bool" where
  "in_time L t n \<longleftrightarrow> 1 \<le> L \<and> unat t + n < 4294967296 \<and> int ((unat t + n) div 4) \<le> L + 1000"

lemma ms_of_eq: "ms_of t = max 1 (int (unat t div 4))"
proof -
  have "unat (drop_bit 2 t) = unat t div 4" by (simp only: unat_drop_bit_eq) (simp add: drop_bit_eq_div)
  then have "uint (drop_bit 2 t) = int (unat t div 4)" by (simp only: uint_nat)
  then show ?thesis by (simp add: ms_of_def Let_def max_def)
qed

lemma ms_of_bounds:
  "4 * ms_of t \<le> int (unat t) + 4" "int (unat t) < 4 * (ms_of t + 1)" "1 < ms_of t \<Longrightarrow> 4 * ms_of t \<le> int (unat t)"
proof -
  have "4 * max 1 (int (n div 4)) \<le> int n + 4 \<and> int n < 4 * (max 1 (int (n div 4)) + 1) \<and>
      (1 < max 1 (int (n div 4)) \<longrightarrow> 4 * max 1 (int (n div 4)) \<le> int n)" for n :: nat
    by (simp add: max_def) presburger
  then show "4 * ms_of t \<le> int (unat t) + 4" "int (unat t) < 4 * (ms_of t + 1)" "1 < ms_of t \<Longrightarrow> 4 * ms_of t \<le> int (unat t)"
    unfolding ms_of_eq by blast+
qed

lemma div_add1_le: "(n + 1) div 4 \<le> n div 4 + (1 :: nat)"
  using div_le_mono [of "n + 1" "n + 4" 4] by simp

lemma in_time_Suc: "in_time L t (Suc n) \<Longrightarrow> ms_of t - L \<le> 1000 \<and> in_time L (t + 1) n \<and> unat (t + 1) = unat t + 1"
proof -
  assume a: "in_time L t (Suc n)"
  then have u: "unat (t + 1) = unat t + 1" by (subst unat_add32) (simp_all add: in_time_def)
  have "unat t div 4 \<le> (unat t + Suc n) div 4" by (rule div_le_mono) simp
  then show ?thesis using a u by (auto simp: in_time_def ms_of_eq)
qed

definition xm_busy :: "int \<Rightarrow> xmodem_server \<Rightarrow> bool" where
  "xm_busy L x \<longleftrightarrow> xm_state x \<in> {SOH, BLOCK_NUM, BLOCK_NEG, DATA, CRC0, CRC1} \<and> last_event_time x = L \<and> error_count x = 0"

lemma timers_quiet:
  "xm_state x \<noteq> START \<Longrightarrow> last_event_time x = L \<Longrightarrow> 1 \<le> L \<Longrightarrow> error_count x = 0 \<Longrightarrow> t - L \<le> 1000 \<Longrightarrow> xm_timers t x = x"
  by (simp add: xm_timers_def Let_def)

lemma process_ms:
  "xmodem_server_process x (uint (drop_bit 2 t)) =
     (if xmodem_server_is_done x then (None, x)
      else let x1 = xm_timers (ms_of t) x in
           if xm_state x1 \<noteq> PROCESS_PACKET then (None, x1)
           else (Some (take (packet_size x1) (packet_data x1), block_num x1),
                 tx_byte XMODEM_ACK (x1\<lparr>last_event_time := ms_of t, block_num := block_num x1 + 1, xm_state := SOH\<rparr>)))"
  by (simp add: xmodem_server_process_def ms_of_def Let_def)

lemma process_busy:
  assumes "xm_busy L x" "1 \<le> L" "ms_of t - L \<le> 1000"
  shows "xmodem_server_process x (uint (drop_bit 2 t)) = (None, x)"
  using assms timers_quiet [of x L "ms_of t"]
  by (auto simp: xm_busy_def process_ms xmodem_server_is_done_def)

text \<open>A sequence of bytes that leads from one state to another with nothing delivered.\<close>

fun rx_path :: "int \<Rightarrow> xmodem_server \<Rightarrow> byte list \<Rightarrow> xmodem_server \<Rightarrow> bool" where
  "rx_path L x [] x' \<longleftrightarrow> x' = x \<and> xm_busy L x"
| "rx_path L x (b # bs) x' \<longleftrightarrow> xm_busy L x \<and> (\<exists>x1. xmodem_server_rx_byte x b = Inr (False, x1) \<and> rx_path L x1 bs x')"

lemma rx_path_append: "rx_path L x bs x1 \<Longrightarrow> rx_path L x1 bs' x2 \<Longrightarrow> rx_path L x (bs @ bs') x2"
  by (induction bs arbitrary: x) auto

lemma rx_path_last: "rx_path L x bs x' \<Longrightarrow> xm_busy L x'"
  by (induction bs arbitrary: x) auto

lemma rx_path_busy: "rx_path L x bs x' \<Longrightarrow> xm_busy L x"
  by (cases bs) auto

lemma receive_path:
  "rx_path L x (arrived inps) x' \<Longrightarrow> in_time L t (length inps) \<Longrightarrow>
   xm_receive (inps @ rest) t x = xm_receive rest (t + of_nat (length inps)) x'"
proof (induction inps arbitrary: t x)
  case (Cons i inps)
  note t = in_time_Suc [of L t "length inps"]
  have L: "1 \<le> L" using Cons.prems(2) by (simp add: in_time_def)
  have "\<not> xmodem_server_is_done x" using rx_path_busy [OF Cons.prems(1)] by (auto simp: xm_busy_def xmodem_server_is_done_def)
  moreover have "\<exists>x1. xm_round i t x = Inr ([], x1) \<and> rx_path L x1 (arrived inps) x'"
  proof (cases i)
    case None
    then show ?thesis
      using Cons.prems t L rx_path_busy [OF Cons.prems(1)] by (auto simp: xm_round_def process_busy)
  next
    case (Some b)
    then obtain x1 where x1: "xmodem_server_rx_byte x b = Inr (False, x1)" "rx_path L x1 (arrived inps) x'" using Cons.prems(1) by auto
    then show ?thesis using Some Cons.prems(2) t L rx_path_busy [OF x1(2)] by (auto simp: xm_round_def process_busy)
  qed
  ultimately show ?case using Cons.IH [of _ "t + 1"] Cons.prems(2) t 
    by (cases "xm_receive rest (t + 1 + of_nat (length inps)) x'") (auto simp: algebra_simps)
qed simp

text \<open>The bytes of a packet after the first lead to the state before the last byte.\<close>

lemma block_byte: "ucast (ucast (w :: u32) :: byte) = w AND 0xFF"
proof -
  have m: "(0xFF :: u32) = mask 8" by (simp add: mask_eq_exp_minus_1)
  show ?thesis unfolding m by (rule bit_word_eqI) (auto simp: bit_simps)
qed

lemma block_neg_byte: "ucast (NOT w AND 0xFF) = NOT (ucast (w :: u32) :: byte)"
proof -
  have m: "(0xFF :: u32) = mask 8" by (simp add: mask_eq_exp_minus_1)
  show ?thesis unfolding m by (rule bit_word_eqI) (auto simp: bit_simps)
qed

lemma crc_bytes: "push_bit 8 (ucast (ucast (drop_bit 8 c) :: byte)) OR ucast (ucast c :: byte) = (c :: u16)"
proof (rule bit_word_eqI)
  fix i assume "i < LENGTH(16)"
  then show "bit (push_bit 8 (ucast (ucast (drop_bit 8 c) :: byte)) OR ucast (ucast c :: byte) :: u16) i = bit c i"
    by (cases "i < 8") (auto simp: bit_simps)
qed

lemma data_path:
  assumes "ds \<noteq> []" and "packet_pos x + length ds = packet_size x" and "packet_size x \<le> length (packet_data x)"
    and "xm_state x = DATA" and "xm_busy L x"
  shows "rx_path L x ds (x\<lparr>packet_data := take (packet_pos x) (packet_data x) @ ds @ drop (packet_size x) (packet_data x),
    packet_pos := packet_size x, xm_state := CRC0\<rparr>)"
  using assms
proof (induction ds arbitrary: x)
  case (Cons d ds)
  let ?D = "(packet_data x)[packet_pos x := d]"
  let ?x = "x\<lparr>packet_data := ?D, packet_pos := packet_pos x + 1\<rparr>"
  have p: "packet_pos x < length (packet_data x)" using Cons.prems(2,3) by auto
  show ?case
  proof (cases "ds = []")
    case True
    then have "xmodem_server_rx_byte x d = Inr (False, ?x\<lparr>xm_state := CRC0\<rparr>)"
      using Cons.prems p by (simp add: xmodem_server_rx_byte_def rx_data_def)
    moreover have "?D = take (packet_pos x) (packet_data x) @ [d] @ drop (packet_size x) (packet_data x)"
      using p Cons.prems(2) True by (simp add: upd_conv_take_nth_drop)
    ultimately show ?thesis using True Cons.prems by (simp add: xm_busy_def)
  next
    case False
    then have "xmodem_server_rx_byte x d = Inr (False, ?x)"
      using Cons.prems p by (cases ds) (auto simp: xmodem_server_rx_byte_def rx_data_def)
    moreover have "rx_path L ?x ds (?x\<lparr>packet_data := take (packet_pos ?x) ?D @ ds @ drop (packet_size ?x) ?D,
        packet_pos := packet_size x, xm_state := CRC0\<rparr>)"
      using False Cons.prems Cons.IH [of ?x] by (simp add: xm_busy_def)
    moreover have "take (packet_pos x + 1) ?D = take (packet_pos x) (packet_data x) @ [d]"
      using p by (simp add: take_Suc_conv_app_nth)
    moreover have "drop (packet_size x) ?D = drop (packet_size x) (packet_data x)"
      using Cons.prems(2) by simp
    ultimately show ?thesis using Cons.prems by simp
  qed
qed simp

lemma packet_path:
  assumes x: "xm_inv x" "xm_busy L x" "xm_state x = BLOCK_NUM" "packet_size x = length blk"
  defines "n \<equiv> ucast (block_num x + 1) :: byte"
  shows "\<exists>x'. rx_path L x ([n, NOT n] @ blk @ [hi]) x' \<and> xm_state x' = CRC1 \<and> xm_crc x' = push_bit 8 (ucast hi) \<and>
    take (packet_size x') (packet_data x') = blk \<and> packet_size x' = length blk \<and> length (packet_data x') = 1024 \<and> \<not> repeating x' \<and>
    block_num x' = block_num x \<and> xm_tx x' = xm_tx x"
proof -
  have len: "length blk = 128 \<or> length blk = 1024" "length (packet_data x) = 1024" using x by (auto simp: xm_inv_def)
  let ?x1 = "x\<lparr>xm_state := BLOCK_NEG, repeating := False\<rparr>"
  let ?x2 = "?x1\<lparr>packet_pos := 0, xm_state := DATA\<rparr>"
  let ?D = "blk @ drop (length blk) (packet_data x)"
  let ?x3 = "?x2\<lparr>packet_data := ?D, packet_pos := length blk, xm_state := CRC0\<rparr>"
  let ?x4 = "?x3\<lparr>xm_crc := push_bit 8 (ucast hi), xm_state := CRC1\<rparr>"
  have "xmodem_server_rx_byte x n = Inr (False, ?x1)"
    using x(3) by (simp add: xmodem_server_rx_byte_def rx_block_num_def n_def block_byte)
  moreover have "xmodem_server_rx_byte ?x1 (NOT n) = Inr (False, ?x2)"
    by (simp add: xmodem_server_rx_byte_def rx_block_neg_def n_def block_neg_byte)
  ultimately have p1: "rx_path L x [n, NOT n] ?x2" using x(2,3) by (simp add: xm_busy_def)
  have p2: "rx_path L ?x2 blk ?x3"
    using data_path [of blk ?x2 L] x len by (cases "blk = []") (auto simp: xm_busy_def)
  have "rx_path L ?x3 [hi] ?x4" using x(2) by (simp add: xm_busy_def xmodem_server_rx_byte_def)
  then have "rx_path L x ([n, NOT n] @ blk @ [hi]) ?x4" using p1 p2 by (intro rx_path_append)
  then show ?thesis using x(4) len by (intro exI [of _ ?x4]) auto
qed

text \<open>Waiting for a packet with no error so far.\<close>

definition xm_ready :: "int \<Rightarrow> u32 \<Rightarrow> xmodem_server \<Rightarrow> bool" where
  "xm_ready L n x \<longleftrightarrow> xm_inv x \<and> xm_busy L x \<and> xm_state x = SOH \<and> block_num x = n"

lemma last_byte:
  assumes x: "xm_state x = CRC1" "xm_crc x = push_bit 8 (ucast (ucast (drop_bit 8 (crc_of blk)) :: byte))" "xm_busy L x"
      "take (packet_size x) (packet_data x) = blk" "packet_size x = length blk" "length (packet_data x) = 1024" "\<not> repeating x"
    and L: "1 \<le> L" "ms_of t - L \<le> 1000" and len: "length blk = 128 \<or> length blk = 1024"
  shows "\<exists>x'. xm_round (Some (ucast (crc_of blk))) t x = Inr (blk, x') \<and> xm_ready (ms_of t) (block_num x + 1) x' \<and>
    xm_tx x' = xm_tx x @ [XMODEM_ACK]"
proof -
  let ?x1 = "x\<lparr>xm_crc := crc_of blk, xm_state := PROCESS_PACKET\<rparr>"
  have "xmodem_server_rx_byte x (ucast (crc_of blk)) = Inr (True, ?x1)"
    using x len by (auto simp: xmodem_server_rx_byte_def rx_crc1_def crc_bytes Let_def)
  moreover have "xm_timers (ms_of t) ?x1 = ?x1" using x L by (intro timers_quiet [of _ L]) (auto simp: xm_busy_def)
  ultimately show ?thesis using x
    by (simp add: xm_round_def process_ms xmodem_server_is_done_def xm_ready_def xm_inv_def xm_busy_def)
qed

text \<open>What a round delivers is written before what the rest of the loop delivers.\<close>

abbreviation after :: "byte list \<Rightarrow> fault + (byte list \<times> u32 \<times> xmodem_server) \<Rightarrow> fault + (byte list \<times> u32 \<times> xmodem_server)" where
  "after bs r \<equiv> bindE r (\<lambda>(bs', t, x). Inr (bs @ bs', t, x))"

lemma receive_round:
  "\<not> xmodem_server_is_done x \<Longrightarrow> xm_round inp t x = Inr (bs, x1) \<Longrightarrow>
   xm_receive (inp # inps) t x = after bs (xm_receive inps (t + 1) x1)"
  by simp

lemma in_time_split:
  "in_time L t (m + n) \<Longrightarrow> in_time L t m" "in_time L t (m + n) \<Longrightarrow> in_time L (t + of_nat m) n"
  "in_time L t (m + n) \<Longrightarrow> unat (t + of_nat m) = unat t + m"
proof -
  assume a: "in_time L t (m + n)"
  have "(unat t + m) div 4 \<le> (unat t + (m + n)) div 4" by (rule div_le_mono) simp
  then show "in_time L t m" using a by (simp add: in_time_def)
  show u: "unat (t + of_nat m) = unat t + m" using a by (subst unat_add32) (simp_all add: in_time_def)
  show "in_time L (t + of_nat m) n" using a unfolding in_time_def u by (simp add: add.assoc)
qed

text \<open>The rest of a packet, after its first byte.\<close>

lemma rest_received:
  assumes x: "xm_inv x" "xm_busy L x" "xm_state x = BLOCK_NUM" "packet_size x = length blk"
    and q: "arrived q = butlast (tl (xm_packet (block_num x) blk))" and t: "in_time L t (length q + 1)"
  shows "\<exists>x'. xm_receive (q @ Some (ucast (crc_of blk)) # rest) t x =
      after blk (xm_receive rest (t + of_nat (length q) + 1) x') \<and>
    xm_ready (ms_of (t + of_nat (length q))) (block_num x + 1) x' \<and> xm_tx x' = xm_tx x @ [XMODEM_ACK]"
proof -
  have len: "length blk = 128 \<or> length blk = 1024" using x by (auto simp: xm_inv_def)
  have q': "arrived q = [ucast (block_num x + 1), NOT (ucast (block_num x + 1))] @ blk @ [ucast (drop_bit 8 (crc_of blk))]"
    using q by (simp add: xm_packet_def butlast_append)
  obtain x1 where x1: "rx_path L x (arrived q) x1" "xm_state x1 = CRC1"
    "xm_crc x1 = push_bit 8 (ucast (ucast (drop_bit 8 (crc_of blk)) :: byte))" "take (packet_size x1) (packet_data x1) = blk"
    "packet_size x1 = length blk" "length (packet_data x1) = 1024" "\<not> repeating x1" "block_num x1 = block_num x" "xm_tx x1 = xm_tx x"
    using packet_path [OF x] unfolding q' by blast
  have b: "xm_busy L x1" by (rule rx_path_last [OF x1(1)])
  have L: "1 \<le> L" "ms_of (t + of_nat (length q)) - L \<le> 1000"
    using t in_time_split(2) [OF t] in_time_Suc [of L "t + of_nat (length q)" 0] by (simp_all add: in_time_def)
  obtain x' where r: "xm_round (Some (ucast (crc_of blk))) (t + of_nat (length q)) x1 = Inr (blk, x')"
    "xm_ready (ms_of (t + of_nat (length q))) (block_num x1 + 1) x'" "xm_tx x' = xm_tx x1 @ [XMODEM_ACK]"
    using last_byte [OF x1(2,3) b x1(4-7) L len] by blast
  have "\<not> xmodem_server_is_done x1" using x1(2) by (simp add: xmodem_server_is_done_def)
  then have "xm_receive (q @ Some (ucast (crc_of blk)) # rest) t x =
      after blk (xm_receive rest (t + of_nat (length q) + 1) x')"
    unfolding receive_path [OF x1(1) in_time_split(1) [OF t]] using receive_round [OF _ r(1)] by blast
  then show ?thesis using r(2,3) x1(8,9) by auto
qed

text \<open>One packet in the rounds \<open>p\<close>, the last of which brings its last byte.\<close>

definition delivers :: "byte option list \<Rightarrow> byte list \<Rightarrow> bool" where
  "delivers p bs \<longleftrightarrow> arrived p = bs \<and> (\<exists>q b. p = q @ [Some b]) \<and> length p \<le> 1900"

definition recent :: "int \<Rightarrow> u32 \<Rightarrow> bool" where
  "recent L t \<longleftrightarrow> 1 \<le> L \<and> int (unat t div 4) \<le> L + 501"

lemma recent_in_time: "recent L t \<Longrightarrow> n \<le> 1900 \<Longrightarrow> unat t + n < 4294967296 \<Longrightarrow> in_time L t n"
proof -
  assume a: "recent L t" "n \<le> 1900" "unat t + n < 4294967296"
  have "(unat t + n) div 4 \<le> (unat t + 1900) div 4" using a(2) by (intro div_le_mono) simp
  moreover have "(unat t + 1900) div 4 = unat t div 4 + 475" using div_mult_self1 [of 4 "unat t" 475] by simp
  ultimately show ?thesis using a unfolding recent_def in_time_def by linarith
qed

lemma recent_ms: "unat t + 1 < 4294967296 \<Longrightarrow> recent (ms_of t) (t + 1)"
proof -
  assume "unat t + 1 < 4294967296"
  then have "unat (t + 1) = unat t + 1" by (subst unat_add32) simp_all
  moreover have "(unat t + 1) div 4 \<le> (unat t + 4) div 4" by (intro div_le_mono) simp
  ultimately show ?thesis by (simp add: recent_def ms_of_eq)
qed

lemma header_byte:
  assumes "length blk = 128 \<or> length blk = 1024" and "xm_state x = SOH \<or> xm_state x = START"
  shows "xmodem_server_rx_byte x (hd (xm_packet n blk)) = Inr (False, x\<lparr>xm_state := BLOCK_NUM, packet_size := length blk\<rparr>)"
  using assms by (auto simp: xmodem_server_rx_byte_def rx_soh_def xm_packet_def)

text \<open>A packet whose rounds start with its first byte, in a state that waits for one.\<close>

lemma delivers_packet:
  assumes "delivers p (xm_packet n blk)"
  shows "\<exists>k q. p = replicate k None @ Some (hd (xm_packet n blk)) # q @ [Some (ucast (crc_of blk))] \<and>
    arrived q = butlast (tl (xm_packet n blk)) \<and> k + length q + 2 \<le> 1900"
proof -
  obtain p' b where p: "p = p' @ [Some b]" "arrived p = xm_packet n blk" "length p \<le> 1900" using assms by (auto simp: delivers_def)
  then have b: "b = ucast (crc_of blk)" "arrived p' = butlast (xm_packet n blk)"
    by (auto simp: xm_packet_def butlast_append)
  moreover have "butlast (xm_packet n blk) = hd (xm_packet n blk) # butlast (tl (xm_packet n blk))"
    by (simp add: xm_packet_def butlast_append)
  ultimately obtain k q where "p' = replicate k None @ Some (hd (xm_packet n blk)) # q" "arrived q = butlast (tl (xm_packet n blk))"
    using arrived_Cons by metis
  then show ?thesis using p b by auto
qed

lemma ready_packet:
  assumes x: "xm_ready L n x" and p: "delivers p (xm_packet n blk)" and len: "length blk = 128 \<or> length blk = 1024"
    and t: "recent L t" "unat t + length p < 4294967296"
  shows "\<exists>L' x'. xm_receive (p @ rest) t x = after blk (xm_receive rest (t + of_nat (length p)) x') \<and>
    xm_ready L' (n + 1) x' \<and> recent L' (t + of_nat (length p)) \<and> xm_tx x' = xm_tx x @ [XMODEM_ACK]"
proof -
  let ?h = "hd (xm_packet n blk)"
  obtain k q where pq: "p = (replicate k None @ [Some ?h]) @ q @ [Some (ucast (crc_of blk))]"
      "arrived q = butlast (tl (xm_packet n blk))" "k + length q + 2 \<le> 1900"
    using delivers_packet [OF p] by auto
  let ?x1 = "x\<lparr>xm_state := BLOCK_NUM, packet_size := length blk\<rparr>" let ?i = "replicate k None @ [Some ?h]"
  have x': "xm_inv x" "xm_busy L x" "xm_state x = SOH" "block_num x = n" using x by (simp_all add: xm_ready_def)
  have b1: "xm_busy L ?x1" "xm_inv ?x1" using x' len by (auto simp: xm_busy_def xm_inv_def)
  have path: "rx_path L x (arrived ?i) ?x1" using header_byte [OF len, of x n] x'(2,3) b1(1) by simp
  have it: "in_time L t (length ?i + (length q + 1))" using recent_in_time [OF t(1), of "length p"] t(2) pq(1,3) by simp
  let ?t = "t + of_nat (length ?i)"
  obtain x2 where r: "xm_receive (q @ Some (ucast (crc_of blk)) # rest) ?t ?x1 =
        after blk (xm_receive rest (?t + of_nat (length q) + 1) x2)"
      "xm_ready (ms_of (?t + of_nat (length q))) (n + 1) x2" "xm_tx x2 = xm_tx x @ [XMODEM_ACK]"
    using rest_received [OF b1(2,1), of blk q ?t rest] pq(2) x'(4) in_time_split(2) [OF it] by auto
  have e: "?t + of_nat (length q) + 1 = t + of_nat (length p)" using pq(1) by (simp add: algebra_simps)
  have "recent (ms_of (?t + of_nat (length q))) (t + of_nat (length p))"
  proof -
    have "unat (?t + of_nat (length q)) = unat t + (length ?i + length q)"
      using in_time_split(3) [of L t "length ?i + length q" 1] it by (simp add: algebra_simps)
    then show ?thesis using recent_ms [of "?t + of_nat (length q)"] t(2) pq(1) unfolding e by simp
  qed
  moreover have "xm_receive (p @ rest) t x = after blk (xm_receive rest (t + of_nat (length p)) x2)"
    using receive_path [OF path in_time_split(1) [OF it], of "q @ Some (ucast (crc_of blk)) # rest"] r(1) pq(1) unfolding e by simp
  ultimately show ?thesis using r(2,3) by blast
qed

text \<open>All packets and the end of the transmission.\<close>

lemma ready_packets:
  assumes "xm_ready L n x" and "list_all2 delivers ps (map2 (\<lambda>i. xm_packet (n + of_nat i)) [0..<length blks] blks)"
    and "\<forall>blk \<in> set blks. length blk = 128 \<or> length blk = 1024" and "delivers e [XMODEM_EOT]"
    and "recent L t" and "unat t + length (concat ps @ e) < 4294967296"
  shows "\<exists>t' x'. xm_receive (concat ps @ e) t x = Inr (concat blks, t', x') \<and> xm_state x' = SUCCESSFUL \<and>
    xm_tx x' = xm_tx x @ replicate (length blks + 1) XMODEM_ACK"
  using assms
proof (induction blks arbitrary: L n x ps t)
  case Nil
  obtain k e' where e: "e = replicate k None @ Some XMODEM_EOT # e'" "arrived e' = []"
    using Nil.prems(4) arrived_Cons [of e XMODEM_EOT "[]"] by (auto simp: delivers_def)
  have x: "xm_inv x" "xm_busy L x" "xm_state x = SOH" using Nil.prems(1) by (simp_all add: xm_ready_def)
  have it: "in_time L t (k + 0)" using recent_in_time [OF Nil.prems(5), of k] Nil.prems(4,6) e by (simp add: delivers_def)
  have rc: "xm_receive e t x = xm_receive (Some XMODEM_EOT # e') (t + of_nat k) x"
    using receive_path [of L x "replicate k None" x t "Some XMODEM_EOT # e'"] x it e(1) by simp
  let ?x1 = "tx_byte XMODEM_ACK (x\<lparr>xm_state := SUCCESSFUL\<rparr>)"
  have "xm_round (Some XMODEM_EOT) (t + of_nat k) x = Inr ([], ?x1)"
    using x by (simp add: xm_round_def xmodem_server_rx_byte_def rx_soh_def xmodem_server_process_def xmodem_server_is_done_def)
  moreover have "xm_receive e' s ?x1 = Inr ([], s, ?x1)" for s
    by (cases e') (simp_all add: xmodem_server_is_done_def)
  ultimately show ?case using Nil.prems(2) rc x(3) by (simp add: xmodem_server_is_done_def)
next
  case (Cons blk blks)
  have len: "length blk = 128 \<or> length blk = 1024" using Cons.prems(3) by simp
  obtain p ps' where ps: "ps = p # ps'" "delivers p (xm_packet n blk)"
      "list_all2 delivers ps' (map2 (\<lambda>i. xm_packet (n + of_nat i)) [1..<Suc (length blks)] blks)"
    using Cons.prems(2) by (auto simp: upt_conv_Cons list_all2_Cons2 simp del: upt_Suc)
  have sh: "map2 (\<lambda>i. xm_packet (n + of_nat i)) [1..<Suc (length blks)] blks =
      map2 (\<lambda>i. xm_packet (n + 1 + of_nat i)) [0..<length blks] blks"
    by (rule nth_equalityI) (simp_all add: algebra_simps del: upt_Suc)
  obtain L' x1 where r: "xm_receive (p @ concat ps' @ e) t x = after blk (xm_receive (concat ps' @ e) (t + of_nat (length p)) x1)"
      "xm_ready L' (n + 1) x1" "recent L' (t + of_nat (length p))" "xm_tx x1 = xm_tx x @ [XMODEM_ACK]"
    using ready_packet [OF Cons.prems(1) ps(2) len Cons.prems(5), of "concat ps' @ e"] Cons.prems(6) ps(1) by auto
  have u: "unat (t + of_nat (length p)) = unat t + length p" using Cons.prems(6) ps(1) by (subst unat_add32) simp_all
  obtain t' x' where "xm_receive (concat ps' @ e) (t + of_nat (length p)) x1 = Inr (concat blks, t', x')" "xm_state x' = SUCCESSFUL"
      "xm_tx x' = xm_tx x1 @ replicate (length blks + 1) XMODEM_ACK"
    using Cons.IH [OF r(2) _ _ Cons.prems(4) r(3), of ps'] ps(1,3) sh Cons.prems(3,6) u by auto
  then show ?case using r(1,4) ps(1) by simp
qed

text \<open>Before the first byte the receiver repeats its invitation.\<close>

definition xm_starting :: "u32 \<Rightarrow> xmodem_server \<Rightarrow> bool" where
  "xm_starting t x \<longleftrightarrow> xm_inv x \<and> xm_state x = START \<and> error_count x = 0 \<and>
     (last_event_time x = 0 \<or> recent (last_event_time x) t)"

lemma start_round:
  assumes x: "xm_starting t x" and t: "unat t + 1 < 4294967296"
  shows "\<exists>x' j. xm_round None t x = Inr ([], x') \<and> xm_starting (t + 1) x' \<and> block_num x' = block_num x \<and>
    xm_tx x' = xm_tx x @ replicate j XMODEM_C"
proof -
  have x': "xm_state x = START" "error_count x = 0" "xm_inv x" using x by (simp_all add: xm_starting_def)
  let ?L = "if last_event_time x = 0 then ms_of t else last_event_time x"
  let ?x1 = "x\<lparr>last_event_time := ?L\<rparr>"
  let ?x2 = "if ms_of t - ?L > 500 then (tx_byte XMODEM_C ?x1)\<lparr>last_event_time := ms_of t\<rparr> else ?x1"
  have "xm_timers (ms_of t) x = ?x2" using x'(1,2) by (simp add: xm_timers_def Let_def)
  moreover have "unat (t + 1) = unat t + 1" using t by (subst unat_add32) simp_all
  then have "recent (last_event_time ?x2) (t + 1)"
    using recent_ms [OF t] x div_add1_le [of "unat t"] by (auto simp: xm_starting_def recent_def ms_of_eq split: if_splits)
  moreover have "xm_inv ?x2" using x'(3) by (simp add: xm_inv_def)
  moreover have "xm_tx ?x2 = xm_tx x @ replicate (if ms_of t - ?L > 500 then 1 else 0) XMODEM_C" by simp
  ultimately show ?thesis using x'(1,2)
    by (intro exI [of _ ?x2] exI [of _ "if ms_of t - ?L > 500 then 1 else 0"])
      (simp add: xm_round_def process_ms xmodem_server_is_done_def xm_starting_def)
qed

lemma start_idle:
  "xm_starting t x \<Longrightarrow> unat t + k < 4294967296 \<Longrightarrow>
   \<exists>x' j. xm_receive (replicate k None @ rest) t x = xm_receive rest (t + of_nat k) x' \<and> xm_starting (t + of_nat k) x' \<and>
     block_num x' = block_num x \<and> xm_tx x' = xm_tx x @ replicate j XMODEM_C"
proof (induction k arbitrary: t x)
  case (Suc k)
  have "unat t + 1 < 4294967296" using Suc.prems(2) by simp
  then obtain x1 j where r: "xm_round None t x = Inr ([], x1)" "xm_starting (t + 1) x1" "block_num x1 = block_num x"
      "xm_tx x1 = xm_tx x @ replicate j XMODEM_C"
    using start_round [OF Suc.prems(1)] by blast
  have u: "unat (t + 1) = unat t + 1" using Suc.prems(2) by (subst unat_add32) simp_all
  obtain x' i where s: "xm_receive (replicate k None @ rest) (t + 1) x1 = xm_receive rest (t + 1 + of_nat k) x'" "xm_starting (t + 1 + of_nat k) x'"
      "block_num x' = block_num x1" "xm_tx x' = xm_tx x1 @ replicate i XMODEM_C"
    using Suc.IH [OF r(2)] Suc.prems(2) u by auto
  have "\<not> xmodem_server_is_done x" using Suc.prems(1) by (simp add: xm_starting_def xmodem_server_is_done_def)
  then have "xm_receive (replicate (Suc k) None @ rest) t x = xm_receive rest (t + 1 + of_nat k) x'"
    using r(1) s(1) by (cases "xm_receive rest (t + 1 + of_nat k) x'") auto
  moreover have "xm_tx x' = xm_tx x @ replicate (j + i) XMODEM_C" using r(4) s(4) by (simp add: replicate_add)
  moreover have "t + of_nat (Suc k) = t + 1 + of_nat k" by simp
  ultimately show ?case using s(2,3) r(3) by (metis (no_types))
qed (auto intro: exI [of _ 0])

lemma start_packet:
  assumes x: "xm_starting t x" and p: "delivers p (xm_packet (block_num x) blk)" and len: "length blk = 128 \<or> length blk = 1024"
    and t: "unat t + length p < 4294967296"
  shows "\<exists>L' x' j. xm_receive (p @ rest) t x = after blk (xm_receive rest (t + of_nat (length p)) x') \<and>
    xm_ready L' (block_num x + 1) x' \<and> recent L' (t + of_nat (length p)) \<and> xm_tx x' = xm_tx x @ replicate j XMODEM_C @ [XMODEM_ACK]"
proof -
  let ?h = "hd (xm_packet (block_num x) blk)" let ?l = "Some (ucast (crc_of blk))"
  obtain k q where pq: "p = replicate k None @ Some ?h # q @ [?l]"
      "arrived q = butlast (tl (xm_packet (block_num x) blk))" "k + length q + 2 \<le> 1900"
    using delivers_packet [OF p] by auto
  let ?t = "t + of_nat k"
  have "unat t + k < 4294967296" using t pq(1) by simp
  then obtain x1 j where s: "xm_receive (p @ rest) t x = xm_receive (Some ?h # q @ ?l # rest) ?t x1" "xm_starting ?t x1"
      "block_num x1 = block_num x" "xm_tx x1 = xm_tx x @ replicate j XMODEM_C"
    using start_idle [OF x, of k "Some ?h # q @ ?l # rest"] pq(1) by auto
  have u: "unat ?t = unat t + k" using t pq(1) by (subst unat_add32) simp_all
  let ?L = "if last_event_time x1 = 0 then ms_of ?t else last_event_time x1"
  have L: "1 \<le> ?L" "recent ?L ?t" "ms_of ?t - ?L \<le> 1000" using s(2) by (auto simp: xm_starting_def recent_def ms_of_eq)
  let ?x2 = "x1\<lparr>xm_state := BLOCK_NUM, packet_size := length blk, last_event_time := ?L\<rparr>"
  have x1: "xm_state x1 = START" "error_count x1 = 0" "xm_inv x1" using s(2) by (simp_all add: xm_starting_def)
  have rnd: "xm_round (Some ?h) ?t x1 = Inr ([], ?x2)"
    using header_byte [OF len, of x1 "block_num x"] x1(1,2) L(1,3)
    by (cases "last_event_time x1 = 0") (simp_all add: xm_round_def process_ms xm_timers_def xmodem_server_is_done_def Let_def)
  have b: "xm_inv ?x2" "xm_busy ?L ?x2" using x1 len by (auto simp: xm_inv_def xm_busy_def)
  have it: "in_time ?L ?t (1 + (length q + 1))" using recent_in_time [OF L(2), of "1 + (length q + 1)"] pq t u by simp
  obtain x' where r: "xm_receive (q @ ?l # rest) (?t + 1) ?x2 = after blk (xm_receive rest (?t + 1 + of_nat (length q) + 1) x')"
      "xm_ready (ms_of (?t + 1 + of_nat (length q))) (block_num x + 1) x'" "xm_tx x' = xm_tx x1 @ [XMODEM_ACK]"
    using rest_received [OF b, of blk q "?t + 1" rest] pq(2) s(3) in_time_split(2) [OF it] by auto
  have e: "?t + 1 + of_nat (length q) + 1 = t + of_nat (length p)" using pq(1) by (simp add: algebra_simps)
  have "unat (?t + 1 + of_nat (length q)) = unat t + k + 1 + length q"
    using in_time_split(3) [of ?L ?t "1 + length q" 1] it u by (simp add: algebra_simps)
  then have "recent (ms_of (?t + 1 + of_nat (length q))) (t + of_nat (length p))"
    using recent_ms [of "?t + 1 + of_nat (length q)"] t pq(1) unfolding e by simp
  moreover have "xm_receive (p @ rest) t x = after blk (xm_receive rest (t + of_nat (length p)) x')"
    unfolding s(1) using receive_round [OF _ rnd] r(1) x1(1) unfolding e
    by (cases "xm_receive rest (t + of_nat (length p)) x'") (auto simp: xmodem_server_is_done_def)
  ultimately show ?thesis using r(2,3) s(4) by auto
qed

section \<open>A sender that falls silent\<close>

definition xm_waiting :: "int \<Rightarrow> nat \<Rightarrow> xmodem_server \<Rightarrow> bool" where
  "xm_waiting L d x \<longleftrightarrow> xm_state x \<in> {SOH, BLOCK_NUM, BLOCK_NEG, DATA, CRC0, CRC1} \<and> last_event_time x = L \<and> 1 \<le> L \<and>
     unat (error_count x) + d = 100 \<and> 0 < d"

lemma waiting_round:
  assumes "xm_waiting L d x"
  shows "ms_of t - L \<le> 1000 \<Longrightarrow> xm_round None t x = Inr ([], x)"
    and "ms_of t - L > 1000 \<Longrightarrow> \<exists>x'. xm_round None t x = Inr ([], x') \<and>
      (if d = 1 then xm_state x' = FAILURE else xm_waiting (ms_of t) (d - 1) x')"
proof -
  have x: "xm_state x \<noteq> START" "xm_state x \<noteq> PROCESS_PACKET" "\<not> xmodem_server_is_done x" "last_event_time x = L" "1 \<le> L"
    "unat (error_count x) + d = 100" "0 < d"
    using assms by (auto simp: xm_waiting_def xmodem_server_is_done_def)
  have e: "\<not> error_count x \<ge> 100" using x(6,7) by (simp add: word_le_nat_alt)
  show "xm_round None t x = Inr ([], x)" if "ms_of t - L \<le> 1000"
    using x e that by (simp add: xm_round_def process_ms xm_timers_def Let_def)
  show "\<exists>x'. xm_round None t x = Inr ([], x') \<and> (if d = 1 then xm_state x' = FAILURE else xm_waiting (ms_of t) (d - 1) x')"
    if "ms_of t - L > 1000"
  proof -
    have u: "unat (error_count x + 1) = unat (error_count x) + 1" using x(6) by (subst unat_add32) simp_all
    have ge: "error_count x + 1 \<ge> 100 \<longleftrightarrow> d = 1" using x(6,7) u by (auto simp: word_le_nat_alt)
    let ?x1 = "(tx_byte XMODEM_NACK (x\<lparr>error_count := error_count x + 1, xm_state := SOH\<rparr>))\<lparr>last_event_time := ms_of t\<rparr>"
    have "xm_timers (ms_of t) x = (if d = 1 then (tx_byte XMODEM_CAN (?x1\<lparr>xm_state := FAILURE\<rparr>))\<lparr>last_event_time := ms_of t\<rparr> else ?x1)"
      using x that ge by (simp add: xm_timers_def Let_def)
    then show ?thesis using x u that by (auto simp: xm_round_def process_ms xm_waiting_def)
  qed
qed

lemma waiting_fails:
  "xm_waiting L d x \<Longrightarrow> 4 * (L + 1001 * int d) < int (unat t) + int n \<Longrightarrow> int (unat t) \<le> 4 * (L + 1001) \<Longrightarrow> unat t + n < 4294967296 \<Longrightarrow>
   \<exists>t' x'. xm_receive (replicate n None) t x = Inr ([], t', x') \<and> xm_state x' = FAILURE"
proof (induction n arbitrary: L d t x)
  case 0
  have "1 \<le> int d" using 0(1) by (simp add: xm_waiting_def)
  moreover have "4 * (L + 1001 * int d) < int (unat t)" using 0(2) by simp
  moreover have False if "1 \<le> D" "4 * (L + 1001 * D) < T" "T \<le> 4 * (L + 1001)" for D T :: int
    using that by (simp add: algebra_simps)
  ultimately have False using 0(3) by blast
  then show ?case ..
next
  case (Suc n)
  have d: "0 < d" "1 \<le> L" using Suc.prems(1) by (simp_all add: xm_waiting_def)
  have nd: "\<not> xmodem_server_is_done x" using Suc.prems(1) by (auto simp: xm_waiting_def xmodem_server_is_done_def)
  have u: "unat (t + 1) = unat t + 1" using Suc.prems(4) by (subst unat_add32) simp_all
  show ?case
  proof (cases "ms_of t - L \<le> 1000")
    case True
    then have "4 * (ms_of t + 1) \<le> 4 * (L + 1001)" by simp
    then have "int (unat t) < 4 * (L + 1001)" by (rule less_le_trans [OF ms_of_bounds(2)])
    then show ?thesis
      using Suc.IH [OF Suc.prems(1), of "t + 1"] waiting_round(1) [OF Suc.prems(1) True] nd Suc.prems(2,4) u by auto
  next
    case False
    then have "ms_of t - L > 1000" by simp
    from waiting_round(2) [OF Suc.prems(1) this] obtain x' where x': "xm_round None t x = Inr ([], x')"
      "if d = 1 then xm_state x' = FAILURE else xm_waiting (ms_of t) (d - 1) x'" by blast
    show ?thesis
    proof (cases "d = 1")
      case True
      then have "xm_state x' = FAILURE" using x'(2) by simp
      then have "xm_receive (replicate n None) (t + 1) x' = Inr ([], t + 1, x')" by (cases n) (simp_all add: xmodem_server_is_done_def)
      then show ?thesis using x'(1) nd \<open>xm_state x' = FAILURE\<close> by simp
    next
      case d1: False
      then have w: "xm_waiting (ms_of t) (d - 1) x'" using x'(2) by simp
      have "ms_of t \<le> L + 1001"
      proof (cases "1 < ms_of t")
        case True
        then have "4 * ms_of t \<le> 4 * (L + 1001)" using Suc.prems(3) by (rule order_trans [OF ms_of_bounds(3)])
        then show ?thesis by simp
      qed (use d(2) in simp)
      then have ms: "4 * ms_of t \<le> 4 * (L + 1001)" "int (unat t) < 4 * (ms_of t + 1)" using ms_of_bounds(2) [of t] by simp_all
      have "4 * (ms_of t + 1001 * int (d - 1)) < int (unat (t + 1)) + int n"
        using Suc.prems(2) d d1 ms u by (simp add: of_nat_diff algebra_simps)
      then show ?thesis using Suc.IH [OF w, of "t + 1"] x'(1) nd Suc.prems(4) u ms(2) by auto
    qed
  qed
qed

section \<open>Properties\<close>

text \<open>C10: A transfer of any file that is a sequence of blocks of 128 and 1024 bytes, after any time of
  waiting, with the bytes of each packet spread over at most 1900 rounds of the receive loop, ends
  with success; what has been written is the blocks in order, and the sender has been sent
  invitations, one acknowledgement for each packet and one for the end.\<close>

theorem xmodem_transfer:
  assumes "\<forall>blk \<in> set blks. length blk = 128 \<or> length blk = 1024"
    and "list_all2 delivers ps (map2 (\<lambda>i. xm_packet (of_nat i)) [0..<length blks] blks)" and "delivers e [XMODEM_EOT]"
    and "k + length (concat ps @ e) < 4294967296"
  shows "\<exists>t x j. xm_receive (replicate k None @ concat ps @ e) 0 xmodem_server_init = Inr (concat blks, t, x) \<and>
    xm_state x = SUCCESSFUL \<and> xm_tx x = XMODEM_C # replicate j XMODEM_C @ replicate (length blks + 1) XMODEM_ACK"
proof -
  let ?x = xmodem_server_init
  have x: "xm_starting 0 ?x" "block_num ?x = 0" "xm_tx ?x = [XMODEM_C]"
    using xm_inv_init by (simp_all add: xm_starting_def xmodem_server_init_def)
  have "unat (0 :: u32) + k < 4294967296" using assms(4) by simp
  then obtain x1 j where s: "xm_receive (replicate k None @ concat ps @ e) 0 ?x = xm_receive (concat ps @ e) (of_nat k) x1"
      "xm_starting (of_nat k) x1" "block_num x1 = 0" "xm_tx x1 = XMODEM_C # replicate j XMODEM_C"
    using start_idle [OF x(1), of k "concat ps @ e"] x(2,3) by auto
  have u: "unat (of_nat k :: u32) = k" using assms(4) by (intro unat_of_nat32) simp
  show ?thesis
  proof (cases blks)
    case Nil
    obtain i e' where e: "e = replicate i None @ Some XMODEM_EOT # e'"
      using assms(3) arrived_Cons [of e XMODEM_EOT "[]"] by (auto simp: delivers_def)
    obtain x2 j' where s2: "xm_receive e (of_nat k) x1 = xm_receive (Some XMODEM_EOT # e') (of_nat k + of_nat i) x2"
        "xm_starting (of_nat k + of_nat i) x2" "xm_tx x2 = xm_tx x1 @ replicate j' XMODEM_C"
      using start_idle [OF s(2), of i "Some XMODEM_EOT # e'"] u assms(4) e by auto
    let ?x3 = "tx_byte XMODEM_ACK (x2\<lparr>xm_state := SUCCESSFUL\<rparr>)"
    have st: "xm_state x2 = START" using s2(2) by (simp add: xm_starting_def)
    have "xm_round (Some XMODEM_EOT) (of_nat k + of_nat i) x2 = Inr ([], ?x3)"
      using st by (simp add: xm_round_def xmodem_server_rx_byte_def rx_soh_def xmodem_server_process_def xmodem_server_is_done_def)
    moreover have "xm_receive e' t ?x3 = Inr ([], t, ?x3)" for t by (cases e') (simp_all add: xmodem_server_is_done_def)
    ultimately have "xm_receive e (of_nat k) x1 = Inr ([], of_nat k + of_nat i + 1, ?x3)"
      unfolding s2(1) using st by (simp add: xmodem_server_is_done_def)
    then show ?thesis using Nil assms(2) s(1,4) s2(3) by (auto simp: replicate_add [symmetric])
  next
    case (Cons blk blks')
    obtain p ps' where ps: "ps = p # ps'" "delivers p (xm_packet 0 blk)"
        "list_all2 delivers ps' (map2 (\<lambda>i. xm_packet (of_nat i)) [1..<Suc (length blks')] blks')"
      using assms(2) Cons by (auto simp: upt_conv_Cons list_all2_Cons2 simp del: upt_Suc)
    have sh: "map2 (\<lambda>i. xm_packet (of_nat i)) [1..<Suc (length blks')] blks' =
        map2 (\<lambda>i. xm_packet (1 + of_nat i)) [0..<length blks'] blks'"
      by (rule nth_equalityI) (simp_all del: upt_Suc)
    let ?t = "of_nat k + of_nat (length p)"
    obtain L x2 j' where r: "xm_receive (p @ concat ps' @ e) (of_nat k) x1 = after blk (xm_receive (concat ps' @ e) ?t x2)"
        "xm_ready L 1 x2" "recent L ?t" "xm_tx x2 = xm_tx x1 @ replicate j' XMODEM_C @ [XMODEM_ACK]"
      using start_packet [OF s(2), of p blk "concat ps' @ e"] ps(1,2) s(3) u assms(1,4) Cons by auto
    have ut: "unat (?t :: u32) = k + length p" using u assms(4) ps(1) by (subst unat_add32) simp_all
    obtain t' x' where "xm_receive (concat ps' @ e) ?t x2 = Inr (concat blks', t', x')" "xm_state x' = SUCCESSFUL"
        "xm_tx x' = xm_tx x2 @ replicate (length blks' + 1) XMODEM_ACK"
      using ready_packets [OF r(2) _ _ assms(3) r(3), of ps' blks'] ps(1,3) sh assms(1,4) ut Cons by auto
    moreover have "replicate j XMODEM_C @ replicate j' XMODEM_C @ [XMODEM_ACK] @ replicate (length blks' + 1) XMODEM_ACK =
        replicate (j + j') XMODEM_C @ replicate (length blks + 1) XMODEM_ACK" using Cons by (simp add: replicate_add)
    ultimately show ?thesis using r(1,4) s(1,4) ps(1) Cons by auto
  qed
qed

lemma arrived_map_Some [simp]: "arrived (map Some bs) = bs"
  by (induction bs) simp_all

lemma delivers_map_Some: "bs \<noteq> [] \<Longrightarrow> length bs \<le> 1900 \<Longrightarrow> delivers (map Some bs) bs"
  by (cases bs rule: rev_cases) (auto simp: delivers_def)

theorem xmodem_transfer_witness:
  "\<exists>t x j. xm_receive (replicate 9 None @ map Some (xm_packet 0 (replicate 128 7)) @ [Some XMODEM_EOT]) 0 xmodem_server_init =
      Inr (replicate 128 7, t, x) \<and>
    xm_state x = SUCCESSFUL \<and> xm_tx x = XMODEM_C # replicate j XMODEM_C @ [XMODEM_ACK, XMODEM_ACK]"
proof -
  have len: "length (xm_packet 0 (replicate 128 7)) = 133" by (simp add: xm_packet_def)
  then have "delivers (map Some (xm_packet 0 (replicate 128 7))) (xm_packet 0 (replicate 128 7))"
    by (intro delivers_map_Some) auto
  moreover have "delivers [Some XMODEM_EOT] [XMODEM_EOT]" by (simp add: delivers_def)
  ultimately show ?thesis
    using xmodem_transfer [of "[replicate 128 7]" "[map Some (xm_packet 0 (replicate 128 7))]" "[Some XMODEM_EOT]" 9] len
    by (auto simp: numeral_2_eq_2)
qed

text \<open>C27: Whatever arrives, the receiver stays inside its buffer, every check of its state holds, and
  what has been written is a sequence of whole packets, one for each block that was counted.\<close>

theorem xmodem_safe:
  "\<exists>pkts t' x'. xm_receive inps t xmodem_server_init = Inr (concat pkts, t', x') \<and> xm_inv x' \<and>
     block_num x' = of_nat (length pkts) \<and> length ` set pkts \<subseteq> {128, 1024}"
proof -
  have "block_num xmodem_server_init = 0" by (simp add: xmodem_server_init_def)
  then show ?thesis using xm_receive_inv [OF xm_inv_init, of inps t] by (simp add: image_subset_iff)
qed

text \<open>C25: A sender that has started and falls silent does not block the receiver: within 400410 rounds
  of the loop the hundred time-outs have passed and the transfer ends in failure.\<close>

theorem xmodem_stalled_ends:
  assumes "xm_state x \<in> {SOH, BLOCK_NUM, BLOCK_NEG, DATA, CRC0, CRC1}" and "error_count x < 100"
    and "1 \<le> last_event_time x" and "last_event_time x \<le> ms_of t" and "400410 \<le> n" and "unat t + n < 4294967296"
  shows "\<exists>t' x'. xm_receive (replicate n None) t x = Inr ([], t', x') \<and> xm_state x' = FAILURE"
proof -
  define L d where "L = last_event_time x" and "d = 100 - unat (error_count x)"
  have e: "unat (error_count x) < 100" using assms(2) by (simp add: word_less_nat_alt)
  have w: "xm_waiting L d x" using assms(1,3) e by (auto simp: xm_waiting_def L_def d_def)
  have d: "0 < d" "d \<le> 100" using e by (simp_all add: d_def)
  note ms = ms_of_bounds [of t]
  show ?thesis
  proof (cases "int (unat t) \<le> 4 * (L + 1001)")
    case True
    then show ?thesis using waiting_fails [OF w, of t n] assms(4-6) d ms by (auto simp: L_def)
  next
    case False
    obtain n' where n: "n = Suc n'" using assms(5) by (cases n) auto
    have u: "unat (t + 1) = unat t + 1" using assms(6) n by (subst unat_add32) simp_all
    have nd: "\<not> xmodem_server_is_done x" using assms(1) by (auto simp: xmodem_server_is_done_def)
    have "ms_of t - L > 1000" using False ms(2) by simp
    from waiting_round(2) [OF w this] obtain x' where x': "xm_round None t x = Inr ([], x')"
      "if d = 1 then xm_state x' = FAILURE else xm_waiting (ms_of t) (d - 1) x'" by blast
    show ?thesis
    proof (cases "d = 1")
      case True
      then have "xm_receive (replicate n' None) (t + 1) x' = Inr ([], t + 1, x')" using x'(2) by (cases n') (simp_all add: xmodem_server_is_done_def)
      then show ?thesis using True x' nd n by simp
    next
      case d1: False
      then show ?thesis using waiting_fails [of "ms_of t" "d - 1" x' "t + 1" n'] x' nd n u assms(5,6) d ms by (auto simp: of_nat_diff)
    qed
  qed
qed

theorem xmodem_stalled_ends_witness:
  "\<exists>t' x'. xm_receive (replicate 400410 None) 4 (xmodem_server_init\<lparr>xm_state := DATA, packet_size := 128, last_event_time := 1\<rparr>) =
     Inr ([], t', x') \<and> xm_state x' = FAILURE"
proof -
  let ?x = "xmodem_server_init\<lparr>xm_state := DATA, packet_size := 128, last_event_time := 1\<rparr>"
  have "error_count ?x < 100" "last_event_time ?x \<le> ms_of 4" "unat (4 :: u32) + 400410 < 4294967296"
    by (simp_all add: xmodem_server_init_def ms_of_eq)
  then show ?thesis using xmodem_stalled_ends [of ?x 4 400410] by simp
qed

text \<open>C30: The checksum of a packet finds every damage that is confined to two neighbouring bytes.\<close>

theorem crc_finds_damage:
  "crc_of (p @ [a, b] @ q) = crc_of (p @ [a', b'] @ q) \<longleftrightarrow> a = a' \<and> b = b'"
  unfolding crc_of_sum by (rule crc16.damage_found)

end
