(* ===== verification/InitProg.thy ===== *)
theory InitProg
  imports UserLib Xmodem
begin

text \<open>
  The init program: the command line interpreter of init/cli.c, the commands of init/icommands.c,
  init/configure.c and init/peekpoke.c, scripts (init/conffile.c) and init/main.c. Command lines are
  strings in the memory of the program and the arguments of a command are the addresses \<open>strtok\<close>
  leaves. What is printed for the user is left out, except that the reports of the configure command are
  values. A command returns, or another program has been started in its place; the breakpoint of
  \<open>i_ebreak\<close> is a fault.
\<close>

section \<open>What the program runs on\<close>

text \<open>
  The kernel and its devices, the address of the literal " ", the block the kernel allocates for the
  arguments of a program, the uninitialised headers of the loader, what interrupts do to the kernel
  before round \<open>n\<close> of a transfer, the addresses of the line buffers \<open>raw_cmdbuf\<close> of \<open>cli\<close>, \<open>buf\<close> of \<open>run_script\<close> and
  \<open>cmdbuf\<close> of \<open>parse_cmd\<close>, the buffer of \<open>i_hexdump\<close>, the uninitialised entry of \<open>i_ls\<close>, and the size of a stream buffer of the C library.
\<close>

record ('f, 'l, 'd, 'v, 's) surroundings =
  su_pl :: "('f, 'l, 'd, 'v, 's) platform"
  su_delim :: addr
  su_tmp :: addr
  su_header :: "byte list"
  su_phdr :: "byte list"
  su_env :: "nat \<Rightarrow> ('f, 'l, 'd, 'v, 's) kernel \<Rightarrow> ('f, 'l, 'd, 'v, 's) kernel"
  su_line :: addr
  su_cmdbuf :: addr
  su_dump :: addr
  su_entry :: dirent
  su_bufsiz :: nat

datatype outcome = Returned | Started addr addr

definition ends :: "(fault + 'a) option \<Rightarrow> fault + 'a" where
  "ends r = bindE (returns r) id"

definition u_call ::
  "(('f, 'l, 'd, 'v, 's) kernel \<Rightarrow> fault + (int \<times> ('f, 'l, 'd, 'v, 's) kernel)) \<Rightarrow> ('f, 'l, 'd, 'v, 's) uproc
    \<Rightarrow> fault + (int \<times> ('f, 'l, 'd, 'v, 's) uproc)" where
  "u_call f u = bindE (f (up_kernel u)) (\<lambda>(rc, k). Inr (sysret rc (with_kernel k u)))"

text \<open>A string argument.\<close>

definition arg :: "addr list \<Rightarrow> nat \<Rightarrow> ('f, 'l, 'd, 'v, 's) uproc \<Rightarrow> fault + string" where
  "arg argv i u = returns (read_cstr (up_mem u) (argv ! i))"

section \<open>Commands on files\<close>

partial_function (option) i_hexdump_loop ::
  "('f, 'l, 'd, 'v, 's) platform \<Rightarrow> int \<Rightarrow> addr \<Rightarrow> u32 \<Rightarrow> ('f, 'l, 'd, 'v, 's) uproc \<Rightarrow> (fault + ('f, 'l, 'd, 'v, 's) uproc) option" where
  "i_hexdump_loop pl fd buf bytecount u =
     (case u_read pl fd buf 256 u of
        Inl e \<Rightarrow> Some (Inl e)
      | Inr (bytes, u1) \<Rightarrow>
          if bytes > 0
          then (case hexdump (up_mem u1) buf bytes bytecount (k_console (up_kernel u1)) of
                  Inl e \<Rightarrow> Some (Inl e)
                | Inr con \<Rightarrow> i_hexdump_loop pl fd buf (bytecount + word_of_int bytes) (with_kernel ((up_kernel u1)\<lparr>k_console := con\<rparr>) u1))
          else Some (Inr u1))"

definition i_hexdump ::
  "('f, 'l, 'd, 'v, 's) surroundings \<Rightarrow> addr list \<Rightarrow> ('f, 'l, 'd, 'v, 's) uproc \<Rightarrow> fault + ('f, 'l, 'd, 'v, 's) uproc" where
  "i_hexdump su argv u =
     (if length argv \<noteq> 2 then Inr u
      else bindE (arg argv 1 u) (\<lambda>name.
      bindE (u_open (su_pl su) name O_RDONLY u) (\<lambda>(fd, u1).
      if fd < 0 then Inr u1
      else bindE (ends (i_hexdump_loop (su_pl su) fd (su_dump su) 0 u1)) (\<lambda>u2.
      bindE (u_close (su_pl su) fd u2) (\<lambda>(_, u3). Inr u3)))))"

text \<open>The entries that are listed are returned with the state.\<close>

partial_function (option) i_ls_loop ::
  "('f, 'l, 'd, 'v, 's) fatfs \<Rightarrow> int \<Rightarrow> dirent \<Rightarrow> dirent list \<Rightarrow> ('f, 'l, 'd, 'v, 's) uproc
    \<Rightarrow> (fault + (dirent list \<times> ('f, 'l, 'd, 'v, 's) uproc)) option" where
  "i_ls_loop ff dhnd entry listed u =
     (case SYS_readdir ff dhnd entry (up_kernel u) of
        Inl e \<Rightarrow> Some (Inl e)
      | Inr (rc, entry1, k) \<Rightarrow>
          (case sysret rc (with_kernel k u) of (rc1, u1) \<Rightarrow>
             if rc1 \<ge> 0 \<and> d_name entry1 \<noteq> ''''
             then i_ls_loop ff dhnd entry1 (listed @ [entry1]) u1
             else Some (Inr (listed, u1))))"

definition i_ls ::
  "('f, 'l, 'd, 'v, 's) surroundings \<Rightarrow> ('f, 'l, 'd, 'v, 's) uproc \<Rightarrow> fault + (dirent list \<times> ('f, 'l, 'd, 'v, 's) uproc)" where
  "i_ls su u =
     bindE (u_call (SYS_opendir (pl_fat (su_pl su)) '''') u) (\<lambda>(dhnd, u1).
     if dhnd < 0 then Inr ([], u1)
     else bindE (ends (i_ls_loop (pl_fat (su_pl su)) dhnd (su_entry su) [] u1)) (\<lambda>(listed, u2).
     bindE (u_call (SYS_closedir (pl_fat (su_pl su)) dhnd) u2) (\<lambda>(_, u3). Inr (listed, u3))))"

text \<open>\<open>i_mkdir\<close>, \<open>i_chdir\<close> and \<open>i_rm\<close> pass their argument to one call; the mode of \<open>mkdir\<close> is not used by the kernel.\<close>

definition i_path_command ::
  "(string \<Rightarrow> ('f, 'l, 'd, 'v, 's) kernel \<Rightarrow> fault + (int \<times> ('f, 'l, 'd, 'v, 's) kernel)) \<Rightarrow> addr list
    \<Rightarrow> ('f, 'l, 'd, 'v, 's) uproc \<Rightarrow> fault + ('f, 'l, 'd, 'v, 's) uproc" where
  "i_path_command call argv u =
     (if length argv \<noteq> 2 then Inr u
      else bindE (arg argv 1 u) (\<lambda>name. bindE (u_call (call name) u) (\<lambda>(_, u1). Inr u1)))"

definition i_mkdir where "i_mkdir su = i_path_command (SYS_mkdir (pl_fat (su_pl su)))"
definition i_chdir where "i_chdir su = i_path_command (SYS_chdir (pl_fat (su_pl su)))"
definition i_rm where "i_rm su = i_path_command (SYS_unlink (pl_fat (su_pl su)))"

section \<open>Receiving a file\<close>

text \<open>\<open>xm_tx_byte\<close>: the bytes the receiver sends, one write each.\<close>

primrec xm_send :: "('f, 'l, 'd, 'v, 's) platform \<Rightarrow> byte list \<Rightarrow> ('f, 'l, 'd, 'v, 's) uproc \<Rightarrow> fault + ('f, 'l, 'd, 'v, 's) uproc" where
  "xm_send pl [] u = Inr u"
| "xm_send pl (b # bs) u = bindE (u_write pl 1 [b] u) (\<lambda>(_, u1). xm_send pl bs u1)"

text \<open>\<open>xm_rx_byte\<close>: the buffer is not initialised, so that a read that fails leaves it undefined.\<close>

definition xm_rx_byte ::
  "('f, 'l, 'd, 'v, 's) platform \<Rightarrow> ('f, 'l, 'd, 'v, 's) uproc \<Rightarrow> fault + (byte \<times> ('f, 'l, 'd, 'v, 's) uproc)" where
  "xm_rx_byte pl u =
     bindE (SYS_read pl 0 [0] (up_kernel u)) (\<lambda>(rc, bs, k).
     if rc \<le> 0 then Inl Uninitialised else Inr (bs ! 0, with_kernel k u))"

text \<open>One round on the kernel: a byte if there is one, the state machine, the bytes it sends, the block it hands on.\<close>

definition i_receive_round ::
  "('f, 'l, 'd, 'v, 's) platform \<Rightarrow> int \<Rightarrow> u32 \<Rightarrow> xmodem_server \<Rightarrow> ('f, 'l, 'd, 'v, 's) uproc
    \<Rightarrow> fault + (xmodem_server \<times> ('f, 'l, 'd, 'v, 's) uproc)" where
  "i_receive_round pl fd faketime x u =
     bindE (fd_peek_call 0 u) (\<lambda>(n, u1).
     bindE (if n > 0 then bindE (xm_rx_byte pl u1) (\<lambda>(b, u2). Inr (Some b, u2)) else Inr (None, u1)) (\<lambda>(inp, u2).
     bindE (xm_round inp faketime x) (\<lambda>(resp, x1).
     bindE (xm_send pl (drop (length (xm_tx x)) (xm_tx x1)) u2) (\<lambda>u3.
     if resp = [] then Inr (x1, u3)
     else bindE (u_write pl fd resp u3) (\<lambda>(_, u4). Inr (x1, u4))))))"

partial_function (option) i_receive_loop ::
  "('f, 'l, 'd, 'v, 's) surroundings \<Rightarrow> int \<Rightarrow> nat \<Rightarrow> u32 \<Rightarrow> xmodem_server \<Rightarrow> ('f, 'l, 'd, 'v, 's) uproc
    \<Rightarrow> (fault + (xmodem_server \<times> ('f, 'l, 'd, 'v, 's) uproc)) option" where
  "i_receive_loop su fd n faketime x u =
     (if xmodem_server_is_done x then Some (Inr (x, u))
      else case i_receive_round (su_pl su) fd faketime x (with_kernel (su_env su n (up_kernel u)) u) of
             Inl e \<Rightarrow> Some (Inl e)
           | Inr (x1, u1) \<Rightarrow> i_receive_loop su fd (Suc n) (faketime + 1) x1 u1)"

definition i_receive_xmodem ::
  "('f, 'l, 'd, 'v, 's) surroundings \<Rightarrow> addr list \<Rightarrow> ('f, 'l, 'd, 'v, 's) uproc \<Rightarrow> fault + ('f, 'l, 'd, 'v, 's) uproc" where
  "i_receive_xmodem su argv u =
     (if length argv \<noteq> 2 then Inr u
      else bindE (arg argv 1 u) (\<lambda>name.
      bindE (u_open (su_pl su) name (FCREAT OR O_WRONLY) u) (\<lambda>(fd, u1).
      if fd < 0 then Inr u1
      else bindE (ioctl 0 CONSOLE_SET_RAW [] u1) (\<lambda>(_, _, u2).
      let x = xmodem_server_init in
      bindE (xm_send (su_pl su) (xm_tx x) u2) (\<lambda>u3.
      bindE (ends (i_receive_loop su fd 0 0 x u3)) (\<lambda>(_, u4).
      bindE (u_close (su_pl su) fd u4) (\<lambda>(_, u5).
      bindE (ioctl 0 CONSOLE_SET_INTERACTIVE [] u5) (\<lambda>(_, _, u6). Inr u6))))))))"

section \<open>Memory commands\<close>

text \<open>init/peekpoke.c repeats the functions of system/hexdump.c word for word, \<open>hextoint\<close> included, and prints with
  the same \<open>printk\<close>.\<close>

definition i_peek :: "addr list \<Rightarrow> ('f, 'l, 'd, 'v, 's) uproc \<Rightarrow> fault + ('f, 'l, 'd, 'v, 's) uproc" where
  "i_peek argv u = bindE (super_peek argv (up_mc u)) (\<lambda>mc. Inr (u\<lparr>up_mc := mc\<rparr>))"

definition i_poke :: "addr list \<Rightarrow> ('f, 'l, 'd, 'v, 's) uproc \<Rightarrow> fault + ('f, 'l, 'd, 'v, 's) uproc" where
  "i_poke argv u = bindE (super_poke argv (up_mc u)) (\<lambda>mc. Inr (u\<lparr>up_mc := mc\<rparr>))"

definition i_ebreak :: "fault + ('f, 'l, 'd, 'v, 's) uproc" where
  "i_ebreak = Inl Breakpoint"

section \<open>Configuration\<close>

text \<open>What the configure command prints.\<close>

datatype report =
  Silent | Usage | Failed | No_Such_Item | Not_Configured | Station byte | Invalid_Station
| Clock u16 bool | Invalid_Divider | Termination bool

text \<open>\<open>atoi\<close> of the C library: white space, a sign, digits; values that do not fit are clamped.\<close>

definition is_space :: "char \<Rightarrow> bool" where
  "is_space c \<longleftrightarrow> (let n = of_char c :: nat in n = 32 \<or> 9 \<le> n \<and> n \<le> 13)"

definition is_dec :: "char \<Rightarrow> bool" where
  "is_dec c \<longleftrightarrow> (let n = of_char c :: nat in 48 \<le> n \<and> n \<le> 57)"

definition digits_value :: "string \<Rightarrow> int" where
  "digits_value s = foldl (\<lambda>n c. 10 * n + (of_char c - 48)) 0 (takeWhile is_dec s)"

definition atoi :: "string \<Rightarrow> int" where
  "atoi s =
     (let t = dropWhile is_space s;
          v = (case t of [] \<Rightarrow> 0 | c # cs \<Rightarrow> if c = CHR ''-'' then - digits_value cs else if c = CHR ''+'' then digits_value cs else digits_value t)
      in max (- 2147483648) (min 2147483647 v))"

abbreviation CLOCK_ENABLE :: u16 where "CLOCK_ENABLE \<equiv> 1"
abbreviation TERM_ENABLE :: u16 where "TERM_ENABLE \<equiv> 2"

text \<open>Closing the descriptor before a report, the label \<open>cleanup\<close> of every function.\<close>

definition cleanup ::
  "('f, 'l, 'd, 'v, 's) platform \<Rightarrow> int \<Rightarrow> report \<Rightarrow> ('f, 'l, 'd, 'v, 's) uproc \<Rightarrow> fault + (report \<times> ('f, 'l, 'd, 'v, 's) uproc)" where
  "cleanup pl fd r u = bindE (u_close pl fd u) (\<lambda>(_, u1). Inr (r, u1))"

definition cfg_station ::
  "('f, 'l, 'd, 'v, 's) platform \<Rightarrow> addr list \<Rightarrow> ('f, 'l, 'd, 'v, 's) uproc \<Rightarrow> fault + (report \<times> ('f, 'l, 'd, 'v, 's) uproc)" where
  "cfg_station pl argv u =
     bindE (u_open pl ''/dev/econet'' O_RDWR u) (\<lambda>(fd, u1).
     if fd < 0 then Inr (Failed, u1)
     else if length argv = 1
     then bindE (ioctl fd ECONET_GET_ADDR [] u1) (\<lambda>(rc, bs, u2).
          if rc < 0 then cleanup pl fd Failed u2
          else if bs ! 0 = 0 then cleanup pl fd Not_Configured u2
          else cleanup pl fd (Station (bs ! 0)) u2)
     else bindE (arg argv 1 u1) (\<lambda>s.
          let station = word_of_int (atoi s) :: byte in
          if station = 0 then cleanup pl fd Invalid_Station u1
          else bindE (ioctl fd (ECONET_SET_ADDR OR ucast station) [] u1) (\<lambda>(rc, _, u2).
               cleanup pl fd (if rc < 0 then Failed else Silent) u2)))"

definition get_clkterm :: "int \<Rightarrow> ('f, 'l, 'd, 'v, 's) uproc \<Rightarrow> fault + (u16 \<times> ('f, 'l, 'd, 'v, 's) uproc)" where
  "get_clkterm fd u =
     bindE (ioctl fd ECONET_GET_CLKTERM [] u) (\<lambda>(rc, bs, u1).
     Inr (if rc < 0 then 0xFFFF else u16_of_bytes (bs ! 0) (bs ! 1), u1))"

definition cfg_netclock ::
  "('f, 'l, 'd, 'v, 's) platform \<Rightarrow> addr list \<Rightarrow> ('f, 'l, 'd, 'v, 's) uproc \<Rightarrow> fault + (report \<times> ('f, 'l, 'd, 'v, 's) uproc)" where
  "cfg_netclock pl argv u =
     bindE (u_open pl ''/dev/econet'' O_RDWR u) (\<lambda>(fd, u1).
     if fd < 0 then Inr (Failed, u1)
     else bindE (get_clkterm fd u1) (\<lambda>(clkterm, u2).
     if clkterm = 0xFFFF then cleanup pl fd Failed u2
     else if length argv = 1 then cleanup pl fd (Clock (drop_bit 8 clkterm) (clkterm AND CLOCK_ENABLE \<noteq> 0)) u2
     else bindE (if length argv > 2 then bindE (arg argv 2 u2) (\<lambda>s. Inr (s = ''enable'')) else Inr False) (\<lambda>en.
     let c1 = (if en then clkterm OR CLOCK_ENABLE else clkterm AND (0xFFFF XOR CLOCK_ENABLE)) in
     bindE (arg argv 1 u2) (\<lambda>s.
     let divider = atoi s in
     if 0 < divider \<and> divider < 8
     then let c2 = (c1 AND 0xFF) OR push_bit 8 (word_of_int divider) in
          bindE (ioctl fd (ECONET_SET_CLKTERM OR ucast c2) [] u2) (\<lambda>(rc, _, u3).
          cleanup pl fd (if rc < 0 then Failed else Silent) u3)
     else cleanup pl fd Invalid_Divider u2))))"

definition cfg_netterminate ::
  "('f, 'l, 'd, 'v, 's) platform \<Rightarrow> addr list \<Rightarrow> ('f, 'l, 'd, 'v, 's) uproc \<Rightarrow> fault + (report \<times> ('f, 'l, 'd, 'v, 's) uproc)" where
  "cfg_netterminate pl argv u =
     bindE (u_open pl ''/dev/econet'' O_RDWR u) (\<lambda>(fd, u1).
     if fd < 0 then Inr (Failed, u1)
     else bindE (get_clkterm fd u1) (\<lambda>(clkterm, u2).
     if clkterm = 0xFFFF then cleanup pl fd Failed u2
     else if length argv = 1 then cleanup pl fd (Termination (clkterm AND TERM_ENABLE \<noteq> 0)) u2
     else bindE (arg argv 1 u2) (\<lambda>s.
          let c = (if s = ''on'' then clkterm OR TERM_ENABLE else clkterm AND (0xFFFF XOR TERM_ENABLE)) in
          bindE (ioctl fd (ECONET_SET_CLKTERM OR ucast c) [] u2) (\<lambda>(rc, _, u3).
          cleanup pl fd (if rc < 0 then Failed else Silent) u3))))"

definition i_configure ::
  "('f, 'l, 'd, 'v, 's) platform \<Rightarrow> addr list \<Rightarrow> ('f, 'l, 'd, 'v, 's) uproc \<Rightarrow> fault + (report \<times> ('f, 'l, 'd, 'v, 's) uproc)" where
  "i_configure pl argv u =
     (if length argv < 2 then Inr (Usage, u)
      else let cfg_argv = tl argv in
      bindE (arg cfg_argv 0 u) (\<lambda>item.
      if item = ''netstation'' then cfg_station pl cfg_argv u
      else if item = ''netclock'' then cfg_netclock pl cfg_argv u
      else if item = ''netterminate'' then cfg_netterminate pl cfg_argv u
      else Inr (No_Such_Item, u)))"

section \<open>The command line\<close>

datatype icommand =
  I_ebreak | I_receive_xmodem | I_hexdump | I_ls | I_configure | I_mkdir | I_chdir | I_rm | I_poke | I_peek

definition commands :: "(string \<times> icommand) list" where
  "commands =
     [(''ebreak'', I_ebreak), (''rx'', I_receive_xmodem), (''hexdump'', I_hexdump), (''ls'', I_ls), (''configure'', I_configure),
      (''mkdir'', I_mkdir), (''cd'', I_chdir), (''rm'', I_rm), (''poke'', I_poke), (''peek'', I_peek)]"

definition cmdfunc ::
  "('f, 'l, 'd, 'v, 's) surroundings \<Rightarrow> icommand \<Rightarrow> addr list \<Rightarrow> ('f, 'l, 'd, 'v, 's) uproc \<Rightarrow> fault + ('f, 'l, 'd, 'v, 's) uproc" where
  "cmdfunc su c argv u =
     (case c of
        I_ebreak \<Rightarrow> i_ebreak
      | I_receive_xmodem \<Rightarrow> i_receive_xmodem su argv u
      | I_hexdump \<Rightarrow> i_hexdump su argv u
      | I_ls \<Rightarrow> bindE (i_ls su u) (\<lambda>(_, u1). Inr u1)
      | I_configure \<Rightarrow> bindE (i_configure (su_pl su) argv u) (\<lambda>(_, u1). Inr u1)
      | I_mkdir \<Rightarrow> i_mkdir su argv u
      | I_chdir \<Rightarrow> i_chdir su argv u
      | I_rm \<Rightarrow> i_rm su argv u
      | I_poke \<Rightarrow> i_poke argv u
      | I_peek \<Rightarrow> i_peek argv u)"

text \<open>\<open>strncmp\<close> with the length of the name is zero when the bytes of the name stand in the buffer.\<close>

fun internal_command :: "(string \<times> icommand) list \<Rightarrow> mem \<Rightarrow> addr \<Rightarrow> icommand option" where
  "internal_command [] m cmdbuf = None"
| "internal_command ((cmd, f) # tptr) m cmdbuf =
     (let clen = length cmd; c = m (cmdbuf + of_nat clen) in
      if (c = 32 \<or> c = 0) \<and> load_bytes m cmdbuf clen = text_bytes cmd then Some f
      else internal_command tptr m cmdbuf)"

abbreviation INIT_MAXARGS :: nat where "INIT_MAXARGS \<equiv> 7"

definition run_internal_command ::
  "('f, 'l, 'd, 'v, 's) surroundings \<Rightarrow> icommand \<Rightarrow> addr \<Rightarrow> ('f, 'l, 'd, 'v, 's) uproc \<Rightarrow> fault + ('f, 'l, 'd, 'v, 's) uproc" where
  "run_internal_command su c cmdbuf u =
     bindE (returns (strtok_line INIT_MAXARGS (up_mem u) cmdbuf (su_delim su) (mc_strtok (up_mc u)))) (\<lambda>(args, m, lst).
     cmdfunc su c args (u\<lparr>up_mc := (up_mc u)\<lparr>mc_mem := m, mc_strtok := lst\<rparr>\<rparr>))"

definition comment :: "mem \<Rightarrow> addr \<Rightarrow> bool" where
  "comment m cmd \<longleftrightarrow> m cmd = 35"

text \<open>\<open>strcpy\<close> of the C library.\<close>

definition strcpy :: "mem \<Rightarrow> addr \<Rightarrow> addr \<Rightarrow> fault + mem" where
  "strcpy m dest src = bindE (returns (strlen m src)) (\<lambda>n. Inr (store_bytes m dest (load_bytes m src (unat n + 1))))"

text \<open>The loop that clears the trailing spaces and control characters of a string of length \<open>n\<close>; characters are unsigned.\<close>

primrec clean_trim :: "addr \<Rightarrow> nat \<Rightarrow> mem \<Rightarrow> nat \<times> mem" where
  "clean_trim dest 0 m = (0, m)"
| "clean_trim dest (Suc i) m =
     (if m (dest + of_nat i) > 32 then (Suc i, m) else clean_trim dest i (m(dest + of_nat i := 0)))"

definition clean_cmdbuf :: "mem \<Rightarrow> addr \<Rightarrow> addr \<Rightarrow> nat \<Rightarrow> fault + (nat \<times> mem)" where
  "clean_cmdbuf m dest src sz =
     (case for_find (\<lambda>i. m (src + of_nat i) \<noteq> 32) 0 sz of
        None \<Rightarrow> Inr (0, m)
      | Some i \<Rightarrow>
          bindE (strcpy m dest (src + of_nat i)) (\<lambda>m1.
          bindE (returns (strlen m1 dest)) (\<lambda>len. Inr (clean_trim dest (unat len) m1))))"

text \<open>\<open>sizeof(raw_cmdbuf)\<close> in \<open>parse_cmd\<close> is the size of a pointer.\<close>

abbreviation SIZEOF_POINTER :: nat where "SIZEOF_POINTER \<equiv> 4"

definition exec_elf ::
  "('f, 'l, 'd, 'v, 's) surroundings \<Rightarrow> addr \<Rightarrow> ('f, 'l, 'd, 'v, 's) uproc \<Rightarrow> fault + (outcome \<times> ('f, 'l, 'd, 'v, 's) uproc)" where
  "exec_elf su args u =
     bindE (ends (elf_run (su_pl su) (su_delim su) (su_tmp su) args (su_header su) (su_phdr su) (up_mc u))) (\<lambda>(r, mc).
     let u1 = u\<lparr>up_mc := mc\<rparr> in
     case r of
       Run sp s \<Rightarrow> Inr (Started sp s, u1)
     | Not_Run None \<Rightarrow> Inl Uninitialised
     | Not_Run (Some rc) \<Rightarrow> Inr (Returned, snd (sysret rc u1)))"

definition parse_cmd ::
  "('f, 'l, 'd, 'v, 's) surroundings \<Rightarrow> addr \<Rightarrow> ('f, 'l, 'd, 'v, 's) uproc \<Rightarrow> fault + (outcome \<times> ('f, 'l, 'd, 'v, 's) uproc)" where
  "parse_cmd su raw_cmdbuf u =
     (let cmdbuf = su_cmdbuf su in
      bindE (clean_cmdbuf (store_bytes (up_mem u) cmdbuf (replicate 256 0)) cmdbuf raw_cmdbuf SIZEOF_POINTER) (\<lambda>(bytes, m).
      let u1 = with_mem m u in
      if bytes \<noteq> 0 \<and> \<not> comment m cmdbuf
      then case internal_command commands m cmdbuf of
             Some entry \<Rightarrow> bindE (run_internal_command su entry cmdbuf u1) (\<lambda>u2. Inr (Returned, u2))
           | None \<Rightarrow> exec_elf su cmdbuf u1
      else Inr (Returned, u1)))"

text \<open>One round of \<open>cli\<close>; \<open>None\<close> ends the loop with -1.\<close>

definition cli_round ::
  "('f, 'l, 'd, 'v, 's) surroundings \<Rightarrow> int \<Rightarrow> ('f, 'l, 'd, 'v, 's) uproc \<Rightarrow> fault + (outcome option \<times> ('f, 'l, 'd, 'v, 's) uproc)" where
  "cli_round su fd u =
     bindE (u_write (su_pl su) 1 (text_bytes ''*> '') u) (\<lambda>(_, u1).
     bindE (u_read (su_pl su) fd (su_line su) 255 (with_mem (store_bytes (up_mem u1) (su_line su) (replicate 256 0)) u1)) (\<lambda>(bytes, u2).
     if bytes < 0 then Inr (None, u2)
     else bindE (parse_cmd su (su_line su) u2) (\<lambda>(r, u3). Inr (Some r, u3))))"

partial_function (option) cli_loop ::
  "('f, 'l, 'd, 'v, 's) surroundings \<Rightarrow> int \<Rightarrow> ('f, 'l, 'd, 'v, 's) uproc
    \<Rightarrow> (fault + (outcome option \<times> ('f, 'l, 'd, 'v, 's) uproc)) option" where
  "cli_loop su fd u =
     (case cli_round su fd u of
        Inl e \<Rightarrow> Some (Inl e)
      | Inr (r, u1) \<Rightarrow> if r = Some Returned then cli_loop su fd u1 else Some (Inr (r, u1)))"

definition cli ::
  "('f, 'l, 'd, 'v, 's) surroundings \<Rightarrow> int \<Rightarrow> ('f, 'l, 'd, 'v, 's) uproc
    \<Rightarrow> (fault + (outcome option \<times> ('f, 'l, 'd, 'v, 's) uproc)) option" where
  "cli su fd u =
     (case (if fd = 0 then bindE (ioctl fd CONSOLE_SET_INTERACTIVE [] u) (\<lambda>(_, _, u1). Inr u1) else Inr u) of
        Inl e \<Rightarrow> Some (Inl e)
      | Inr u1 \<Rightarrow> cli_loop su fd u1)"

section \<open>Scripts\<close>

text \<open>A stream of the C library: its descriptor, the bytes that have been read ahead, and whether the end has been seen.\<close>

record stream =
  st_fd :: int
  st_ahead :: "byte list"
  st_eof :: bool

definition stream_getc ::
  "('f, 'l, 'd, 'v, 's) surroundings \<Rightarrow> stream \<Rightarrow> ('f, 'l, 'd, 'v, 's) uproc \<Rightarrow> fault + (byte option \<times> stream \<times> ('f, 'l, 'd, 'v, 's) uproc)" where
  "stream_getc su st u =
     (case st_ahead st of
        b # bs \<Rightarrow> Inr (Some b, st\<lparr>st_ahead := bs\<rparr>, u)
      | [] \<Rightarrow>
          if st_eof st then Inr (None, st, u)
          else bindE (SYS_read (su_pl su) (st_fd st) (replicate (su_bufsiz su) 0) (up_kernel u)) (\<lambda>(rc, bs, k).
               let u1 = snd (sysret rc (with_kernel k u)) in
               Inr (case take (nat rc) bs of
                      [] \<Rightarrow> (None, st\<lparr>st_eof := True\<rparr>, u1)
                    | b # bs' \<Rightarrow> (Some b, st\<lparr>st_ahead := bs'\<rparr>, u1))))"

primrec fgets_loop ::
  "('f, 'l, 'd, 'v, 's) surroundings \<Rightarrow> nat \<Rightarrow> stream \<Rightarrow> ('f, 'l, 'd, 'v, 's) uproc
    \<Rightarrow> fault + (byte list \<times> stream \<times> ('f, 'l, 'd, 'v, 's) uproc)" where
  "fgets_loop su 0 st u = Inr ([], st, u)"
| "fgets_loop su (Suc n) st u =
     bindE (stream_getc su st u) (\<lambda>(c, st1, u1).
     case c of
       None \<Rightarrow> Inr ([], st1, u1)
     | Some b \<Rightarrow> if b = 10 then Inr ([b], st1, u1)
                 else bindE (fgets_loop su n st1 u1) (\<lambda>(bs, st2, u2). Inr (b # bs, st2, u2)))"

definition fgets ::
  "('f, 'l, 'd, 'v, 's) surroundings \<Rightarrow> addr \<Rightarrow> nat \<Rightarrow> stream \<Rightarrow> ('f, 'l, 'd, 'v, 's) uproc
    \<Rightarrow> fault + (bool \<times> stream \<times> ('f, 'l, 'd, 'v, 's) uproc)" where
  "fgets su buf n st u =
     bindE (fgets_loop su (n - 1) st u) (\<lambda>(bs, st1, u1).
     Inr (if bs = [] then (False, st1, u1) else (True, st1, with_mem (store_bytes (up_mem u1) buf (bs @ [0])) u1)))"

partial_function (option) run_script_loop ::
  "('f, 'l, 'd, 'v, 's) surroundings \<Rightarrow> stream \<Rightarrow> ('f, 'l, 'd, 'v, 's) uproc
    \<Rightarrow> (fault + (outcome \<times> ('f, 'l, 'd, 'v, 's) uproc)) option" where
  "run_script_loop su st u =
     (case fgets su (su_line su) 256 st u of
        Inl e \<Rightarrow> Some (Inl e)
      | Inr (got, st1, u1) \<Rightarrow>
          if \<not> got then Some (Inr (Returned, u1))
          else case parse_cmd su (su_line su) u1 of
                 Inl e \<Rightarrow> Some (Inl e)
               | Inr (r, u2) \<Rightarrow> if r = Returned then run_script_loop su st1 u2 else Some (Inr (r, u2)))"

definition run_script ::
  "('f, 'l, 'd, 'v, 's) surroundings \<Rightarrow> string \<Rightarrow> ('f, 'l, 'd, 'v, 's) uproc
    \<Rightarrow> fault + (outcome \<times> int \<times> ('f, 'l, 'd, 'v, 's) uproc)" where
  "run_script su filename u =
     bindE (u_open (su_pl su) filename O_RDONLY u) (\<lambda>(fd, u1).
     if fd < 0 then Inr (Returned, - 1, u1)
     else bindE (ends (run_script_loop su \<lparr>st_fd = fd, st_ahead = [], st_eof = False\<rparr> u1)) (\<lambda>(r, u2).
     if r \<noteq> Returned then Inr (r, 0, u2)
     else bindE (u_close (su_pl su) fd u2) (\<lambda>(_, u3). Inr (Returned, 0, u3))))"

text \<open>\<open>main\<close>: a cold start mounts the flash file system and runs \<open>boot.rc\<close> before the command line.\<close>

definition init_main ::
  "('f, 'l, 'd, 'v, 's) surroundings \<Rightarrow> string list \<Rightarrow> ('f, 'l, 'd, 'v, 's) uproc
    \<Rightarrow> (fault + (outcome option \<times> ('f, 'l, 'd, 'v, 's) uproc)) option" where
  "init_main su argv u =
     (if length argv > 1 \<and> argv ! 1 = ''cold''
      then case bindE (u_call (SYS_mount (pl_fat (su_pl su)) ''flash'' ''fatfs'') u) (\<lambda>(_, u1). run_script su ''boot.rc'' u1) of
             Inl e \<Rightarrow> Some (Inl e)
           | Inr (Returned, _, u2) \<Rightarrow> cli su 0 u2
           | Inr (Started sp s, _, u2) \<Rightarrow> Some (Inr (Some (Started sp s), u2))
      else cli su 0 u)"

section \<open>What a command line means\<close>

text \<open>
  The command in a line: trailing spaces and control characters and leading spaces are removed, but a
  line that starts with four spaces holds no command, because the search for the first other
  character stops after the size of a pointer.
\<close>

definition trimmed :: "byte list \<Rightarrow> byte list" where
  "trimmed s = rev (dropWhile (\<lambda>c. c \<le> 32) (rev s))"

definition cleaned :: "byte list \<Rightarrow> byte list" where
  "cleaned line = (if take 4 line = replicate 4 32 then [] else trimmed (dropWhile (\<lambda>c. c = 32) line))"

definition named_commands :: "(byte list \<times> icommand) list" where
  "named_commands = map (\<lambda>(cmd, f). (text_bytes cmd, f)) commands"

lemma skip_spaces:
  assumes "cstr m p line"
  shows "for_find (\<lambda>i. m (p + of_nat i) \<noteq> 32) 0 4 =
    (if take 4 line = replicate 4 32 then None else Some (length (takeWhile (\<lambda>c. c = 32) line)))"
proof -
  let ?n = "length (takeWhile (\<lambda>c. c = 32) line)"
  have at: "m (p + of_nat i) = line ! i" if "i < length line" for i using cstr_nth [OF assms that] .
  have eq: "m (p + of_nat i) = 32" if "i < ?n" for i
    using that at [of i] nth_mem [OF that] length_takeWhile_le [of "\<lambda>c. c = 32" line]
    by (auto simp: takeWhile_nth dest: set_takeWhileD)
  have ne: "m (p + of_nat ?n) \<noteq> 32"
  proof (cases "?n < length line")
    case True
    then show ?thesis using nth_length_takeWhile [of "\<lambda>c. c = 32" line] at by auto
  next
    case False
    then have "?n = length line" using length_takeWhile_le [of "\<lambda>c. c = 32" line] by linarith
    then show ?thesis using cstr_end [OF assms] by simp
  qed
  have "take 4 line = replicate 4 32 \<longleftrightarrow> 4 \<le> ?n"
  proof
    assume a: "take 4 line = replicate 4 32"
    have "takeWhile (\<lambda>c. c = 32) (replicate 4 32 @ drop 4 line) = replicate 4 32 @ takeWhile (\<lambda>c. c = 32) (drop 4 line)"
      by (intro takeWhile_append2) auto
    then have "takeWhile (\<lambda>c. c = 32) line = replicate 4 32 @ takeWhile (\<lambda>c. c = 32) (drop 4 line)"
      using a append_take_drop_id [of 4 line] by metis
    then show "4 \<le> ?n" by simp
  next
    assume b: "4 \<le> ?n"
    then have l: "4 \<le> length line" using length_takeWhile_le [of "\<lambda>c. c = 32" line] by linarith
    have "line ! i = 32" if "i < 4" for i using eq [of i] at [of i] that b l by simp
    then show "take 4 line = replicate 4 32" using l by (intro nth_equalityI) auto
  qed
  then show ?thesis using eq ne by (auto simp: for_find_Some for_find_None)
qed

lemma clean_trim_eq:
  assumes "cstr m p s" and "unat p + length s < 4294967296"
  shows "\<exists>m'. clean_trim p (length s) m = (length (trimmed s), m') \<and> cstr m' p (trimmed s) \<and>
    changed_within (unat p) (unat p + length s) m m'"
  using assms
proof (induction s arbitrary: m rule: rev_induct)
  case (snoc c s)
  have c: "m (p + of_nat (length s)) = c" using cstr_nth [OF snoc.prems(1), of "length s"] by simp
  show ?case
  proof (cases "c > 32")
    case True
    then show ?thesis using snoc.prems(1) c by (auto simp: trimmed_def)
  next
    case False
    define m1 where "m1 = m(p + of_nat (length s) := 0)"
    have "cstr m1 p s"
      using snoc.prems by (simp add: m1_def cstr_iff load_bytes_upd_past load_bytes_Suc_last)
    then obtain m' where "clean_trim p (length s) m1 = (length (trimmed s), m')" "cstr m' p (trimmed s)"
        "changed_within (unat p) (unat p + length s) m1 m'"
      using snoc.IH [of m1] snoc.prems(2) by auto
    moreover have "changed_within (unat p) (unat p + length (s @ [c])) m m1"
      using snoc.prems(2) unat_plus_of_nat [of p "length s"] by (auto simp: changed_within_def m1_def)
    ultimately show ?thesis using False c by (auto simp: trimmed_def m1_def intro: changed_within_trans)
  qed
qed (simp add: trimmed_def)

lemma command_name:
  assumes "cstr m p s" and "0 \<notin> set n" and "32 \<notin> set n"
  shows "(m (p + of_nat (length n)) = 32 \<or> m (p + of_nat (length n)) = 0) \<and> load_bytes m p (length n) = n \<longleftrightarrow>
    takeWhile (\<lambda>c. c \<noteq> 32) s = n"
proof
  assume l: "(m (p + of_nat (length n)) = 32 \<or> m (p + of_nat (length n)) = 0) \<and> load_bytes m p (length n) = n"
  then have nth: "m (p + of_nat i) = n ! i" if "i < length n" for i using that nth_load_bytes [of i "length n" m p] by simp
  have le: "length n \<le> length s"
  proof (rule ccontr)
    assume "\<not> length n \<le> length s"
    then have "n ! length s = 0" using nth [of "length s"] cstr_end [OF assms(1)] by simp
    moreover have "n ! length s \<in> set n" using \<open>\<not> length n \<le> length s\<close> by simp
    ultimately show False using assms(2) by simp
  qed
  have "take (length n) s = n" using nth le cstr_nth [OF assms(1)] by (intro nth_equalityI) auto
  then obtain r where r: "s = n @ r" by (metis append_take_drop_id)
  have "r = [] \<or> hd r = 32"
  proof (cases r)
    case (Cons a r')
    then have "m (p + of_nat (length n)) = a" "a \<noteq> 0" using cstr_nth [OF assms(1), of "length n"] cstr_nonzero [OF assms(1)] r by auto
    then show ?thesis using l Cons by simp
  qed simp
  then show "takeWhile (\<lambda>c. c \<noteq> 32) s = n" using assms(3) r by (cases r) (auto simp: takeWhile_append)
next
  assume t: "takeWhile (\<lambda>c. c \<noteq> 32) s = n"
  let ?r = "dropWhile (\<lambda>c. c \<noteq> 32) s"
  have s: "s = n @ ?r" using t takeWhile_dropWhile_id [of "\<lambda>c. c \<noteq> 32" s] by simp
  have "load_bytes m p (length n) = n"
    using s cstr_nth [OF assms(1)] by (intro nth_equalityI) (simp_all, metis length_append nth_append trans_less_add1)
  moreover have "m (p + of_nat (length n)) = 32 \<or> m (p + of_nat (length n)) = 0"
  proof (cases "?r = []")
    case True
    then have "s = n" using s by (metis append_Nil2)
    then show ?thesis using cstr_end [OF assms(1)] by simp
  next
    case False
    then have "length n < length s" "s ! length n = hd ?r" using s by (metis length_append length_greater_0_conv less_add_same_cancel1, metis hd_conv_nth nth_append_length_plus add_0_right)
    then show ?thesis using cstr_nth [OF assms(1), of "length n"] hd_dropWhile [OF False] by simp
  qed
  ultimately show "(m (p + of_nat (length n)) = 32 \<or> m (p + of_nat (length n)) = 0) \<and> load_bytes m p (length n) = n" by simp
qed


lemma first_token:
  assumes "s \<noteq> []" and "hd s \<noteq> 32"
  shows "tokens [32] s \<noteq> [] \<and> hd (tokens [32] s) = takeWhile (\<lambda>c. c \<noteq> 32) s"
  using assms by (cases s) (simp_all add: tokens.simps)

lemma names_ok: "list_all (\<lambda>(n, f). 0 \<notin> set n \<and> 32 \<notin> set n) named_commands"
  by (simp add: named_commands_def commands_def text_bytes_def)

lemma internal_command_eq:
  assumes "cstr m p s" and "s \<noteq> []" and "hd s \<noteq> 32"
  shows "internal_command commands m p = map_of named_commands (hd (tokens [32] s))"
proof -
  have "internal_command tab m p = map_of (map (\<lambda>(cmd, f). (text_bytes cmd, f)) tab) (takeWhile (\<lambda>c. c \<noteq> 32) s)"
    if "list_all (\<lambda>(n, f). 0 \<notin> set n \<and> 32 \<notin> set n) (map (\<lambda>(cmd, f). (text_bytes cmd, f)) tab)" for tab
    using that
  proof (induction tab)
    case (Cons a tab)
    obtain cmd f where a: "a = (cmd, f)" by fastforce
    have l: "length (text_bytes cmd) = length cmd" by (simp add: text_bytes_def)
    show ?case using Cons command_name [OF assms(1), of "text_bytes cmd"] l by (auto simp: a Let_def)
  qed simp
  from this [of commands] show ?thesis using names_ok first_token [OF assms(2,3)] by (simp add: named_commands_def)
qed

lemma trimmed_hd: "trimmed s \<noteq> [] \<Longrightarrow> hd (trimmed s) = hd s"
proof -
  assume a: "trimmed s \<noteq> []"
  have "rev s = takeWhile (\<lambda>c. c \<le> 32) (rev s) @ dropWhile (\<lambda>c. c \<le> 32) (rev s)" by simp
  then have "s = trimmed s @ rev (takeWhile (\<lambda>c. c \<le> 32) (rev s))"
    unfolding trimmed_def by (metis rev_append rev_rev_ident)
  then show "hd (trimmed s) = hd s" using a by (metis hd_append2)
qed

lemma cleaned_hd: "cleaned line \<noteq> [] \<Longrightarrow> hd (cleaned line) \<noteq> 32"
proof -
  assume a: "cleaned line \<noteq> []"
  then have e: "cleaned line = trimmed (dropWhile (\<lambda>c. c = 32) line)" by (simp add: cleaned_def split: if_splits)
  moreover have "trimmed [] = []" by (simp add: trimmed_def)
  ultimately have ne: "dropWhile (\<lambda>c. c = 32) line \<noteq> []" using a by metis
  have "hd (cleaned line) = hd (dropWhile (\<lambda>c. c = 32) line)"
    unfolding e by (rule trimmed_hd) (use a e in simp)
  then show "hd (cleaned line) \<noteq> 32" using hd_dropWhile [OF ne] by simp
qed

lemma length_trimmed: "length (trimmed s) \<le> length s"
  using length_dropWhile_le [of "\<lambda>c. c \<le> 32" "rev s"] by (simp add: trimmed_def)

lemma length_cleaned: "length (cleaned line) \<le> length line"
  using length_trimmed [of "dropWhile (\<lambda>c. c = 32) line"] length_dropWhile_le [of "\<lambda>c. c = 32" line]
  by (simp add: cleaned_def)

text \<open>The copy of the cleaned line.\<close>

lemma strcpy_cstr:
  assumes "cstr m src s"
  shows "strcpy m dest src = Inr (store_bytes m dest (s @ [0]))"
proof -
  have "unat (of_nat (length s) :: u32) = length s" using cstr_length [OF assms] by (intro unat_of_nat32)
  moreover have "load_bytes m src (length s + 1) = s @ [0]"
    using assms by (simp add: cstr_iff load_bytes_Suc_last)
  ultimately show ?thesis using strlen_cstr [OF assms] by (simp add: strcpy_def returns_def)
qed

lemma cstr_drop: "cstr m p (pre @ s) \<Longrightarrow> cstr m (p + of_nat (length pre)) s"
proof (induction pre arbitrary: p)
  case (Cons a pre)
  then show ?case using Cons.IH [of "p + 1"] by (simp add: add.assoc)
qed simp

lemma clean_cmdbuf_cleaned:
  assumes line: "cstr m src line" "length line < 256" and d: "unat dest + 256 \<le> 4294967296" "m dest = 0"
  shows "\<exists>m'. clean_cmdbuf m dest src 4 = Inr (length (cleaned line), m') \<and> cstr m' dest (cleaned line) \<and>
    changed_within (unat dest) (unat dest + 256) m m'"
proof (cases "take 4 line = replicate 4 32")
  case True
  then show ?thesis using skip_spaces [OF line(1)] d(2) by (simp add: clean_cmdbuf_def cleaned_def)
next
  case False
  let ?pre = "takeWhile (\<lambda>c. c = 32) line" let ?s = "dropWhile (\<lambda>c. c = 32) line"
  let ?m = "store_bytes m dest (?s @ [0])"
  have len: "length ?s < 256" using line(2) length_dropWhile_le [of "\<lambda>c. c = 32" line] by linarith
  have "cstr m src (?pre @ ?s)" using line(1) by simp
  then have s: "cstr m (src + of_nat (length ?pre)) ?s" by (rule cstr_drop)
  have "load_bytes ?m dest (Suc (length ?s)) = ?s @ [0]" using len by (intro load_store_same) simp_all
  then have c: "cstr ?m dest ?s" using cstr_nonzero [OF s] by (simp add: cstr_iff load_bytes_Suc_last)
  have u: "unat (of_nat (length ?s) :: u32) = length ?s" using len by (intro unat_of_nat32) simp
  obtain m' where t: "clean_trim dest (length ?s) ?m = (length (trimmed ?s), m')" "cstr m' dest (trimmed ?s)"
      "changed_within (unat dest) (unat dest + length ?s) ?m m'"
    using clean_trim_eq [OF c] len d(1) by auto
  have "changed_within (unat dest) (unat dest + 256) m ?m" using len d(1) by (intro changed_within_store) simp_all
  then have "changed_within (unat dest) (unat dest + 256) m m'" using changed_within_trans [OF _ t(3)] len by simp
  then show ?thesis using t(1,2) skip_spaces [OF line(1)] strcpy_cstr [OF s] strlen_cstr [OF c] u False
    by (simp add: clean_cmdbuf_def returns_def cleaned_def)
qed

section \<open>Configuration on the driver\<close>

lemma with_kernel_same [simp]: "with_kernel (up_kernel u) u = u" "with_kernel k (with_kernel k' u) = with_kernel k u"
  by (simp_all add: with_kernel_def)

lemma same_econet [simp]: "(k :: ('f, 'l, 'd, 'v, 's) kernel)\<lparr>k_econet := k_econet k\<rparr> = k"
  by simp

text \<open>Between opening and closing the Econet device, control requests reach the driver and nothing else changes.\<close>

lemma econet_session:
  fixes u :: "('f, 'l, 'd, 'v, 's) uproc"
  assumes k: "kernel_inv (up_kernel u)" and free: "card (fds_used (k_fdtab (up_kernel u))) < 16"
  obtains i u1 where "u_open pl ''/dev/econet'' O_RDWR u = Inr (int i, u1)"
    "up_mem u1 = up_mem u" "k_econet (up_kernel u1) = k_econet (up_kernel u)"
    "\<And>req ptr e out rc. econet_ioctl i req ptr (k_econet (up_kernel u)) = Inr (rc, out, e) \<Longrightarrow> 0 \<le> rc \<Longrightarrow>
       ioctl (int i) req ptr u1 = Inr (0, out, with_kernel ((up_kernel u1)\<lparr>k_econet := e\<rparr>) u1)"
    "\<And>e r. \<exists>u2. cleanup pl (int i) r (with_kernel ((up_kernel u1)\<lparr>k_econet := e\<rparr>) u1) = Inr (r, u2) \<and>
       kernel_inv (up_kernel u2) \<and> up_mem u2 = up_mem u \<and> fds_used (k_fdtab (up_kernel u2)) = fds_used (k_fdtab (up_kernel u)) \<and>
       ec_clkterm (k_econet (up_kernel u2)) = ec_clkterm e"
proof -
  let ?k = "up_kernel u"
  obtain rc k1 where o: "open_device ''econet'' O_RDWR ?k = (rc, k1)" by fastforce
  have "fd_alloc (k_fdtab ?k) \<noteq> None"
    using free k fdpool.alloc_possible [of "k_fdtab ?k"] by (simp add: kernel_inv_def)
  then obtain i tab where a: "fd_alloc (k_fdtab ?k) = Some (i, tab)" by fastforce
  then have e: "k_econet k1 = k_econet ?k" "rc = int i"
    using o kernel_alloc [OF k a] by (auto simp: open_device_def open_table_def econet_open_def Let_def)
  have r: "open_result ''econet'' ?k (rc, k1)" using open_device_result [OF k, of "''econet''" O_RDWR] o by simp
  then have i: "3 \<le> i" "i < 16" "i \<notin> fds_used (k_fdtab ?k)" "kernel_inv k1"
      "fds_used (k_fdtab k1) = insert i (fds_used (k_fdtab ?k))" "fd_fdfunc (k_fdtab k1 ! i) = Some Econet_func"
    using e(2) by (auto simp: open_result_def device_class_def)
  let ?u1 = "with_kernel k1 u"
  have cl: "fd_class (int i) (k1\<lparr>k_econet := e\<rparr>) = Inr (Some Econet_func)" for e
    using fd_class_open [of "k1\<lparr>k_econet := e\<rparr>" "int i"] i by simp
  have cl1: "fd_class (int i) k1 = Inr (Some Econet_func)" using cl [of "k_econet k1"] by simp
  have nb: "\<not> bad_fd (int i)" "\<not> int i < 3" using i(1,2) by (auto simp: bad_fd_def)
  have op: "u_open pl ''/dev/econet'' O_RDWR u = Inr (int i, ?u1)" using o e(2) by (simp add: u_open_def SYS_open_def sysret_def)
  moreover have "ioctl (int i) req ptr ?u1 = Inr (0, out, with_kernel ((up_kernel ?u1)\<lparr>k_econet := e'\<rparr>) ?u1)"
    if "econet_ioctl i req ptr (k_econet ?k) = Inr (rc', out, e')" "0 \<le> rc'" for req ptr e' out rc'
    using that cl1 nb e(1) by (simp add: ioctl_def SYS_ioctl_def fd_ioctl_def)
  moreover have "\<exists>u2. cleanup pl (int i) r (with_kernel ((up_kernel ?u1)\<lparr>k_econet := e'\<rparr>) ?u1) = Inr (r, u2) \<and>
       kernel_inv (up_kernel u2) \<and> up_mem u2 = up_mem u \<and> fds_used (k_fdtab (up_kernel u2)) = fds_used (k_fdtab ?k) \<and>
       ec_clkterm (k_econet (up_kernel u2)) = ec_clkterm e'" for e' r
  proof -
    obtain c e2 where ec: "econet_close i e' = (c, e2)" by fastforce
    have c: "c = 0" "ec_clkterm e2 = ec_clkterm e'" using ec by (auto simp: econet_close_def Let_def split: if_splits)
    let ?k2 = "k1\<lparr>k_econet := e2, k_fdtab := fd_dealloc i (k_fdtab k1)\<rparr>"
    have "SYS_close pl (int i) (k1\<lparr>k_econet := e'\<rparr>) = Inr (0, ?k2)"
      using cl [of e'] nb ec c(1) by (simp add: SYS_close_def fd_close_def)
    then have "cleanup pl (int i) r (with_kernel (k1\<lparr>k_econet := e'\<rparr>) u) = Inr (r, with_kernel ?k2 u)"
      by (simp add: cleanup_def u_close_def sysret_def)
    moreover have "kernel_inv ?k2"
      using kernel_inv_dealloc [of "k1\<lparr>k_econet := e2\<rparr>" i] i by (simp add: flash_fds_def)
    moreover have "fds_used (k_fdtab ?k2) = fds_used (k_fdtab ?k)"
      using i fdpool.used_free [of "k_fdtab k1" i] by (simp add: kernel_inv_def)
    ultimately show ?thesis using c(2) by (intro exI [of _ "with_kernel ?k2 u"]) simp
  qed
  ultimately show thesis using e(1) that [of i ?u1] by simp
qed


lemma clkterm_bytes: "u16_of_bytes (ucast c) (ucast (drop_bit 8 c)) = c"
proof (rule bit_word_eqI)
  fix n assume "n < LENGTH(16)"
  then show "bit (u16_of_bytes (ucast c) (ucast (drop_bit 8 c))) n = bit c n"
    by (cases "n < 8") (auto simp: u16_of_bytes_def bit_simps)
qed

lemma clkterm_request:
  fixes c :: u16
  shows "(ECONET_SET_CLKTERM OR ucast c) AND 0xFF000000 = ECONET_SET_CLKTERM" "ucast ((ECONET_SET_CLKTERM OR ucast c) AND 0xFFFF :: u32) = c"
proof -
  have m: "(ucast c :: u32) AND mask 16 = ucast c"
    by (rule bit_word_eqI) (auto simp: bit_simps dest: bit_imp_le_length)
  then have "(ucast c :: u32) AND 0xFF000000 = ucast c AND (mask 16 AND 0xFF000000)" by (metis and.assoc)
  also have "(mask 16 AND 0xFF000000 :: u32) = 0" by (simp add: mask_eq_exp_minus_1)
  finally have z: "(ucast c :: u32) AND 0xFF000000 = 0" by simp
  have d: "(ECONET_SET_CLKTERM OR ucast c) AND m = (ECONET_SET_CLKTERM AND m) OR (ucast c AND m)" for m :: u32
    by (rule bit_word_eqI) (auto simp: bit_simps)
  show "(ECONET_SET_CLKTERM OR ucast c) AND 0xFF000000 = ECONET_SET_CLKTERM" by (simp add: d z)
  have "(0xFFFF :: u32) = mask 16" by (simp add: mask_eq_exp_minus_1)
  then have "(ucast c :: u32) AND 0xFFFF = ucast c" using m by simp
  then have "(ECONET_SET_CLKTERM OR ucast c) AND 0xFFFF = (ucast c :: u32)" by (simp add: d)
  then show "ucast ((ECONET_SET_CLKTERM OR ucast c) AND 0xFFFF :: u32) = c" 
    by (simp only:) (rule bit_word_eqI, simp add: bit_simps)
qed

text \<open>The requests that read and set the clock and termination word.\<close>

lemma get_clkterm_ioctl:
  "econet_ioctl i ECONET_GET_CLKTERM [] e = Inr (0, [ucast (ec_clkterm e), ucast (drop_bit 8 (ec_clkterm e))], e)"
  by (simp add: econet_ioctl_def)

lemma set_clkterm_ioctl:
  "econet_ioctl i (ECONET_SET_CLKTERM OR ucast c) [] e = Inr (0, [], e\<lparr>ec_clkterm := c\<rparr>)"
  by (simp add: econet_ioctl_def clkterm_request econet_set_clkterm_def Let_def)

lemma clock_word:
  fixes c :: u16 and d :: int and en :: bool
  assumes "0 < d" and "d < 8"
  defines "w \<equiv> ((if en then c OR 1 else c AND (0xFFFF XOR 1)) AND 0xFF) OR push_bit 8 (word_of_int d)"
  shows "drop_bit 8 w = word_of_int d" and "w AND 1 \<noteq> 0 \<longleftrightarrow> en" and "w AND 2 \<noteq> 0 \<longleftrightarrow> c AND 2 \<noteq> 0" and "w \<noteq> 0xFFFF"
proof -
  have d: "d \<in> {1, 2, 3, 4, 5, 6, 7}" using assms(1,2) by auto
  have b: "w' AND 1 \<noteq> 0 \<longleftrightarrow> bit w' 0" "w' AND 2 \<noteq> 0 \<longleftrightarrow> bit w' 1" for w' :: u16
    by (simp_all add: bit_iff_and_push_bit_not_eq_0)
  have "drop_bit 8 (0xFF :: u16) = 0" by simp
  then show h: "drop_bit 8 w = word_of_int d" using d by (auto simp: w_def drop_bit_or drop_bit_and)
  show "w AND 1 \<noteq> 0 \<longleftrightarrow> en" "w AND 2 \<noteq> 0 \<longleftrightarrow> c AND 2 \<noteq> 0" unfolding b by (auto simp: w_def bit_simps)
  have "drop_bit 8 (0xFFFF :: u16) = 0xFF" by simp
  then show "w \<noteq> 0xFFFF" using h d by auto
qed


abbreviation clkterm_of :: "('f, 'l, 'd, 'v, 's) uproc \<Rightarrow> u16" where
  "clkterm_of u \<equiv> ec_clkterm (k_econet (up_kernel u))"

text \<open>The configuration can be asked for and set whenever a descriptor is free.\<close>

definition configurable :: "('f, 'l, 'd, 'v, 's) uproc \<Rightarrow> bool" where
  "configurable u \<longleftrightarrow> kernel_inv (up_kernel u) \<and> card (fds_used (k_fdtab (up_kernel u))) < 16 \<and> clkterm_of u \<noteq> 0xFFFF"

definition configured :: "('f, 'l, 'd, 'v, 's) uproc \<Rightarrow> u16 \<Rightarrow> ('f, 'l, 'd, 'v, 's) uproc \<Rightarrow> bool" where
  "configured u c u' \<longleftrightarrow> configurable u' \<and> up_mem u' = up_mem u \<and> fds_used (k_fdtab (up_kernel u')) = fds_used (k_fdtab (up_kernel u)) \<and>
     clkterm_of u' = c"

lemma clkterm_session:
  assumes "configurable u"
  obtains i u1 where "u_open pl ''/dev/econet'' O_RDWR u = Inr (int i, u1)" "up_mem u1 = up_mem u"
    "get_clkterm (int i) u1 = Inr (clkterm_of u, u1)"
    "\<And>r. \<exists>u2. cleanup pl (int i) r u1 = Inr (r, u2) \<and> configured u (clkterm_of u) u2"
    "\<And>c r. c \<noteq> 0xFFFF \<Longrightarrow> \<exists>u2 u3. ioctl (int i) (ECONET_SET_CLKTERM OR ucast c) [] u1 = Inr (0, [], u2) \<and>
       cleanup pl (int i) r u2 = Inr (r, u3) \<and> configured u c u3"
proof -
  have k: "kernel_inv (up_kernel u)" "card (fds_used (k_fdtab (up_kernel u))) < 16" "clkterm_of u \<noteq> 0xFFFF"
    using assms by (simp_all add: configurable_def)
  obtain i u1 where s: "u_open pl ''/dev/econet'' O_RDWR u = Inr (int i, u1)" "up_mem u1 = up_mem u"
      "k_econet (up_kernel u1) = k_econet (up_kernel u)"
    and io: "\<And>req ptr e out rc. econet_ioctl i req ptr (k_econet (up_kernel u)) = Inr (rc, out, e) \<Longrightarrow> 0 \<le> rc \<Longrightarrow>
       ioctl (int i) req ptr u1 = Inr (0, out, with_kernel ((up_kernel u1)\<lparr>k_econet := e\<rparr>) u1)"
    and cu: "\<And>e r. \<exists>u2. cleanup pl (int i) r (with_kernel ((up_kernel u1)\<lparr>k_econet := e\<rparr>) u1) = Inr (r, u2) \<and>
       kernel_inv (up_kernel u2) \<and> up_mem u2 = up_mem u \<and> fds_used (k_fdtab (up_kernel u2)) = fds_used (k_fdtab (up_kernel u)) \<and>
       clkterm_of u2 = ec_clkterm e"
    using econet_session [OF k(1,2), of pl] by blast
  have "ioctl (int i) ECONET_GET_CLKTERM [] u1 = Inr (0, [ucast (clkterm_of u), ucast (drop_bit 8 (clkterm_of u))], u1)"
    using io [OF get_clkterm_ioctl] s(3) [symmetric] by simp
  then have "get_clkterm (int i) u1 = Inr (clkterm_of u, u1)" by (simp add: get_clkterm_def clkterm_bytes)
  moreover have "\<exists>u2. cleanup pl (int i) r u1 = Inr (r, u2) \<and> configured u (clkterm_of u) u2" for r
  proof -
    obtain u2 where "cleanup pl (int i) r u1 = Inr (r, u2)" "kernel_inv (up_kernel u2)" "up_mem u2 = up_mem u"
        "fds_used (k_fdtab (up_kernel u2)) = fds_used (k_fdtab (up_kernel u))" "clkterm_of u2 = clkterm_of u1"
      using cu [of r "k_econet (up_kernel u1)"] by auto
    then show ?thesis using k s(3) by (auto simp: configured_def configurable_def)
  qed
  moreover have "\<exists>u2 u3. ioctl (int i) (ECONET_SET_CLKTERM OR ucast c) [] u1 = Inr (0, [], u2) \<and>
       cleanup pl (int i) r u2 = Inr (r, u3) \<and> configured u c u3" if "c \<noteq> 0xFFFF" for c r
    using io [OF set_clkterm_ioctl, of c] cu [of r "(k_econet (up_kernel u))\<lparr>ec_clkterm := c\<rparr>"] k that
    by (auto simp: configured_def configurable_def)
  ultimately show thesis using s(1,2) that by blast
qed

lemma netclock_query:
  assumes "configurable u"
  shows "\<exists>u2. cfg_netclock pl [b] u = Inr (Clock (drop_bit 8 (clkterm_of u)) (clkterm_of u AND 1 \<noteq> 0), u2) \<and> configured u (clkterm_of u) u2"
proof -
  have "clkterm_of u \<noteq> 0xFFFF" using assms by (simp add: configurable_def)
  then show ?thesis by (rule_tac clkterm_session [OF assms, of pl]) (fastforce simp: cfg_netclock_def)
qed

lemma netterminate_query:
  assumes "configurable u"
  shows "\<exists>u2. cfg_netterminate pl [b] u = Inr (Termination (clkterm_of u AND 2 \<noteq> 0), u2) \<and> configured u (clkterm_of u) u2"
proof -
  have "clkterm_of u \<noteq> 0xFFFF" using assms by (simp add: configurable_def)
  then show ?thesis by (rule_tac clkterm_session [OF assms, of pl]) (fastforce simp: cfg_netterminate_def)
qed

lemma netclock_set:
  assumes u: "configurable u" and a: "arg [b, c, e] 1 u = Inr d" "arg [b, c, e] 2 u = Inr s" "0 < atoi d" "atoi d < 8"
  shows "\<exists>u2. cfg_netclock pl [b, c, e] u = Inr (Silent, u2) \<and>
    configured u (((if s = ''enable'' then clkterm_of u OR 1 else clkterm_of u AND (0xFFFF XOR 1)) AND 0xFF) OR push_bit 8 (word_of_int (atoi d))) u2"
    (is "\<exists>u2. _ \<and> configured u ?c u2")
proof -
  have n: "clkterm_of u \<noteq> 0xFFFF" using u by (simp add: configurable_def)
  have c: "?c \<noteq> 0xFFFF" by (rule clock_word(4) [OF a(3,4)])
  obtain i u1 where s: "u_open pl ''/dev/econet'' O_RDWR u = Inr (int i, u1)" "up_mem u1 = up_mem u"
      "get_clkterm (int i) u1 = Inr (clkterm_of u, u1)"
    and st: "\<And>c r. c \<noteq> 0xFFFF \<Longrightarrow> \<exists>u2 u3. ioctl (int i) (ECONET_SET_CLKTERM OR ucast c) [] u1 = Inr (0, [], u2) \<and>
       cleanup pl (int i) r u2 = Inr (r, u3) \<and> configured u c u3"
    by (rule clkterm_session [OF u, of pl]) (rule that; assumption)
  obtain u2 u3 where io: "ioctl (int i) (ECONET_SET_CLKTERM OR ucast ?c) [] u1 = Inr (0, [], u2)"
      "cleanup pl (int i) Silent u2 = Inr (Silent, u3)" and u3: "configured u ?c u3" using st [OF c] by blast
  have ar: "arg [b, c, e] 1 u1 = Inr d" "arg [b, c, e] 2 u1 = Inr s" using a(1,2) s(2) by (simp_all only: arg_def)
  have "cfg_netclock pl [b, c, e] u = Inr (Silent, u3)" using s(1,3) n a(3,4) ar io by (simp add: cfg_netclock_def Let_def)
  then show ?thesis using u3 by blast
qed

lemma netterminate_set:
  assumes u: "configurable u" and a: "arg [b, c] 1 u = Inr s" and n: "clkterm_of u OR 2 \<noteq> 0xFFFF"
  shows "\<exists>u2. cfg_netterminate pl [b, c] u = Inr (Silent, u2) \<and>
    configured u (if s = ''on'' then clkterm_of u OR 2 else clkterm_of u AND (0xFFFF XOR 2)) u2"
    (is "\<exists>u2. _ \<and> configured u ?c u2")
proof -
  have "bit (0xFFFF :: u16) 1" "\<not> bit (clkterm_of u AND (0xFFFF XOR 2)) 1" by (simp_all add: bit_simps)
  then have "clkterm_of u AND (0xFFFF XOR 2) \<noteq> 0xFFFF" by metis
  then have c: "?c \<noteq> 0xFFFF" using n by simp
  have n: "clkterm_of u \<noteq> 0xFFFF" using u by (simp add: configurable_def)
  obtain i u1 where s: "u_open pl ''/dev/econet'' O_RDWR u = Inr (int i, u1)" "up_mem u1 = up_mem u"
      "get_clkterm (int i) u1 = Inr (clkterm_of u, u1)"
    and st: "\<And>c r. c \<noteq> 0xFFFF \<Longrightarrow> \<exists>u2 u3. ioctl (int i) (ECONET_SET_CLKTERM OR ucast c) [] u1 = Inr (0, [], u2) \<and>
       cleanup pl (int i) r u2 = Inr (r, u3) \<and> configured u c u3"
    by (rule clkterm_session [OF u, of pl]) (rule that; assumption)
  obtain u2 u3 where io: "ioctl (int i) (ECONET_SET_CLKTERM OR ucast ?c) [] u1 = Inr (0, [], u2)"
      "cleanup pl (int i) Silent u2 = Inr (Silent, u3)" and u3: "configured u ?c u3" using st [OF c] by blast
  have ar: "arg [b, c] 1 u1 = Inr s" using a s(2) by (simp only: arg_def)
  have "cfg_netterminate pl [b, c] u = Inr (Silent, u3)" using s(1,3) n ar io by (simp add: cfg_netterminate_def Let_def)
  then show ?thesis using u3 by blast
qed

section \<open>Properties\<close>

text \<open>C12: The command line interpreter runs what the line says: leading spaces (up to three) and trailing
  spaces and control characters do not count; an empty line or one that starts with a hash does
  nothing; when the first word is the name of an internal command that command is called with the
  first seven words as its arguments; any other line is passed to the program loader. Only the
  command buffer changes before that.\<close>

theorem parse_cmd_correct:
  assumes line: "cstr (up_mem u) raw line" "length line < 256" "unat raw + length line < 4294967296"
    and buf: "su_cmdbuf su \<noteq> 0" "unat (su_cmdbuf su) + 256 \<le> 4294967296"
      "unat raw + length line < unat (su_cmdbuf su) \<or> unat (su_cmdbuf su) + 256 \<le> unat raw"
    and delim: "cstr (up_mem u) (su_delim su) [32]" "unat (su_delim su) + 1 < 4294967296"
      "unat (su_delim su) + 1 < unat (su_cmdbuf su) \<or> unat (su_cmdbuf su) + 256 \<le> unat (su_delim su)"
  shows "\<exists>m. changed_within (unat (su_cmdbuf su)) (unat (su_cmdbuf su) + 256) (up_mem u) m \<and>
    (let words = tokens [32] (cleaned line) in
     if cleaned line = [] \<or> hd (cleaned line) = 35 then parse_cmd su raw u = Inr (Returned, with_mem m u)
     else case map_of named_commands (hd words) of
       Some c \<Rightarrow> (\<exists>args lst. list_all2 (cstr m) args (take 7 words) \<and>
         parse_cmd su raw u =
           bindE (cmdfunc su c args (u\<lparr>up_mc := (up_mc u)\<lparr>mc_mem := m, mc_strtok := lst\<rparr>\<rparr>)) (\<lambda>u1. Inr (Returned, u1)))
     | None \<Rightarrow> cstr m (su_cmdbuf su) (cleaned line) \<and> parse_cmd su raw u = exec_elf su (su_cmdbuf su) (with_mem m u))"
proof -
  let ?b = "su_cmdbuf su" let ?s = "cleaned line"
  let ?m0 = "store_bytes (up_mem u) ?b (replicate 256 0)"
  have ch0: "changed_within (unat ?b) (unat ?b + 256) (up_mem u) ?m0" using buf(2) by (intro changed_within_store) simp_all
  have "cstr ?m0 raw line" using cstr_changed_within [OF ch0 line(3) _ line(1)] buf(3) by blast
  moreover have "?m0 ?b = 0" by (simp add: store_bytes_apply)
  ultimately obtain m1 where m1: "clean_cmdbuf ?m0 ?b raw 4 = Inr (length ?s, m1)" "cstr m1 ?b ?s"
      "changed_within (unat ?b) (unat ?b + 256) ?m0 m1"
    using clean_cmdbuf_cleaned [of ?m0 raw line ?b] line(2) buf(2) by blast
  have ch1: "changed_within (unat ?b) (unat ?b + 256) (up_mem u) m1" using changed_within_trans [OF ch0 m1(3)] by simp
  have len: "length ?s < 256" using length_cleaned [of line] line(2) by linarith
  show ?thesis
  proof (cases "?s = [] \<or> hd ?s = 35")
    case True
    have "comment m1 ?b" if "?s \<noteq> []" using that True m1(2) by (cases ?s) (auto simp: comment_def)
    then have "parse_cmd su raw u = Inr (Returned, with_mem m1 u)" using m1(1) by (auto simp: parse_cmd_def Let_def)
    then show ?thesis using True ch1 by (intro exI [of _ m1]) simp
  next
    case False
    have hd32: "hd ?s \<noteq> 32" using False cleaned_hd by blast
    have nc: "\<not> comment m1 ?b" using False m1(2) by (cases ?s) (auto simp: comment_def)
    have ic: "internal_command commands m1 ?b = map_of named_commands (hd (tokens [32] ?s))"
      using internal_command_eq [OF m1(2) _ hd32] False by blast
    show ?thesis
    proof (cases "map_of named_commands (hd (tokens [32] ?s))")
      case None
      then have "parse_cmd su raw u = exec_elf su ?b (with_mem m1 u)" using m1(1) nc ic False by (simp add: parse_cmd_def Let_def)
      then show ?thesis using None False ch1 m1(2) by (intro exI [of _ m1]) simp
    next
      case (Some c)
      have "cstr m1 (su_delim su) [32]" using cstr_changed_within [OF ch1 _ _ delim(1)] delim by simp
      then obtain args m lst where t: "strtok_line 7 m1 ?b (su_delim su) (mc_strtok (up_mc u)) = Some (args, m, lst)"
          "list_all2 (cstr_above (unat ?b) m) args (take 7 (tokens [32] ?s))" "changed_within (unat ?b) (unat ?b + length ?s) m1 m"
        using strtok_line_splits [OF m1(2) buf(1) _ _ _ _, of "su_delim su" "[32]" 7 "mc_strtok (up_mc u)"] delim len buf(2) by force
      have "changed_within (unat ?b) (unat ?b + 256) (up_mem u) m" using changed_within_trans [OF ch1 t(3)] len by simp
      moreover have "list_all2 (cstr m) args (take 7 (tokens [32] ?s))"
        using t(2) by (rule list_all2_mono) (simp add: cstr_above_def)
      moreover have "parse_cmd su raw u =
          bindE (cmdfunc su c args (u\<lparr>up_mc := (up_mc u)\<lparr>mc_mem := m, mc_strtok := lst\<rparr>\<rparr>)) (\<lambda>u1. Inr (Returned, u1))"
        using m1(1) nc ic False Some t(1)
        by (simp add: parse_cmd_def run_internal_command_def returns_def Let_def with_mem_def)
      ultimately show ?thesis using Some False by (intro exI [of _ m]) (auto simp: Let_def)
    qed
  qed
qed


definition demo_init :: "(nor, unit, unit, unit, sdcard) uproc" where
  "demo_init = \<lparr>up_mc = demo_machine\<lparr>mc_mem := store_bytes ((\<lambda>a. 0)(0x11000 := 32)) 0x13000 (text_bytes ''  cd games '' @ [10, 0])\<rparr>, up_errno = 0\<rparr>"

definition demo_su :: "(nor, unit, unit, unit, sdcard) surroundings" where
  "demo_su = \<lparr>su_pl = demo_platform, su_delim = 0x11000, su_tmp = 0x8000, su_header = replicate 52 0, su_phdr = replicate 32 0,
     su_env = (\<lambda>n k. k), su_line = 0x13000, su_cmdbuf = 0x14000, su_dump = 0x15000,
     su_entry = \<lparr>d_name = [], d_isdir = False, d_size = 0\<rparr>, su_bufsiz = 1024\<rparr>"

theorem parse_cmd_correct_witness:
  "\<exists>m args lst. list_all2 (cstr m) args [text_bytes ''cd'', text_bytes ''games''] \<and>
     parse_cmd demo_su 0x13000 demo_init =
       bindE (cmdfunc demo_su I_chdir args (demo_init\<lparr>up_mc := (up_mc demo_init)\<lparr>mc_mem := m, mc_strtok := lst\<rparr>\<rparr>)) (\<lambda>u1. Inr (Returned, u1))"
proof -
  let ?line = "text_bytes ''  cd games '' @ [10]"
  have b: "?line = [32, 32, 99, 100, 32, 103, 97, 109, 101, 115, 32, 10]" by code_simp
  have "cstr (up_mem demo_init) 0x13000 ?line" unfolding demo_init_def by (simp add: text_bytes_def)
  moreover have "cstr (up_mem demo_init) (su_delim demo_su) [32]" by (simp add: demo_init_def demo_su_def store_bytes_apply text_bytes_def)
  moreover have cl: "cleaned ?line = [99, 100, 32, 103, 97, 109, 101, 115]" unfolding b by code_simp
  moreover have "tokens [32] (cleaned ?line) = [text_bytes ''cd'', text_bytes ''games'']"
    unfolding cl by (simp add: tokens.simps text_bytes_def)
  moreover have "map_of named_commands (text_bytes ''cd'') = Some I_chdir" by code_simp
  ultimately show ?thesis using parse_cmd_correct [of demo_init "0x13000" ?line demo_su] by (auto simp: demo_su_def text_bytes_def)
qed

text \<open>C29: Setting the network clock: after \<open>configure netclock\<close> with a divider from 1 to 7 the divider and the
  state of the clock are reported back as they were set, the termination that shares the register is
  what it was before, and every descriptor that was opened on the way has been closed.\<close>

theorem configure_clock:
  assumes "configurable u" and "arg [b, c, e] 0 u = Inr ''netclock''" and "arg [b, c, e] 1 u = Inr d" and "arg [b, c, e] 2 u = Inr s"
    and "0 < atoi d" and "atoi d < 8" and "arg [t] 0 u = Inr ''netterminate''"
  shows "\<exists>u1 u2 u3. i_configure pl [a, b, c, e] u = Inr (Silent, u1) \<and>
    i_configure pl [a, b] u1 = Inr (Clock (word_of_int (atoi d)) (s = ''enable''), u2) \<and>
    i_configure pl [a, t] u2 = Inr (Termination (clkterm_of u AND 2 \<noteq> 0), u3) \<and>
    fds_used (k_fdtab (up_kernel u3)) = fds_used (k_fdtab (up_kernel u))"
proof -
  let ?c = "((if s = ''enable'' then clkterm_of u OR 1 else clkterm_of u AND (0xFFFF XOR 1)) AND 0xFF) OR push_bit 8 (word_of_int (atoi d))"
  note w = clock_word [OF assms(5,6), of "s = ''enable''" "clkterm_of u"]
  obtain u1 where u1: "cfg_netclock pl [b, c, e] u = Inr (Silent, u1)" "configured u ?c u1"
    using netclock_set [OF assms(1,3-6), of pl] by blast
  obtain u2 where u2: "cfg_netclock pl [b] u1 = Inr (Clock (drop_bit 8 ?c) (?c AND 1 \<noteq> 0), u2)" "configured u1 ?c u2"
    using netclock_query [of u1 pl b] u1(2) by (auto simp: configured_def)
  obtain u3 where u3: "cfg_netterminate pl [t] u2 = Inr (Termination (?c AND 2 \<noteq> 0), u3)" "configured u2 ?c u3"
    using netterminate_query [of u2 pl t] u2(2) by (auto simp: configured_def)
  have m: "up_mem u1 = up_mem u" "up_mem u2 = up_mem u" using u1(2) u2(2) by (simp_all add: configured_def)
  have a: "arg [b] 0 u1 = Inr ''netclock''" "arg [t] 0 u2 = Inr ''netterminate''"
    using assms(2,7) by (simp_all add: arg_def m)
  have "i_configure pl [a, b, c, e] u = Inr (Silent, u1)" using assms(2) u1(1) by (simp add: i_configure_def)
  moreover have "i_configure pl [a, b] u1 = Inr (Clock (word_of_int (atoi d)) (s = ''enable''), u2)"
    using a(1) u2(1) unfolding w by (simp add: i_configure_def)
  moreover have "i_configure pl [a, t] u2 = Inr (Termination (clkterm_of u AND 2 \<noteq> 0), u3)"
    using a(2) u3(1) unfolding w by (simp add: i_configure_def)
  moreover have "fds_used (k_fdtab (up_kernel u3)) = fds_used (k_fdtab (up_kernel u))"
    using u1(2) u2(2) u3(2) by (simp add: configured_def)
  ultimately show ?thesis by blast
qed


definition demo_config :: "(nor, unit, unit, unit, sdcard) uproc" where
  "demo_config = \<lparr>up_mc = demo_machine\<lparr>mc_mem := store_bytes (\<lambda>a. 0) 0x13000
     (text_bytes ''netclock'' @ [0] @ text_bytes ''5'' @ [0] @ text_bytes ''enable'' @ [0] @ text_bytes ''netterminate'' @ [0])\<rparr>, up_errno = 0\<rparr>"

theorem configure_clock_witness:
  "\<exists>u1 u2 u3. i_configure demo_platform [0, 0x13000, 0x13009, 0x1300B] demo_config = Inr (Silent, u1) \<and>
    i_configure demo_platform [0, 0x13000] u1 = Inr (Clock 5 True, u2) \<and>
    i_configure demo_platform [0, 0x13012] u2 = Inr (Termination False, u3)"
proof -
  let ?m = "up_mem demo_config"
  have "cstr ?m 0x13000 (text_bytes ''netclock'')" "cstr ?m 0x13009 (text_bytes ''5'')" "cstr ?m 0x1300B (text_bytes ''enable'')"
    "cstr ?m 0x13012 (text_bytes ''netterminate'')" by (simp_all add: demo_config_def text_bytes_def)
  note read = this [THEN read_cstr_eq]
  have s: "map (\<lambda>b. char_of (unat b)) (text_bytes ''netclock'') = ''netclock''" "map (\<lambda>b. char_of (unat b)) (text_bytes ''5'') = ''5''"
    "map (\<lambda>b. char_of (unat b)) (text_bytes ''enable'') = ''enable''" "map (\<lambda>b. char_of (unat b)) (text_bytes ''netterminate'') = ''netterminate''"
    by code_simp+
  have a: "arg [0x13000, 0x13009, 0x1300B] 0 demo_config = Inr ''netclock''" "arg [0x13000, 0x13009, 0x1300B] 1 demo_config = Inr ''5''"
    "arg [0x13000, 0x13009, 0x1300B] 2 demo_config = Inr ''enable''" "arg [0x13012] 0 demo_config = Inr ''netterminate''"
    using read unfolding s by (simp_all add: arg_def returns_def numeral_2_eq_2)
  have k: "up_kernel demo_config = fd_init boot_kernel" by (simp add: demo_config_def demo_machine_def)
  have c: "clkterm_of demo_config = 0"
    unfolding k by (simp add: fd_init_def open_device_def open_table_def open_console_def boot_kernel_def econet_demo_def Let_def
        split: option.splits prod.splits)
  have "card (fds_used (k_fdtab (up_kernel demo_config))) < 16" unfolding k by (simp add: fd_init_inv(2) [OF boot_fl_list])
  then have "configurable demo_config" using demo_inv c k by (simp add: configurable_def)
  moreover have "atoi ''5'' = 5" by code_simp
  ultimately show ?thesis using configure_clock [OF _ a(1-3) _ _ a(4), of demo_platform 0] c by auto
qed

end
