(* ===== verification/Tlsf.thy ===== *)
theory Tlsf
  imports CStrings
begin

text \<open>
  The heap of the kernel and of the user programs: system/tlsf.c, a two-level segregated fit
  allocator, and system/kmalloc.c. Block headers and the control structure lie in the memory, where
  every access is a load or store of an aligned word, as in the C code; pointers are addresses.
  The assertions of the source are disabled there (\<open>tlsf_assert\<close> is a comment) and the generic
  bit search is the one that is compiled (\<open>NO_LIBGCC\<close>).
\<close>

section \<open>Bit searches\<close>

definition fls_step :: "u32 \<Rightarrow> nat \<Rightarrow> u32 \<times> int \<Rightarrow> u32 \<times> int" where
  "fls_step msk sh = (\<lambda>(word, b). if word AND msk = 0 then (push_bit sh word, b - int sh) else (word, b))"

definition tlsf_fls_generic :: "u32 \<Rightarrow> int" where
  "tlsf_fls_generic word =
     snd (fls_step 0x80000000 1 (fls_step 0xc0000000 2 (fls_step 0xf0000000 4 (fls_step 0xff000000 8 (fls_step 0xffff0000 16
       (word, if word = 0 then 31 else 32))))))"

definition tlsf_ffs :: "u32 \<Rightarrow> int" where
  "tlsf_ffs word = tlsf_fls_generic (word AND (NOT word + 1)) - 1"

definition tlsf_fls :: "u32 \<Rightarrow> int" where
  "tlsf_fls word = tlsf_fls_generic word - 1"

section \<open>Layout\<close>

abbreviation SL_INDEX_COUNT_LOG2 :: nat where "SL_INDEX_COUNT_LOG2 \<equiv> 5"
abbreviation ALIGN_SIZE :: u32 where "ALIGN_SIZE \<equiv> 4"
abbreviation FL_INDEX_SHIFT :: nat where "FL_INDEX_SHIFT \<equiv> 7"
abbreviation FL_INDEX_COUNT :: nat where "FL_INDEX_COUNT \<equiv> 24"
abbreviation SL_INDEX_COUNT :: nat where "SL_INDEX_COUNT \<equiv> 32"
abbreviation SMALL_BLOCK_SIZE :: u32 where "SMALL_BLOCK_SIZE \<equiv> 128"
abbreviation block_header_free_bit :: u32 where "block_header_free_bit \<equiv> 1"
abbreviation block_header_prev_free_bit :: u32 where "block_header_prev_free_bit \<equiv> 2"
abbreviation block_header_overhead :: u32 where "block_header_overhead \<equiv> 4"
abbreviation block_start_offset :: u32 where "block_start_offset \<equiv> 8"
abbreviation block_size_min :: u32 where "block_size_min \<equiv> 12"
abbreviation block_size_max :: u32 where "block_size_max \<equiv> 0x40000000"
abbreviation sizeof_block_header :: u32 where "sizeof_block_header \<equiv> 16"

text \<open>The words of a header: \<open>prev_phys_block\<close> at 0, \<open>size\<close> at 4, \<open>next_free\<close> at 8, \<open>prev_free\<close> at 12.\<close>

abbreviation size_at :: "addr \<Rightarrow> addr" where "size_at b \<equiv> b + 4"
abbreviation next_free_at :: "addr \<Rightarrow> addr" where "next_free_at b \<equiv> b + 8"
abbreviation prev_free_at :: "addr \<Rightarrow> addr" where "prev_free_at b \<equiv> b + 12"

text \<open>The control structure: the null block at its start, the bitmaps, the heads of the lists.\<close>

abbreviation fl_bitmap_at :: "addr \<Rightarrow> addr" where "fl_bitmap_at control \<equiv> control + 16"

definition sl_bitmap_at :: "addr \<Rightarrow> nat \<Rightarrow> addr" where
  "sl_bitmap_at control fl = control + 20 + of_nat (4 * fl)"

definition blocks_at :: "addr \<Rightarrow> nat \<Rightarrow> nat \<Rightarrow> addr" where
  "blocks_at control fl sl = control + 116 + of_nat (4 * (32 * fl + sl))"

definition tlsf_size :: u32 where
  "tlsf_size = 3188"

section \<open>Blocks\<close>

definition block_size :: "mem \<Rightarrow> addr \<Rightarrow> u32" where
  "block_size m b = load32 m (size_at b) AND NOT (block_header_free_bit OR block_header_prev_free_bit)"

definition block_set_size :: "addr \<Rightarrow> u32 \<Rightarrow> mem \<Rightarrow> mem" where
  "block_set_size b sz m = store32 m (size_at b) (sz OR (load32 m (size_at b) AND (block_header_free_bit OR block_header_prev_free_bit)))"

definition block_is_last :: "mem \<Rightarrow> addr \<Rightarrow> bool" where
  "block_is_last m b \<longleftrightarrow> block_size m b = 0"

definition block_is_free :: "mem \<Rightarrow> addr \<Rightarrow> bool" where
  "block_is_free m b \<longleftrightarrow> load32 m (size_at b) AND block_header_free_bit \<noteq> 0"

definition block_set_free :: "addr \<Rightarrow> mem \<Rightarrow> mem" where
  "block_set_free b m = store32 m (size_at b) (load32 m (size_at b) OR block_header_free_bit)"

definition block_set_used :: "addr \<Rightarrow> mem \<Rightarrow> mem" where
  "block_set_used b m = store32 m (size_at b) (load32 m (size_at b) AND NOT block_header_free_bit)"

definition block_is_prev_free :: "mem \<Rightarrow> addr \<Rightarrow> bool" where
  "block_is_prev_free m b \<longleftrightarrow> load32 m (size_at b) AND block_header_prev_free_bit \<noteq> 0"

definition block_set_prev_free :: "addr \<Rightarrow> mem \<Rightarrow> mem" where
  "block_set_prev_free b m = store32 m (size_at b) (load32 m (size_at b) OR block_header_prev_free_bit)"

definition block_set_prev_used :: "addr \<Rightarrow> mem \<Rightarrow> mem" where
  "block_set_prev_used b m = store32 m (size_at b) (load32 m (size_at b) AND NOT block_header_prev_free_bit)"

definition block_from_ptr :: "addr \<Rightarrow> addr" where "block_from_ptr p = p - block_start_offset"
definition block_to_ptr :: "addr \<Rightarrow> addr" where "block_to_ptr b = b + block_start_offset"
definition offset_to_block :: "addr \<Rightarrow> u32 \<Rightarrow> addr" where "offset_to_block p sz = p + sz"
definition block_prev :: "mem \<Rightarrow> addr \<Rightarrow> addr" where "block_prev m b = load32 m b"

definition block_next :: "mem \<Rightarrow> addr \<Rightarrow> addr" where
  "block_next m b = offset_to_block (block_to_ptr b) (block_size m b - block_header_overhead)"

definition block_link_next :: "addr \<Rightarrow> mem \<Rightarrow> addr \<times> mem" where
  "block_link_next b m = (let next = block_next m b in (next, store32 m next b))"

definition block_mark_as_free :: "addr \<Rightarrow> mem \<Rightarrow> mem" where
  "block_mark_as_free b m = (case block_link_next b m of (next, m1) \<Rightarrow> block_set_free b (block_set_prev_free next m1))"

definition block_mark_as_used :: "addr \<Rightarrow> mem \<Rightarrow> mem" where
  "block_mark_as_used b m = (let next = block_next m b in block_set_used b (block_set_prev_used next m))"

definition align_up :: "u32 \<Rightarrow> u32 \<Rightarrow> u32" where
  "align_up x align = (x + (align - 1)) AND NOT (align - 1)"

definition align_down :: "u32 \<Rightarrow> u32 \<Rightarrow> u32" where
  "align_down x align = x - (x AND (align - 1))"

definition align_ptr :: "addr \<Rightarrow> u32 \<Rightarrow> addr" where
  "align_ptr p align = (p + (align - 1)) AND NOT (align - 1)"

definition adjust_request_size :: "u32 \<Rightarrow> u32 \<Rightarrow> u32" where
  "adjust_request_size sz align =
     (if sz \<noteq> 0 then let aligned = align_up sz align in if aligned < block_size_max then max aligned block_size_min else 0 else 0)"

section \<open>Size classes and free lists\<close>

definition mapping_insert :: "u32 \<Rightarrow> nat \<times> nat" where
  "mapping_insert sz =
     (if sz < SMALL_BLOCK_SIZE then (0, unat sz div 4)
      else let fl = nat (tlsf_fls sz) in
           (fl - (FL_INDEX_SHIFT - 1), unat (drop_bit (fl - SL_INDEX_COUNT_LOG2) sz XOR push_bit SL_INDEX_COUNT_LOG2 1)))"

definition mapping_search :: "u32 \<Rightarrow> nat \<times> nat" where
  "mapping_search sz =
     mapping_insert (if sz \<ge> SMALL_BLOCK_SIZE then sz + (push_bit (nat (tlsf_fls sz) - SL_INDEX_COUNT_LOG2) 1 - 1) else sz)"

text \<open>The block, or 0, and the class it was found in.\<close>

definition search_suitable_block :: "mem \<Rightarrow> addr \<Rightarrow> nat \<Rightarrow> nat \<Rightarrow> addr \<times> nat \<times> nat" where
  "search_suitable_block m control fl sl =
     (let found = (\<lambda>fl sl_map. let sl = nat (tlsf_ffs sl_map) in (load32 m (blocks_at control fl sl), fl, sl));
          sl_map = load32 m (sl_bitmap_at control fl) AND push_bit sl (NOT 0)
      in if sl_map = 0
         then let fl_map = load32 m (fl_bitmap_at control) AND push_bit (fl + 1) (NOT 0) in
              if fl_map = 0 then (0, fl, sl)
              else let fl1 = nat (tlsf_ffs fl_map) in found fl1 (load32 m (sl_bitmap_at control fl1))
         else found fl sl_map)"

definition remove_free_block :: "addr \<Rightarrow> addr \<Rightarrow> nat \<Rightarrow> nat \<Rightarrow> mem \<Rightarrow> mem" where
  "remove_free_block control block fl sl m =
     (let prev = load32 m (prev_free_at block);
          next = load32 m (next_free_at block);
          m1 = store32 (store32 m (prev_free_at next) prev) (next_free_at prev) next
      in if load32 m1 (blocks_at control fl sl) = block
         then let m2 = store32 m1 (blocks_at control fl sl) next in
              if next = control
              then let m3 = store32 m2 (sl_bitmap_at control fl) (load32 m2 (sl_bitmap_at control fl) AND NOT (push_bit sl 1)) in
                   if load32 m3 (sl_bitmap_at control fl) = 0
                   then store32 m3 (fl_bitmap_at control) (load32 m3 (fl_bitmap_at control) AND NOT (push_bit fl 1))
                   else m3
              else m2
         else m1)"

definition insert_free_block :: "addr \<Rightarrow> addr \<Rightarrow> nat \<Rightarrow> nat \<Rightarrow> mem \<Rightarrow> mem" where
  "insert_free_block control block fl sl m =
     (let current = load32 m (blocks_at control fl sl);
          m1 = store32 m (next_free_at block) current;
          m2 = store32 m1 (prev_free_at block) control;
          m3 = store32 m2 (prev_free_at current) block;
          m4 = store32 m3 (blocks_at control fl sl) block;
          m5 = store32 m4 (fl_bitmap_at control) (load32 m4 (fl_bitmap_at control) OR push_bit fl 1)
      in store32 m5 (sl_bitmap_at control fl) (load32 m5 (sl_bitmap_at control fl) OR push_bit sl 1))"

definition block_remove :: "addr \<Rightarrow> addr \<Rightarrow> mem \<Rightarrow> mem" where
  "block_remove control block m = (case mapping_insert (block_size m block) of (fl, sl) \<Rightarrow> remove_free_block control block fl sl m)"

definition block_insert :: "addr \<Rightarrow> addr \<Rightarrow> mem \<Rightarrow> mem" where
  "block_insert control block m = (case mapping_insert (block_size m block) of (fl, sl) \<Rightarrow> insert_free_block control block fl sl m)"

section \<open>Splitting and merging\<close>

definition block_can_split :: "mem \<Rightarrow> addr \<Rightarrow> u32 \<Rightarrow> bool" where
  "block_can_split m block sz \<longleftrightarrow> block_size m block \<ge> sizeof_block_header + sz"

definition block_split :: "addr \<Rightarrow> u32 \<Rightarrow> mem \<Rightarrow> addr \<times> mem" where
  "block_split block sz m =
     (let remaining = offset_to_block (block_to_ptr block) (sz - block_header_overhead);
          remain_size = block_size m block - (sz + block_header_overhead);
          m1 = block_set_size remaining remain_size m;
          m2 = block_set_size block sz m1
      in (remaining, block_mark_as_free remaining m2))"

definition block_absorb :: "addr \<Rightarrow> addr \<Rightarrow> mem \<Rightarrow> addr \<times> mem" where
  "block_absorb prev block m =
     (let m1 = store32 m (size_at prev) (load32 m (size_at prev) + (block_size m block + block_header_overhead))
      in (prev, snd (block_link_next prev m1)))"

definition block_merge_prev :: "addr \<Rightarrow> addr \<Rightarrow> mem \<Rightarrow> addr \<times> mem" where
  "block_merge_prev control block m =
     (if block_is_prev_free m block
      then let prev = block_prev m block in block_absorb prev block (block_remove control prev m)
      else (block, m))"

definition block_merge_next :: "addr \<Rightarrow> addr \<Rightarrow> mem \<Rightarrow> addr \<times> mem" where
  "block_merge_next control block m =
     (let next = block_next m block in
      if block_is_free m next then block_absorb block next (block_remove control next m) else (block, m))"

definition block_trim_free :: "addr \<Rightarrow> addr \<Rightarrow> u32 \<Rightarrow> mem \<Rightarrow> mem" where
  "block_trim_free control block sz m =
     (if block_can_split m block sz
      then case block_split block sz m of (remaining, m1) \<Rightarrow>
             block_insert control remaining (block_set_prev_free remaining (snd (block_link_next block m1)))
      else m)"

definition block_trim_used :: "addr \<Rightarrow> addr \<Rightarrow> u32 \<Rightarrow> mem \<Rightarrow> mem" where
  "block_trim_used control block sz m =
     (if block_can_split m block sz
      then case block_split block sz m of (remaining, m1) \<Rightarrow>
             (case block_merge_next control remaining (block_set_prev_used remaining m1) of (r, m2) \<Rightarrow> block_insert control r m2)
      else m)"

definition block_trim_free_leading :: "addr \<Rightarrow> addr \<Rightarrow> u32 \<Rightarrow> mem \<Rightarrow> addr \<times> mem" where
  "block_trim_free_leading control block sz m =
     (if block_can_split m block sz
      then case block_split block (sz - block_header_overhead) m of (remaining, m1) \<Rightarrow>
             (remaining, block_insert control block (snd (block_link_next block (block_set_prev_free remaining m1))))
      else (block, m))"

definition block_locate_free :: "addr \<Rightarrow> u32 \<Rightarrow> mem \<Rightarrow> addr \<times> mem" where
  "block_locate_free control sz m =
     (case (if sz \<noteq> 0
            then (case mapping_search sz of (fl, sl) \<Rightarrow>
                    if fl < FL_INDEX_COUNT then search_suitable_block m control fl sl else (0, fl, sl))
            else (0, 0, 0)) of (block, fl, sl) \<Rightarrow>
        if block \<noteq> 0 then (block, remove_free_block control block fl sl m) else (0, m))"

definition block_prepare_used :: "addr \<Rightarrow> addr \<Rightarrow> u32 \<Rightarrow> mem \<Rightarrow> addr \<times> mem" where
  "block_prepare_used control block sz m =
     (if block \<noteq> 0 then (block_to_ptr block, block_mark_as_used block (block_trim_free control block sz m)) else (0, m))"

section \<open>Pools\<close>

definition control_construct :: "addr \<Rightarrow> mem \<Rightarrow> mem" where
  "control_construct control m =
     (let m1 = store32 m (next_free_at control) control;
          m2 = store32 m1 (prev_free_at control) control;
          m3 = store32 m2 (fl_bitmap_at control) 0
      in fold (\<lambda>i m. fold (\<lambda>j m. store32 m (blocks_at control i j) control) [0..<SL_INDEX_COUNT]
                          (store32 m (sl_bitmap_at control i) 0)) [0..<FL_INDEX_COUNT] m3)"

definition tlsf_pool_overhead :: u32 where
  "tlsf_pool_overhead = 2 * block_header_overhead"

definition tlsf_add_pool :: "addr \<Rightarrow> addr \<Rightarrow> u32 \<Rightarrow> mem \<Rightarrow> addr \<times> mem" where
  "tlsf_add_pool control p bytes m =
     (let pool_bytes = align_down (bytes - tlsf_pool_overhead) ALIGN_SIZE in
      if p AND (ALIGN_SIZE - 1) \<noteq> 0 then (0, m)
      else if pool_bytes < block_size_min \<or> pool_bytes > block_size_max then (0, m)
      else let block = offset_to_block p (- block_header_overhead);
               m1 = block_insert control block (block_set_prev_used block (block_set_free block (block_set_size block pool_bytes m)))
           in case block_link_next block m1 of (next, m2) \<Rightarrow>
                (p, block_set_prev_free next (block_set_used next (block_set_size next 0 m2))))"

definition tlsf_remove_pool :: "addr \<Rightarrow> addr \<Rightarrow> mem \<Rightarrow> mem" where
  "tlsf_remove_pool control pool m = block_remove control (offset_to_block pool (- block_header_overhead)) m"

definition tlsf_create :: "addr \<Rightarrow> mem \<Rightarrow> addr \<times> mem" where
  "tlsf_create p m = (if p AND (ALIGN_SIZE - 1) \<noteq> 0 then (0, m) else (p, control_construct p m))"

definition tlsf_create_with_pool :: "addr \<Rightarrow> u32 \<Rightarrow> mem \<Rightarrow> addr \<times> mem" where
  "tlsf_create_with_pool p bytes m =
     (case tlsf_create p m of (tlsf, m1) \<Rightarrow> (tlsf, snd (tlsf_add_pool tlsf (p + tlsf_size) (bytes - tlsf_size) m1)))"

section \<open>Allocation\<close>

definition tlsf_malloc :: "addr \<Rightarrow> u32 \<Rightarrow> mem \<Rightarrow> addr \<times> mem" where
  "tlsf_malloc control sz m =
     (let adjust = adjust_request_size sz ALIGN_SIZE in
      case block_locate_free control adjust m of (block, m1) \<Rightarrow> block_prepare_used control block adjust m1)"

definition tlsf_memalign :: "addr \<Rightarrow> u32 \<Rightarrow> u32 \<Rightarrow> mem \<Rightarrow> addr \<times> mem" where
  "tlsf_memalign control align sz m =
     (let adjust = adjust_request_size sz ALIGN_SIZE;
          gap_minimum = sizeof_block_header;
          size_with_gap = adjust_request_size (adjust + align + gap_minimum) align;
          aligned_size = (if adjust \<noteq> 0 \<and> align > ALIGN_SIZE then size_with_gap else adjust)
      in case block_locate_free control aligned_size m of (block, m1) \<Rightarrow>
           (case (if block \<noteq> 0
                  then let ptr = block_to_ptr block;
                           aligned = align_ptr ptr align;
                           gap = aligned - ptr;
                           gap2 = (if gap \<noteq> 0 \<and> gap < gap_minimum
                                   then align_ptr (aligned + max (gap_minimum - gap) align) align - ptr else gap)
                       in if gap2 \<noteq> 0 then block_trim_free_leading control block gap2 m1 else (block, m1)
                  else (block, m1)) of (block2, m2) \<Rightarrow> block_prepare_used control block2 adjust m2))"

definition tlsf_free :: "addr \<Rightarrow> addr \<Rightarrow> mem \<Rightarrow> mem" where
  "tlsf_free control ptr m =
     (if ptr \<noteq> 0
      then let block = block_from_ptr ptr in
           case block_merge_prev control block (block_mark_as_free block m) of (b1, m1) \<Rightarrow>
           (case block_merge_next control b1 m1 of (b2, m2) \<Rightarrow> block_insert control b2 m2)
      else m)"

definition tlsf_realloc :: "addr \<Rightarrow> addr \<Rightarrow> u32 \<Rightarrow> mem \<Rightarrow> addr \<times> mem" where
  "tlsf_realloc control ptr sz m =
     (if ptr \<noteq> 0 \<and> sz = 0 then (0, tlsf_free control ptr m)
      else if ptr = 0 then tlsf_malloc control sz m
      else let block = block_from_ptr ptr;
               next = block_next m block;
               cursize = block_size m block;
               combined = cursize + block_size m next + block_header_overhead;
               adjust = adjust_request_size sz ALIGN_SIZE
           in if adjust > cursize \<and> (\<not> block_is_free m next \<or> adjust > combined)
              then case tlsf_malloc control sz m of (p, m1) \<Rightarrow>
                     if p \<noteq> 0 then (p, tlsf_free control ptr (memcpy m1 p ptr (min cursize sz))) else (p, m1)
              else let m1 = (if adjust > cursize then block_mark_as_used block (snd (block_merge_next control block m)) else m)
                   in (ptr, block_trim_used control block adjust m1))"

definition tlsf_block_size :: "addr \<Rightarrow> mem \<Rightarrow> u32" where
  "tlsf_block_size ptr m = (if ptr \<noteq> 0 then block_size m (block_from_ptr ptr) else 0)"

section \<open>The heap of the kernel\<close>

text \<open>\<open>heap\<close> is the address of the array \<open>mem\<close>; \<open>False\<close> when the supervisor shell is entered instead.\<close>

definition kmalloc_init :: "addr \<Rightarrow> mem \<Rightarrow> bool \<times> mem" where
  "kmalloc_init heap m = (case tlsf_create_with_pool heap 8192 m of (t, m1) \<Rightarrow> (t \<noteq> 0, m1))"

definition kmalloc :: "addr \<Rightarrow> u32 \<Rightarrow> mem \<Rightarrow> addr \<times> mem" where "kmalloc heap sz m = tlsf_malloc heap sz m"
definition krealloc :: "addr \<Rightarrow> addr \<Rightarrow> u32 \<Rightarrow> mem \<Rightarrow> addr \<times> mem" where "krealloc heap ptr sz m = tlsf_realloc heap ptr sz m"
definition kfree :: "addr \<Rightarrow> addr \<Rightarrow> mem \<Rightarrow> mem" where "kfree heap ptr m = tlsf_free heap ptr m"

section \<open>The bit searches are right\<close>

lemma high_mask_zero:
  fixes w :: u32
  assumes "n \<le> 32"
  shows "w AND NOT (mask n) = 0 \<longleftrightarrow> unat w < 2 ^ n"
proof -
  have split: "w = (w AND mask n) OR (w AND NOT (mask n))"
    by (simp only: bit.conj_disj_distrib [symmetric] bit.disj_cancel_right and.right_neutral)
  have none: "take_bit n w AND NOT (mask n) = 0" unfolding take_bit_eq_mask and.assoc by (simp only: bit.conj_cancel_right and_zero_eq bit.conj_zero_right)
  have "w AND NOT (mask n) = 0 \<longleftrightarrow> take_bit n w = w"
  proof
    assume "w AND NOT (mask n) = 0"
    then have "w = w AND mask n" using split by simp
    then show "take_bit n w = w" by (simp only: take_bit_eq_mask)
  qed (use none in metis)
  also have "\<dots> \<longleftrightarrow> unat (take_bit n w) = unat w" by (metis word_unat_eq_iff)
  also have "\<dots> \<longleftrightarrow> unat w < 2 ^ n" by (simp add: unsigned_take_bit_eq take_bit_nat_eq_self_iff)
  finally show ?thesis .
qed

lemma unat_push: "unat w * 2 ^ n < 4294967296 \<Longrightarrow> unat (push_bit n w :: u32) = unat w * 2 ^ n"
  unfolding unsigned_push_bit_eq by (simp add: push_bit_eq_mult take_bit_nat_eq_self)

lemma fls_step_inv:
  assumes "msk = NOT (mask (32 - sh))" and "unat w = N * 2 ^ nat (32 - b)" and "0 \<le> b" and "b \<le> 32"
    and "2 ^ (32 - 2 * sh) \<le> unat w" and "0 < N" and "2 * sh \<le> 32"
  shows "case fls_step msk sh (w, b) of (w', b') \<Rightarrow>
    unat w' = N * 2 ^ nat (32 - b') \<and> 0 \<le> b' \<and> b' \<le> 32 \<and> 2 ^ (32 - sh) \<le> unat w'"
proof (cases "w AND msk = 0")
  case True
  then have lt: "unat w < 2 ^ (32 - sh)" using high_mask_zero [of "32 - sh" w] assms(1) by simp
  have p: "(2::nat) ^ (32 - sh) * 2 ^ sh = 4294967296" using assms(7) by (simp flip: power_add)
  have s: "unat (push_bit sh w) = unat w * 2 ^ sh"
  proof -
    have "unat w * 2 ^ sh < 2 ^ (32 - sh) * 2 ^ sh" using lt by simp
    then have "unat w * 2 ^ sh < 4294967296" by (simp only: p)
    then show ?thesis by (rule unat_push)
  qed
  have "int sh \<le> b"
  proof (rule ccontr)
    assume n: "\<not> int sh \<le> b"
    then have "(2::nat) ^ (32 - sh) \<le> 2 ^ nat (32 - b)" using assms(3) by (intro power_increasing) auto
    also have "\<dots> \<le> N * 2 ^ nat (32 - b)" using assms(6) by simp
    finally show False using lt assms(2) by simp
  qed
  moreover have "nat (32 - (b - int sh)) = nat (32 - b) + sh" using assms(4) by simp
  moreover have "(2::nat) ^ (32 - 2 * sh) * 2 ^ sh = 2 ^ (32 - sh)" using assms(7) by (simp flip: power_add)
  then have "2 ^ (32 - sh) \<le> unat w * 2 ^ sh" using assms(5) by (metis mult_le_mono1)
  ultimately show ?thesis using True s assms(2,4) by (simp add: fls_step_def power_add)
next
  case False
  then have "2 ^ (32 - sh) \<le> unat w" using high_mask_zero [of "32 - sh" w] assms(1) by simp
  then show ?thesis using False assms(2-4) by (simp add: fls_step_def)
qed


lemma fls_bounds:
  assumes "w \<noteq> 0"
  shows "0 \<le> tlsf_fls w \<and> tlsf_fls w < 32 \<and> 2 ^ nat (tlsf_fls w) \<le> unat w \<and> unat w < 2 ^ Suc (nat (tlsf_fls w))"
proof -
  have N: "0 < unat w" using assms by (simp add: unat_gt_0)
  have k: "(0xffff0000 :: u32) = NOT (mask (32 - 16))" "(0xff000000 :: u32) = NOT (mask (32 - 8))" "(0xf0000000 :: u32) = NOT (mask (32 - 4))"
    "(0xc0000000 :: u32) = NOT (mask (32 - 2))" "(0x80000000 :: u32) = NOT (mask (32 - 1))" by (simp_all add: mask_eq_exp_minus_1)
  obtain w1 b1 where 1: "fls_step 0xffff0000 16 (w, 32) = (w1, b1)" by fastforce
  obtain w2 b2 where 2: "fls_step 0xff000000 8 (w1, b1) = (w2, b2)" by fastforce
  obtain w3 b3 where 3: "fls_step 0xf0000000 4 (w2, b2) = (w3, b3)" by fastforce
  obtain w4 b4 where 4: "fls_step 0xc0000000 2 (w3, b3) = (w4, b4)" by fastforce
  obtain w5 b5 where 5: "fls_step 0x80000000 1 (w4, b4) = (w5, b5)" by fastforce
  have i1: "unat w1 = unat w * 2 ^ nat (32 - b1) \<and> 0 \<le> b1 \<and> b1 \<le> 32 \<and> 2 ^ (32 - 16) \<le> unat w1"
    using fls_step_inv [OF k(1), of w "unat w" 32] N 1 by simp
  have i2: "unat w2 = unat w * 2 ^ nat (32 - b2) \<and> 0 \<le> b2 \<and> b2 \<le> 32 \<and> 2 ^ (32 - 8) \<le> unat w2"
    using fls_step_inv [OF k(2), of w1 "unat w" b1] N i1 2 by simp
  have i3: "unat w3 = unat w * 2 ^ nat (32 - b3) \<and> 0 \<le> b3 \<and> b3 \<le> 32 \<and> 2 ^ (32 - 4) \<le> unat w3"
    using fls_step_inv [OF k(3), of w2 "unat w" b2] N i2 3 by simp
  have i4: "unat w4 = unat w * 2 ^ nat (32 - b4) \<and> 0 \<le> b4 \<and> b4 \<le> 32 \<and> 2 ^ (32 - 2) \<le> unat w4"
    using fls_step_inv [OF k(4), of w3 "unat w" b3] N i3 4 by simp
  have i5: "unat w5 = unat w * 2 ^ nat (32 - b5) \<and> 0 \<le> b5 \<and> b5 \<le> 32 \<and> 2 ^ (32 - 1) \<le> unat w5"
    using fls_step_inv [OF k(5), of w4 "unat w" b4] N i4 5 by simp
  have f: "tlsf_fls w = b5 - 1" using assms 1 2 3 4 5 by (simp add: tlsf_fls_def tlsf_fls_generic_def)
  define n where "n = nat b5"
  have n: "b5 = int n" "n \<le> 32" using i5 by (simp_all add: n_def nat_le_iff)
  have e: "unat w5 = unat w * 2 ^ (32 - n)" "2 ^ 31 \<le> unat w5" using i5 n by (simp_all add: nat_diff_distrib)
  have lt: "unat w5 < 2 ^ 32" using unat_lt32 [of w5] by simp
  have "n \<noteq> 0"
  proof
    assume "n = 0"
    then have "unat w5 \<ge> 2 ^ 32" using e(1) N by simp
    then show False using lt leD by blast
  qed
  then obtain k where k: "n = Suc k" by (cases n) auto
  have "(2::nat) ^ k * 2 ^ (32 - n) = 2 ^ 31" "(2::nat) ^ n * 2 ^ (32 - n) = 2 ^ 32" using n(2) k by (simp_all flip: power_add)
  then have "2 ^ k * 2 ^ (32 - n) \<le> unat w * 2 ^ (32 - n)" "unat w * 2 ^ (32 - n) < 2 ^ n * 2 ^ (32 - n)" using e lt by simp_all
  then have "2 ^ k \<le> unat w" "unat w < 2 ^ n" by simp_all
  then show ?thesis using f n k by simp
qed

lemma fls_unique: "2 ^ n \<le> unat w \<Longrightarrow> unat w < 2 ^ Suc n \<Longrightarrow> tlsf_fls w = int n"
proof -
  assume a: "2 ^ n \<le> unat w" "unat w < 2 ^ Suc n"
  then have "w \<noteq> 0" by auto
  from fls_bounds [OF this] have b: "0 \<le> tlsf_fls w" "2 ^ nat (tlsf_fls w) \<le> unat w" "unat w < 2 ^ Suc (nat (tlsf_fls w))" by auto
  have "(2::nat) ^ n < 2 ^ Suc (nat (tlsf_fls w))" "(2::nat) ^ nat (tlsf_fls w) < 2 ^ Suc n" using a b by linarith+
  then have "n < Suc (nat (tlsf_fls w))" "nat (tlsf_fls w) < Suc n" by (metis one_less_numeral_iff power_less_imp_less_exp semiring_norm(76))+
  then show "tlsf_fls w = int n" using b(1) by linarith
qed

text \<open>The isolated lowest bit.\<close>

lemma lowest_bit:
  fixes w :: u32
  assumes "bit w k" and "\<And>j. j < k \<Longrightarrow> \<not> bit w j"
  shows "w AND (NOT w + 1) = push_bit k 1"
proof -
  have k: "k < 32" using assms(1) bit_imp_le_length by fastforce
  define r where "r = unset_bit k w"
  have "r + push_bit k 1 = r OR push_bit k 1"
    by (rule disjunctive_add) (auto simp: r_def bit_simps)
  moreover have "r OR push_bit k 1 = w"
    using assms(1) by (intro bit_word_eqI) (auto simp: r_def bit_simps)
  ultimately have w: "w = r + push_bit k 1" by simp
  have "r + mask k = r OR mask k"
    using assms(2) by (intro disjunctive_add) (auto simp: r_def bit_simps)
  moreover have "w - 1 = r + mask k" by (simp add: w mask_eq_exp_minus_1 push_bit_eq_mult)
  ultimately have p: "w - 1 = r OR mask k" by simp
  have "NOT w + 1 = NOT (w - 1)" by (simp add: not_eq_complement)
  then show ?thesis unfolding p using assms k by (intro bit_word_eqI) (auto simp: r_def bit_simps)
qed

lemma ffs_lowest:
  assumes "w \<noteq> 0"
  shows "tlsf_ffs w = int (LEAST k. bit w k)"
proof -
  let ?k = "LEAST k. bit w k"
  have ex: "\<exists>k. bit w k" using assms by (auto simp: bit_eq_iff)
  have k: "bit w ?k" by (rule LeastI_ex [OF ex])
  then have lt: "?k < 32" using bit_imp_le_length by fastforce
  have "w AND (NOT w + 1) = push_bit ?k 1" using k not_less_Least by (intro lowest_bit) auto
  moreover have "unat (push_bit ?k 1 :: u32) = 2 ^ ?k"
    using power_strict_increasing [OF lt, of "2::nat"] unat_push [of 1 ?k] by simp
  then have "tlsf_fls (push_bit ?k 1) = int ?k" by (intro fls_unique) simp_all
  ultimately show ?thesis by (simp add: tlsf_ffs_def tlsf_fls_def)
qed


section \<open>Size classes\<close>

text \<open>The smallest size of a class and the width of a class.\<close>

definition class_width :: "nat \<Rightarrow> nat" where
  "class_width fl = (if fl = 0 then 4 else 2 ^ (fl + 1))"

definition class_min :: "nat \<Rightarrow> nat \<Rightarrow> nat" where
  "class_min fl sl = (if fl = 0 then 0 else 2 ^ (fl + 6)) + sl * class_width fl"

lemma second_level:
  fixes y :: u32
  assumes "32 \<le> unat y" and "unat y < 64"
  shows "unat (y XOR 32) = unat y - 32"
proof -
  have "list_all (\<lambda>n. unat ((of_nat n :: u32) XOR 32) = n - 32) [32..<64]" by code_simp
  moreover have "unat y \<in> set [32..<64]" using assms by (simp only: set_upt atLeastLessThan_iff)
  ultimately have "unat ((of_nat (unat y) :: u32) XOR 32) = unat y - 32" by (simp only: list_all_iff)
  then show ?thesis by simp
qed

lemma mapping_insert_large:
  assumes "2 ^ n \<le> unat s" and "unat s < 2 ^ Suc n" and "7 \<le> n"
  shows "mapping_insert s = (n - 6, unat s div 2 ^ (n - 5) - 32)"
proof -
  have p: "(2::nat) ^ n = 32 * 2 ^ (n - 5)"
    using assms(3) power_add [of "2::nat" 5 "n - 5"] by simp
  have "(2::nat) ^ 7 \<le> 2 ^ n" using assms(3) by (intro power_increasing) simp_all
  then have "\<not> s < 128" using assms(1) by (simp add: word_less_nat_alt)
  moreover have f: "nat (tlsf_fls s) = n" using fls_unique [OF assms(1,2)] by simp
  moreover have u: "unat (drop_bit (n - 5) s) = unat s div 2 ^ (n - 5)"
    unfolding unsigned_drop_bit_eq by (simp add: drop_bit_eq_div take_bit_nat_eq_self)
  moreover have "32 \<le> unat s div 2 ^ (n - 5)" using assms(1) by (simp add: p less_eq_div_iff_mult_less_eq)
  moreover have "unat s div 2 ^ (n - 5) < 64"
    using assms(2) by (intro div_less_iff_less_mult [THEN iffD2]) (simp_all add: p)
  ultimately show ?thesis using second_level [of "drop_bit (n - 5) s"] by (simp add: mapping_insert_def)
qed

text \<open>A size lies in its class.\<close>

lemma mapping_insert_class:
  assumes "unat s < 2 ^ 31" and "mapping_insert s = (fl, sl)"
  shows "fl < 25" and "sl < 32" and "class_min fl sl \<le> unat s" and "unat s < class_min fl sl + class_width fl"
    and "unat s < 2 ^ 30 \<Longrightarrow> fl < 24"
proof -
  have "fl < 25 \<and> sl < 32 \<and> class_min fl sl \<le> unat s \<and> unat s < class_min fl sl + class_width fl \<and> (unat s < 2 ^ 30 \<longrightarrow> fl < 24)"
  proof (cases "s < 128")
    case True
    then have "fl = 0" "sl = unat s div 4" "unat s < 128" using assms(2) by (simp_all add: mapping_insert_def word_less_nat_alt)
    moreover have "unat s div 4 * 4 \<le> unat s" "unat s < unat s div 4 * 4 + 4" "unat s < 128 \<longrightarrow> unat s div 4 < 32" by presburger+
    ultimately show ?thesis by (simp add: class_min_def class_width_def)
  next
    case False
    then have "s \<noteq> 0" "128 \<le> unat s" by (auto simp: word_less_nat_alt)
    define n where "n = nat (tlsf_fls s)"
    have n: "2 ^ n \<le> unat s" "unat s < 2 ^ Suc n" using fls_bounds [OF \<open>s \<noteq> 0\<close>] by (simp_all add: n_def)
    have lo: "7 \<le> n"
    proof (rule ccontr)
      assume "\<not> 7 \<le> n"
      then have "(2::nat) ^ Suc n \<le> 2 ^ 7" by (intro power_increasing) simp_all
      then show False using n(2) \<open>128 \<le> unat s\<close> by simp
    qed
    have hi: "n < k" if "unat s < 2 ^ k" for k
      using n(1) that by (metis le_less_trans one_less_numeral_iff power_less_imp_less_exp semiring_norm(76))
    have fs: "fl = n - 6" "sl = unat s div 2 ^ (n - 5) - 32" using mapping_insert_large [OF n lo] assms(2) by simp_all
    have p: "(2::nat) ^ n = 32 * 2 ^ (n - 5)" using lo power_add [of "2::nat" 5 "n - 5"] by simp
    have g: "32 \<le> unat s div 2 ^ (n - 5)" using n(1) by (simp add: p less_eq_div_iff_mult_less_eq)
    have sl: "unat s div 2 ^ (n - 5) < 64" using n(2) by (intro div_less_iff_less_mult [THEN iffD2]) (simp_all add: p)
    have e: "n - 6 + 1 = n - 5" "n - 6 + 6 = n" using lo by simp_all
    have "class_min fl sl = unat s div 2 ^ (n - 5) * 2 ^ (n - 5)"
      using lo g unfolding fs class_min_def class_width_def e by (simp add: p diff_mult_distrib)
    moreover have "class_width fl = 2 ^ (n - 5)" using lo unfolding fs class_width_def e by simp
    moreover have "unat s mod 2 ^ (n - 5) < 2 ^ (n - 5)" by simp
    then have "unat s < unat s div 2 ^ (n - 5) * 2 ^ (n - 5) + 2 ^ (n - 5)"
      using div_mult_mod_eq [of "unat s" "2 ^ (n - 5)"] by linarith
    moreover have "unat s div 2 ^ (n - 5) * 2 ^ (n - 5) \<le> unat s" by (rule div_times_less_eq_dividend)
    moreover have "fl < 25" "sl < 32" "unat s < 2 ^ 30 \<longrightarrow> fl < 24" using hi [of 31] hi [of 30] assms(1) fs sl lo by auto
    ultimately show ?thesis by metis
  qed
  then show "fl < 25" "sl < 32" "class_min fl sl \<le> unat s" "unat s < class_min fl sl + class_width fl" "unat s < 2 ^ 30 \<Longrightarrow> fl < 24" by auto
qed

text \<open>Classes are ordered by the two indices.\<close>

lemma class_min_mono:
  assumes "sl < 32" and "fl < fl' \<or> fl = fl' \<and> sl \<le> sl'"
  shows "class_min fl sl \<le> class_min fl' sl'"
proof (cases "fl = fl'")
  case False
  then have lt: "fl < fl'" using assms(2) by simp
  have "sl * class_width fl \<le> 32 * class_width fl" using assms(1) by simp
  then have "class_min fl sl \<le> 2 ^ (fl + 7)" by (auto simp: class_min_def class_width_def power_add)
  also have "\<dots> \<le> 2 ^ (fl' + 6)" using lt by (intro power_increasing) simp_all
  also have "\<dots> \<le> class_min fl' sl'" using lt by (simp add: class_min_def)
  finally show ?thesis .
qed (use assms(2) in \<open>simp add: class_min_def\<close>)

text \<open>The size that is looked up for a request: the request rounded up to the next class.\<close>

lemma search_rounded:
  assumes "unat s < 2 ^ 30" and "\<not> s < 128" and "mapping_search s = (fl, sl)"
  obtains n s' where "7 \<le> n" "2 ^ n \<le> unat s" "unat s < 2 ^ Suc n" "2 ^ n = 32 * (2 :: nat) ^ (n - 5)"
    "unat s' = unat s + (2 ^ (n - 5) - 1)" "unat s' < 2 ^ 31" "mapping_insert s' = (fl, sl)"
proof -
  have s: "s \<noteq> 0" "128 \<le> unat s" using assms(2) by (auto simp: word_less_nat_alt)
  define n where "n = nat (tlsf_fls s)"
  have n: "2 ^ n \<le> unat s" "unat s < 2 ^ Suc n" using fls_bounds [OF s(1)] by (simp_all add: n_def)
  have hi: "n < 30" using n(1) assms(1) by (metis le_less_trans one_less_numeral_iff power_less_imp_less_exp semiring_norm(76))
  have lo: "7 \<le> n"
  proof (rule ccontr)
    assume "\<not> 7 \<le> n"
    then have "(2::nat) ^ Suc n \<le> 2 ^ 7" by (intro power_increasing) simp_all
    then show False using n(2) s(2) by simp
  qed
  let ?g = "2 ^ (n - 5) :: nat"
  have g: "?g \<le> 2 ^ 25" using hi by (intro power_increasing) simp_all
  have "unat (push_bit (n - 5) 1 :: u32) = ?g" using unat_push [of 1 "n - 5"] g by simp
  then have ug: "unat (push_bit (n - 5) 1 - 1 :: u32) = ?g - 1" by (subst unat_sub) (simp_all add: word_le_nat_alt)
  define s' where "s' = s + (push_bit (n - 5) 1 - 1)"
  have u: "unat s' = unat s + (?g - 1)" unfolding s'_def using ug g assms(1) by (subst unat_add32) simp_all
  have m: "mapping_insert s' = (fl, sl)" using assms(2,3) by (simp add: mapping_search_def n_def s'_def not_less)
  have p: "(2::nat) ^ n = 32 * ?g" using lo power_add [of "2::nat" 5 "n - 5"] by simp
  have "unat s' < 2 ^ 31" using u g assms(1) by simp
  then show ?thesis using that [OF lo n p u _ m] by blast
qed

text \<open>Every size of the class that is searched, or of a later one, is enough, and the class is not far above the
  request.\<close>

lemma mapping_search_min:
  assumes "unat s < 2 ^ 30" and "4 dvd unat s" and "mapping_search s = (fl, sl)"
  shows "unat s \<le> class_min fl sl" and "sl < 32" and "class_min fl sl \<le> unat s + unat s div 32"
proof -
  have "unat s \<le> class_min fl sl \<and> sl < 32 \<and> class_min fl sl \<le> unat s + unat s div 32"
  proof (cases "s < 128")
    case True
    then have "fl = 0" "sl = unat s div 4" using assms(3) by (simp_all add: mapping_search_def mapping_insert_def not_le [symmetric])
    moreover have "unat s < 128" using True by (simp add: word_less_nat_alt)
    moreover have "unat s div 4 * 4 = unat s" using assms(2) by simp
    ultimately show ?thesis by (auto simp: class_min_def class_width_def)
  next
    case False
    obtain n s' where n: "7 \<le> n" "2 ^ n \<le> unat s" "unat s < 2 ^ Suc n" "2 ^ n = 32 * (2 :: nat) ^ (n - 5)"
      "unat s' = unat s + (2 ^ (n - 5) - 1)" "unat s' < 2 ^ 31" "mapping_insert s' = (fl, sl)"
      by (rule search_rounded [OF assms(1) False assms(3)])
    let ?g = "2 ^ (n - 5) :: nat"
    note cls = mapping_insert_class [OF n(6,7)]
    have "unat s \<le> class_min fl sl"
    proof (cases "unat s' < 2 ^ Suc n")
      case True
      moreover have "2 ^ n \<le> unat s'" using n(2,5) by linarith
      ultimately have "(fl, sl) = (n - 6, unat s' div ?g - 32)" using mapping_insert_large [of n s'] n(1,7) by simp
      then have "class_width fl = 2 ^ (n - 6 + 1)" "n - 6 + 1 = n - 5" using n(1) by (auto simp: class_width_def)
      then have "class_width fl = ?g" by (simp only:)
      then have "unat s' < class_min fl sl + ?g" using cls(4) by simp
      then show ?thesis using n(5) by linarith
    next
      case False
      have "unat s' < 2 ^ Suc (Suc n)" using n(3-5) by simp
      then have e: "(fl, sl) = (n - 5, unat s' div 2 ^ (n - 4) - 32)"
        using mapping_insert_large [of "Suc n" s'] False n(1,7) by (simp add: Suc_diff_le)
      then have "2 ^ (n + 1) \<le> class_min fl sl" using n(1) by (simp add: class_min_def)
      then show ?thesis using n(3) by simp
    qed
    moreover have "?g \<le> unat s div 32" using n(2,4) by (simp add: less_eq_div_iff_mult_less_eq)
    ultimately show ?thesis using cls(2,3) n(5) by simp
  qed
  then show "unat s \<le> class_min fl sl" "sl < 32" "class_min fl sl \<le> unat s + unat s div 32" by simp_all
qed

section \<open>The search finds a block that fits\<close>

text \<open>The head of a list, and when the index of the free lists is right: the bitmaps say which lists have
  a block, and the first block of a list has a size of its class.\<close>

abbreviation head :: "mem \<Rightarrow> addr \<Rightarrow> nat \<Rightarrow> nat \<Rightarrow> addr" where
  "head m control fl sl \<equiv> load32 m (blocks_at control fl sl)"

definition filled :: "mem \<Rightarrow> addr \<Rightarrow> nat \<Rightarrow> nat \<Rightarrow> bool" where
  "filled m control fl sl \<longleftrightarrow> fl < 24 \<and> sl < 32 \<and> head m control fl sl \<noteq> control"

definition index_ok :: "mem \<Rightarrow> addr \<Rightarrow> bool" where
  "index_ok m control \<longleftrightarrow>
     (\<forall>fl. bit (load32 m (fl_bitmap_at control)) fl \<longleftrightarrow> (\<exists>sl. filled m control fl sl)) \<and>
     (\<forall>fl sl. fl < 24 \<longrightarrow> (bit (load32 m (sl_bitmap_at control fl)) sl \<longleftrightarrow> filled m control fl sl)) \<and>
     (\<forall>fl sl. filled m control fl sl \<longrightarrow> head m control fl sl \<noteq> 0 \<and>
        unat (block_size m (head m control fl sl)) < 2 ^ 30 \<and> mapping_insert (block_size m (head m control fl sl)) = (fl, sl))"

definition later :: "nat \<times> nat \<Rightarrow> nat \<times> nat \<Rightarrow> bool" where
  "later c c' \<longleftrightarrow> fst c < fst c' \<or> fst c = fst c' \<and> snd c \<le> snd c'"

lemma least_bit:
  fixes w :: u32
  assumes "w \<noteq> 0"
  shows "bit w (nat (tlsf_ffs w)) \<and> (\<forall>j. bit w j \<longrightarrow> nat (tlsf_ffs w) \<le> j)"
proof -
  have "\<exists>k. bit w k" using assms by (auto simp: bit_eq_iff)
  then show ?thesis using LeastI_ex [of "bit w"] by (auto simp: ffs_lowest [OF assms] intro: Least_le)
qed

lemma bit_from:
  fixes w :: u32
  shows "bit (w AND push_bit n (NOT 0)) k \<longleftrightarrow> bit w k \<and> n \<le> k" "bit (w AND NOT (mask n)) k \<longleftrightarrow> bit w k \<and> n \<le> k"
  using bit_imp_le_length [of w k] by (auto simp: bit_simps)

lemma no_bits: "(w :: u32) = 0 \<longleftrightarrow> (\<forall>k. \<not> bit w k)"
  by (metis bit_0_eq bot_apply bot_bool_def bit_word_eqI)

lemma search_finds:
  assumes ok: "index_ok m control" and "fl < 24" "sl < 32"
    and s: "search_suitable_block m control fl sl = (b, fl', sl')"
  shows "if b = 0 then \<forall>c. filled m control (fst c) (snd c) \<longrightarrow> \<not> later (fl, sl) c
    else filled m control fl' sl' \<and> b = head m control fl' sl' \<and> later (fl, sl) (fl', sl') \<and>
      (\<forall>c. filled m control (fst c) (snd c) \<longrightarrow> later (fl, sl) c \<longrightarrow> later (fl', sl') c)"
proof -
  let ?sm = "\<lambda>fl. load32 m (sl_bitmap_at control fl)" let ?fm = "load32 m (fl_bitmap_at control)"
  have fb: "bit ?fm fl \<longleftrightarrow> (\<exists>sl. filled m control fl sl)" for fl using ok by (simp add: index_ok_def)
  have sb: "bit (?sm fl) sl \<longleftrightarrow> filled m control fl sl" if "fl < 24" for fl sl using ok that by (simp add: index_ok_def)
  have hd: "filled m control fl sl \<Longrightarrow> head m control fl sl \<noteq> 0" for fl sl using ok by (simp add: index_ok_def)
  show ?thesis
  proof (cases "?sm fl AND push_bit sl (NOT 0) = 0")
    case False
    let ?k = "nat (tlsf_ffs (?sm fl AND push_bit sl (NOT 0)))"
    note lb = least_bit [OF False]
    have "(b, fl', sl') = (head m control fl ?k, fl, ?k)" using s False by (auto simp: search_suitable_block_def Let_def)
    moreover have "filled m control fl ?k" "sl \<le> ?k" using lb sb [OF assms(2)] by (simp_all add: bit_from)
    moreover have "?k \<le> j" if "filled m control fl j" "sl \<le> j" for j using lb sb [OF assms(2), of j] that by (simp add: bit_from)
    ultimately show ?thesis using hd by (auto simp: later_def)
  next
    case none: True
    then have n: "\<not> filled m control fl j" if "sl \<le> j" for j using sb [OF assms(2), of j] that by (auto simp: no_bits bit_from)
    show ?thesis
    proof (cases "?fm AND push_bit (fl + 1) (NOT 0) = 0")
      case True
      then have "b = 0" using s none by (simp add: search_suitable_block_def Let_def)
      moreover have "\<not> filled m control j j'" if "fl < j" for j j' using True fb [of j] that by (auto simp: no_bits bit_from Suc_le_eq)
      ultimately show ?thesis using n by (auto simp: later_def)
    next
      case False
      define F where "F = nat (tlsf_ffs (?fm AND push_bit (fl + 1) (NOT 0)))"
      note lb = least_bit [OF False, folded F_def]
      have f: "\<exists>j. filled m control F j" "fl < F" "\<And>j j'. filled m control j j' \<Longrightarrow> fl < j \<Longrightarrow> F \<le> j"
        using lb fb by (auto simp: bit_from Suc_le_eq)
      have f24: "F < 24" using f(1) by (auto simp: filled_def)
      have ne: "?sm F \<noteq> 0" using f(1) sb [OF f24] by (auto simp: no_bits)
      define K where "K = nat (tlsf_ffs (?sm F))"
      have k: "filled m control F K" "\<And>j. filled m control F j \<Longrightarrow> K \<le> j"
        using least_bit [OF ne, folded K_def] sb [OF f24] by simp_all
      have r: "b = head m control F K" "fl' = F" "sl' = K"
        using s none False by (auto simp: search_suitable_block_def Let_def F_def K_def)
      have "later (F, K) c" if "filled m control (fst c) (snd c)" "later (fl, sl) c" for c
      proof (cases "fst c = F")
        case True
        then show ?thesis using k(2) [of "snd c"] that(1) by (simp add: later_def)
      next
        case ne: False
        have "fl < fst c" using that n [of "snd c"] by (auto simp: later_def)
        then show ?thesis using f(3) [OF that(1)] ne by (simp add: later_def)
      qed
      then show ?thesis using r k(1) f(2) hd by (simp add: later_def)
    qed
  qed
qed


lemma unat_and_not_mask: "unat (x AND NOT (mask n) :: u32) = unat x - unat x mod 2 ^ n"
proof -
  have "(x AND NOT (mask n)) + take_bit n x = (x AND NOT (mask n)) OR (x AND mask n)"
    by (subst disjunctive_add) (auto simp: take_bit_eq_mask bit_simps)
  also have "\<dots> = x" by (simp only: bit.conj_disj_distrib [symmetric] bit.disj_cancel_left and.right_neutral)
  finally have "x AND NOT (mask n) = x - take_bit n x" by (simp add: eq_diff_eq)
  moreover have t: "unat (take_bit n x) = unat x mod 2 ^ n" unfolding unsigned_take_bit_eq by (simp add: take_bit_eq_mod)
  ultimately show ?thesis by (simp add: unat_sub word_le_nat_alt)
qed

text \<open>Requests are rounded up to words; the rounding of the three largest sizes wraps around to the smallest block.\<close>

lemma adjusted:
  assumes "adjust_request_size sz ALIGN_SIZE = adj" and "adj \<noteq> 0" and "sz \<le> 0xFFFFFFFC"
  shows "unat adj < 2 ^ 30" and "4 dvd unat adj" and "unat sz \<le> unat adj" and "12 \<le> unat adj"
proof -
  define w where "w = align_up sz ALIGN_SIZE"
  have n: "(NOT 3 :: u32) = NOT (mask 2)" by (simp add: mask_eq_exp_minus_1)
  have s3: "unat (sz + 3) = unat sz + 3" using assms(3) by (subst unat_add32) (simp_all add: word_le_nat_alt)
  have w: "unat w = (unat sz + 3) - (unat sz + 3) mod 4"
    using unat_and_not_mask [of "sz + 3" 2] s3 by (simp add: w_def align_up_def n [symmetric])
  have m: "(x + 3) - (x + 3) mod 4 \<ge> x" "4 dvd (x + 3) - (x + 3) mod 4" for x :: nat by presburger+
  have a: "w < 0x40000000" "adj = max w 12" using assms(1,2) by (auto simp: adjust_request_size_def w_def Let_def split: if_splits)
  have u: "unat adj = max (unat w) 12" unfolding a(2) by (simp add: max_def word_le_nat_alt)
  have w30: "unat w < 2 ^ 30" using a(1) by (simp add: word_less_nat_alt)
  have w4: "unat sz \<le> unat w" "4 dvd unat w" using m [of "unat sz"] w by simp_all
  show "unat adj < 2 ^ 30" "unat sz \<le> unat adj" "12 \<le> unat adj" using u w30 w4(1) by auto
  show "4 dvd unat adj" using u w4(2) by (auto simp: max_def)
qed

lemma adjust_wraps: "sz > 0xFFFFFFFC \<Longrightarrow> adjust_request_size sz ALIGN_SIZE = 12"
proof -
  assume a: "sz > 0xFFFFFFFC"
  then have "unat sz \<in> {4294967293, 4294967294, 4294967295}" using unat_lt32 [of sz] by (auto simp: word_less_nat_alt simp del: unat_lt32)
  then have "sz \<in> {0xFFFFFFFD, 0xFFFFFFFE, 0xFFFFFFFF}" by (auto simp: word_unat_eq_iff)
  then show ?thesis by (elim insertE emptyE) (simp_all add: adjust_request_size_def align_up_def)
qed

text \<open>The allocator hands out a block that is large enough, and the best class at hand: for an adjusted request
  the search returns the first block of the first non-empty list at or above the class of the
  request, which is at least as large as the request, and takes it off its list; it gives up only
  when every list at or above that class is empty, and then changes nothing.\<close>

theorem locate_free_fits:
  assumes "index_ok m control" and "adjust_request_size sz ALIGN_SIZE = adj" and "adj \<noteq> 0"
    and "sz \<le> 0xFFFFFFFC" and "block_locate_free control adj m = (b, m')"
  shows "unat adj < 2 ^ 30 \<and> unat sz \<le> unat adj \<and>
    (if b = 0 then m' = m \<and> (\<forall>c. filled m control (fst c) (snd c) \<longrightarrow> \<not> later (mapping_search adj) c)
     else \<exists>fl sl. filled m control fl sl \<and> b = head m control fl sl \<and> later (mapping_search adj) (fl, sl) \<and>
       unat adj \<le> unat (block_size m b) \<and> m' = remove_free_block control b fl sl m)"
proof -
  note adj = adjusted [OF assms(2-4)]
  obtain fl sl where q: "mapping_search adj = (fl, sl)" by fastforce
  note qm = mapping_search_min [OF adj(1,2) q]
  show ?thesis
  proof (cases "fl < 24")
    case True
    obtain b1 fl1 sl1 where s: "search_suitable_block m control fl sl = (b1, fl1, sl1)" by (metis prod_cases3)
    have r: "(b, m') = (if b1 \<noteq> 0 then (b1, remove_free_block control b1 fl1 sl1 m) else (0, m))"
      using assms(3,5) q True s by (simp add: block_locate_free_def)
    note f = search_finds [OF assms(1) True qm(2) s]
    show ?thesis
    proof (cases "b1 = 0")
      case True
      then show ?thesis using r f q adj by simp
    next
      case False
      then have fb: "filled m control fl1 sl1" "b = head m control fl1 sl1" "later (fl, sl) (fl1, sl1)" "b \<noteq> 0"
          "m' = remove_free_block control b fl1 sl1 m" using r f by simp_all
      then have c: "unat (block_size m b) < 2 ^ 30" "mapping_insert (block_size m b) = (fl1, sl1)"
        using assms(1) by (simp_all add: index_ok_def)
      have "class_min fl sl \<le> class_min fl1 sl1" using class_min_mono [OF qm(2)] fb(3) by (simp add: later_def)
      then have "unat adj \<le> unat (block_size m b)" using qm(1) mapping_insert_class(3) [OF _ c(2)] c(1) by simp
      then show ?thesis using fb adj q by auto
    qed
  next
    case False
    then have "b = 0" "m' = m" using assms(3,5) q by (auto simp: block_locate_free_def)
    moreover have "\<not> later (fl, sl) c" if "filled m control (fst c) (snd c)" for c
      using that False by (auto simp: filled_def later_def)
    ultimately show ?thesis using adj q by simp
  qed
qed

end
