(* ===== verification/TlsfLists.thy ===== *)
theory TlsfLists
  imports Tlsf
begin

text \<open>
  The free lists of the allocator in memory. Aligned words are read through \<open>rd\<close>, which turns a store
  into a function update; a header word is \<open>hdr\<close> of a size and two flags. \<open>dll\<close> is a doubly linked list
  whose ends are the null block, \<open>free_lists\<close> the lists of a control structure with their bitmaps, and
  \<open>free_index\<close> hides the order of the lists: it is a set of blocks, each in the list of the class of
  its size. Taking a block off its list and putting one on are deletion and insertion in that set and change no
  word outside of \<open>list_words\<close>.
\<close>

unbundle bit_operations_syntax

section \<open>Words of the memory\<close>

text \<open>The aligned words below 4 GB, addressed by natural numbers.\<close>

definition word_addr :: "nat \<Rightarrow> bool" where
  "word_addr a \<longleftrightarrow> 4 dvd a \<and> a < 4294967296"

definition rd :: "mem \<Rightarrow> nat \<Rightarrow> u32" where
  "rd m a = (if word_addr a then load32 m (of_nat a) else 0)"

lemma rd_load: "word_addr a \<Longrightarrow> load32 m (of_nat a) = rd m a"
  by (simp add: rd_def)

lemma store32_other:
  assumes "word_addr a" "word_addr b" "b \<noteq> a"
  shows "load32 (store32 m (of_nat a) v) (of_nat b) = load32 m (of_nat b)"
proof -
  have ab: "4 dvd a" "4 dvd b" "a < 4294967296" "b < 4294967296" using assms by (simp_all add: word_addr_def)
  have "store32 m (of_nat a) v (of_nat b + of_nat i) = m (of_nat b + of_nat i)" if "i < 4" for i
  proof -
    have "\<not> unat (of_nat b + of_nat i - of_nat a :: u32) < 4"
    proof
      define j where "j = unat (of_nat b + of_nat i - of_nat a :: u32)"
      assume "unat (of_nat b + of_nat i - of_nat a :: u32) < 4"
      then have j: "j < 4" by (simp add: j_def)
      have "of_nat (b + i) = (of_nat (a + j) :: u32)" by (simp add: j_def)
      then have "unat (of_nat (b + i) :: u32) = unat (of_nat (a + j) :: u32)" by (simp only:)
      moreover have "b + i < 4294967296" "a + j < 4294967296" using ab that j by (auto elim!: dvdE)
      ultimately have "b + i = a + j" by (simp only: unat_of_nat32)
      then show False using ab that j assms(3) by presburger
    qed
    then show ?thesis by (simp add: store32_def store_bytes_apply)
  qed
  from this [of 0] this [of 1] this [of 2] this [of 3] show ?thesis by (simp add: load32_def)
qed

lemma rd_store: "word_addr a \<Longrightarrow> rd (store32 m (of_nat a) v) = (rd m)(a := v)"
  by (rule ext) (auto simp: rd_def load32_store32 store32_other)

section \<open>Header words\<close>

text \<open>The header of a block of size \<open>s\<close>, with its two flags.\<close>

definition hdr :: "nat \<Rightarrow> bool \<Rightarrow> bool \<Rightarrow> u32" where
  "hdr s f p = of_nat s OR ((if f then 1 else 0) OR (if p then 2 else 0))"

lemma bit_of_nat4:
  assumes "4 dvd s"
  shows "\<not> bit (of_nat s :: u32) 0" "\<not> bit (of_nat s :: u32) (Suc 0)"
proof -
  obtain k where "s = k * 4" using assms by (auto elim: dvdE simp: mult.commute)
  then have "(of_nat s :: u32) = push_bit 2 (of_nat k)" by (simp add: push_bit_eq_mult)
  then show "\<not> bit (of_nat s :: u32) 0" "\<not> bit (of_nat s :: u32) (Suc 0)" by (simp_all add: bit_push_bit_iff)
qed

lemma small_bits:
  "bit (1 :: u32) n \<longleftrightarrow> n = 0" "bit (2 :: u32) n \<longleftrightarrow> n = Suc 0" "bit (3 :: u32) n \<longleftrightarrow> n = 0 \<or> n = Suc 0"
  "bit (- 4 :: u32) n \<longleftrightarrow> n < 32 \<and> n \<noteq> 0 \<and> n \<noteq> Suc 0" "bit (- 3 :: u32) n \<longleftrightarrow> n < 32 \<and> n \<noteq> Suc 0"
proof -
  show one: "bit (1 :: u32) n \<longleftrightarrow> n = 0" by (simp add: bit_1_iff)
  have "(2 :: u32) = push_bit 1 1" by (simp add: push_bit_eq_mult)
  then show two: "bit (2 :: u32) n \<longleftrightarrow> n = Suc 0" by (simp only: bit_push_bit_iff bit_1_iff) auto
  have "(3 :: u32) = 1 OR 2" by simp
  then show three: "bit (3 :: u32) n \<longleftrightarrow> n = 0 \<or> n = Suc 0" by (simp only: bit_or_iff one two)
  have "(- 4 :: u32) = NOT 3" by simp
  then show "bit (- 4 :: u32) n \<longleftrightarrow> n < 32 \<and> n \<noteq> 0 \<and> n \<noteq> Suc 0" by (simp only: bit_not_iff three) simp
  have "(- 3 :: u32) = NOT 2" by simp
  then show "bit (- 3 :: u32) n \<longleftrightarrow> n < 32 \<and> n \<noteq> Suc 0" by (simp only: bit_not_iff two) simp
qed

lemma hdr_bit:
  assumes "4 dvd s"
  shows "bit (hdr s f p) n \<longleftrightarrow> (if n = 0 then f else if n = Suc 0 then p else bit (of_nat s :: u32) n)"
  using bit_of_nat4 [OF assms] by (auto simp: hdr_def bit_or_iff small_bits simp del: bit_numeral_word_iff bit_neg_numeral_word_iff)

text \<open>Any word is a header as far as its flags go.\<close>

lemma set_size_word:
  assumes "4 dvd s"
  shows "of_nat s OR (w AND (1 OR 2)) = hdr s (bit w 0) (bit w 1)"
  using bit_of_nat4 [OF assms]
  by (intro bit_word_eqI) (auto simp: bit_or_iff bit_and_iff small_bits hdr_bit [OF assms] simp del: bit_numeral_word_iff bit_neg_numeral_word_iff)

lemma hdr_ops:
  assumes "4 dvd s"
  shows "hdr s f p AND NOT (1 OR 2) = of_nat s" "hdr s f p AND 1 \<noteq> 0 \<longleftrightarrow> f" "hdr s f p AND 2 \<noteq> 0 \<longleftrightarrow> p"
    "hdr s f p OR 1 = hdr s True p" "hdr s f p OR 2 = hdr s f True" "hdr s f p AND NOT 1 = hdr s False p" "hdr s f p AND NOT 2 = hdr s f False"
    "bit (hdr s f p) 0 = f" "bit (hdr s f p) 1 = p"
proof -
  note b = bit_or_iff bit_and_iff bit_not_iff_eq small_bits hdr_bit [OF assms]
  show "hdr s f p AND NOT (1 OR 2) = of_nat s" using bit_of_nat4 [OF assms] by (intro bit_word_eqI) (auto simp: b simp del: bit_numeral_word_iff bit_neg_numeral_word_iff)
  show "hdr s f p OR 1 = hdr s True p" "hdr s f p OR 2 = hdr s f True" "hdr s f p AND NOT 1 = hdr s False p" "hdr s f p AND NOT 2 = hdr s f False"
    by (intro bit_word_eqI; auto simp: b simp del: bit_numeral_word_iff bit_neg_numeral_word_iff)+
  show "bit (hdr s f p) 0 = f" "bit (hdr s f p) 1 = p" by (simp_all add: b)
  show "hdr s f p AND 1 \<noteq> 0 \<longleftrightarrow> f" "hdr s f p AND 2 \<noteq> 0 \<longleftrightarrow> p" by (auto simp: no_bits b simp del: bit_numeral_word_iff bit_neg_numeral_word_iff)
qed

lemma hdr_add:
  assumes "4 dvd s" and "4 dvd t"
  shows "hdr s f p + of_nat t = hdr (s + t) f p"
proof -
  have e: "hdr r f p = of_nat r + ((if f then 1 else 0) OR (if p then 2 else 0))" if "4 dvd r" for r
    unfolding hdr_def
  proof (rule disjunctive_add [symmetric])
    fix n
    show "\<not> bit (of_nat r :: u32) n \<or> \<not> bit ((if f then 1 else 0) OR (if p then 2 else 0) :: u32) n"
      using bit_of_nat4 [OF that] by (cases "n = 0"; cases "n = Suc 0") (auto simp: bit_or_iff small_bits simp del: bit_numeral_word_iff bit_neg_numeral_word_iff)
  qed
  show ?thesis using e [OF assms(1)] e [of "s + t"] assms by (simp add: add.assoc add.left_commute)
qed

section \<open>Doubly linked lists\<close>

text \<open>A list that starts at \<open>p\<close>, whose first element has \<open>prev\<close> before it and whose last is followed by the
  null block at \<open>c\<close>; and the part of a list in front of \<open>q\<close>.\<close>

primrec dll :: "(nat \<Rightarrow> u32) \<Rightarrow> nat \<Rightarrow> nat \<Rightarrow> nat list \<Rightarrow> u32 \<Rightarrow> bool" where
  "dll h c prev [] p \<longleftrightarrow> p = of_nat c"
| "dll h c prev (x # xs) p \<longleftrightarrow> p = of_nat x \<and> h (x + 12) = of_nat prev \<and> dll h c x xs (h (x + 8))"

primrec seg :: "(nat \<Rightarrow> u32) \<Rightarrow> nat \<Rightarrow> nat list \<Rightarrow> u32 \<Rightarrow> u32 \<Rightarrow> bool" where
  "seg h prev [] p q \<longleftrightarrow> p = q"
| "seg h prev (x # xs) p q \<longleftrightarrow> p = of_nat x \<and> h (x + 12) = of_nat prev \<and> seg h x xs (h (x + 8)) q"

lemma dll_append: "dll h c prev (xs @ ys) p \<longleftrightarrow> (\<exists>q. seg h prev xs p q \<and> dll h c (last (prev # xs)) ys q)"
  by (induction xs arbitrary: prev p) auto

lemma dll_cong: "(\<And>x. x \<in> set xs \<Longrightarrow> h' (x + 8) = h (x + 8) \<and> h' (x + 12) = h (x + 12)) \<Longrightarrow> dll h' c prev xs p = dll h c prev xs p"
  by (induction xs arbitrary: prev p) auto

lemma seg_cong: "(\<And>x. x \<in> set xs \<Longrightarrow> h' (x + 8) = h (x + 8) \<and> h' (x + 12) = h (x + 12)) \<Longrightarrow> seg h' prev xs p q = seg h prev xs p q"
  by (induction xs arbitrary: prev p) auto

text \<open>Headers take sixteen bytes, so that the words of different headers are different.\<close>

definition spaced :: "nat set \<Rightarrow> bool" where
  "spaced X \<longleftrightarrow> (\<forall>x \<in> X. \<forall>y \<in> X. x < y \<longrightarrow> x + 16 \<le> y)"

lemma spaced_mono: "spaced X \<Longrightarrow> Y \<subseteq> X \<Longrightarrow> spaced Y"
  by (auto simp: spaced_def)

lemma spaced_eq:
  assumes "spaced X" and "x \<in> X" and "y \<in> X" and "i < 16" and "j < 16" and "x + i = y + j"
  shows "x = y \<and> i = j"
proof -
  have "x < y \<Longrightarrow> x + 16 \<le> y" "y < x \<Longrightarrow> y + 16 \<le> x" using assms(1-3) by (simp_all add: spaced_def)
  then have "x = y" using assms(4-6) by linarith
  then show ?thesis using assms(6) by simp
qed

text \<open>Changing what a part of a list is followed by.\<close>

lemma seg_relink:
  assumes "seg h prev xs p q" and "xs \<noteq> []" and "distinct xs" and "spaced (set xs)"
  shows "seg (h(last xs + 8 := q')) prev xs p q'"
  using assms
proof (induction xs arbitrary: prev p)
  case (Cons x xs)
  show ?case
  proof (cases "xs = []")
    case True
    then show ?thesis using Cons.prems by auto
  next
    case False
    have sp: "spaced (set xs)" using Cons.prems(4) by (rule spaced_mono) auto
    have "x \<noteq> last xs" using Cons.prems(3) False by auto
    moreover have "x + 12 \<noteq> last xs + 8"
      using spaced_eq [OF Cons.prems(4), of x "last xs" 12 8] False by auto
    moreover have "seg (h(last xs + 8 := q')) x xs (h (x + 8)) q'" by (rule Cons.IH) (use Cons.prems(1,3) False sp in simp_all)
    ultimately show ?thesis using Cons.prems(1) False unfolding seg.simps last.simps fun_upd_apply by auto
  qed
qed simp

section \<open>The free lists\<close>

abbreviation slb :: "nat \<Rightarrow> nat \<Rightarrow> nat" where "slb c fl \<equiv> c + 20 + 4 * fl"
abbreviation blk :: "nat \<Rightarrow> nat \<Rightarrow> nat \<Rightarrow> nat" where "blk c fl sl \<equiv> c + 116 + 4 * (32 * fl + sl)"

lemma control_at:
  "sl_bitmap_at (of_nat c) fl = of_nat (slb c fl)" "blocks_at (of_nat c) fl sl = of_nat (blk c fl sl)"
  "of_nat c + 16 = (of_nat (c + 16) :: u32)"
  by (simp_all add: sl_bitmap_at_def blocks_at_def)

lemma blk_eq:
  assumes "sl < 32" and "sl' < 32"
  shows "blk c fl sl = blk c fl' sl' \<longleftrightarrow> fl = fl' \<and> sl = sl'"
proof
  assume "blk c fl sl = blk c fl' sl'"
  then have e: "32 * fl + sl = 32 * fl' + sl'" by simp
  have "fl = (32 * fl + sl) div 32" "fl' = (32 * fl' + sl') div 32" using assms by simp_all
  then show "fl = fl' \<and> sl = sl'" using e by simp
qed simp

text \<open>The lists of a control structure at \<open>c\<close>: \<open>FL fl sl\<close> holds the blocks of a class, \<open>cls\<close> is the class of a block.\<close>

definition free_lists :: "(nat \<Rightarrow> u32) \<Rightarrow> nat \<Rightarrow> (nat \<Rightarrow> nat \<Rightarrow> nat list) \<Rightarrow> (nat \<Rightarrow> nat \<times> nat) \<Rightarrow> bool" where
  "free_lists h c FL cls \<longleftrightarrow>
     (\<forall>fl < 24. \<forall>sl < 32. dll h c c (FL fl sl) (h (blk c fl sl)) \<and> distinct (FL fl sl) \<and> (\<forall>x \<in> set (FL fl sl). cls x = (fl, sl))) \<and>
     (\<forall>fl < 24. \<forall>sl. bit (h (slb c fl)) sl \<longleftrightarrow> sl < 32 \<and> FL fl sl \<noteq> []) \<and>
     (\<forall>fl. bit (h (c + 16)) fl \<longleftrightarrow> fl < 24 \<and> (\<exists>sl < 32. FL fl sl \<noteq> []))"

definition nodes :: "(nat \<Rightarrow> nat \<Rightarrow> nat list) \<Rightarrow> nat set" where
  "nodes FL = {x. \<exists>fl < 24. \<exists>sl < 32. x \<in> set (FL fl sl)}"

text \<open>Where the headers of blocks can be: behind the control structure, aligned, sixteen bytes apart.\<close>

definition placed :: "nat \<Rightarrow> nat set \<Rightarrow> bool" where
  "placed c X \<longleftrightarrow> 4 dvd c \<and> c + 3188 \<le> 4294967296 \<and> spaced (insert c X) \<and> (\<forall>x \<in> X. 4 dvd x \<and> c + 3184 \<le> x \<and> x + 16 \<le> 4294967296)"

lemma placed_word: "placed c X \<Longrightarrow> x \<in> insert c X \<Longrightarrow> word_addr (x + 8) \<and> word_addr (x + 12) \<and> word_addr (x + 4)"
  by (auto simp: placed_def word_addr_def)

lemma placed_control: "placed c X \<Longrightarrow> fl < 24 \<Longrightarrow> sl < 32 \<Longrightarrow> word_addr (blk c fl sl) \<and> word_addr (slb c fl) \<and> word_addr (c + 16)"
  by (auto simp: placed_def word_addr_def)

text \<open>Control words are not link words.\<close>

lemma control_not_link:
  assumes "placed c X" and "x \<in> insert c X" and "c + 16 \<le> w" and "w < c + 3188"
  shows "w \<noteq> x + 8" and "w \<noteq> x + 12"
  using assms by (auto simp: placed_def)

lemma link_eq:
  assumes "placed c X" and "x \<in> insert c X" and "y \<in> insert c X"
  shows "x + 8 = y + 8 \<longleftrightarrow> x = y" "x + 12 = y + 12 \<longleftrightarrow> x = y" "x + 8 \<noteq> y + 12" "x + 12 \<noteq> y + 8"
  using spaced_eq [of "insert c X" x y 8 12] spaced_eq [of "insert c X" x y 12 8] assms by (auto simp: placed_def)

lemma free_lists_update:
  assumes fl: "free_lists h c FL cls" "fl < 24" "sl < 32"
    and l: "dll h' c c L (h' (blk c fl sl))" "distinct L" "\<And>x. x \<in> set L \<Longrightarrow> cls x = (fl, sl)"
    and links: "\<And>x. x \<in> nodes FL \<Longrightarrow> cls x \<noteq> (fl, sl) \<Longrightarrow> h' (x + 8) = h (x + 8) \<and> h' (x + 12) = h (x + 12)"
    and heads: "\<And>fl' sl'. fl' < 24 \<Longrightarrow> sl' < 32 \<Longrightarrow> (fl', sl') \<noteq> (fl, sl) \<Longrightarrow> h' (blk c fl' sl') = h (blk c fl' sl')"
    and slmap: "\<And>fl' k. fl' < 24 \<Longrightarrow> bit (h' (slb c fl')) k \<longleftrightarrow> (if fl' = fl \<and> k = sl then L \<noteq> [] else bit (h (slb c fl')) k)"
    and flmap: "\<And>k. bit (h' (c + 16)) k \<longleftrightarrow> (if k = fl then L \<noteq> [] \<or> (\<exists>sl' < 32. sl' \<noteq> sl \<and> FL fl sl' \<noteq> []) else bit (h (c + 16)) k)"
  shows "free_lists h' c (FL(fl := (FL fl)(sl := L))) cls"
proof -
  have old: "dll h c c (FL a b) (h (blk c a b))" "distinct (FL a b)" "\<And>x. x \<in> set (FL a b) \<Longrightarrow> cls x = (a, b)" if "a < 24" "b < 32" for a b
    using fl(1) that by (simp_all add: free_lists_def)
  have "dll h' c c (FL a b) (h' (blk c a b))" if ab: "a < 24" "b < 32" "(a, b) \<noteq> (fl, sl)" for a b
  proof -
    have "h' (x + 8) = h (x + 8) \<and> h' (x + 12) = h (x + 12)" if "x \<in> set (FL a b)" for x
      using links [of x] old(3) [OF ab(1,2) that] ab that by (auto simp: nodes_def)
    then have "dll h' c c (FL a b) (h (blk c a b))" using old(1) [OF ab(1,2)] dll_cong [of "FL a b" h' h] by blast
    then show ?thesis using heads ab by simp
  qed
  moreover have "bit (h (slb c a)) k \<longleftrightarrow> k < 32 \<and> FL a k \<noteq> []" if "a < 24" for a k using fl(1) that by (simp add: free_lists_def)
  moreover have "bit (h (c + 16)) k \<longleftrightarrow> k < 24 \<and> (\<exists>sl < 32. FL k sl \<noteq> [])" for k using fl(1) by (simp add: free_lists_def)
  ultimately show ?thesis unfolding free_lists_def using fl(2,3) l old slmap flmap by auto
qed

section \<open>Taking a block off its list and putting one on\<close>

lemma of_nat_eq32: "a < 4294967296 \<Longrightarrow> b < 4294967296 \<Longrightarrow> (of_nat a :: u32) = of_nat b \<longleftrightarrow> a = b"
  by (metis unat_of_nat32)

lemma placed_eq: "placed c X \<Longrightarrow> x \<in> insert c X \<Longrightarrow> y \<in> insert c X \<Longrightarrow> (of_nat x :: u32) = of_nat y \<longleftrightarrow> x = y"
  by (rule of_nat_eq32) (auto simp: placed_def)

lemma placed_mono: "placed c X \<Longrightarrow> Y \<subseteq> X \<Longrightarrow> placed c Y"
  by (auto simp: placed_def intro: spaced_mono)

lemma placed_fresh: "placed c X \<Longrightarrow> c \<notin> X"
  by (auto simp: placed_def)

lemma dll_head: "dll h c prev xs p \<Longrightarrow> p = of_nat (hd (xs @ [c]))"
  by (cases xs) auto

lemma dll_remove:
  assumes d: "dll h c c (ys @ b # zs) p" and di: "distinct (ys @ b # zs)" and pl: "placed c (set (ys @ b # zs))"
    and pa: "pa = last (c # ys)" and na: "na = hd (zs @ [c])" and h1: "h1 = h(na + 12 := of_nat pa, pa + 8 := of_nat na)"
  shows "h (b + 12) = of_nat pa" and "h (b + 8) = of_nat na" and "p = of_nat b \<longleftrightarrow> ys = []"
    and "dll h1 c c (ys @ zs) (if ys = [] then of_nat na else p)"
proof -
  let ?X = "set (ys @ b # zs)"
  obtain q where q: "seg h c ys p q" "q = of_nat b" "h (b + 12) = of_nat pa" "dll h c b zs (h (b + 8))"
    using d pa by (auto simp: dll_append)
  show "h (b + 12) = of_nat pa" by (rule q(3))
  show nb: "h (b + 8) = of_nat na" using dll_head [OF q(4)] na by simp
  have cX: "c \<notin> ?X" using pl by (rule placed_fresh)
  have pm: "pa \<in> insert c (set ys)" using pa by auto
  have nm: "na \<in> insert c (set zs)" using na by (cases zs) auto
  note le = link_eq [OF pl]
  have pX: "pa \<in> insert c ?X" and nX: "na \<in> insert c ?X" using pm nm by auto
  show "p = of_nat b \<longleftrightarrow> ys = []"
  proof (cases ys)
    case Nil
    then show ?thesis using q by simp
  next
    case (Cons y ys')
    then have "p = of_nat y" "y \<noteq> b" using q(1) di by auto
    then show ?thesis using Cons placed_eq [OF pl, of y b] by auto
  qed
  have hz: "h1 (x + 8) = h (x + 8)" if "x \<in> set zs" for x
    using that pm cX di le(1) [of x pa] le(3) [of x na] nX pX h1 by auto
  have hy: "h1 (x + 12) = h (x + 12)" if "x \<in> set ys" for x
    using that nm cX di le(2) [of x na] le(4) [of x pa] nX pX h1 by auto
  have z: "dll h1 c pa zs (of_nat na)"
  proof (cases zs)
    case Nil
    then show ?thesis using na by simp
  next
    case (Cons z zs')
    then have zn: "z = na" using na by simp
    have "h1 (x + 8) = h (x + 8) \<and> h1 (x + 12) = h (x + 12)" if "x \<in> set zs'" for x
      using that Cons zn hz [of x] di le(2) [of x na] le(4) [of x pa] nX pX h1 by auto
    then have "dll h1 c z zs' (h (z + 8)) = dll h c z zs' (h (z + 8))" by (rule dll_cong)
    moreover have "h1 (na + 12) = of_nat pa" using le(4) [OF nX pX] h1 by simp
    ultimately show ?thesis using q(4) nb Cons zn hz [of z] by simp
  qed
  show "dll h1 c c (ys @ zs) (if ys = [] then of_nat na else p)"
  proof (cases "ys = []")
    case True
    then show ?thesis using z pa by simp
  next
    case False
    then have pl': "pa = last ys" using pa by simp
    have "spaced (set ys)" using pl by (auto simp: placed_def intro: spaced_mono)
    then have "seg (h(pa + 8 := of_nat na)) c ys p (of_nat na)" using seg_relink [OF q(1) False] di pl' by simp
    moreover have "h1 (x + 8) = (h(pa + 8 := of_nat na)) (x + 8) \<and> h1 (x + 12) = (h(pa + 8 := of_nat na)) (x + 12)" if "x \<in> set ys" for x
      using hy [OF that] le(4) [of x pa] le(3) [of x na] that nX pX h1 by auto
    ultimately have "seg h1 c ys p (of_nat na)" using seg_cong [of ys h1 "h(pa + 8 := of_nat na)"] by blast
    then show ?thesis using z pa False unfolding dll_append by auto
  qed
qed

lemma dll_insert:
  assumes d: "dll h c c xs p" and di: "distinct (b # xs)" and pl: "placed c (set (b # xs))"
    and na: "na = hd (xs @ [c])" and h1: "h1 = h(b + 8 := p, b + 12 := of_nat c, na + 12 := of_nat b)"
  shows "p = of_nat na" and "dll h1 c c (b # xs) (of_nat b)"
proof -
  show p: "p = of_nat na" using dll_head [OF d] na by simp
  note le = link_eq [OF pl]
  have nX: "na \<in> insert c (set (b # xs))" using na by (cases xs) auto
  have nb: "na \<noteq> b" using placed_fresh [OF pl] na di by (cases xs) auto
  have b: "h1 (b + 8) = p" "h1 (b + 12) = of_nat c" using nb le(3) [of b na] le(2) [of b na] nX h1 by auto
  have "dll h1 c b xs p"
  proof (cases xs)
    case Nil
    then show ?thesis using d by simp
  next
    case (Cons z zs')
    then have zn: "z = na" using na by simp
    have x8: "h1 (x + 8) = h (x + 8)" if "x \<in> set xs" for x
      using that di nX le(1) [of x b] le(3) [of x b] le(3) [of x na] h1 by auto
    have "h1 (x + 8) = h (x + 8) \<and> h1 (x + 12) = h (x + 12)" if "x \<in> set zs'" for x
      using that Cons zn x8 [of x] di nX le(2) [of x na] le(2) [of x b] le(4) [of x b] h1 by auto
    then have "dll h1 c z zs' (h (z + 8)) = dll h c z zs' (h (z + 8))" by (rule dll_cong)
    then show ?thesis using d Cons zn x8 [of z] h1 by simp
  qed
  then show "dll h1 c c (b # xs) (of_nat b)" using b by simp
qed

lemma word_at: "(of_nat a :: u32) + 4 = of_nat (a + 4)" "(of_nat a :: u32) + 8 = of_nat (a + 8)" "(of_nat a :: u32) + 12 = of_nat (a + 12)"
  by simp_all

lemma remove_free_block_rd:
  assumes w: "word_addr (b + 8)" "word_addr (b + 12)" "word_addr (na + 12)" "word_addr (pa + 8)"
      "word_addr (blk c fl sl)" "word_addr (slb c fl)" "word_addr (c + 16)"
    and h: "h = rd m" and l: "h (b + 12) = of_nat pa" "h (b + 8) = of_nat na"
  shows "rd (remove_free_block (of_nat c) (of_nat b) fl sl m) =
    (let h1 = h(na + 12 := of_nat pa, pa + 8 := of_nat na) in
     if h1 (blk c fl sl) = of_nat b
     then let h2 = h1(blk c fl sl := of_nat na) in
          if (of_nat na :: u32) = of_nat c
          then let h3 = h2(slb c fl := h2 (slb c fl) AND NOT (push_bit sl 1)) in
               if h3 (slb c fl) = 0 then h3(c + 16 := h3 (c + 16) AND NOT (push_bit fl 1)) else h3
          else h2
     else h1)"
  unfolding remove_free_block_def Let_def control_at word_at rd_load [OF w(1)] rd_load [OF w(2)] rd_load [OF w(5)] rd_load [OF w(6)] rd_load [OF w(7)]
    h [symmetric] l if_distrib [of rd] rd_store [OF w(3)] rd_store [OF w(4)] rd_store [OF w(5)] rd_store [OF w(6)] rd_store [OF w(7)] ..

lemma insert_free_block_rd:
  assumes w: "word_addr (b + 8)" "word_addr (b + 12)" "word_addr (na + 12)"
      "word_addr (blk c fl sl)" "word_addr (slb c fl)" "word_addr (c + 16)"
    and h: "h = rd m" and l: "h (blk c fl sl) = of_nat na"
  shows "rd (insert_free_block (of_nat c) (of_nat b) fl sl m) =
    (let h1 = h(b + 8 := of_nat na, b + 12 := of_nat c, na + 12 := of_nat b);
         h2 = h1(blk c fl sl := of_nat b);
         h3 = h2(c + 16 := h2 (c + 16) OR push_bit fl 1)
     in h3(slb c fl := h3 (slb c fl) OR push_bit sl 1))"
  unfolding insert_free_block_def Let_def control_at word_at rd_load [OF w(4)] rd_load [OF w(5)] rd_load [OF w(6)]
    h [symmetric] l rd_store [OF w(1)] rd_store [OF w(2)] rd_store [OF w(3)] rd_store [OF w(4)] rd_store [OF w(5)] rd_store [OF w(6)] ..

text \<open>The words that belong to the lists: the control structure and the links of the blocks in \<open>F\<close>.\<close>

definition list_words :: "nat \<Rightarrow> nat set \<Rightarrow> nat set" where
  "list_words c F = {c + 8..<c + 3188} \<union> (\<lambda>x. x + 8) ` F \<union> (\<lambda>x. x + 12) ` F"

lemma control_words:
  assumes "fl < 24" and "sl < 32" and "fl' < 24"
  shows "blk c fl sl \<noteq> slb c fl'" "slb c fl' \<noteq> blk c fl sl" "blk c fl sl \<noteq> c + 16" "c + 16 \<noteq> blk c fl sl" "slb c fl \<noteq> c + 16" "c + 16 \<noteq> slb c fl"
    "c + 16 \<le> blk c fl sl" "blk c fl sl < c + 3188" "c + 16 \<le> slb c fl" "slb c fl < c + 3188"
  using assms by simp_all

lemma single_bit: "n < 32 \<Longrightarrow> bit (push_bit n 1 :: u32) k \<longleftrightarrow> k = n"
  unfolding bit_push_bit_iff bit_1_iff by auto

lemma bit_clear: "n < 32 \<Longrightarrow> bit (w AND NOT (push_bit n 1) :: u32) k \<longleftrightarrow> bit w k \<and> k \<noteq> n"
  unfolding bit_and_iff bit_not_iff by (auto simp: single_bit simp del: push_bit_of_1 dest: bit_imp_le_length)

lemma bit_set_or: "n < 32 \<Longrightarrow> bit (w OR push_bit n 1 :: u32) k \<longleftrightarrow> bit w k \<or> k = n"
  unfolding bit_or_iff by (simp add: single_bit del: push_bit_of_1)

lemma nodes_upd:
  assumes "free_lists h c FL cls" and "fl < 24" and "sl < 32" and "\<And>x. x \<in> set L \<Longrightarrow> cls x = (fl, sl)"
  shows "nodes (FL(fl := (FL fl)(sl := L))) = (nodes FL - set (FL fl sl)) \<union> set L"
proof -
  have d: "x \<in> set (FL a b) \<Longrightarrow> a < 24 \<Longrightarrow> b < 32 \<Longrightarrow> cls x = (a, b)" for x a b using assms(1) by (simp add: free_lists_def)
  show ?thesis
  proof (intro set_eqI iffI)
    fix x assume "x \<in> nodes (FL(fl := (FL fl)(sl := L)))"
    then obtain a b where ab: "a < 24" "b < 32" "x \<in> set ((FL(fl := (FL fl)(sl := L))) a b)" by (auto simp: nodes_def)
    show "x \<in> (nodes FL - set (FL fl sl)) \<union> set L"
    proof (cases "(a, b) = (fl, sl)")
      case False
      then have x: "x \<in> set (FL a b)" using ab(3) by (auto split: if_splits)
      then have "x \<notin> set (FL fl sl)" using d [OF x ab(1,2)] d [of x fl sl] assms(2,3) False by auto
      then show ?thesis using x ab by (auto simp: nodes_def)
    qed (use ab in auto)
  next
    fix x assume "x \<in> (nodes FL - set (FL fl sl)) \<union> set L"
    then show "x \<in> nodes (FL(fl := (FL fl)(sl := L)))"
    proof
      assume "x \<in> nodes FL - set (FL fl sl)"
      then obtain a b where ab: "a < 24" "b < 32" "x \<in> set (FL a b)" "x \<notin> set (FL fl sl)" by (auto simp: nodes_def)
      then have "x \<in> set ((FL(fl := (FL fl)(sl := L))) a b)" by auto
      then show ?thesis using ab(1,2) unfolding nodes_def by blast
    next
      assume "x \<in> set L"
      then have "x \<in> set ((FL(fl := (FL fl)(sl := L))) fl sl)" by simp
      then show ?thesis using assms(2,3) unfolding nodes_def by blast
    qed
  qed
qed

lemma free_lists_replace:
  assumes fl: "free_lists h c FL cls" and i: "fl < 24" "sl < 32"
    and l: "dll h' c c L (h' (blk c fl sl))" "distinct L" "\<And>x. x \<in> set L \<Longrightarrow> cls x = (fl, sl)"
    and links: "\<And>x. x \<in> nodes FL \<Longrightarrow> cls x \<noteq> (fl, sl) \<Longrightarrow> h' (x + 8) = h (x + 8) \<and> h' (x + 12) = h (x + 12)"
    and ctl: "\<And>w. c + 16 < w \<Longrightarrow> w < c + 3188 \<Longrightarrow> w \<noteq> blk c fl sl \<Longrightarrow> w \<noteq> slb c fl \<Longrightarrow> h' w = h w"
    and slmap: "\<And>k. bit (h' (slb c fl)) k \<longleftrightarrow> (if k = sl then L \<noteq> [] else bit (h (slb c fl)) k)"
    and flmap: "\<And>k. bit (h' (c + 16)) k \<longleftrightarrow> (if k = fl then h' (slb c fl) \<noteq> 0 else bit (h (c + 16)) k)"
  shows "\<exists>FL'. free_lists h' c FL' cls \<and> nodes FL' = (nodes FL - set (FL fl sl)) \<union> set L"
proof (intro exI conjI)
  show "nodes (FL(fl := (FL fl)(sl := L))) = (nodes FL - set (FL fl sl)) \<union> set L" by (rule nodes_upd [OF fl i l(3)])
  have heads: "h' (blk c fl' sl') = h (blk c fl' sl')" if "fl' < 24" "sl' < 32" "(fl', sl') \<noteq> (fl, sl)" for fl' sl'
    using blk_eq [OF that(2) i(2)] that control_words [OF that(1,2) i(1)] by (intro ctl) auto
  have "h' (slb c fl') = h (slb c fl')" if "fl' < 24" "fl' \<noteq> fl" for fl'
    using that control_words [OF i that(1)] control_words [OF that(1), of 0 0] by (intro ctl) auto
  then have sm: "bit (h' (slb c fl')) k \<longleftrightarrow> (if fl' = fl \<and> k = sl then L \<noteq> [] else bit (h (slb c fl')) k)" if "fl' < 24" for fl' k
    using slmap that by (cases "fl' = fl") auto
  have "bit (h (slb c fl)) k \<longleftrightarrow> k < 32 \<and> FL fl k \<noteq> []" for k using fl i by (simp add: free_lists_def)
  then have "h' (slb c fl) \<noteq> 0 \<longleftrightarrow> L \<noteq> [] \<or> (\<exists>sl' < 32. sl' \<noteq> sl \<and> FL fl sl' \<noteq> [])"
    using slmap i(2) by (auto simp: no_bits)
  then have fm: "bit (h' (c + 16)) k \<longleftrightarrow> (if k = fl then L \<noteq> [] \<or> (\<exists>sl' < 32. sl' \<noteq> sl \<and> FL fl sl' \<noteq> []) else bit (h (c + 16)) k)" for k
    using flmap by simp
  show "free_lists h' c (FL(fl := (FL fl)(sl := L))) cls" by (rule free_lists_update [OF fl i l links heads sm fm])
qed

text \<open>The word that says which lists of a row are filled, and the word for the rows.\<close>

lemma free_bits:
  assumes "free_lists h c FL cls" and "fl < 24"
  shows "bit (h (slb c fl)) k \<longleftrightarrow> k < 32 \<and> FL fl k \<noteq> []" and "bit (h (c + 16)) fl \<longleftrightarrow> h (slb c fl) \<noteq> 0"
  using assms by (auto simp: free_lists_def no_bits)

lemma list_in_nodes: "fl < 24 \<Longrightarrow> sl < 32 \<Longrightarrow> set (FL fl sl) \<subseteq> nodes FL"
  by (auto simp: nodes_def)

lemma remove_lists:
  assumes ok: "free_lists (rd m) c FL cls" and pl: "placed c (nodes FL)" and i: "fl < 24" "sl < 32" and b: "b \<in> set (FL fl sl)"
    and m': "m' = remove_free_block (of_nat c) (of_nat b) fl sl m"
  shows "\<exists>FL'. free_lists (rd m') c FL' cls \<and> nodes FL' = nodes FL - {b}"
    and "w \<notin> list_words c (nodes FL) \<Longrightarrow> rd m' w = rd m w"
proof -
  define h h' where "h = rd m" and h'_def: "h' = rd m'"
  note ok = ok [folded h_def]
  obtain ys zs where L: "FL fl sl = ys @ b # zs" using b by (auto simp: in_set_conv_decomp)
  have sub: "set (ys @ b # zs) \<subseteq> nodes FL" using list_in_nodes [OF i, of FL] by (simp only: L)
  have d: "dll h c c (ys @ b # zs) (h (blk c fl sl))" "distinct (ys @ b # zs)" "\<And>x. x \<in> set (ys @ b # zs) \<Longrightarrow> cls x = (fl, sl)"
    using ok i unfolding free_lists_def by (metis L)+
  define pa na where "pa = last (c # ys)" and na_def: "na = hd (zs @ [c])"
  define h1 where "h1 = h(na + 12 := of_nat pa, pa + 8 := of_nat na)"
  note r = dll_remove [OF d(1,2) placed_mono [OF pl sub] pa_def na_def h1_def]
  have pm: "pa \<in> insert c (set ys)" and nm: "na \<in> insert c (set zs)" using pa_def na_def by (auto simp: hd_append)
  have pX: "pa \<in> insert c (nodes FL)" and nX: "na \<in> insert c (nodes FL)" and bX: "b \<in> insert c (nodes FL)" using pm nm sub by auto
  have nc: "(of_nat na :: u32) = of_nat c \<longleftrightarrow> zs = []"
    using placed_eq [OF pl nX, of c] na_def placed_fresh [OF pl] sub by (cases zs) auto
  have ctl: "h1 w = h w" if "c + 16 \<le> w" "w < c + 3188" for w
    using control_not_link(1) [OF pl pX that] control_not_link(2) [OF pl nX that] h1_def by simp
  note cw = control_words [OF i i(1), of c]
  have h': "h' = (if ys = [] then let h2 = h1(blk c fl sl := of_nat na) in
          if zs = [] then let h3 = h2(slb c fl := h2 (slb c fl) AND NOT (push_bit sl 1)) in
               if h3 (slb c fl) = 0 then h3(c + 16 := h3 (c + 16) AND NOT (push_bit fl 1)) else h3
          else h2 else h1)"
    unfolding h'_def m' using remove_free_block_rd [of b na pa c fl sl h m] placed_word [OF pl bX] placed_word [OF pl nX] placed_word [OF pl pX]
      placed_control [OF pl i] r(1-3) h_def nc ctl [OF cw(7,8)] by (simp add: h1_def Let_def)
  show "rd m' w = rd m w" if "w \<notin> list_words c (nodes FL)" for w
  proof -
    have "w \<noteq> na + 12" "w \<noteq> pa + 8" "w \<noteq> blk c fl sl" "w \<noteq> slb c fl" "w \<noteq> c + 16" using that nX pX i by (auto simp: list_words_def)
    then show ?thesis using h' h1_def by (simp add: h'_def h_def Let_def)
  qed
  have lk: "h' (x + 8) = h1 (x + 8) \<and> h' (x + 12) = h1 (x + 12)" if "x \<in> insert c (nodes FL)" for x
    using control_not_link [OF pl that cw(7,8)] control_not_link [OF pl that cw(9,10)] control_not_link [OF pl that, of "c + 16"] by (simp add: h' Let_def)
  let ?L = "ys @ zs"
  have "dll h' c c ?L (h' (blk c fl sl)) = dll h1 c c ?L (h' (blk c fl sl))" by (rule dll_cong) (use lk sub in auto)
  moreover have "h' (blk c fl sl) = (if ys = [] then of_nat na else h (blk c fl sl))"
    using cw(1,3) ctl [OF cw(7,8)] by (simp add: h' Let_def)
  ultimately have 1: "dll h' c c ?L (h' (blk c fl sl))" using r(4) by simp
  have 2: "distinct ?L" "\<And>x. x \<in> set ?L \<Longrightarrow> cls x = (fl, sl)" using d(2,3) by auto
  have 3: "h' (x + 8) = h (x + 8) \<and> h' (x + 12) = h (x + 12)" if "x \<in> nodes FL" "cls x \<noteq> (fl, sl)" for x
  proof -
    have "x \<noteq> pa" "x \<noteq> na" using that pm nm d(3) [of x] placed_fresh [OF pl] by auto
    then show ?thesis using lk [of x] that link_eq [OF pl _ pX, of x] link_eq [OF pl _ nX, of x] by (simp add: h1_def)
  qed
  have 4: "h' w = h w" if "c + 16 < w" "w < c + 3188" "w \<noteq> blk c fl sl" "w \<noteq> slb c fl" for w
    using that ctl [of w] by (simp add: h' Let_def)
  have sw: "h' (slb c fl) = (if ?L = [] then h (slb c fl) AND NOT (push_bit sl 1) else h (slb c fl))"
    using cw(2,5) ctl [OF cw(9,10)] by (simp add: h' Let_def)
  have fw: "h' (c + 16) = (if ?L = [] \<and> h' (slb c fl) = 0 then h (c + 16) AND NOT (push_bit fl 1) else h (c + 16))"
    using cw(2,4,6) ctl [of "c + 16"] by (simp add: h' Let_def)
  note fb = free_bits [OF ok i(1)]
  have 5: "bit (h' (slb c fl)) k \<longleftrightarrow> (if k = sl then ?L \<noteq> [] else bit (h (slb c fl)) k)" for k
    using sw fb(1) [of sl] L i bit_clear [OF i(2)] by auto
  have 6: "bit (h' (c + 16)) k \<longleftrightarrow> (if k = fl then h' (slb c fl) \<noteq> 0 else bit (h (c + 16)) k)" for k
  proof -
    have "h (slb c fl) \<noteq> 0" using fb(1) [of sl] L i by (auto simp: no_bits)
    then show ?thesis using fw sw fb(2) bit_clear [of fl "h (c + 16)"] i(1) by auto
  qed
  have "(nodes FL - set (FL fl sl)) \<union> set ?L = nodes FL - {b}" using L d(2) sub by auto
  then show "\<exists>FL'. free_lists (rd m') c FL' cls \<and> nodes FL' = nodes FL - {b}"
    using free_lists_replace [OF ok i 1 2 3 4 5 6] by (simp add: h'_def)
qed

lemma insert_lists:
  assumes ok: "free_lists (rd m) c FL cls" and pl: "placed c (insert b (nodes FL))" and b: "cls b = (fl, sl)" "b \<notin> nodes FL" and i: "fl < 24" "sl < 32"
    and m': "m' = insert_free_block (of_nat c) (of_nat b) fl sl m"
  shows "\<exists>FL'. free_lists (rd m') c FL' cls \<and> nodes FL' = insert b (nodes FL)"
    and "w \<notin> list_words c (insert b (nodes FL)) \<Longrightarrow> rd m' w = rd m w"
proof -
  define h h' where "h = rd m" and h'_def: "h' = rd m'"
  note ok = ok [folded h_def]
  let ?L = "FL fl sl"
  have sub: "set ?L \<subseteq> nodes FL" using list_in_nodes [OF i] .
  have d: "dll h c c ?L (h (blk c fl sl))" "distinct ?L" "\<And>x. x \<in> set ?L \<Longrightarrow> cls x = (fl, sl)"
    using ok i by (simp_all add: free_lists_def)
  define na where "na = hd (?L @ [c])"
  define h1 where "h1 = h(b + 8 := h (blk c fl sl), b + 12 := of_nat c, na + 12 := of_nat b)"
  have db: "distinct (b # ?L)" using d(2) b(2) sub by auto
  have pb: "placed c (set (b # ?L))" by (rule placed_mono [OF pl]) (use sub in auto)
  note r = dll_insert [OF d(1) db pb na_def h1_def]
  have nm: "na \<in> insert c (set ?L)" using na_def by (auto simp: hd_append)
  have nX: "na \<in> insert c (insert b (nodes FL))" and bX: "b \<in> insert c (insert b (nodes FL))" using nm sub by auto
  have ctl: "h1 w = h w" if "c + 16 \<le> w" "w < c + 3188" for w
    using control_not_link [OF pl bX that] control_not_link(2) [OF pl nX that] h1_def by simp
  note cw = control_words [OF i i(1), of c]
  have h': "h' = (let h2 = h1(blk c fl sl := of_nat b); h3 = h2(c + 16 := h2 (c + 16) OR push_bit fl 1)
       in h3(slb c fl := h3 (slb c fl) OR push_bit sl 1))"
    unfolding h'_def m' using insert_free_block_rd [of b na c fl sl h m] placed_word [OF pl bX] placed_word [OF pl nX]
      placed_control [OF pl i] r(1) h_def by (simp add: h1_def Let_def)
  show "rd m' w = rd m w" if "w \<notin> list_words c (insert b (nodes FL))" for w
  proof -
    have "w \<noteq> na + 12" "w \<noteq> b + 8" "w \<noteq> b + 12" "w \<noteq> blk c fl sl" "w \<noteq> slb c fl" "w \<noteq> c + 16" using that nX i by (auto simp: list_words_def)
    then show ?thesis using h' h1_def by (simp add: h'_def h_def Let_def)
  qed
  have lk: "h' (x + 8) = h1 (x + 8) \<and> h' (x + 12) = h1 (x + 12)" if "x \<in> insert c (insert b (nodes FL))" for x
    using control_not_link [OF pl that cw(7,8)] control_not_link [OF pl that cw(9,10)] control_not_link [OF pl that, of "c + 16"] by (simp add: h' Let_def)
  have "dll h' c c (b # ?L) (h' (blk c fl sl)) = dll h1 c c (b # ?L) (h' (blk c fl sl))" by (rule dll_cong) (use lk sub in auto)
  moreover have "h' (blk c fl sl) = of_nat b" using cw(1,3) by (simp add: h' Let_def)
  ultimately have 1: "dll h' c c (b # ?L) (h' (blk c fl sl))" using r(2) by simp
  have 2: "\<And>x. x \<in> set (b # ?L) \<Longrightarrow> cls x = (fl, sl)" using d(3) b by auto
  have 3: "h' (x + 8) = h (x + 8) \<and> h' (x + 12) = h (x + 12)" if "x \<in> nodes FL" "cls x \<noteq> (fl, sl)" for x
  proof -
    have "x \<noteq> b" "x \<noteq> na" using that nm b(1) d(3) [of x] placed_fresh [OF pl] by auto
    then show ?thesis using lk [of x] that link_eq [OF pl _ bX, of x] link_eq [OF pl _ nX, of x] by (simp add: h1_def)
  qed
  have 4: "h' w = h w" if "c + 16 < w" "w < c + 3188" "w \<noteq> blk c fl sl" "w \<noteq> slb c fl" for w
    using that ctl [of w] by (simp add: h' Let_def)
  have sw: "h' (slb c fl) = h (slb c fl) OR push_bit sl 1" and fw: "h' (c + 16) = h (c + 16) OR push_bit fl 1"
    using cw ctl [OF cw(9,10)] ctl [of "c + 16"] by (simp_all add: h' Let_def)
  have 5: "bit (h' (slb c fl)) k \<longleftrightarrow> (if k = sl then b # ?L \<noteq> [] else bit (h (slb c fl)) k)" for k
    using sw bit_set_or [OF i(2)] by simp
  then have "h' (slb c fl) \<noteq> 0" by (auto simp: no_bits)
  then have 6: "bit (h' (c + 16)) k \<longleftrightarrow> (if k = fl then h' (slb c fl) \<noteq> 0 else bit (h (c + 16)) k)" for k
    using fw bit_set_or [of fl "h (c + 16)"] i(1) by simp
  have "(nodes FL - set ?L) \<union> set (b # ?L) = insert b (nodes FL)" using sub by auto
  then show "\<exists>FL'. free_lists (rd m') c FL' cls \<and> nodes FL' = insert b (nodes FL)"
    using free_lists_replace [OF ok i 1 db 2 3 4 5 6] by (simp add: h'_def)
qed

section \<open>The index of the free blocks\<close>

text \<open>The class a header word stands for; the lists hold the blocks of the set \<open>F\<close>, each in the list of its class.\<close>

definition class_of :: "u32 \<Rightarrow> nat \<times> nat" where
  "class_of w = mapping_insert (w AND NOT (block_header_free_bit OR block_header_prev_free_bit))"

definition free_index :: "(nat \<Rightarrow> u32) \<Rightarrow> nat \<Rightarrow> nat set \<Rightarrow> bool" where
  "free_index h c F \<longleftrightarrow> (\<exists>FL. free_lists h c FL (\<lambda>x. class_of (h (x + 4))) \<and> nodes FL = F)"

lemma class_of_hdr: "4 dvd s \<Longrightarrow> class_of (hdr s f p) = mapping_insert (of_nat s)"
  unfolding class_of_def by (simp only: hdr_ops)

lemma block_size_rd: "word_addr (b + 4) \<Longrightarrow> block_size m (of_nat b) = rd m (b + 4) AND NOT (1 OR 2)"
  unfolding block_size_def word_at by (simp only: rd_load)

lemma free_lists_cls:
  assumes "free_lists h c FL cls" and "\<And>x. x \<in> nodes FL \<Longrightarrow> cls' x = cls x"
  shows "free_lists h c FL cls'"
  using assms unfolding free_lists_def nodes_def by fastforce

lemma free_lists_cong:
  assumes "free_lists h c FL cls" and "\<And>w. w \<in> list_words c (nodes FL) \<Longrightarrow> h' w = h w"
  shows "free_lists h' c FL cls"
proof -
  have l: "h' (x + 8) = h (x + 8) \<and> h' (x + 12) = h (x + 12)" if "x \<in> nodes FL" for x
    using that by (intro conjI assms(2)) (auto simp: list_words_def)
  have b: "h' (blk c fl sl) = h (blk c fl sl)" if "fl < 24" "sl < 32" for fl sl using that by (intro assms(2)) (simp add: list_words_def)
  have s: "h' (slb c fl) = h (slb c fl)" if "fl < 24" for fl using that by (intro assms(2)) (simp add: list_words_def)
  have f: "h' (c + 16) = h (c + 16)" by (rule assms(2)) (simp add: list_words_def)
  have d: "dll h' c c (FL fl sl) p = dll h c c (FL fl sl) p" if "fl < 24" "sl < 32" for fl sl p
    by (rule dll_cong) (use l list_in_nodes [OF that, of FL] in auto)
  show ?thesis using assms(1) by (simp add: free_lists_def b s f d del: distrib_left_numeral)
qed

lemma free_indexI: "free_lists h c FL cls \<Longrightarrow> (\<And>x. x \<in> nodes FL \<Longrightarrow> class_of (h (x + 4)) = cls x) \<Longrightarrow> free_index h c (nodes FL)"
  unfolding free_index_def using free_lists_cls [of h c FL cls "\<lambda>x. class_of (h (x + 4))"] by blast

lemma free_index_cong:
  assumes "free_index h c F" and "\<And>w. w \<in> list_words c F \<Longrightarrow> h' w = h w" and "\<And>x. x \<in> F \<Longrightarrow> class_of (h' (x + 4)) = class_of (h (x + 4))"
  shows "free_index h' c F"
proof -
  obtain FL where FL: "free_lists h c FL (\<lambda>x. class_of (h (x + 4)))" "nodes FL = F" using assms(1) by (auto simp: free_index_def)
  show ?thesis using free_indexI [OF free_lists_cong [OF FL(1), of h']] assms(2,3) FL(2) by simp
qed

lemma size_not_listed:
  assumes "placed c F" and "x \<in> F" and "G \<subseteq> F"
  shows "x + 4 \<notin> list_words c G"
proof -
  have "x + 4 \<noteq> y + 8 \<and> x + 4 \<noteq> y + 12" if "y \<in> G" for y
    using spaced_eq [of "insert c F" x y 4 8] spaced_eq [of "insert c F" x y 4 12] assms that by (auto simp: placed_def)
  moreover have "c + 3184 \<le> x" using assms by (simp add: placed_def)
  ultimately show ?thesis by (auto simp: list_words_def)
qed

lemma block_remove_index:
  assumes ok: "free_index (rd m) c F" and pl: "placed c F" and b: "b \<in> F" and m': "m' = block_remove (of_nat c) (of_nat b) m"
  shows "free_index (rd m') c (F - {b})" and "w \<notin> list_words c F \<Longrightarrow> rd m' w = rd m w"
proof -
  obtain FL where FL: "free_lists (rd m) c FL (\<lambda>x. class_of (rd m (x + 4)))" "nodes FL = F" using ok by (auto simp: free_index_def)
  obtain fl sl where i: "fl < 24" "sl < 32" "b \<in> set (FL fl sl)" using b FL(2) by (auto simp: nodes_def)
  then have c: "class_of (rd m (b + 4)) = (fl, sl)" using FL(1) by (simp add: free_lists_def)
  have "word_addr (b + 4)" using placed_word [OF pl] b by simp
  then have m'': "m' = remove_free_block (of_nat c) (of_nat b) fl sl m"
    using c unfolding m' block_remove_def class_of_def by (simp add: block_size_rd)
  note pl' = pl [folded FL(2)]
  note r = remove_lists [OF FL(1) pl' i m'']
  show fr: "w \<notin> list_words c F \<Longrightarrow> rd m' w = rd m w" for w using r(2) FL(2) by simp
  have "rd m' (x + 4) = rd m (x + 4)" if "x \<in> F" for x using size_not_listed [OF pl that] by (intro fr) simp
  moreover obtain FL' where "free_lists (rd m') c FL' (\<lambda>x. class_of (rd m (x + 4)))" "nodes FL' = F - {b}" using r(1) FL(2) by auto
  ultimately show "free_index (rd m') c (F - {b})" using free_indexI [of "rd m'" c FL'] by simp
qed

lemma block_insert_index:
  assumes ok: "free_index (rd m) c F" and pl: "placed c (insert b F)" and b: "b \<notin> F"
    and s: "rd m (b + 4) = hdr s f p" "4 dvd s" "s < 2 ^ 30" and m': "m' = block_insert (of_nat c) (of_nat b) m"
  shows "free_index (rd m') c (insert b F)" and "w \<notin> list_words c (insert b F) \<Longrightarrow> rd m' w = rd m w"
proof -
  obtain FL where FL: "free_lists (rd m) c FL (\<lambda>x. class_of (rd m (x + 4)))" "nodes FL = F" using ok by (auto simp: free_index_def)
  obtain fl sl where c: "mapping_insert (of_nat s) = (fl, sl)" by fastforce
  have "unat (of_nat s :: u32) = s" using s(3) by (intro unat_of_nat32) simp
  then have i: "fl < 24" "sl < 32" using mapping_insert_class(2,5) [OF _ c] s(3) by simp_all
  have cl: "class_of (rd m (b + 4)) = (fl, sl)" using class_of_hdr [OF s(2)] s(1) c by simp
  have "word_addr (b + 4)" using placed_word [OF pl] by simp
  then have m'': "m' = insert_free_block (of_nat c) (of_nat b) fl sl m"
    using cl unfolding m' block_insert_def class_of_def by (simp add: block_size_rd)
  note r = insert_lists [OF FL(1) _ cl _ i m'', unfolded FL(2), OF pl b]
  show fr: "w \<notin> list_words c (insert b F) \<Longrightarrow> rd m' w = rd m w" for w using r(2) .
  have "rd m' (x + 4) = rd m (x + 4)" if "x \<in> insert b F" for x using size_not_listed [OF pl that] by (intro fr) simp
  moreover obtain FL' where "free_lists (rd m') c FL' (\<lambda>x. class_of (rd m (x + 4)))" "nodes FL' = insert b F" using r(1) by auto
  ultimately show "free_index (rd m') c (insert b F)" using free_indexI [of "rd m'" c FL'] by simp
qed

text \<open>What the bitmaps and heads of the lists say about the free blocks.\<close>

lemma free_index_filled:
  assumes ok: "free_index (rd m) c F" and pl: "placed c F"
  shows "filled m (of_nat c) fl sl \<longleftrightarrow> (\<exists>x \<in> F. class_of (rd m (x + 4)) = (fl, sl))"
    and "filled m (of_nat c) fl sl \<Longrightarrow> \<exists>x \<in> F. head m (of_nat c) fl sl = of_nat x \<and> class_of (rd m (x + 4)) = (fl, sl)"
    and "\<forall>fl. bit (load32 m (of_nat c + 16)) fl \<longleftrightarrow> (\<exists>sl. filled m (of_nat c) fl sl)"
    and "fl < 24 \<Longrightarrow> bit (load32 m (sl_bitmap_at (of_nat c) fl)) sl \<longleftrightarrow> filled m (of_nat c) fl sl"
proof -
  obtain FL where FL: "free_lists (rd m) c FL (\<lambda>x. class_of (rd m (x + 4)))" "nodes FL = F" using ok by (auto simp: free_index_def)
  have ld: "head m (of_nat c) fl sl = rd m (blk c fl sl)" "load32 m (sl_bitmap_at (of_nat c) fl) = rd m (slb c fl)" "load32 m (of_nat c + 16) = rd m (c + 16)"
    if "fl < 24" "sl < 32" for fl sl
    using placed_control [OF pl that] unfolding control_at by (simp_all only: rd_load)
  have l: "dll (rd m) c c (FL fl sl) (rd m (blk c fl sl))" "\<And>x. x \<in> set (FL fl sl) \<Longrightarrow> class_of (rd m (x + 4)) = (fl, sl)" "set (FL fl sl) \<subseteq> F"
    if "fl < 24" "sl < 32" for fl sl
    using FL that list_in_nodes [OF that, of FL] by (simp_all add: free_lists_def)
  have hd: "head m (of_nat c) fl sl = of_nat (hd (FL fl sl @ [c]))" if "fl < 24" "sl < 32" for fl sl
    using dll_head [OF l(1) [OF that]] ld(1) [OF that] by simp
  have f: "filled m (of_nat c) fl sl \<longleftrightarrow> fl < 24 \<and> sl < 32 \<and> FL fl sl \<noteq> []" for fl sl
  proof -
    have "(of_nat (hd (FL fl sl @ [c])) :: u32) = of_nat c \<longleftrightarrow> FL fl sl = []" if i: "fl < 24" "sl < 32"
    proof (cases "FL fl sl")
      case (Cons x xs)
      then have "x \<in> F" using l(3) [OF i] by auto
      then show ?thesis using Cons placed_eq [OF pl, of x c] placed_fresh [OF pl] by auto
    qed simp
    then show ?thesis using hd unfolding filled_def by auto
  qed
  have m: "x \<in> F \<Longrightarrow> class_of (rd m (x + 4)) = (fl, sl) \<Longrightarrow> fl < 24 \<and> sl < 32 \<and> x \<in> set (FL fl sl)" for x fl sl
    using l(2) unfolding FL(2) [symmetric] nodes_def by fastforce
  show "filled m (of_nat c) fl sl \<longleftrightarrow> (\<exists>x \<in> F. class_of (rd m (x + 4)) = (fl, sl))"
  proof
    assume "filled m (of_nat c) fl sl"
    then have i: "fl < 24" "sl < 32" and ne: "FL fl sl \<noteq> []" using f by auto
    then obtain x where "x \<in> set (FL fl sl)" by (meson last_in_set)
    then show "\<exists>x \<in> F. class_of (rd m (x + 4)) = (fl, sl)" using l(2,3) [OF i] by auto
  qed (use m f in fastforce)
  show "\<exists>x \<in> F. head m (of_nat c) fl sl = of_nat x \<and> class_of (rd m (x + 4)) = (fl, sl)" if "filled m (of_nat c) fl sl"
  proof -
    have i: "fl < 24" "sl < 32" and "FL fl sl \<noteq> []" using f that by auto
    then show ?thesis using hd [OF i] l(2,3) [OF i] by (cases "FL fl sl") auto
  qed
  show "\<forall>fl. bit (load32 m (of_nat c + 16)) fl \<longleftrightarrow> (\<exists>sl. filled m (of_nat c) fl sl)"
    using FL(1) ld(3) [of 0 0] f by (auto simp: free_lists_def)
  show "bit (load32 m (sl_bitmap_at (of_nat c) fl)) sl \<longleftrightarrow> filled m (of_nat c) fl sl" if "fl < 24"
    using free_bits(1) [OF FL(1) that] ld(2) [OF that, of 0] f that by simp
qed

end
