(* ===== verification/TlsfPool.thy ===== *)
theory TlsfPool
  imports TlsfLists
begin

text \<open>
  The blocks of a pool lie in a row and end with a sentinel of size 0. A pool is described by the list of
  sizes and flags of its blocks; \<open>chain\<close> says that the headers in memory are those of the list, where the
  address of the previous block is stored only behind a free block, in the last word of that block. The
  lemmas give the effect on the list of marking a block, joining two blocks and cutting a block in two.
\<close>

unbundle bit_operations_syntax

section \<open>Blocks in a row\<close>

text \<open>A pool is described by the sizes and free flags of its blocks, in the order of their addresses. A place is the
  address of a block with the address and the flag of the block before it.\<close>

type_synonym block = "nat \<times> bool"
type_synonym place = "nat \<times> bool \<times> nat"

fun after :: "place \<Rightarrow> block \<Rightarrow> place" where
  "after (prev, pf, p) (s, f) = (p, f, p + s + 4)"

fun header :: "(nat \<Rightarrow> u32) \<Rightarrow> place \<Rightarrow> block \<Rightarrow> bool" where
  "header h (prev, pf, p) (s, f) \<longleftrightarrow> h (p + 4) = hdr s f pf \<and> (pf \<longrightarrow> h p = of_nat prev)"

primrec chain :: "(nat \<Rightarrow> u32) \<Rightarrow> place \<Rightarrow> block list \<Rightarrow> bool" where
  "chain h st [] \<longleftrightarrow> True"
| "chain h st (b # bl) \<longleftrightarrow> header h st b \<and> chain h (after st b) bl"

definition span :: "block list \<Rightarrow> nat" where
  "span bl = (\<Sum>b\<leftarrow>bl. fst b + 4)"

primrec starts :: "nat \<Rightarrow> block list \<Rightarrow> nat set" where
  "starts p [] = {}"
| "starts p (b # bl) = insert p (starts (p + fst b + 4) bl)"

primrec frees :: "nat \<Rightarrow> block list \<Rightarrow> nat set" where
  "frees p [] = {}"
| "frees p (b # bl) = (if snd b then {p} else {}) \<union> frees (p + fst b + 4) bl"

definition sizes :: "block list \<Rightarrow> bool" where
  "sizes bl \<longleftrightarrow> (\<forall>b \<in> set bl. 12 \<le> fst b \<and> 4 dvd fst b \<and> fst b < 2 ^ 30)"

lemma span_simps [simp]: "span [] = 0" "span (b # bl) = fst b + 4 + span bl" "span (xs @ ys) = span xs + span ys"
  by (simp_all add: span_def)

lemma sizes_simps [simp]:
  "sizes []" "sizes (b # bl) \<longleftrightarrow> 12 \<le> fst b \<and> 4 dvd fst b \<and> fst b < 2 ^ 30 \<and> sizes bl" "sizes (xs @ ys) \<longleftrightarrow> sizes xs \<and> sizes ys"
  by (auto simp: sizes_def)

lemma chain_append: "chain h st (xs @ ys) \<longleftrightarrow> chain h st xs \<and> chain h (foldl after st xs) ys"
  by (induction xs arbitrary: st) auto

lemma starts_append [simp]: "starts p (xs @ ys) = starts p xs \<union> starts (p + span xs) ys"
  by (induction xs arbitrary: p) (auto simp: add_ac)

lemma frees_append [simp]: "frees p (xs @ ys) = frees p xs \<union> frees (p + span xs) ys"
  by (induction xs arbitrary: p) (auto simp: add_ac)

lemma frees_starts: "frees p bl \<subseteq> starts p bl"
  by (induction bl arbitrary: p) auto

lemma after_eq: "after st b = (snd (snd st), snd b, snd (snd st) + fst b + 4)"
  by (cases st; cases b) auto

lemma arrive: "snd (snd (foldl after st xs)) = snd (snd st) + span xs"
  by (induction xs arbitrary: st) (auto simp: after_eq)

lemma starts_ge: "x \<in> starts p bl \<Longrightarrow> p \<le> x"
  by (induction bl arbitrary: p) fastforce+

lemma starts_range: "sizes bl \<Longrightarrow> x \<in> starts p bl \<Longrightarrow> p \<le> x \<and> x + 16 \<le> p + span bl"
  by (induction bl arbitrary: p) fastforce+

lemma starts_dvd: "sizes bl \<Longrightarrow> 4 dvd p \<Longrightarrow> x \<in> starts p bl \<Longrightarrow> 4 dvd x"
proof (induction bl arbitrary: p)
  case (Cons b bl)
  then have "4 dvd p + fst b + 4" by simp
  then show ?case using Cons.IH [of "p + fst b + 4"] Cons.prems by auto
qed simp

lemma starts_spaced: "sizes bl \<Longrightarrow> spaced (insert (p + span bl) (starts p bl))"
proof (induction bl arbitrary: p)
  case (Cons b bl)
  have IH: "spaced (insert (p + fst b + 4 + span bl) (starts (p + fst b + 4) bl))" by (rule Cons.IH) (use Cons.prems in simp)
  have "p + 16 \<le> x" if "x \<in> insert (p + fst b + 4 + span bl) (starts (p + fst b + 4) bl)" for x
    using that Cons.prems starts_range [of bl x "p + fst b + 4"] by auto
  then have "spaced (insert p (insert (p + fst b + 4 + span bl) (starts (p + fst b + 4) bl)))"
    using IH unfolding spaced_def by (smt (verit) insert_iff nat_less_le leD le_add1 le_trans)
  then show ?case by (simp add: insert_commute add_ac)
qed (simp add: spaced_def)

lemma prefix_cong:
  "chain h st xs \<Longrightarrow> sizes xs \<Longrightarrow> (\<And>w. snd (snd st) \<le> w \<Longrightarrow> w < snd (snd st) + span xs \<Longrightarrow> h' w = h w) \<Longrightarrow> chain h' st xs"
proof (induction xs arbitrary: st)
  case (Cons b xs)
  have "chain h' (after st b) xs" by (rule Cons.IH) (use Cons.prems in \<open>auto simp: after_eq\<close>)
  moreover have "header h' st b" using Cons.prems by (cases st; cases b) auto
  ultimately show ?case by simp
qed simp

text \<open>The first block of what follows, which is the sentinel at the end of the pool.\<close>

abbreviation sentinel :: block where "sentinel \<equiv> (0, False)"

definition first :: "block list \<Rightarrow> block" where
  "first ys = hd (ys @ [sentinel])"

lemma suffix_cong:
  assumes "chain h (prev, pf, nx) (ys @ [sentinel])" and "sizes ys" and "header h' (prev', pf', nx) (first ys)"
    and "\<And>w. nx + 8 \<le> w \<Longrightarrow> h' w = h w"
  shows "chain h' (prev', pf', nx) (ys @ [sentinel])"
proof (cases ys)
  case Nil
  then show ?thesis using assms(3) by (simp add: first_def)
next
  case (Cons b zs)
  obtain s f where b: "b = (s, f)" by fastforce
  have s: "12 \<le> s" "sizes zs" using assms(2) Cons b by simp_all
  have "chain h (nx, f, nx + s + 4) (zs @ [sentinel])" using assms(1) Cons b by simp
  moreover have "chain h' st bl" if "chain h st bl" "nx + 8 \<le> snd (snd st)" for st bl
    using that
  proof (induction bl arbitrary: st)
    case (Cons a bl)
    then have "header h' st a" using assms(4) by (cases st; cases a) auto
    moreover have "chain h' (after st a) bl" by (rule Cons.IH) (use Cons.prems in \<open>auto simp: after_eq\<close>)
    ultimately show ?case by simp
  qed simp
  ultimately have "chain h' (nx, f, nx + s + 4) (zs @ [sentinel])" using s(1) by auto
  then show ?thesis using assms(3) Cons b by (simp add: first_def)
qed

section \<open>A pool and its index\<close>

text \<open>The pool that starts at \<open>p\<close>, for the control structure at \<open>c\<close>, whose index holds the blocks of \<open>F\<close>.\<close>

definition pool :: "(nat \<Rightarrow> u32) \<Rightarrow> nat \<Rightarrow> nat \<Rightarrow> block list \<Rightarrow> nat set \<Rightarrow> bool" where
  "pool h c p bl F \<longleftrightarrow> sizes bl \<and> 4 dvd c \<and> 4 dvd p \<and> c + 3184 \<le> p \<and> p + span bl + 8 \<le> 4294967296 \<and> span bl \<le> 2 ^ 30 \<and> F \<subseteq> starts p bl \<and>
     chain h (0, False, p) (bl @ [sentinel]) \<and> free_index h c F"

lemma pool_placed: "pool h c p bl F \<Longrightarrow> placed c (starts p bl)"
proof -
  assume ok: "pool h c p bl F"
  then have s: "sizes bl" "4 dvd c" "4 dvd p" "c + 3184 \<le> p" "p + span bl + 8 \<le> 4294967296" by (simp_all add: pool_def)
  have r: "4 dvd x \<and> c + 3184 \<le> x \<and> x + 16 \<le> 4294967296" if "x \<in> starts p bl" for x
    using starts_range [OF s(1) that] starts_dvd [OF s(1,3) that] s(4,5) by auto
  have "spaced (starts p bl)" using starts_spaced [OF s(1), of p] by (rule spaced_mono) auto
  then have "spaced (insert c (starts p bl))" using r unfolding spaced_def by force
  then show ?thesis using s r by (auto simp: placed_def)
qed

lemma pool_F_placed: "pool h c p bl F \<Longrightarrow> placed c F"
  using placed_mono [OF pool_placed, of h c p bl F F] by (simp add: pool_def)

text \<open>The index uses none of the words of the chain.\<close>

lemma chain_frame:
  assumes "chain h (prev, pf, q) bl" and "sizes (butlast bl)"
    and "\<And>x. x \<in> starts q bl \<Longrightarrow> h' (x + 4) = h (x + 4)" and "\<And>x. x \<in> starts q bl \<Longrightarrow> x = q \<longrightarrow> pf \<Longrightarrow> h' x = h x"
  shows "chain h' (prev, pf, q) bl"
  using assms
proof (induction bl arbitrary: prev pf q)
  case (Cons b bl)
  obtain s f where b: "b = (s, f)" by fastforce
  have h: "header h' (prev, pf, q) b" using Cons.prems b by auto
  show ?case
  proof (cases "bl = []")
    case False
    then have s: "12 \<le> s" "sizes (butlast bl)" using Cons.prems(2) b by simp_all
    have "x \<noteq> q" if "x \<in> starts (q + s + 4) bl" for x using starts_ge [OF that] by simp
    then have "chain h' (q, f, q + s + 4) bl" using Cons.prems b s by (intro Cons.IH) auto
    then show ?thesis using h b by simp
  qed (use h in simp)
qed simp

lemma pool_index_op:
  assumes ok: "pool h c p bl F" and "G \<subseteq> starts p bl" and "free_index h' c G"
    and fr: "\<And>w. w \<notin> list_words c (starts p bl) \<Longrightarrow> h' w = h w"
  shows "pool h' c p bl G"
proof -
  have s: "sizes bl" "c + 3184 \<le> p" "chain h (0, False, p) (bl @ [sentinel])" using ok by (simp_all add: pool_def)
  have sp: "spaced (insert (p + span bl) (starts p bl))" by (rule starts_spaced [OF s(1)])
  have "h' (x + i) = h (x + i)" if x: "x \<in> starts p (bl @ [sentinel])" and i: "i = 4 \<or> i = 0 \<and> x \<noteq> p" for x i
  proof (rule fr)
    have x': "x \<in> insert (p + span bl) (starts p bl)" using x by auto
    have "p \<le> x" using x starts_range [OF s(1), of x p] by auto
    moreover have "p + 16 \<le> x" if "x \<noteq> p"
    proof (cases bl)
      case Nil
      then show ?thesis using x that by simp
    next
      case (Cons b bl')
      then show ?thesis using sp x' that \<open>p \<le> x\<close> by (auto simp: spaced_def)
    qed
    ultimately have "c + 3188 \<le> x + i" using i s(2) by auto
    moreover have "x + i \<noteq> y + 8 \<and> x + i \<noteq> y + 12" if "y \<in> starts p bl" for y
      using spaced_eq [OF sp x', of y i 8] spaced_eq [OF sp x', of y i 12] that i by auto
    ultimately show "x + i \<notin> list_words c (starts p bl)" by (auto simp: list_words_def)
  qed
  from this [of _ 4] this [of _ 0] have "chain h' (0, False, p) (bl @ [sentinel])"
    using s by (intro chain_frame [OF s(3)]) auto
  then show ?thesis using ok assms(2,3) by (simp add: pool_def)
qed

lemma list_words_mono: "F \<subseteq> G \<Longrightarrow> list_words c F \<subseteq> list_words c G"
  by (auto simp: list_words_def)

lemma pool_remove:
  assumes ok: "pool (rd m) c p bl F" and b: "b \<in> F" and m': "m' = block_remove (of_nat c) (of_nat b) m"
  shows "pool (rd m') c p bl (F - {b})" and "w \<notin> list_words c F \<Longrightarrow> rd m' w = rd m w"
proof -
  have F: "F \<subseteq> starts p bl" "free_index (rd m) c F" using ok by (simp_all add: pool_def)
  note r = block_remove_index [OF F(2) pool_F_placed [OF ok] b m']
  show "w \<notin> list_words c F \<Longrightarrow> rd m' w = rd m w" for w by (rule r(2))
  then show "pool (rd m') c p bl (F - {b})" using F(1) list_words_mono [OF F(1)] by (intro pool_index_op [OF ok _ r(1)]) auto
qed

lemma pool_insert:
  assumes ok: "pool (rd m) c p bl F" and b: "b \<in> starts p bl" "b \<notin> F"
    and s: "rd m (b + 4) = hdr s f pf" "4 dvd s" "s < 2 ^ 30" and m': "m' = block_insert (of_nat c) (of_nat b) m"
  shows "pool (rd m') c p bl (insert b F)" and "w \<notin> list_words c (insert b F) \<Longrightarrow> rd m' w = rd m w"
proof -
  have F: "insert b F \<subseteq> starts p bl" "free_index (rd m) c F" using ok b by (simp_all add: pool_def)
  have pl: "placed c (insert b F)" using pool_placed [OF ok] F(1) by (rule placed_mono)
  note r = block_insert_index [OF F(2) pl b(2) s m']
  show "w \<notin> list_words c (insert b F) \<Longrightarrow> rd m' w = rd m w" for w by (rule r(2))
  then show "pool (rd m') c p bl (insert b F)" using F(1) list_words_mono [OF F(1)] by (intro pool_index_op [OF ok _ r(1)]) auto
qed

section \<open>Replacing blocks of a pool\<close>

lemma chain_first: "chain h st (ys @ [sentinel]) \<Longrightarrow> header h st (first ys)"
  by (cases ys) (auto simp: first_def)

lemma header_class: "header h st b \<Longrightarrow> 4 dvd fst b \<Longrightarrow> class_of (h (snd (snd st) + 4)) = mapping_insert (of_nat (fst b))"
  by (cases st; cases b) (simp add: class_of_hdr)

lemma pool_replace:
  assumes ok: "pool h c p (xs @ mid @ ys) F" and s: "sizes mid'" "span mid' = span mid"
    and q: "q = p + span xs" "nx = q + span mid" and F: "F \<inter> starts q mid = {}"
    and fr: "\<And>w. w < q + 4 \<or> nx + 8 \<le> w \<Longrightarrow> h' w = h w"
    and new: "chain h' (foldl after (0, False, p) xs) mid'" "header h' (foldl after (0, False, p) (xs @ mid')) (first ys)"
  shows "pool h' c p (xs @ mid' @ ys) F"
proof -
  let ?st = "foldl after (0, False, p) xs"
  have z: "sizes xs" "sizes mid" "sizes ys" "c + 3184 \<le> p" "F \<subseteq> starts p xs \<union> starts nx ys" "free_index h c F"
    and ch: "chain h (0, False, p) xs" "chain h (foldl after ?st mid) (ys @ [sentinel])"
    using ok F q by (auto simp: pool_def chain_append)
  have nx: "snd (snd (foldl after ?st mid)) = nx" "snd (snd (foldl after ?st mid')) = nx" using q s(2) by (simp_all add: arrive)
  have "chain h' (0, False, p) xs" by (rule prefix_cong [OF ch(1) z(1)]) (auto intro!: fr simp: q)
  moreover have "chain h' (foldl after ?st mid') (ys @ [sentinel])"
    using suffix_cong [of h "fst (foldl after ?st mid)" "fst (snd (foldl after ?st mid))" nx ys h'
        "fst (foldl after ?st mid')" "fst (snd (foldl after ?st mid'))"] ch(2) z(3) new(2) nx fr
    by (metis foldl_append prod.collapse)
  ultimately have chain': "chain h' (0, False, p) ((xs @ mid' @ ys) @ [sentinel])" using new(1) by (simp add: chain_append)
  have far: "x + 16 \<le> q \<or> x = nx \<or> nx + 16 \<le> x" if "x \<in> F" for x
  proof -
    have "x \<in> starts p xs \<or> x \<in> starts nx ys" using that z(5) by auto
    moreover have "x = nx \<or> nx + 16 \<le> x" if "x \<in> starts nx ys"
      using starts_spaced [OF z(3), of nx] starts_ge [OF that] that by (cases ys) (auto simp: spaced_def)
    ultimately show ?thesis using starts_range [OF z(1), of x p] q by auto
  qed
  have "free_index h' c F"
  proof (rule free_index_cong [OF z(6)])
    show "h' w = h w" if "w \<in> list_words c F" for w
    proof (rule fr)
      have "w < c + 3188 \<or> (\<exists>x \<in> F. w = x + 8 \<or> w = x + 12)" using that by (auto simp: list_words_def)
      then show "w < q + 4 \<or> nx + 8 \<le> w" using far z(4) q by fastforce
    qed
    show "class_of (h' (x + 4)) = class_of (h (x + 4))" if "x \<in> F" for x
    proof (cases "x = nx")
      case True
      then have "nx \<notin> starts p xs" using starts_range [OF z(1), of nx p] q by auto
      then have "ys \<noteq> []" using that True z(5) by auto
      then have "4 dvd fst (first ys)" using z(3) by (cases ys) (simp_all add: first_def)
      then show ?thesis using header_class [OF new(2)] header_class [OF chain_first [OF ch(2)]] nx True by simp
    next
      case False
      then show ?thesis using far [OF that] fr [of "x + 4"] by auto
    qed
  qed
  then show ?thesis using ok s chain' z(5) nx q by (auto simp: pool_def)
qed

section \<open>Header operations\<close>

lemma block_ops_rd:
  assumes "word_addr (b + 4)"
  shows "rd (block_set_free (of_nat b) m) = (rd m)(b + 4 := rd m (b + 4) OR 1)"
    "rd (block_set_used (of_nat b) m) = (rd m)(b + 4 := rd m (b + 4) AND NOT 1)"
    "rd (block_set_prev_free (of_nat b) m) = (rd m)(b + 4 := rd m (b + 4) OR 2)"
    "rd (block_set_prev_used (of_nat b) m) = (rd m)(b + 4 := rd m (b + 4) AND NOT 2)"
    "4 dvd s \<Longrightarrow> rd (block_set_size (of_nat b) (of_nat s) m) = (rd m)(b + 4 := hdr s (bit (rd m (b + 4)) 0) (bit (rd m (b + 4)) 1))"
  unfolding block_set_free_def block_set_used_def block_set_prev_free_def block_set_prev_used_def block_set_size_def word_at
    rd_load [OF assms] rd_store [OF assms] by (simp_all only: set_size_word)

lemma block_reads:
  assumes "word_addr (b + 4)" and "rd m (b + 4) = hdr s f pf" and "4 dvd s"
  shows "block_size m (of_nat b) = of_nat s" "block_is_free m (of_nat b) = f" "block_is_prev_free m (of_nat b) = pf"
    "block_next m (of_nat b) = of_nat (b + s + 4)"
proof -
  show s: "block_size m (of_nat b) = of_nat s" using assms by (simp only: block_size_rd hdr_ops)
  show "block_is_free m (of_nat b) = f" "block_is_prev_free m (of_nat b) = pf"
    unfolding block_is_free_def block_is_prev_free_def word_at rd_load [OF assms(1)] assms(2) by (simp_all only: hdr_ops [OF assms(3)])
  show "block_next m (of_nat b) = of_nat (b + s + 4)" by (simp add: block_next_def offset_to_block_def block_to_ptr_def s)
qed

text \<open>What is known of a block of a pool.\<close>

lemma pool_at:
  assumes ok: "pool h c p (xs @ (s, f) # ys) F" and q: "q = p + span xs"
  obtains prev pf where "foldl after (0, False, p) xs = (prev, pf, q)" "h (q + 4) = hdr s f pf" "pf \<longrightarrow> h q = of_nat prev"
    "header h (q, f, q + s + 4) (first ys)" "12 \<le> s" "4 dvd s" "s < 2 ^ 30" "4 dvd fst (first ys)"
    "word_addr q" "word_addr (q + 4)" "word_addr (q + s + 4)" "word_addr (q + s + 8)"
proof -
  have z: "sizes (xs @ (s, f) # ys)" "4 dvd p" "p + span (xs @ (s, f) # ys) + 8 \<le> 4294967296"
    and ch: "chain h (0, False, p) ((xs @ (s, f) # ys) @ [sentinel])" using ok by (simp_all add: pool_def)
  obtain prev pf where st: "foldl after (0, False, p) xs = (prev, pf, q)" using arrive [of "(0, False, p)" xs] q by (metis prod.collapse snd_conv)
  have h: "h (q + 4) = hdr s f pf" "pf \<longrightarrow> h q = of_nat prev" "chain h (q, f, q + s + 4) (ys @ [sentinel])" using ch st by (simp_all add: chain_append)
  have "4 dvd q" using starts_dvd [OF z(1,2), of q] q by simp
  moreover have "q + s + 12 \<le> 4294967296" using z(3) q by simp
  moreover have "4 dvd s" "12 \<le> s" "s < 2 ^ 30" using z(1) by simp_all
  moreover have "4 dvd fst (first ys)" using z(1) by (cases ys) (simp_all add: first_def)
  moreover have "word_addr q" "word_addr (q + 4)" "word_addr (q + s + 4)" "word_addr (q + s + 8)" using calculation by (auto simp: word_addr_def)
  ultimately show ?thesis using that st h(1,2) chain_first [OF h(3)] by simp
qed

lemma header_flag: "header h (prev, pf, nx) b \<Longrightarrow> h (nx + 4) = hdr (fst b) (snd b) pf"
  by (cases b) simp

lemma header_intro: "h (nx + 4) = hdr (fst b) (snd b) pf \<Longrightarrow> (pf \<Longrightarrow> h nx = of_nat prev) \<Longrightarrow> header h (prev, pf, nx) b"
  by (cases b) simp

lemma pool_mark_used:
  assumes ok: "pool (rd m) c p (xs @ (s, True) # ys) F" and q: "q = p + span xs" "q \<notin> F" and m': "m' = block_mark_as_used (of_nat q) m"
  shows "pool (rd m') c p (xs @ (s, False) # ys) F" and "w < q + 4 \<or> q + s + 12 \<le> w \<Longrightarrow> rd m' w = rd m w"
proof -
  obtain prev pf where a: "foldl after (0, False, p) xs = (prev, pf, q)" "rd m (q + 4) = hdr s True pf" "pf \<longrightarrow> rd m q = of_nat prev"
    "header (rd m) (q, True, q + s + 4) (first ys)" "12 \<le> s" "4 dvd s" "s < 2 ^ 30" "4 dvd fst (first ys)"
    "word_addr (q + 4)" "word_addr (q + s + 8)"
    by (rule pool_at [OF ok q(1)]) (rule that; assumption)
  let ?nx = "q + s + 4"
  have w: "word_addr (?nx + 4)" using a(10) by (simp add: add_ac)
  have n: "block_next m (of_nat q) = of_nat ?nx" by (rule block_reads(4) [OF a(9,2,6)])
  have h': "rd m' = (rd m)(?nx + 4 := hdr (fst (first ys)) (snd (first ys)) False, q + 4 := hdr s False pf)"
    unfolding m' block_mark_as_used_def n Let_def block_ops_rd(2) [OF a(9)] block_ops_rd(4) [OF w]
    using header_flag [OF a(4)] hdr_ops(6) [OF a(6), of True pf] hdr_ops(7) [OF a(8)] a(2,5) by simp
  show fr: "w < q + 4 \<or> q + s + 12 \<le> w \<Longrightarrow> rd m' w = rd m w" for w using h' a(5) by auto
  have "pool (rd m') c p (xs @ [(s, False)] @ ys) F"
  proof (rule pool_replace [where mid = "[(s, True)]" and h = "rd m"])
    show "chain (rd m') (foldl after (0, False, p) xs) [(s, False)]" using a h' by simp
    show "header (rd m') (foldl after (0, False, p) (xs @ [(s, False)])) (first ys)" using a(1,5) h' by (auto intro!: header_intro)
  qed (use ok q a fr in auto)
  then show "pool (rd m') c p (xs @ (s, False) # ys) F" by simp
qed

lemma pool_mark_free:
  assumes ok: "pool (rd m) c p (xs @ (s, False) # ys) F" and q: "q = p + span xs" "q \<notin> F" and m': "m' = block_mark_as_free (of_nat q) m"
  shows "pool (rd m') c p (xs @ (s, True) # ys) F" and "w < q + 4 \<or> q + s + 12 \<le> w \<Longrightarrow> rd m' w = rd m w"
proof -
  obtain prev pf where a: "foldl after (0, False, p) xs = (prev, pf, q)" "rd m (q + 4) = hdr s False pf" "pf \<longrightarrow> rd m q = of_nat prev"
    "header (rd m) (q, False, q + s + 4) (first ys)" "12 \<le> s" "4 dvd s" "s < 2 ^ 30" "4 dvd fst (first ys)"
    "word_addr (q + 4)" "word_addr (q + s + 8)" "word_addr (q + s + 4)"
    by (rule pool_at [OF ok q(1)]) (rule that; assumption)
  let ?nx = "q + s + 4"
  have w: "word_addr (?nx + 4)" using a(10) by (simp add: add_ac)
  have n: "block_next m (of_nat q) = of_nat ?nx" by (rule block_reads(4) [OF a(9,2,6)])
  have h': "rd m' = (rd m)(?nx := of_nat q, ?nx + 4 := hdr (fst (first ys)) (snd (first ys)) True, q + 4 := hdr s True pf)"
    unfolding m' block_mark_as_free_def block_link_next_def n Let_def prod.case block_ops_rd(1) [OF a(9)] block_ops_rd(3) [OF w] rd_store [OF a(11)]
    using header_flag [OF a(4)] hdr_ops(4) [OF a(6), of False pf] hdr_ops(5) [OF a(8)] a(2,5) by simp
  show fr: "w < q + 4 \<or> q + s + 12 \<le> w \<Longrightarrow> rd m' w = rd m w" for w using h' a(5) by auto
  have "pool (rd m') c p (xs @ [(s, True)] @ ys) F"
  proof (rule pool_replace [where mid = "[(s, False)]" and h = "rd m"])
    show "chain (rd m') (foldl after (0, False, p) xs) [(s, True)]" using a h' by simp
    show "header (rd m') (foldl after (0, False, p) (xs @ [(s, True)])) (first ys)" using a(1,5) h' by (auto intro!: header_intro)
  qed (use ok q a fr in auto)
  then show "pool (rd m') c p (xs @ (s, True) # ys) F" by simp
qed

text \<open>Two neighbours become one block; the flags behind it are right when they had the same flag.\<close>

lemma absorb_rd:
  assumes ok: "pool (rd m) c p (xs @ (s, f) # (t, g) # ys) F" and q: "q = p + span xs" and r: "r = q + s + 4"
    and st: "foldl after (0, False, p) xs = (prev, pf, q)" and m': "block_absorb (of_nat q) (of_nat r) m = (b', m')"
  shows "b' = of_nat q" and "rd m' = (rd m)(q + 4 := hdr (s + t + 4) f pf, r + t + 4 := of_nat q)"
    and "4 dvd s + t + 4" and "s + t + 4 < 2 ^ 30" and "header (rd m) (r, g, r + t + 4) (first ys)"
proof -
  obtain prev' pf' where a: "foldl after (0, False, p) xs = (prev', pf', q)" "rd m (q + 4) = hdr s f pf'" "4 dvd s" "word_addr (q + 4)"
    by (rule pool_at [OF ok q]) (rule that; assumption)
  have h0: "rd m (q + 4) = hdr s f pf" using a(1,2) st by simp
  have ok2: "pool (rd m) c p ((xs @ [(s, f)]) @ (t, g) # ys) F" using ok by simp
  have rq: "r = p + span (xs @ [(s, f)])" using q r by simp
  obtain pf2 where b: "rd m (r + 4) = hdr t g pf2" "header (rd m) (r, g, r + t + 4) (first ys)" "4 dvd t" "word_addr (r + 4)" "word_addr (r + t + 4)"
    by (rule pool_at [OF ok2 rq]) (rule that; assumption)
  show "header (rd m) (r, g, r + t + 4) (first ys)" by (rule b(2))
  let ?nx = "r + t + 4"
  have bs: "block_size m (of_nat r) + 4 = of_nat (t + 4)" using block_reads(1) [OF b(4,1,3)] by simp
  define m1 where "m1 = store32 m (of_nat (q + 4)) (hdr (s + t + 4) f pf)"
  show sz: "4 dvd s + t + 4" "s + t + 4 < 2 ^ 30" using a(3) b(3) ok by (simp_all add: pool_def)
  have h1: "rd m1 = (rd m)(q + 4 := hdr (s + t + 4) f pf)" unfolding m1_def by (rule rd_store [OF a(4)])
  have "block_next m1 (of_nat q) = of_nat ?nx" using block_reads(4) [OF a(4), of m1 "s + t + 4" f pf] h1 sz r by (simp add: add_ac)
  moreover have "store32 m (of_nat (q + 4)) (rd m (q + 4) + of_nat (t + 4)) = m1"
    unfolding m1_def h0 using hdr_add [OF a(3), of "t + 4"] b(3) by (simp add: add_ac)
  ultimately have res: "b' = of_nat q" "m' = store32 m1 (of_nat ?nx) (of_nat q)"
    using m' unfolding block_absorb_def Let_def word_at rd_load [OF a(4)] bs block_link_next_def by auto
  show "b' = of_nat q" by (rule res)
  show "rd m' = (rd m)(q + 4 := hdr (s + t + 4) f pf, ?nx := of_nat q)" unfolding res rd_store [OF b(5)] h1 ..
qed

lemma pool_absorb:
  assumes ok: "pool (rd m) c p (xs @ (s, f) # (t, f) # ys) F" and q: "q = p + span xs" "q \<notin> F" and r: "r = q + s + 4" "r \<notin> F"
    and m': "block_absorb (of_nat q) (of_nat r) m = (b', m')"
  shows "b' = of_nat q" and "pool (rd m') c p (xs @ (s + t + 4, f) # ys) F" and "w < q + 4 \<or> r + t + 12 \<le> w \<Longrightarrow> rd m' w = rd m w"
proof -
  obtain prev pf where a: "foldl after (0, False, p) xs = (prev, pf, q)" "pf \<longrightarrow> rd m q = of_nat prev" "12 \<le> s"
    by (rule pool_at [OF ok q(1)]) (rule that; assumption)
  note x = absorb_rd [OF ok q(1) r(1) a(1) m']
  note h' = x(2)
  show "b' = of_nat q" by (rule x(1))
  show fr: "w < q + 4 \<or> r + t + 12 \<le> w \<Longrightarrow> rd m' w = rd m w" for w using h' r by auto
  have "pool (rd m') c p (xs @ [(s + t + 4, f)] @ ys) F"
  proof (rule pool_replace [where mid = "[(s, f), (t, f)]" and h = "rd m"])
    show "chain (rd m') (foldl after (0, False, p) xs) [(s + t + 4, f)]" using a h' r by simp
    show "header (rd m') (foldl after (0, False, p) (xs @ [(s + t + 4, f)])) (first ys)"
      using a(1) h' r header_flag [OF x(5)] by (auto intro!: header_intro simp: add_ac)
  qed (use ok q r fr x(3,4) a(3) in \<open>auto simp: add_ac\<close>)
  then show "pool (rd m') c p (xs @ (s + t + 4, f) # ys) F" by simp
qed

text \<open>Cutting a block in two.\<close>

lemma split_rd:
  assumes ok: "pool (rd m) c p (xs @ (s, f) # ys) F" and q: "q = p + span xs" and n: "12 \<le> n" "4 dvd n" "n + 16 \<le> s"
    and st: "foldl after (0, False, p) xs = (prev, pf, q)"
    and m': "block_split (of_nat q) (of_nat n) m = (r', m')" and r: "r = q + n + 4"
  shows "r' = of_nat r"
    and "\<exists>j. rd m' = (rd m)(q + 4 := hdr n f pf, r + 4 := hdr (s - n - 4) True j,
           q + s + 4 := of_nat r, q + s + 8 := hdr (fst (first ys)) (snd (first ys)) True)"
proof -
  obtain prev' pf' where a: "foldl after (0, False, p) xs = (prev', pf', q)" "rd m (q + 4) = hdr s f pf'"
    "header (rd m) (q, f, q + s + 4) (first ys)" "4 dvd s" "4 dvd fst (first ys)" "word_addr (q + 4)" "word_addr (q + s + 4)" "word_addr (q + s + 8)"
    by (rule pool_at [OF ok q]) (rule that; assumption)
  have h0: "rd m (q + 4) = hdr s f pf" using a(1,2) st by simp
  let ?rs = "s - n - 4" let ?nx = "q + s + 4"
  have rs: "4 dvd ?rs" "r + ?rs + 4 = ?nx" using n a(4) r by (simp_all add: dvd_diff_nat)
  have wr: "word_addr (r + 4)" using n r a(6,8) by (auto simp: word_addr_def)
  have wn: "word_addr (?nx + 4)" using a(8) by (simp add: add_ac)
  have rem: "offset_to_block (block_to_ptr (of_nat q)) (of_nat n - 4) = of_nat r" by (simp add: offset_to_block_def block_to_ptr_def r)
  have sz: "block_size m (of_nat q) - (of_nat n + 4) = of_nat ?rs" using block_reads(1) [OF a(6) h0 a(4)] n by (simp add: of_nat_diff)
  define m1 where "m1 = block_set_size (of_nat r) (of_nat ?rs) m"
  define m2 where "m2 = block_set_size (of_nat q) (of_nat n) m1"
  have h1: "rd m1 = (rd m)(r + 4 := hdr ?rs (bit (rd m (r + 4)) 0) (bit (rd m (r + 4)) 1))"
    unfolding m1_def by (rule block_ops_rd(5) [OF wr rs(1)])
  have "rd m1 (q + 4) = hdr s f pf" using h1 h0 r by simp
  then have h2: "rd m2 = (rd m1)(q + 4 := hdr n f pf)" unfolding m2_def block_ops_rd(5) [OF a(6) n(2)] by (simp only: hdr_ops [OF a(4)])
  obtain j i where j: "rd m2 (r + 4) = hdr ?rs i j" using h1 h2 r by simp
  have nxt: "block_next m2 (of_nat r) = of_nat ?nx" using block_reads(4) [OF wr j rs(1)] by (simp only: rs(2))
  have hn: "rd m2 (?nx + 4) = hdr (fst (first ys)) (snd (first ys)) f"
    using header_flag [OF a(3)] h1 h2 n r rs(2) by simp
  have res: "r' = of_nat r" "m' = block_set_free (of_nat r) (block_set_prev_free (of_nat ?nx) (store32 m2 (of_nat ?nx) (of_nat r)))"
    using m' unfolding block_split_def Let_def rem sz m1_def [symmetric] m2_def [symmetric] block_mark_as_free_def block_link_next_def nxt by auto
  show "r' = of_nat r" by (rule res)
  have "rd m' = (rd m2)(?nx := of_nat r, ?nx + 4 := hdr (fst (first ys)) (snd (first ys)) True, r + 4 := hdr ?rs True j)"
    unfolding res block_ops_rd(1) [OF wr] block_ops_rd(3) [OF wn] rd_store [OF a(7)]
    using hn j hdr_ops(4) [OF rs(1), of i j] hdr_ops(5) [OF a(5)] n r rs(2) by simp
  then have "rd m' = (rd m)(q + 4 := hdr n f pf, r + 4 := hdr ?rs True j, ?nx := of_nat r, q + s + 8 := hdr (fst (first ys)) (snd (first ys)) True)"
    unfolding h2 h1 using n r by (intro ext) (simp add: add_ac)
  then show "\<exists>j. rd m' = (rd m)(q + 4 := hdr n f pf, r + 4 := hdr ?rs True j, ?nx := of_nat r, q + s + 8 := hdr (fst (first ys)) (snd (first ys)) True)" by blast
qed

lemma pool_split:
  assumes ok: "pool (rd m) c p (xs @ (s, f) # ys) F" and q: "q = p + span xs" "q \<notin> F" and n: "12 \<le> n" "4 dvd n" "n + 16 \<le> s"
    and r: "r = q + n + 4" and st: "foldl after (0, False, p) xs = (prev, pf, q)"
    and h': "h' = (rd m)(q + 4 := hdr n f pf, r := v, r + 4 := hdr (s - n - 4) True f,
           q + s + 4 := of_nat r, q + s + 8 := hdr (fst (first ys)) (snd (first ys)) True)" and v: "f \<longrightarrow> v = of_nat q"
  shows "pool h' c p (xs @ (n, f) # (s - n - 4, True) # ys) F"
proof -
  obtain prev' pf' where a: "foldl after (0, False, p) xs = (prev', pf', q)" "pf' \<longrightarrow> rd m q = of_nat prev'" "4 dvd s" "s < 2 ^ 30"
    by (rule pool_at [OF ok q(1)]) (rule that; assumption)
  have p0: "pf \<longrightarrow> rd m q = of_nat prev" using a(1,2) st by simp
  have e: "r + (s - n - 4) + 4 = q + s + 4" "4 dvd s - n - 4" using n a(3) r by (simp_all add: dvd_diff_nat)
  have "pool h' c p (xs @ [(n, f), (s - n - 4, True)] @ ys) F"
  proof (rule pool_replace [where mid = "[(s, f)]" and h = "rd m"])
    show "chain h' (foldl after (0, False, p) xs) [(n, f), (s - n - 4, True)]" using st h' n r p0 v by auto
    have "header h' (r, True, q + s + 4) (first ys)" using h' by (auto intro!: header_intro simp: add_ac)
    then show "header h' (foldl after (0, False, p) (xs @ [(n, f), (s - n - 4, True)])) (first ys)"
      using st e(1) r n by simp
    show "h' w = rd m w" if "w < q + 4 \<or> q + span [(s, f)] + 8 \<le> w" for w using that h' r n by auto
  qed (use ok q n r e a(4) in auto)
  then show ?thesis by simp
qed

end
