(* ===== verification/TlsfHeap.thy ===== *)
theory TlsfHeap
  imports TlsfPool
begin

text \<open>
  The heap as a whole: the index holds exactly the free blocks and no two free blocks are neighbours
  (\<open>heap\<close>). Creation makes a heap of one free block, \<open>tlsf_malloc\<close> takes a block and cuts it (\<open>give\<close>),
  \<open>tlsf_free\<close> joins a block with its free neighbours (\<open>release\<close>), and each of them keeps the bytes in use and
  all bytes outside of the heap (\<open>kept\<close>).
\<close>

unbundle bit_operations_syntax

section \<open>The heap\<close>

text \<open>The bytes of the blocks in use.\<close>

primrec used :: "nat \<Rightarrow> block list \<Rightarrow> nat set" where
  "used p [] = {}"
| "used p (b # bl) = (if snd b then {} else {p + 8..<p + 8 + fst b}) \<union> used (p + fst b + 4) bl"

definition coalesced :: "block list \<Rightarrow> bool" where
  "coalesced bl \<longleftrightarrow> successively (\<lambda>a b. \<not> (snd a \<and> snd b)) bl"

text \<open>A heap in good order: the index holds exactly the free blocks, and no two of them are neighbours.\<close>

definition heap :: "mem \<Rightarrow> nat \<Rightarrow> nat \<Rightarrow> block list \<Rightarrow> bool" where
  "heap m c p bl \<longleftrightarrow> pool (rd m) c p bl (frees p bl) \<and> coalesced bl"

text \<open>Two memories agree on the bytes in use and outside of the heap.\<close>

definition kept :: "mem \<Rightarrow> mem \<Rightarrow> nat \<Rightarrow> nat \<Rightarrow> block list \<Rightarrow> bool" where
  "kept m m' c p bl \<longleftrightarrow>
     (\<forall>a < 4294967296. a \<in> used p bl \<or> a < c \<or> p + span bl + 8 \<le> a \<longrightarrow> m' (of_nat a) = m (of_nat a))"

lemma used_append [simp]: "used p (xs @ ys) = used p xs \<union> used (p + span xs) ys"
  by (induction xs arbitrary: p) (auto simp: add_ac)

lemma used_range: "sizes bl \<Longrightarrow> w \<in> used p bl \<Longrightarrow> p + 8 \<le> w \<and> w < p + span bl + 4"
  by (induction bl arbitrary: p) (fastforce split: if_splits)+

lemma frees_range: "sizes bl \<Longrightarrow> x \<in> frees p bl \<Longrightarrow> p \<le> x \<and> x + 16 \<le> p + span bl"
  using frees_starts starts_range by blast

lemma used_not_link: "sizes bl \<Longrightarrow> w \<in> used p bl \<Longrightarrow> x \<in> frees p bl \<Longrightarrow> w < x + 4 \<or> x + 16 \<le> w"
proof (induction bl arbitrary: p)
  case (Cons b bl)
  have s: "sizes bl" "12 \<le> fst b" using Cons.prems(1) by simp_all
  consider "snd b" "x = p" "w \<in> used (p + fst b + 4) bl" | "x \<in> frees (p + fst b + 4) bl" "w \<in> {p + 8..<p + 8 + fst b}"
    | "x \<in> frees (p + fst b + 4) bl" "w \<in> used (p + fst b + 4) bl"
    using Cons.prems(2,3) by (auto split: if_splits)
  then show ?case
  proof cases
    case 1
    then show ?thesis using used_range [OF s(1), of w "p + fst b + 4"] s(2) by simp
  next
    case 2
    then show ?thesis using frees_range [OF s(1), of x "p + fst b + 4"] s(2) by simp
  next
    case 3
    then show ?thesis using Cons.IH s(1) by blast
  qed
qed simp

lemma used_aligned: "sizes bl \<Longrightarrow> 4 dvd p \<Longrightarrow> w \<in> used p bl \<Longrightarrow> w - w mod 4 \<in> used p bl"
proof (induction bl arbitrary: p)
  case (Cons b bl)
  have s: "sizes bl" "4 dvd fst b" "4 dvd p + fst b + 4" using Cons.prems(1,2) by simp_all
  have "w - w mod 4 \<in> {p + 8..<p + 8 + fst b}" if "w \<in> {p + 8..<p + 8 + fst b}"
    using that Cons.prems(2) s(2) by (auto elim!: dvdE) presburger+
  then show ?case using Cons.IH [OF s(1,3)] Cons.prems(3) by (auto split: if_splits)
qed simp

lemma rd_bytes:
  assumes "word_addr a" and "rd m' a = rd m a" and "i < 4"
  shows "m' (of_nat (a + i)) = m (of_nat (a + i))"
proof -
  have l: "load_bytes n b 4 = bytes_of_u32 (load32 n b)" for n b by (simp add: load32_def numeral_eq_Suc load_bytes_Suc add.assoc)
  have "load32 m' (of_nat a) = load32 m (of_nat a)" using assms(1,2) by (simp add: rd_def)
  then have "load_bytes m' (of_nat a) 4 ! i = load_bytes m (of_nat a) 4 ! i" by (simp only: l)
  then show ?thesis using assms(3) by simp
qed

lemma keptI:
  assumes "sizes bl" "4 dvd p" "4 dvd c"
    and "\<And>w. word_addr w \<Longrightarrow> w \<in> used p bl \<or> w < c \<or> p + span bl + 8 \<le> w \<Longrightarrow> rd m' w = rd m w"
  shows "kept m m' c p bl"
  unfolding kept_def
proof (intro allI impI)
  fix a assume a: "a < 4294967296" and w: "a \<in> used p bl \<or> a < c \<or> p + span bl + 8 \<le> a"
  let ?w = "a - a mod 4"
  have wa: "word_addr ?w" using a by (auto simp: word_addr_def dvd_minus_mod)
  have "4 dvd span bl" using assms(1) by (induction bl) auto
  then have "4 dvd p + span bl + 8" using assms(2) by simp
  then have "p + span bl + 8 \<le> ?w" if "p + span bl + 8 \<le> a" using that by (auto elim!: dvdE) presburger
  then have "rd m' ?w = rd m ?w" using w used_aligned [OF assms(1,2)] by (intro assms(4) [OF wa]) auto
  then show "m' (of_nat a) = m (of_nat a)" using rd_bytes [OF wa, of m' m "a mod 4"] by simp
qed

lemma coalesced_split:
  "coalesced (xs @ b # ys) \<longleftrightarrow> coalesced xs \<and> coalesced ys \<and> (xs \<noteq> [] \<longrightarrow> \<not> (snd (last xs) \<and> snd b)) \<and> \<not> (snd b \<and> snd (first ys))"
  unfolding coalesced_def first_def by (cases ys) (auto simp: successively_append_iff successively_Cons)

lemma frees_at: "x \<in> frees p bl \<Longrightarrow> \<exists>xs s ys. bl = xs @ (s, True) # ys \<and> x = p + span xs"
proof (induction bl arbitrary: p)
  case (Cons b bl)
  show ?case
  proof (cases "x = p \<and> snd b")
    case True
    then have "b # bl = [] @ (fst b, True) # bl" "x = p + span []" by (simp_all add: prod_eq_iff)
    then show ?thesis by blast
  next
    case False
    then have "x \<in> frees (p + fst b + 4) bl" using Cons.prems by (auto split: if_splits)
    then obtain xs s ys where "bl = xs @ (s, True) # ys" "x = p + fst b + 4 + span xs" using Cons.IH by blast
    then have "b # bl = (b # xs) @ (s, True) # ys" "x = p + span (b # xs)" by simp_all
    then show ?thesis by blast
  qed
qed simp

lemma class_of_size: "word_addr (x + 4) \<Longrightarrow> mapping_insert (block_size m (of_nat x)) = class_of (rd m (x + 4))"
  by (simp only: class_of_def block_size_rd)

lemma pool_index_ok:
  assumes ok: "pool (rd m) c p bl (frees p bl)"
  shows "index_ok m (of_nat c)"
proof -
  have pl: "placed c (frees p bl)" using pool_F_placed [OF ok] .
  have fi: "free_index (rd m) c (frees p bl)" using ok by (simp add: pool_def)
  note f = free_index_filled [OF fi pl]
  have "head m (of_nat c) fl sl \<noteq> 0 \<and> unat (block_size m (head m (of_nat c) fl sl)) < 2 ^ 30 \<and> mapping_insert (block_size m (head m (of_nat c) fl sl)) = (fl, sl)"
    if fill: "filled m (of_nat c) fl sl" for fl sl
  proof -
    obtain x where x: "x \<in> frees p bl" "head m (of_nat c) fl sl = of_nat x" "class_of (rd m (x + 4)) = (fl, sl)" using f(2) [OF fill] by blast
    obtain xs s ys where b: "bl = xs @ (s, True) # ys" "x = p + span xs" using frees_at [OF x(1)] by blast
    obtain pf where a: "rd m (x + 4) = hdr s True pf" "4 dvd s" "s < 2 ^ 30" "word_addr (x + 4)" "12 \<le> s"
      by (rule pool_at [OF ok [unfolded b(1)] b(2)]) (rule that; assumption)
    have "0 < x" "x < 4294967296" using pl x(1) by (auto simp: placed_def)
    then have "unat (of_nat x :: u32) = x" "x \<noteq> 0" by (simp_all add: unat_of_nat32)
    then have "(of_nat x :: u32) \<noteq> 0" by (metis unat_0)
    moreover have "unat (of_nat s :: u32) = s" using a(3) by (intro unat_of_nat32) simp
    ultimately show ?thesis using x(2,3) class_of_size [OF a(4), of m] block_reads(1) [OF a(4,1,2)] a(3) by simp
  qed
  then show ?thesis unfolding index_ok_def using f(3,4) by blast
qed

text \<open>What is left of a free block of size \<open>s\<close> when \<open>n\<close> bytes of it are taken.\<close>

definition give :: "nat \<Rightarrow> nat \<Rightarrow> block list" where
  "give s n = (if n + 16 \<le> s then [(n, False), (s - n - 4, True)] else [(s, False)])"

lemma pool_nonzero: "pool h c p (xs @ (s, f) # ys) F \<Longrightarrow> (of_nat (p + span xs) :: u32) \<noteq> 0"
proof
  assume ok: "pool h c p (xs @ (s, f) # ys) F" and z: "(of_nat (p + span xs) :: u32) = 0"
  then have "p + span xs < 4294967296" "0 < p + span xs" by (simp_all add: pool_def)
  then show False using z by (metis unat_of_nat32 unat_0 less_irrefl)
qed

lemma can_split:
  assumes "pool (rd m) c p (xs @ (s, f) # ys) F" and "q = p + span xs" and "n < 2 ^ 30"
  shows "block_can_split m (of_nat q) (of_nat n) \<longleftrightarrow> n + 16 \<le> s"
proof -
  obtain pf where a: "rd m (q + 4) = hdr s f pf" "4 dvd s" "s < 2 ^ 30" "word_addr (q + 4)"
    by (rule pool_at [OF assms(1,2)]) (rule that; assumption)
  have u: "unat (of_nat (n + 16) :: u32) = n + 16" "unat (of_nat s :: u32) = s" using assms(3) a(3) by (intro unat_of_nat32; simp)+
  have e: "(16 :: u32) + of_nat n = of_nat (n + 16)" by simp
  show ?thesis unfolding block_can_split_def block_reads(1) [OF a(4,1,2)] e by (simp only: word_le_nat_alt u)
qed

lemma trim_free:
  assumes ok: "pool (rd m) c p (xs @ (s, True) # ys) F" and q: "q = p + span xs" "q \<notin> F" and n: "12 \<le> n" "4 dvd n" "n + 16 \<le> s"
    and r: "r = q + n + 4" and m': "m' = block_trim_free (of_nat c) (of_nat q) (of_nat n) m"
  shows "pool (rd m') c p (xs @ (n, True) # (s - n - 4, True) # ys) (insert r F)" and "r \<notin> F"
    and "w \<notin> list_words c F \<Longrightarrow> w < q + 4 \<or> q + s + 12 \<le> w \<Longrightarrow> rd m' w = rd m w"
proof -
  obtain prev pf where a: "foldl after (0, False, p) xs = (prev, pf, q)" "rd m (q + 4) = hdr s True pf" "4 dvd s" "s < 2 ^ 30" "word_addr (q + 4)"
    "word_addr (q + s + 8)" by (rule pool_at [OF ok q(1)]) (rule that; assumption)
  obtain r' m1 where sp: "block_split (of_nat q) (of_nat n) m = (r', m1)" by fastforce
  note x = split_rd [OF ok q(1) n a(1) sp r]
  obtain j where h1: "rd m1 = (rd m)(q + 4 := hdr n True pf, r + 4 := hdr (s - n - 4) True j,
           q + s + 4 := of_nat r, q + s + 8 := hdr (fst (first ys)) (snd (first ys)) True)" using x(2) by blast
  define m2 where "m2 = block_set_prev_free (of_nat r) (store32 m1 (of_nat r) (of_nat q))"
  have wr: "word_addr r" "word_addr (r + 4)" using n r a(5,6) by (auto simp: word_addr_def)
  have rs: "4 dvd s - n - 4" "s - n - 4 < 2 ^ 30" using n a(3,4) by (simp_all add: dvd_diff_nat)
  have "rd m1 (q + 4) = hdr n True pf" using h1 n r by simp
  then have "block_next m1 (of_nat q) = of_nat r" using block_reads(4) [OF a(5) _ n(2)] r by simp
  moreover have "block_can_split m (of_nat q) (of_nat n)" using can_split [OF ok q(1), of n] n a(4) by simp
  ultimately have m'2: "m' = block_insert (of_nat c) (of_nat r) m2"
    using m' sp x(1) by (simp add: block_trim_free_def block_link_next_def m2_def Let_def)
  have "rd m2 = (rd m1)(r := of_nat q, r + 4 := hdr (s - n - 4) True True)"
    unfolding m2_def block_ops_rd(3) [OF wr(2)] rd_store [OF wr(1)] using h1 n r hdr_ops(5) [OF rs(1), of True j] by simp
  then have h2: "rd m2 = (rd m)(q + 4 := hdr n True pf, r := of_nat q, r + 4 := hdr (s - n - 4) True True,
           q + s + 4 := of_nat r, q + s + 8 := hdr (fst (first ys)) (snd (first ys)) True)"
    unfolding h1 using n r by (intro ext) simp
  have ok2: "pool (rd m2) c p (xs @ (n, True) # (s - n - 4, True) # ys) F"
    by (rule pool_split [OF ok q n r a(1) h2]) simp
  show rF: "r \<notin> F"
  proof
    assume "r \<in> F"
    then have "r \<in> starts p xs \<or> r = q \<or> r \<in> starts (q + s + 4) ys" using ok q by (auto simp: pool_def add_ac)
    then show False using starts_range [of xs r p] starts_ge [of r "q + s + 4" ys] ok q r n by (auto simp: pool_def)
  qed
  have rs2: "rd m2 (r + 4) = hdr (s - n - 4) True True" using h2 n r by simp
  have rst: "r \<in> starts p (xs @ (n, True) # (s - n - 4, True) # ys)" using q r by (simp add: add_ac)
  note ins = pool_insert [OF ok2 rst rF rs2 rs m'2]
  show "pool (rd m') c p (xs @ (n, True) # (s - n - 4, True) # ys) (insert r F)" by (rule ins(1))
  show "rd m' w = rd m w" if "w \<notin> list_words c F" "w < q + 4 \<or> q + s + 12 \<le> w" for w
  proof -
    have "w \<notin> list_words c (insert r F)" using that r n by (auto simp: list_words_def)
    then show ?thesis using ins(2) h2 that(2) r n by auto
  qed
qed

lemma prepare_used:
  assumes ok: "pool (rd m) c p (xs @ (s, True) # ys) (frees p xs \<union> frees (q + s + 4) ys)" and q: "q = p + span xs"
    and n: "12 \<le> n" "4 dvd n" "n \<le> s" and m': "block_prepare_used (of_nat c) (of_nat q) (of_nat n) m = (ptr, m')"
  shows "ptr = of_nat (q + 8)" and "pool (rd m') c p (xs @ give s n @ ys) (frees p (xs @ give s n @ ys))"
    and "w \<notin> list_words c (frees p xs \<union> frees (q + s + 4) ys) \<Longrightarrow> w < q + 4 \<or> q + s + 12 \<le> w \<Longrightarrow> rd m' w = rd m w"
proof -
  let ?F = "frees p xs \<union> frees (q + s + 4) ys"
  have z: "sizes xs" "sizes ys" "s < 2 ^ 30" using ok by (simp_all add: pool_def)
  have qF: "q \<notin> ?F" using frees_range [OF z(1), of q p] frees_range [OF z(2), of q "q + s + 4"] q by auto
  have n30: "n < 2 ^ 30" using n z(3) by simp
  define m1 where "m1 = block_trim_free (of_nat c) (of_nat q) (of_nat n) m"
  have res: "ptr = of_nat (q + 8)" "m' = block_mark_as_used (of_nat q) m1"
    using m' pool_nonzero [OF ok] q by (auto simp: block_prepare_used_def block_to_ptr_def m1_def)
  show "ptr = of_nat (q + 8)" by (rule res)
  have "pool (rd m') c p (xs @ give s n @ ys) (frees p (xs @ give s n @ ys)) \<and>
    (\<forall>w. w \<notin> list_words c ?F \<longrightarrow> w < q + 4 \<or> q + s + 12 \<le> w \<longrightarrow> rd m' w = rd m w)"
  proof (cases "n + 16 \<le> s")
    case True
    note t = trim_free [OF ok q qF n(1,2) True refl m1_def]
    have "q \<notin> insert (q + n + 4) ?F" using qF by simp
    note u = pool_mark_used [OF t(1) q this res(2)]
    have "frees p (xs @ give s n @ ys) = insert (q + n + 4) ?F" using True q by (auto simp: give_def add_ac)
    moreover have "rd m' w = rd m w" if "w \<notin> list_words c ?F" "w < q + 4 \<or> q + s + 12 \<le> w" for w
      using t(3) [OF that] u(2) [of w] that True by auto
    ultimately show ?thesis using u(1) True by (simp add: give_def)
  next
    case False
    then have "m1 = m" using can_split [OF ok q n30] by (simp add: m1_def block_trim_free_def)
    then have "m' = block_mark_as_used (of_nat q) m" using res by simp
    note u = pool_mark_used [OF ok q qF this]
    have "frees p (xs @ give s n @ ys) = ?F" using False q by (auto simp: give_def add_ac)
    then show ?thesis using u False by (simp add: give_def)
  qed
  then show "pool (rd m') c p (xs @ give s n @ ys) (frees p (xs @ give s n @ ys))"
    and "w \<notin> list_words c ?F \<Longrightarrow> w < q + 4 \<or> q + s + 12 \<le> w \<Longrightarrow> rd m' w = rd m w" by blast+
qed

text \<open>An operation on free blocks that lie in a row keeps everything else.\<close>

lemma kept_frame:
  assumes ok: "pool h c p (xs @ mid @ ys) F" and q: "q = p + span xs" and free: "\<And>b. b \<in> set mid \<Longrightarrow> snd b"
    and G: "G \<subseteq> frees p (xs @ mid @ ys)"
    and fr: "\<And>w. w \<notin> list_words c G \<Longrightarrow> w < q + 4 \<or> q + span mid + 8 \<le> w \<Longrightarrow> w \<in> used p xs \<or> w \<notin> used p xs \<and> (w < c \<or> q + span mid \<le> w) \<Longrightarrow> rd m' w = rd m w"
  shows "kept m m' c p (xs @ mid @ ys)"
proof (rule keptI)
  let ?bl = "xs @ mid @ ys"
  show s: "sizes ?bl" "4 dvd p" "4 dvd c" using ok by (simp_all add: pool_def)
  have c: "c + 3184 \<le> p" using ok by (simp add: pool_def)
  have um: "used r mid = {}" for r using free by (induction mid arbitrary: r) auto
  fix w assume w: "w \<in> used p ?bl \<or> w < c \<or> p + span ?bl + 8 \<le> w"
  show "rd m' w = rd m w"
  proof (rule fr)
    have "w \<notin> list_words c (frees p ?bl)"
    proof -
      have "w < x + 8 \<or> x + 16 \<le> w" if "x \<in> frees p ?bl" for x
        using w used_not_link [OF s(1) _ that, of w] frees_range [OF s(1) that] c by auto
      moreover have "w < c \<or> c + 3188 \<le> w" using w used_range [OF s(1), of w p] c by auto
      ultimately show ?thesis by (fastforce simp: list_words_def)
    qed
    then show "w \<notin> list_words c G" using list_words_mono [OF G] by blast
    have "w \<in> used p xs \<or> w \<in> used (q + span mid) ys \<or> w < c \<or> p + span ?bl + 8 \<le> w" using w um q by (auto simp: add_ac)
    then show "w < q + 4 \<or> q + span mid + 8 \<le> w" "w \<in> used p xs \<or> w \<notin> used p xs \<and> (w < c \<or> q + span mid \<le> w)"
      using used_range [of xs w p] used_range [of ys w "q + span mid"] s(1) q c by auto
  qed
qed

text \<open>A free block is found by its class.\<close>

lemma heap_class:
  assumes ok: "pool (rd m) c p bl (frees p bl)"
  shows "filled m (of_nat c) fl sl \<longleftrightarrow> (\<exists>s. (s, True) \<in> set bl \<and> mapping_insert (of_nat s) = (fl, sl))"
    and "filled m (of_nat c) fl sl \<Longrightarrow> \<exists>xs s ys. bl = xs @ (s, True) # ys \<and> head m (of_nat c) fl sl = of_nat (p + span xs) \<and> mapping_insert (of_nat s) = (fl, sl)"
proof -
  have fi: "free_index (rd m) c (frees p bl)" using ok by (simp add: pool_def)
  note f = free_index_filled [OF fi pool_F_placed [OF ok]]
  have cl: "class_of (rd m (p + span xs + 4)) = mapping_insert (of_nat s)" if "bl = xs @ (s, True) # ys" for xs s ys
    by (rule pool_at [OF ok [unfolded that] refl]) (simp add: class_of_hdr)
  show "filled m (of_nat c) fl sl \<longleftrightarrow> (\<exists>s. (s, True) \<in> set bl \<and> mapping_insert (of_nat s) = (fl, sl))"
  proof
    assume "filled m (of_nat c) fl sl"
    then obtain x where x: "x \<in> frees p bl" "class_of (rd m (x + 4)) = (fl, sl)" using f(1) by blast
    obtain xs s ys where b: "bl = xs @ (s, True) # ys" "x = p + span xs" using frees_at [OF x(1)] by blast
    then have "(s, True) \<in> set bl \<and> mapping_insert (of_nat s) = (fl, sl)" using cl [OF b(1)] x(2) by simp
    then show "\<exists>s. (s, True) \<in> set bl \<and> mapping_insert (of_nat s) = (fl, sl)" by blast
  next
    assume "\<exists>s. (s, True) \<in> set bl \<and> mapping_insert (of_nat s) = (fl, sl)"
    then obtain s xs ys where b: "bl = xs @ (s, True) # ys" "mapping_insert (of_nat s) = (fl, sl)" by (auto simp: in_set_conv_decomp)
    then have "p + span xs \<in> frees p bl" by simp
    then show "filled m (of_nat c) fl sl" using f(1) cl [OF b(1)] b(2) by auto
  qed
  show "\<exists>xs s ys. bl = xs @ (s, True) # ys \<and> head m (of_nat c) fl sl = of_nat (p + span xs) \<and> mapping_insert (of_nat s) = (fl, sl)"
    if fill: "filled m (of_nat c) fl sl"
  proof -
    obtain x where x: "x \<in> frees p bl" "head m (of_nat c) fl sl = of_nat x" "class_of (rd m (x + 4)) = (fl, sl)" using f(2) [OF fill] by blast
    obtain xs s ys where b: "bl = xs @ (s, True) # ys" "x = p + span xs" using frees_at [OF x(1)] by blast
    then show ?thesis using cl [OF b(1)] x(2,3) by auto
  qed
qed

section \<open>Allocation\<close>

lemma class_below:
  assumes "unat t < 2 ^ 30" and "mapping_insert t = (a, b)" and "\<not> later (fl, sl) (a, b)"
  shows "unat t < class_min fl sl"
proof -
  note cls = mapping_insert_class [OF _ assms(2)]
  have b: "b < 32" "unat t < class_min a b + class_width a" using cls(2,4) assms(1) by simp_all
  consider "a < fl" | "a = fl" "b < sl" using assms(3) by (cases "a < fl") (auto simp: later_def not_le)
  then show ?thesis
  proof cases
    case 1
    have "(b + 1) * class_width a \<le> 32 * class_width a" using b(1) by (intro mult_le_mono1) simp
    then have "class_min a b + class_width a \<le> 2 ^ (a + 7)" by (auto simp: class_min_def class_width_def power_add)
    also have "\<dots> \<le> 2 ^ (fl + 6)" using 1 by (intro power_increasing) simp_all
    also have "\<dots> \<le> class_min fl sl" using 1 by (simp add: class_min_def)
    finally show ?thesis using b(2) by simp
  next
    case 2
    then have "(b + 1) * class_width a \<le> sl * class_width a" by (intro mult_le_mono1) simp
    then show ?thesis using b(2) 2 by (simp add: class_min_def)
  qed
qed

lemma heap_parts: "heap m c p bl \<Longrightarrow> pool (rd m) c p bl (frees p bl) \<and> coalesced bl"
  by (simp add: heap_def)

lemma coalesced_Cons: "coalesced (b # ys) \<longleftrightarrow> coalesced ys \<and> \<not> (snd b \<and> snd (first ys))"
  using coalesced_split [of "[]" b ys] by (simp add: coalesced_def)

lemma coalesced_give: "coalesced (xs @ (s, True) # ys) \<Longrightarrow> coalesced (xs @ give s n @ ys)"
  by (auto simp: give_def coalesced_split coalesced_Cons)

lemma frees_middle:
  assumes "sizes xs" and "sizes ys" and "q = p + span xs"
  shows "q \<notin> frees p xs" and "q \<notin> frees (q + s + 4) ys" and "frees p xs \<inter> frees (q + s + 4) ys = {}"
  using frees_range [OF assms(1), of _ p] frees_range [OF assms(2), of _ "q + s + 4"] assms(3) by fastforce+

text \<open>The block that is found leaves the index.\<close>

lemma locate_pool:
  assumes ok: "pool (rd m) c p bl (frees p bl)" and adj: "adjust_request_size sz ALIGN_SIZE = adj" "adj \<noteq> 0" "sz \<le> 0xFFFFFFFC"
    and l: "block_locate_free (of_nat c) adj m = (b, m1)"
  shows "b = 0 \<Longrightarrow> m1 = m \<and> (\<forall>s. (s, True) \<in> set bl \<longrightarrow> s < unat adj + unat adj div 32)"
    and "b \<noteq> 0 \<Longrightarrow> \<exists>xs s ys. bl = xs @ (s, True) # ys \<and> b = of_nat (p + span xs) \<and> unat adj \<le> s \<and>
      pool (rd m1) c p bl (frees p xs \<union> frees (p + span xs + s + 4) ys) \<and> (\<forall>w. w \<notin> list_words c (frees p bl) \<longrightarrow> rd m1 w = rd m w)"
proof -
  note f = locate_free_fits [OF pool_index_ok [OF ok] adj l]
  note a = adjusted [OF adj]
  show "m1 = m \<and> (\<forall>s. (s, True) \<in> set bl \<longrightarrow> s < unat adj + unat adj div 32)" if b: "b = 0"
  proof (intro conjI allI impI)
    show "m1 = m" using f b by simp
    fix s assume s: "(s, True) \<in> set bl"
    obtain x y where xy: "mapping_insert (of_nat s) = (x, y)" by fastforce
    obtain fl sl where q: "mapping_search adj = (fl, sl)" by fastforce
    have "filled m (of_nat c) x y" using heap_class(1) [OF ok] s xy by blast
    then have nl: "\<not> later (fl, sl) (x, y)" using f b q by auto
    have s30: "s < 2 ^ 30" using ok s by (auto simp: pool_def sizes_def)
    then have "unat (of_nat s :: u32) = s" by (intro unat_of_nat32) simp
    then have "s < class_min fl sl" using class_below [OF _ xy nl] s30 by simp
    then show "s < unat adj + unat adj div 32" using mapping_search_min(3) [OF a(1,2) q] by simp
  qed
  assume "b \<noteq> 0"
  then obtain fl sl where g: "filled m (of_nat c) fl sl" "b = head m (of_nat c) fl sl" "unat adj \<le> unat (block_size m b)"
    "m1 = remove_free_block (of_nat c) b fl sl m" using f by auto
  obtain xs s ys where x: "bl = xs @ (s, True) # ys" "b = of_nat (p + span xs)" "mapping_insert (of_nat s) = (fl, sl)"
    using heap_class(2) [OF ok g(1)] g(2) by auto
  define q where "q = p + span xs"
  obtain pf where h: "rd m (q + 4) = hdr s True pf" "4 dvd s" "s < 2 ^ 30" "word_addr (q + 4)"
    by (rule pool_at [OF ok [unfolded x(1)] q_def]) (rule that; assumption)
  have bs: "block_size m b = of_nat s" using block_reads(1) [OF h(4,1,2)] x(2) q_def by simp
  have m1: "m1 = block_remove (of_nat c) (of_nat q) m" using g(4) x(2,3) bs q_def by (simp add: block_remove_def)
  have F: "frees p bl = insert q (frees p xs \<union> frees (q + s + 4) ys)" using x(1) q_def by (auto simp: add_ac)
  have "sizes xs" "sizes ys" using ok x(1) by (simp_all add: pool_def)
  then have "frees p bl - {q} = frees p xs \<union> frees (q + s + 4) ys" using F frees_middle(1,2) [of xs ys q p] q_def by auto
  moreover have "q \<in> frees p bl" using F by simp
  note rm = pool_remove [OF ok this m1]
  moreover have "unat adj \<le> s" using g(3) bs h(3) unat_of_nat32 [of s] by simp
  ultimately show "\<exists>xs s ys. bl = xs @ (s, True) # ys \<and> b = of_nat (p + span xs) \<and> unat adj \<le> s \<and>
      pool (rd m1) c p bl (frees p xs \<union> frees (p + span xs + s + 4) ys) \<and> (\<forall>w. w \<notin> list_words c (frees p bl) \<longrightarrow> rd m1 w = rd m w)"
    using x q_def by metis
qed

lemma malloc_zero: "adjust_request_size sz ALIGN_SIZE = 0 \<Longrightarrow> tlsf_malloc control sz m = (0, m)"
  by (simp add: tlsf_malloc_def block_locate_free_def block_prepare_used_def)

lemma malloc_heap:
  assumes ok: "heap m c p bl" and sz: "sz \<le> 0xFFFFFFFC" and r: "tlsf_malloc (of_nat c) sz m = (ptr, m')"
    and n: "n = unat (adjust_request_size sz ALIGN_SIZE)"
  shows "if ptr = 0 then m' = m \<and> (n = 0 \<or> (\<forall>s. (s, True) \<in> set bl \<longrightarrow> s < n + n div 32))
    else \<exists>xs s ys. bl = xs @ (s, True) # ys \<and> ptr = of_nat (p + span xs + 8) \<and> 0 < n \<and> unat sz \<le> n \<and> n \<le> s \<and>
      heap m' c p (xs @ give s n @ ys) \<and> kept m m' c p bl"
proof (cases "n = 0")
  case True
  then show ?thesis using r n malloc_zero [of sz "of_nat c" m] by (simp add: word_unat_eq_iff)
next
  case False
  define adj where "adj = adjust_request_size sz ALIGN_SIZE"
  have a0: "adj \<noteq> 0" using False n by (auto simp: adj_def)
  note adj = adjusted [OF adj_def [symmetric] a0 sz]
  have na: "of_nat n = adj" "unat adj = n" using n by (simp_all add: adj_def)
  have pl: "pool (rd m) c p bl (frees p bl)" "coalesced bl" using heap_parts [OF ok] by auto
  obtain b m1 where l: "block_locate_free (of_nat c) adj m = (b, m1)" by fastforce
  note f = locate_pool [OF pl(1) adj_def [symmetric] a0 sz l]
  have r1: "block_prepare_used (of_nat c) b adj m1 = (ptr, m')" using r l by (simp add: tlsf_malloc_def adj_def)
  show ?thesis
  proof (cases "b = 0")
    case True
    then show ?thesis using f(1) r1 na by (auto simp: block_prepare_used_def)
  next
    case nz: False
    then obtain xs s ys where x: "bl = xs @ (s, True) # ys" "b = of_nat (p + span xs)" "unat adj \<le> s"
      and ok2: "pool (rd m1) c p bl (frees p xs \<union> frees (p + span xs + s + 4) ys)"
      and fr: "\<And>w. w \<notin> list_words c (frees p bl) \<Longrightarrow> rd m1 w = rd m w" using f(2) by blast
    define q where "q = p + span xs"
    have n12: "12 \<le> n" "4 dvd n" "n \<le> s" using adj na x(3) by simp_all
    have r2: "block_prepare_used (of_nat c) (of_nat q) (of_nat n) m1 = (ptr, m')" using r1 x(2) q_def na by simp
    note u = prepare_used [OF ok2 [unfolded x(1), folded q_def] q_def n12 r2]
    have "q + 8 < 4294967296" using pl(1) x(1) q_def by (simp add: pool_def)
    then have "ptr \<noteq> 0" using u(1) of_nat_eq32 [of "q + 8" 0] by auto
    moreover have "heap m' c p (xs @ give s n @ ys)" using u(2) coalesced_give pl(2) x(1) by (simp add: heap_def)
    moreover have "kept m m' c p (xs @ [(s, True)] @ ys)"
    proof (rule kept_frame [where G = "frees p bl"])
      fix w assume w: "w \<notin> list_words c (frees p bl)" "w < q + 4 \<or> q + span [(s, True)] + 8 \<le> w"
      have "frees p xs \<union> frees (q + s + 4) ys \<subseteq> frees p bl" using x(1) q_def by (auto simp: add_ac)
      from list_words_mono [OF this] have "w \<notin> list_words c (frees p xs \<union> frees (q + s + 4) ys)" using w(1) by blast
      then show "rd m' w = rd m w" using u(3) [of w] fr [OF w(1)] w(2) by (auto simp: add_ac)
    qed (use pl(1) x(1) q_def in auto)
    ultimately show ?thesis using x(1) u(1) n12(3) adj(3) na False q_def by auto
  qed
qed

section \<open>Release\<close>

text \<open>A block of size \<open>s\<close> that becomes free is joined with free neighbours on both sides.\<close>

definition join_left :: "block list \<Rightarrow> nat \<Rightarrow> block list \<times> nat" where
  "join_left xs s = (if xs \<noteq> [] \<and> snd (last xs) then (butlast xs, fst (last xs) + s + 4) else (xs, s))"

definition join_right :: "nat \<Rightarrow> block list \<Rightarrow> nat \<times> block list" where
  "join_right s ys = (if snd (first ys) then (s + fst (first ys) + 4, tl ys) else (s, ys))"

definition release :: "block list \<Rightarrow> nat \<Rightarrow> block list \<Rightarrow> block list" where
  "release xs s ys = (case join_left xs s of (xs', s1) \<Rightarrow> case join_right s1 ys of (s2, ys') \<Rightarrow> xs' @ (s2, True) # ys')"

lemma first_free: "snd (first ys) \<Longrightarrow> \<exists>t ys'. ys = (t, True) # ys'"
  by (cases ys) (auto simp: first_def prod_eq_iff)

lemma merge_prev:
  assumes ok: "pool (rd m) c p (xs @ (s, True) # ys) (frees p xs \<union> G)" and q: "q = p + span xs" and G: "G \<subseteq> starts (q + s + 4) ys"
    and r: "block_merge_prev (of_nat c) (of_nat q) m = (b', m')" and j: "join_left xs s = (xs', s')" and q': "q' = p + span xs'"
  shows "b' = of_nat q' \<and> pool (rd m') c p (xs' @ (s', True) # ys) (frees p xs' \<union> G) \<and> q' + s' = q + s \<and>
    (\<forall>w. w \<notin> list_words c (frees p xs \<union> G) \<longrightarrow> w < q' + 4 \<or> q' + s' + 12 \<le> w \<longrightarrow> rd m' w = rd m w)"
proof -
  obtain prev pf where a: "foldl after (0, False, p) xs = (prev, pf, q)" "rd m (q + 4) = hdr s True pf" "pf \<longrightarrow> rd m q = of_nat prev"
    "4 dvd s" "word_addr q" "word_addr (q + 4)" by (rule pool_at [OF ok q]) (rule that; assumption)
  have isf: "block_is_prev_free m (of_nat q) = pf" by (rule block_reads(3) [OF a(6,2,4)])
  show ?thesis
  proof (cases "xs \<noteq> [] \<and> snd (last xs)")
    case False
    then have "\<not> pf" using a(1) by (cases xs rule: rev_cases) (auto simp: after_eq)
    then show ?thesis using r isf j False q q' ok by (auto simp: block_merge_prev_def join_left_def)
  next
    case True
    then obtain t where x: "xs = xs' @ [(t, True)]" "s' = t + s + 4" using j by (cases xs rule: rev_cases) (auto simp: join_left_def prod_eq_iff)
    then have pf: "pf" "prev = q'" "q = q' + t + 4" using a(1) q q' by (auto simp: after_eq arrive)
    have "block_prev m (of_nat q) = of_nat q'" using a(3) pf rd_load [OF a(5)] by (simp add: block_prev_def)
    then have ab: "block_absorb (of_nat q') (of_nat q) (block_remove (of_nat c) (of_nat q') m) = (b', m')"
      using r isf pf(1) unfolding block_merge_prev_def Let_def by simp
    define m1 where "m1 = block_remove (of_nat c) (of_nat q') m"
    have mem: "q' \<in> frees p xs \<union> G" using x q' by simp
    note rm = pool_remove [OF ok mem m1_def]
    have z: "sizes xs'" using ok x by (simp add: pool_def)
    have qG: "q' \<notin> frees p xs'" "q' \<notin> G" "q \<notin> frees p xs'" "q \<notin> G"
      using frees_range [OF z, of _ p] starts_ge [of _ "q + s + 4" ys] G q' pf(3) by force+
    have "frees p xs \<union> G - {q'} = frees p xs' \<union> G" using x q' qG by auto
    then have ok1: "pool (rd m1) c p (xs' @ (t, True) # (s, True) # ys) (frees p xs' \<union> G)" using rm(1) x by simp
    note u = pool_absorb [OF ok1 q' _ pf(3) _ ab [folded m1_def]]
    show ?thesis using u rm(2) qG x(2) pf(3) by (auto simp: add_ac)
  qed
qed

lemma merge_next:
  assumes ok: "pool (rd m) c p (xs @ (s, True) # ys) (frees p xs \<union> frees (q + s + 4) ys)" and q: "q = p + span xs"
    and r: "block_merge_next (of_nat c) (of_nat q) m = (b', m')" and j: "join_right s ys = (s', ys')"
  shows "b' = of_nat q \<and> pool (rd m') c p (xs @ (s', True) # ys') (frees p xs \<union> frees (q + s' + 4) ys') \<and> s \<le> s' \<and>
    (\<forall>w. w \<notin> list_words c (frees p xs \<union> frees (q + s + 4) ys) \<longrightarrow> w < q + 4 \<or> q + s' + 12 \<le> w \<longrightarrow> rd m' w = rd m w)"
proof -
  obtain pf where a: "rd m (q + 4) = hdr s True pf" "4 dvd s" "word_addr (q + 4)" "header (rd m) (q, True, q + s + 4) (first ys)"
    "word_addr (q + s + 8)" "4 dvd fst (first ys)" by (rule pool_at [OF ok q]) (rule that; assumption)
  let ?nx = "q + s + 4"
  have nx: "block_next m (of_nat q) = of_nat ?nx" by (rule block_reads(4) [OF a(3,1,2)])
  have wn: "word_addr (?nx + 4)" using a(5) by (simp add: add_ac)
  have isf: "block_is_free m (of_nat ?nx) = snd (first ys)" by (rule block_reads(2) [OF wn header_flag [OF a(4)] a(6)])
  show ?thesis
  proof (cases "snd (first ys)")
    case False
    then show ?thesis using r isf nx j ok by (auto simp: block_merge_next_def join_right_def)
  next
    case True
    then obtain t where y: "ys = (t, True) # ys'" "s' = s + t + 4" using first_free [OF True] j by (auto simp: join_right_def first_def)
    define m1 where "m1 = block_remove (of_nat c) (of_nat ?nx) m"
    have ab: "block_absorb (of_nat q) (of_nat ?nx) m1 = (b', m')"
      using r isf nx True unfolding m1_def block_merge_next_def Let_def nx by simp
    let ?F = "frees p xs \<union> frees ?nx ys"
    have mem: "?nx \<in> ?F" using y by simp
    note rm = pool_remove [OF ok mem m1_def]
    have z: "sizes xs" "sizes ys'" using ok y by (simp_all add: pool_def)
    have n: "q \<notin> frees p xs" "?nx \<notin> frees p xs" "?nx \<notin> frees (q + s' + 4) ys'" "q \<notin> frees (q + s' + 4) ys'"
      using frees_range [OF z(1), of _ p] frees_range [OF z(2), of _ "q + s' + 4"] q y(2) by force+
    have e: "?nx + t + 4 = q + s' + 4" using y(2) by simp
    have "?F - {?nx} = frees p xs \<union> frees (q + s' + 4) ys'" using y(1) n e by auto
    then have ok1: "pool (rd m1) c p (xs @ (s, True) # (t, True) # ys') (frees p xs \<union> frees (q + s' + 4) ys')" using rm(1) y by simp
    note u = pool_absorb [OF ok1 q _ refl _ ab]
    show ?thesis using u rm(2) n y(2) by (auto simp: add_ac)
  qed
qed

lemma insert_block:
  assumes ok: "pool (rd m) c p (xs @ (s, True) # ys) (frees p xs \<union> frees (q + s + 4) ys)" and q: "q = p + span xs"
    and m': "m' = block_insert (of_nat c) (of_nat q) m"
  shows "pool (rd m') c p (xs @ (s, True) # ys) (frees p (xs @ (s, True) # ys))"
    and "w \<notin> list_words c (frees p (xs @ (s, True) # ys)) \<Longrightarrow> rd m' w = rd m w"
proof -
  obtain pf where a: "rd m (q + 4) = hdr s True pf" "4 dvd s" "s < 2 ^ 30" by (rule pool_at [OF ok q]) (rule that; assumption)
  let ?F = "frees p xs \<union> frees (q + s + 4) ys"
  have "q \<in> starts p (xs @ (s, True) # ys)" using q by simp
  moreover have "q \<notin> ?F" using ok q frees_middle(1,2) [of xs ys q p] by (simp add: pool_def)
  moreover have F: "insert q ?F = frees p (xs @ (s, True) # ys)" using q by (auto simp: add_ac)
  ultimately show "pool (rd m') c p (xs @ (s, True) # ys) (frees p (xs @ (s, True) # ys))"
    "w \<notin> list_words c (frees p (xs @ (s, True) # ys)) \<Longrightarrow> rd m' w = rd m w"
    using pool_insert [OF ok _ _ a m'] by simp_all
qed

lemma join_left_span: "join_left xs s = (xs', s') \<Longrightarrow> span xs' + s' = span xs + s \<and> (xs = xs' \<and> s' = s \<or> (\<exists>t. xs = xs' @ [(t, True)] \<and> s' = t + s + 4))"
  by (cases xs rule: rev_cases) (auto simp: join_left_def prod_eq_iff split: if_splits)

lemma join_right_span: "join_right s ys = (s', ys') \<Longrightarrow> s' + span ys' = s + span ys \<and> (ys = ys' \<and> s' = s \<or> (\<exists>t. ys = (t, True) # ys' \<and> s' = s + t + 4))"
  by (cases ys) (auto simp: join_right_def first_def prod_eq_iff split: if_splits)

lemma coalesced_release: "coalesced xs \<Longrightarrow> coalesced ys \<Longrightarrow> coalesced (release xs s ys)"
proof -
  assume c: "coalesced xs" "coalesced ys"
  obtain xs' s1 where l: "join_left xs s = (xs', s1)" by fastforce
  obtain s2 ys' where r: "join_right s1 ys = (s2, ys')" by fastforce
  have "coalesced xs' \<and> (xs' \<noteq> [] \<longrightarrow> \<not> snd (last xs'))"
  proof (cases "xs \<noteq> [] \<and> snd (last xs)")
    case True
    then obtain t where "xs = xs' @ [(t, True)]" using l by (cases xs rule: rev_cases) (auto simp: join_left_def prod_eq_iff)
    then show ?thesis using c(1) by (simp add: coalesced_split)
  qed (use l c(1) in \<open>auto simp: join_left_def\<close>)
  moreover have "coalesced ys' \<and> \<not> snd (first ys')"
  proof (cases "snd (first ys)")
    case True
    then obtain t where "ys = (t, True) # ys'" using r first_free [OF True] by (auto simp: join_right_def)
    then show ?thesis using c(2) by (simp add: coalesced_Cons)
  qed (use r c(2) in \<open>auto simp: join_right_def\<close>)
  ultimately show ?thesis by (simp add: release_def l r coalesced_split)
qed

lemma list_words_outside:
  assumes "w \<notin> list_words c A" and "\<And>x. x \<in> B \<Longrightarrow> x \<in> A \<or> lo \<le> x \<and> x + 12 < hi" and "w < lo + 8 \<or> hi \<le> w"
  shows "w \<notin> list_words c B"
  using assms by (fastforce simp: list_words_def)

lemma free_heap:
  assumes ok: "heap m c p (xs @ (s, False) # ys)" and m': "m' = tlsf_free (of_nat c) (of_nat (p + span xs + 8)) m"
  shows "heap m' c p (release xs s ys)" and "kept m m' c p (release xs s ys)"
proof -
  define q where "q = p + span xs"
  have pl: "pool (rd m) c p (xs @ (s, False) # ys) (frees p xs \<union> frees (q + s + 4) ys)" "coalesced xs" "coalesced ys"
    using heap_parts [OF ok] by (simp_all add: coalesced_split q_def add_ac)
  let ?G = "frees (q + s + 4) ys"
  define m1 where "m1 = block_mark_as_free (of_nat q) m"
  obtain b2 m2 where m2: "block_merge_prev (of_nat c) (of_nat q) m1 = (b2, m2)" by fastforce
  obtain b3 m3 where m3: "block_merge_next (of_nat c) b2 m2 = (b3, m3)" by fastforce
  have "q + 8 < 4294967296" using pl(1) q_def by (simp add: pool_def)
  then have p0: "(of_nat (q + 8) :: u32) \<noteq> 0" using of_nat_eq32 [of "q + 8" 0] by auto
  have "block_from_ptr (of_nat (q + 8)) = of_nat q" by (simp add: block_from_ptr_def)
  then have m'3: "m' = block_insert (of_nat c) b3 m3" using m' p0 m2 m3 by (simp add: tlsf_free_def Let_def m1_def q_def del: of_nat_add)
  obtain xs' s1 where l: "join_left xs s = (xs', s1)" by fastforce
  obtain s2 ys' where r: "join_right s1 ys = (s2, ys')" by fastforce
  define q' where "q' = p + span xs'"
  have z: "sizes xs" "sizes ys" "12 \<le> s" using pl(1) by (simp_all add: pool_def)
  have qn: "q \<notin> frees p xs \<union> ?G" using z frees_middle(1,2) [of xs ys q p] q_def by simp
  note 1 = pool_mark_free [OF pl(1) q_def qn m1_def]
  note 2 = merge_prev [OF 1(1) q_def frees_starts m2 l q'_def]
  then have e: "q' + s1 = q + s" "b2 = of_nat q'" "pool (rd m2) c p (xs' @ (s1, True) # ys) (frees p xs' \<union> frees (q' + s1 + 4) ys)" by simp_all
  note 3 = merge_next [OF e(3) q'_def m3 [unfolded e(2)] r]
  then have b3: "b3 = of_nat q'" "pool (rd m3) c p (xs' @ (s2, True) # ys') (frees p xs' \<union> frees (q' + s2 + 4) ys')" "s1 \<le> s2" by simp_all
  note 4 = insert_block [OF b3(2) q'_def m'3 [unfolded b3(1)]]
  have rel: "release xs s ys = xs' @ (s2, True) # ys'" by (simp add: release_def l r)
  then show "heap m' c p (release xs s ys)" using 4(1) coalesced_release [OF pl(2,3), of s] by (simp add: heap_def)
  have "kept m m' c p (xs' @ [(s2, True)] @ ys')"
  proof (rule kept_frame [where G = "frees p (xs' @ (s2, True) # ys')"])
    fix w assume w: "w \<notin> list_words c (frees p (xs' @ (s2, True) # ys'))" "w < q' + 4 \<or> q' + span [(s2, True)] + 8 \<le> w"
    have wF: "w \<notin> list_words c (frees p xs \<union> ?G)"
    proof (rule list_words_outside [OF w(1)])
      show "x \<in> frees p (xs' @ (s2, True) # ys') \<or> q' \<le> x \<and> x + 12 < q' + s2 + 12" if "x \<in> frees p xs \<union> ?G" for x
        using that join_left_span [OF l] join_right_span [OF r] e(1) q'_def q_def z by (auto simp: add_ac)
    qed (use w(2) in auto)
    moreover have "frees p xs' \<union> frees (q' + s1 + 4) ys \<subseteq> frees p xs \<union> ?G" using join_left_span [OF l] e(1) by auto
    ultimately have "w \<notin> list_words c (frees p xs' \<union> frees (q' + s1 + 4) ys)" using list_words_mono by blast
    moreover have "q' \<le> q" using join_left_span [OF l] q_def q'_def by auto
    ultimately show "rd m' w = rd m w" using 4(2) [OF w(1)] 3 2 1(2) [of w] wF w(2) e(1) b3(3) by auto
  qed (use 4(1) q'_def in auto)
  then show "kept m m' c p (release xs s ys)" using rel by simp
qed

section \<open>Creation\<close>

lemma rd_fold_store:
  "(\<And>i. i \<in> set js \<Longrightarrow> word_addr (f i)) \<Longrightarrow>
   rd (fold (\<lambda>i m. store32 m (of_nat (f i)) v) js m) = (\<lambda>w. if w \<in> f ` set js then v else rd m w)"
  by (induction js arbitrary: m) (auto simp: rd_store)

lemma rd_rows:
  assumes "4 dvd c" and "c + 3188 \<le> 4294967296" and "\<And>i. i \<in> set js \<Longrightarrow> i < 24"
  shows "rd (fold (\<lambda>i m. fold (\<lambda>j m. store32 m (of_nat (blk c i j)) v) [0..<32] (store32 m (of_nat (slb c i)) 0)) js m) =
    (\<lambda>w. if \<exists>i \<in> set js. w = slb c i then 0 else if \<exists>i \<in> set js. \<exists>j < 32. w = blk c i j then v else rd m w)"
  using assms(3)
proof (induction js rule: rev_induct)
  case (snoc i js)
  have i: "i < 24" and js: "\<And>k. k \<in> set js \<Longrightarrow> k < 24" using snoc.prems by simp_all
  have w: "word_addr (slb c i)" "\<And>j. j < 32 \<Longrightarrow> word_addr (blk c i j)" using assms(1,2) i by (auto simp: word_addr_def)
  have n: "blk c k j \<noteq> slb c l" if "l < 24" for k j l using that by simp
  let ?row = "\<lambda>i m. fold (\<lambda>j m. store32 m (of_nat (blk c i j)) v) [0..<32] (store32 m (of_nat (slb c i)) 0)"
  have row: "rd (?row i m') = (\<lambda>x. if x \<in> blk c i ` {0..<32} then v else ((rd m')(slb c i := 0)) x)" for m'
  proof -
    have wa: "word_addr (blk c i j)" if "j \<in> set [0..<32]" for j using w(2) that by simp
    show ?thesis unfolding rd_store [OF w(1), symmetric] set_upt [symmetric]
      by (rule rd_fold_store [where f = "blk c i" and js = "[0..<32]", OF wa])
  qed
  show ?case
  proof (rule ext)
    fix x
    show "rd (fold ?row (js @ [i]) m) x =
      (if \<exists>i \<in> set (js @ [i]). x = slb c i then 0 else if \<exists>i \<in> set (js @ [i]). \<exists>j < 32. x = blk c i j then v else rd m x)"
    proof (cases "\<exists>k \<in> set (js @ [i]). x = slb c k")
      case True
      then obtain k where k: "k \<in> set (js @ [i])" "x = slb c k" by blast
      then have "k < 24" using snoc.prems by blast
      then have "x \<notin> blk c i ` {0..<32}" using k(2) by auto
      then show ?thesis using True row [of "fold ?row js m"] snoc.IH [OF js] by auto
    next
      case False
      then show ?thesis using row [of "fold ?row js m"] snoc.IH [OF js] by (auto simp del: distrib_left_numeral)
    qed
  qed
qed simp

lemma control_construct_rd:
  assumes "4 dvd c" and "c + 3188 \<le> 4294967296" and "m' = control_construct (of_nat c) m"
  shows "rd m' (c + 16) = 0" and "\<And>fl. fl < 24 \<Longrightarrow> rd m' (slb c fl) = 0" and "\<And>fl sl. fl < 24 \<Longrightarrow> sl < 32 \<Longrightarrow> rd m' (blk c fl sl) = of_nat c"
    and "\<And>w. w < c \<or> c + 3188 \<le> w \<Longrightarrow> rd m' w = rd m w"
proof -
  have w: "word_addr (c + 8)" "word_addr (c + 12)" "word_addr (c + 16)" using assms(1,2) by (auto simp: word_addr_def)
  let ?m3 = "store32 (store32 (store32 m (of_nat (c + 8)) (of_nat c)) (of_nat (c + 12)) (of_nat c)) (of_nat (c + 16)) 0"
  have m3: "rd ?m3 = (rd m)(c + 8 := of_nat c, c + 12 := of_nat c, c + 16 := 0)"
    unfolding rd_store [OF w(3)] rd_store [OF w(2)] rd_store [OF w(1)] ..
  have h: "rd m' = (\<lambda>w. if \<exists>i \<in> set [0..<24]. w = slb c i then 0 else if \<exists>i \<in> set [0..<24]. \<exists>j < 32. w = blk c i j then of_nat c else rd ?m3 w)"
    unfolding assms(3) control_construct_def Let_def control_at word_at by (rule rd_rows [OF assms(1,2)]) simp
  have n: "blk c k j \<noteq> slb c l" if "l < 24" for k j l using that by simp
  show "rd m' (c + 16) = 0" unfolding h m3 by auto
  show "rd m' (slb c fl) = 0" if "fl < 24" for fl unfolding h using that by auto
  show "rd m' (blk c fl sl) = of_nat c" if "fl < 24" "sl < 32" for fl sl
  proof -
    have "\<not> (\<exists>i \<in> set [0..<24]. blk c fl sl = slb c i)" using n by auto
    moreover have "\<exists>i \<in> set [0..<24]. \<exists>j < 32. blk c fl sl = blk c i j" using that by auto
    ultimately show ?thesis unfolding h by (simp only: if_True if_False)
  qed
  show "rd m' w = rd m w" if "w < c \<or> c + 3188 \<le> w" for w using that unfolding h m3 by auto
qed

lemma control_construct_index:
  assumes "4 dvd c" and "c + 3188 \<le> 4294967296" and "m' = control_construct (of_nat c) m"
  shows "free_index (rd m') c {}"
proof -
  note r = control_construct_rd [OF assms]
  have "free_lists (rd m') c (\<lambda>_ _. []) (\<lambda>_. (0, 0))" using r(1-3) by (simp add: free_lists_def del: distrib_left_numeral)
  then show ?thesis using free_indexI [of "rd m'" c "\<lambda>_ _. []"] by (simp add: nodes_def)
qed

lemma and_3: "(of_nat k :: u32) AND 3 = of_nat (k mod 4)"
proof -
  have "(3 :: u32) = mask 2" by (simp add: mask_eq_exp_minus_1)
  then have "(of_nat k :: u32) AND 3 = take_bit 2 (of_nat k)" by (simp only: take_bit_eq_mask)
  also have "\<dots> = of_nat (take_bit 2 k)" by (rule take_bit_of_nat)
  finally show ?thesis by (simp add: take_bit_eq_mod)
qed

lemma add_pool_heap:
  assumes ok: "free_index (rd m) c {}" and c: "4 dvd c" "4 dvd s" "12 \<le> s" "s < 2 ^ 30" "c + s + 3196 \<le> 4294967296"
    and k: "k - k mod 4 = s + 8" "k < 4294967296" and r: "tlsf_add_pool (of_nat c) (of_nat (c + 3188)) (of_nat k) m = (pl, m')"
  shows "pl = of_nat (c + 3188)" and "heap m' c (c + 3184) [(s, True)]"
    and "w < c \<or> c + s + 3196 \<le> w \<Longrightarrow> rd m' w = rd m w"
proof -
  define b nx where "b = c + 3184" and "nx = c + s + 3188"
  have w: "word_addr (b + 4)" "word_addr nx" "word_addr (nx + 4)" using c by (auto simp: word_addr_def b_def nx_def)
  have "align_down (of_nat k - tlsf_pool_overhead) ALIGN_SIZE = of_nat s"
  proof -
    have k8: "8 \<le> k" using k(1) by linarith
    then have "(of_nat k - 8 :: u32) = of_nat (k - 8)" by (simp add: of_nat_diff)
    moreover have "(k - 8) mod 4 = k mod 4" using k8 le_Suc_ex [OF k8] by (auto simp: mod_add_left_eq [of 8 4, symmetric])
    then have "k - 8 - (k - 8) mod 4 = s" using k(1) by simp
    then have "(of_nat (k - 8) - of_nat ((k - 8) mod 4) :: u32) = of_nat s" by (metis mod_less_eq_dividend of_nat_diff)
    ultimately show ?thesis by (simp add: align_down_def tlsf_pool_overhead_def and_3)
  qed
  note pb = this
  have us: "unat (of_nat s :: u32) = s" using c(4) by (intro unat_of_nat32) simp
  have rng: "\<not> ((of_nat s :: u32) < 12 \<or> 0x40000000 < (of_nat s :: u32))" using us c(3,4) by (simp add: word_less_nat_alt)
  have al: "(of_nat (c + 3188) :: u32) AND 3 = 0" unfolding and_3 using c(1) by (simp add: mod_eq_0_iff_dvd)
  have bo: "offset_to_block (of_nat (c + 3188)) (- 4) = of_nat b" by (simp add: offset_to_block_def b_def)
  define m1 where "m1 = block_set_prev_used (of_nat b) (block_set_free (of_nat b) (block_set_size (of_nat b) (of_nat s) m))"
  define m2 where "m2 = block_insert (of_nat c) (of_nat b) m1"
  have h1: "rd m1 = (rd m)(b + 4 := hdr s True False)"
    unfolding m1_def block_ops_rd(4) [OF w(1)] block_ops_rd(1) [OF w(1)] block_ops_rd(5) [OF w(1) c(2)]
    by (simp only: fun_upd_same fun_upd_upd hdr_ops [OF c(2)])
  have i1: "free_index (rd m1) c {}"
    by (rule free_index_cong [OF ok]) (auto simp: h1 list_words_def b_def)
  have pd: "placed c (insert b {})" using c by (auto simp: placed_def spaced_def b_def)
  have hb: "rd m1 (b + 4) = hdr s True False" by (simp add: h1)
  note ins = block_insert_index [OF i1 pd _ hb c(2,4) m2_def]
  have hb2: "rd m2 (b + 4) = hdr s True False" using ins(2) [of "b + 4"] hb by (simp add: list_words_def b_def)
  have nx2: "block_next m2 (of_nat b) = of_nat nx" using block_reads(4) [OF w(1) hb2 c(2)] by (simp add: b_def nx_def add_ac)
  have res: "pl = of_nat (c + 3188)"
    "m' = block_set_prev_free (of_nat nx) (block_set_used (of_nat nx) (block_set_size (of_nat nx) (of_nat 0) (store32 m2 (of_nat nx) (of_nat b))))"
    using r pb rng al bo nx2 unfolding tlsf_add_pool_def Let_def m1_def m2_def block_link_next_def
    by (auto simp del: of_nat_add)
  show "pl = of_nat (c + 3188)" by (rule res)
  have h': "rd m' = (rd m2)(nx := of_nat b, nx + 4 := hdr 0 False True)"
    unfolding res block_ops_rd(3) [OF w(3)] block_ops_rd(2) [OF w(3)] block_ops_rd(5) [OF w(3) dvd_0_right] rd_store [OF w(2)]
    by (simp only: fun_upd_same fun_upd_upd hdr_ops [OF dvd_0_right])
  have far: "b + 16 \<le> nx" using c(3) by (simp add: b_def nx_def)
  have "free_index (rd m') c {b}"
    by (rule free_index_cong [OF ins(1)]) (use far in \<open>auto simp: h' list_words_def b_def\<close>)
  moreover have "chain (rd m') (0, False, b) [(s, True), sentinel]"
    using hb2 far h' by (simp add: b_def nx_def add_ac)
  moreover have "s \<le> 1073741820" using c(2,4) by (auto elim!: dvdE)
  ultimately show "heap m' c (c + 3184) [(s, True)]" using c by (simp add: heap_def pool_def coalesced_def b_def)
  show "rd m' w = rd m w" if "w < c \<or> c + s + 3196 \<le> w" for w
    using that ins(2) [of w] far c(3) by (auto simp: h' h1 list_words_def b_def nx_def)
qed

lemma create_heap:
  assumes c: "4 dvd c" "0 < c" "c + n \<le> 4294967296" and s: "s = (n - 3196) - (n - 3196) mod 4" "12 \<le> s" "s < 2 ^ 30"
    and r: "tlsf_create_with_pool (of_nat c) (of_nat n) m = (t, m')"
  shows "t = of_nat c" and "t \<noteq> 0" and "heap m' c (c + 3184) [(s, True)]" and "kept m m' c (c + 3184) [(s, True)]"
proof -
  have n: "3196 + s \<le> n" "n < 4294967296" "3188 \<le> n" using s c by linarith+
  have al: "(of_nat c :: u32) AND 3 = 0" unfolding and_3 using c(1) by (simp add: mod_eq_0_iff_dvd)
  define m1 where "m1 = control_construct (of_nat c) m"
  have cr: "tlsf_create (of_nat c) m = (of_nat c, m1)" using al by (simp add: tlsf_create_def m1_def)
  have sz: "(of_nat c :: u32) + tlsf_size = of_nat (c + 3188)" "(of_nat n :: u32) - tlsf_size = of_nat (n - 3188)"
    using n(3) by (simp_all add: tlsf_size_def of_nat_diff)
  obtain pl m2 where ap: "tlsf_add_pool (of_nat c) (of_nat (c + 3188)) (of_nat (n - 3188)) m1 = (pl, m2)" by fastforce
  have t: "t = of_nat c" and "m2 = m'" using r unfolding tlsf_create_with_pool_def cr prod.case sz ap by simp_all
  note ap = ap [unfolded \<open>m2 = m'\<close>]
  show "t = of_nat c" by (rule t)
  show "t \<noteq> 0" using t of_nat_eq32 [of c 0] c n by auto
  have c31: "c + 3188 \<le> 4294967296" using c(3) n by linarith
  note cc = control_construct_index [OF c(1) c31 m1_def] control_construct_rd(4) [OF c(1) c31 m1_def]
  have k: "(n - 3188) - (n - 3188) mod 4 = s + 8"
  proof -
    have "(n - 3188) mod 4 = (n - 3196) mod 4" using le_Suc_ex [of 3196 n] n(1) by (auto simp: mod_add_left_eq [of 8 4, symmetric])
    moreover have "(n - 3196) mod 4 \<le> n - 3196" by simp
    ultimately show ?thesis using s(1) n(1) by linarith
  qed
  have s4: "4 dvd s" unfolding s(1) by (rule dvd_minus_mod)
  note a = add_pool_heap [OF cc(1) c(1) s4 s(2,3) _ k _ ap]
  show h: "heap m' c (c + 3184) [(s, True)]" using a(2) c(3) n by simp
  show "kept m m' c (c + 3184) [(s, True)]"
  proof (rule keptI)
    fix w assume "w \<in> used (c + 3184) [(s, True)] \<or> w < c \<or> c + 3184 + span [(s, True)] + 8 \<le> w"
    then have w: "w < c \<or> c + s + 3196 \<le> w" by auto
    then have "rd m' w = rd m1 w" using a(3) c(3) n by simp
    then show "rd m' w = rd m w" using cc(2) [of w] w by auto
  qed (use h c(1) in \<open>simp_all add: heap_def pool_def\<close>)
qed

text \<open>The heap of the kernel: 8192 bytes, of which 4996 can be given out.\<close>

lemma kmalloc_init_heap:
  assumes "4 dvd c" and "0 < c" and "c + 8192 \<le> 4294967296" and "kmalloc_init (of_nat c) m = (ok, m')"
  shows "ok" and "heap m' c (c + 3184) [(4996, True)]" and "kept m m' c (c + 3184) [(4996, True)]"
proof -
  obtain t where r: "tlsf_create_with_pool (of_nat c) (of_nat 8192) m = (t, m')" and ok: "ok = (t \<noteq> 0)"
    using assms(4) by (auto simp: kmalloc_init_def split: prod.splits)
  note h = create_heap [OF assms(1-3) _ _ _ r, of 4996]
  show "ok" "heap m' c (c + 3184) [(4996, True)]" "kept m m' c (c + 3184) [(4996, True)]" using h(2-4) ok by simp_all
qed

end
