(* ===== verification/KernelHeap.thy ===== *)
theory KernelHeap
  imports TlsfHeap
begin

text \<open>
  What clients of the heap can rely on. The locale \<open>allocator\<close> is the contract between an allocator and its
  clients; \<open>client\<close> is everything clients may do; the lemmas of the locale say that held blocks stay apart and
  keep their contents. The heap of system/kmalloc.c is an instance.
\<close>

unbundle bit_operations_syntax

section \<open>The blocks that are given out\<close>

primrec regions :: "nat \<Rightarrow> block list \<Rightarrow> (nat \<times> nat) set" where
  "regions p [] = {}"
| "regions p (b # bl) = (if snd b then {} else {(p + 8, fst b)}) \<union> regions (p + fst b + 4) bl"

lemma regions_append [simp]: "regions p (xs @ ys) = regions p xs \<union> regions (p + span xs) ys"
  by (induction xs arbitrary: p) (auto simp: add_ac)

lemma regions_range: "sizes bl \<Longrightarrow> (a, s) \<in> regions p bl \<Longrightarrow> p + 8 \<le> a \<and> a + s \<le> p + span bl + 4 \<and> 12 \<le> s"
  by (induction bl arbitrary: p) (fastforce split: if_splits)+

lemma regions_used: "used p bl = (\<Union>(a, s) \<in> regions p bl. {a..<a + s})"
  by (induction bl arbitrary: p) auto

lemma regions_disjoint:
  "sizes bl \<Longrightarrow> (a, s) \<in> regions p bl \<Longrightarrow> (b, t) \<in> regions p bl \<Longrightarrow> (a, s) \<noteq> (b, t) \<Longrightarrow> a + s + 4 \<le> b \<or> b + t + 4 \<le> a"
proof (induction bl arbitrary: p)
  case (Cons x bl)
  have z: "sizes bl" using Cons.prems(1) by simp
  show ?case
    using Cons.IH [OF z, of "p + fst x + 4"] Cons.prems(2-4) regions_range [OF z, of a s "p + fst x + 4"] regions_range [OF z, of b t "p + fst x + 4"]
    by (auto split: if_splits)
qed simp

lemma regions_at: "(a, s) \<in> regions p bl \<Longrightarrow> \<exists>xs ys. bl = xs @ (s, False) # ys \<and> a = p + span xs + 8"
proof (induction bl arbitrary: p)
  case (Cons b bl)
  show ?case
  proof (cases "(a, s) = (p + 8, fst b) \<and> \<not> snd b")
    case True
    then have "b # bl = [] @ (s, False) # bl" "a = p + span [] + 8" by (simp_all add: prod_eq_iff)
    then show ?thesis by blast
  next
    case False
    then have "(a, s) \<in> regions (p + fst b + 4) bl" using Cons.prems by (auto split: if_splits)
    then obtain xs ys where "bl = xs @ (s, False) # ys" "a = p + fst b + 4 + span xs + 8" using Cons.IH by blast
    then have "b # bl = (b # xs) @ (s, False) # ys" "a = p + span (b # xs) + 8" by simp_all
    then show ?thesis by blast
  qed
qed simp

lemma regions_fresh:
  assumes "sizes xs" and "sizes ys" and "q = p + span xs" and "12 \<le> s"
  shows "(q + 8, n) \<notin> regions p xs" and "(q + 8, n) \<notin> regions (q + s + 4) ys"
  using regions_range [OF assms(1), of "q + 8" n p] regions_range [OF assms(2), of "q + 8" n "q + s + 4"] assms(3,4) by auto

lemma regions_give:
  assumes "bl = xs @ (s, True) # ys"
  shows "\<exists>t. (t = n \<or> t = s) \<and> regions p (xs @ give s n @ ys) = insert (p + span xs + 8, t) (regions p bl)"
proof -
  have "s - n - 4 + (n + 4) = s" if "n + 16 \<le> s" using that by simp
  then show ?thesis using assms by (auto simp: give_def add_ac)
qed

lemma regions_release: "regions p (release xs s ys) = regions p xs \<union> regions (p + span xs + s + 4) ys"
proof -
  obtain xs' s1 where l: "join_left xs s = (xs', s1)" by fastforce
  obtain s2 ys' where r: "join_right s1 ys = (s2, ys')" by fastforce
  have "regions p xs = regions p xs'" "span xs' + s1 = span xs + s" using join_left_span [OF l] by auto
  moreover have "regions (p + span xs' + s1 + 4) ys = regions (p + span xs' + s2 + 4) ys'"
    using join_right_span [OF r] by (auto simp: add_ac)
  ultimately show ?thesis by (simp add: release_def l r add_ac)
qed

section \<open>Writing to a block\<close>

text \<open>The owner of a block may write to all of its bytes.\<close>

lemma dvd_step: "4 dvd (a :: nat) \<Longrightarrow> 4 dvd b \<Longrightarrow> a < b \<Longrightarrow> a + 4 \<le> b"
  by presburger

lemma chain_used:
  assumes "chain h (prev, pf, q) (bl @ [sentinel])" and "sizes bl" and "4 dvd q"
    and "\<And>w. q \<le> w \<Longrightarrow> 4 dvd w \<Longrightarrow> w \<notin> used q bl \<Longrightarrow> w \<noteq> q \<or> pf \<Longrightarrow> h' w = h w"
  shows "chain h' (prev, pf, q) (bl @ [sentinel])"
  using assms
proof (induction bl arbitrary: prev pf q)
  case (Cons b bl)
  obtain s f where b: "b = (s, f)" by fastforce
  have z: "sizes bl" "12 \<le> s" "4 dvd q + s + 4" using Cons.prems(2,3) b by simp_all
  have low: "w \<notin> used (q + s + 4) bl" if "w < q + s + 12" for w using used_range [OF z(1), of w "q + s + 4"] that by auto
  have "header h' (prev, pf, q) b"
    using Cons.prems(1,3) Cons.prems(4) [of "q + 4"] Cons.prems(4) [of q] low [of "q + 4"] low [of q] z(2) b by (auto split: if_splits)
  moreover have "chain h' (q, f, q + s + 4) (bl @ [sentinel])"
  proof (rule Cons.IH)
    show "h' w = h w" if w: "q + s + 4 \<le> w" "4 dvd w" "w \<notin> used (q + s + 4) bl" "w \<noteq> q + s + 4 \<or> f" for w
    proof (rule Cons.prems(4))
      have "q + s + 8 \<le> w" if "w \<noteq> q + s + 4" using dvd_step [OF z(3) w(2)] that w(1) by auto
      then show "w \<notin> used q (b # bl)" using w(3,4) b by auto
    qed (use w(1,2) z(2) in auto)
  qed (use Cons.prems(1) z b in auto)
  ultimately show ?case using b by simp
qed auto

lemma pool_write:
  assumes ok: "pool (rd m) c p bl F" and F: "F \<subseteq> frees p bl"
    and w: "\<And>a. a < 4294967296 \<Longrightarrow> a \<notin> used p bl \<Longrightarrow> m' (of_nat a) = m (of_nat a)"
  shows "pool (rd m') c p bl F"
proof -
  have s: "sizes bl" "4 dvd p" "c + 3184 \<le> p" "chain (rd m) (0, False, p) (bl @ [sentinel])" "free_index (rd m) c F" using ok by (simp_all add: pool_def)
  have r: "rd m' w = rd m w" if "4 dvd w" "w \<notin> used p bl" for w
  proof (cases "word_addr w")
    case True
    have "m' (of_nat (w + i)) = m (of_nat (w + i))" if "i < 4" for i
    proof (rule assms(3))
      show "w + i < 4294967296" using True that by (auto simp: word_addr_def elim!: dvdE)
      have "w + i - (w + i) mod 4 = w" using \<open>4 dvd w\<close> that by (auto elim!: dvdE)
      then show "w + i \<notin> used p bl" using used_aligned [OF s(1,2), of "w + i"] \<open>w \<notin> used p bl\<close> by auto
    qed
    from this [of 0] this [of 1] this [of 2] this [of 3] show ?thesis using True by (simp add: rd_def load32_def add.commute)
  qed (simp add: rd_def)
  have c: "chain (rd m') (0, False, p) (bl @ [sentinel])" by (rule chain_used [OF s(4,1,2)]) (use r in auto)
  have "free_index (rd m') c F"
  proof (rule free_index_cong [OF s(5)])
    have pl: "placed c F" by (rule pool_F_placed [OF ok])
    have nu: "x + i \<notin> used p bl" if "x \<in> F" "i = 4 \<or> i = 8 \<or> i = 12" for x i
      using used_not_link [OF s(1), of "x + i" p x] that F by auto
    have dv: "4 dvd x" if "x \<in> F" for x using pl that by (simp add: placed_def)
    show "rd m' w = rd m w" if w: "w \<in> list_words c F" for w
    proof (cases "4 dvd w")
      case True
      have "w < c + 3188 \<or> (\<exists>x \<in> F. w = x + 8 \<or> w = x + 12)" using w by (auto simp: list_words_def)
      then have "w \<notin> used p bl" using nu used_range [OF s(1), of w p] s(3) by auto
      then show ?thesis using r True by blast
    qed (simp add: rd_def word_addr_def)
    show "class_of (rd m' (x + 4)) = class_of (rd m (x + 4))" if "x \<in> F" for x using r [of "x + 4"] nu [OF that, of 4] dv [OF that] by simp
  qed
  then show ?thesis using ok c by (simp add: pool_def)
qed

section \<open>What an allocator promises its clients\<close>

text \<open>\<open>rep m R\<close>: the memory holds the allocated blocks \<open>R\<close> (address and size). Bytes of \<open>foreign\<close> addresses
  belong to others.\<close>

definition covered :: "(nat \<times> nat) set \<Rightarrow> nat set" where
  "covered R = {x. \<exists>a s. (a, s) \<in> R \<and> a \<le> x \<and> x < a + s}"

lemma coveredI: "(a, s) \<in> R \<Longrightarrow> x \<in> {a..<a + s} \<Longrightarrow> x \<in> covered R"
  by (auto simp: covered_def)

lemma drop_start: "(\<And>k. (a, k) \<in> L \<Longrightarrow> n = k) \<Longrightarrow> fst ` (L - {(a, n)}) = fst ` L - {a}"
proof (intro set_eqI iffI)
  assume u: "\<And>k. (a, k) \<in> L \<Longrightarrow> n = k"
  fix b assume "b \<in> fst ` L - {a}"
  then obtain k where "(b, k) \<in> L - {(a, n)}" by auto
  then show "b \<in> fst ` (L - {(a, n)})" by (rule rev_image_eqI) simp
next
  assume u: "\<And>k. (a, k) \<in> L \<Longrightarrow> n = k"
  fix b assume "b \<in> fst ` (L - {(a, n)})"
  then obtain x where "x \<in> L - {(a, n)}" "b = fst x" by blast
  then have k: "(b, snd x) \<in> L" "(b, snd x) \<noteq> (a, n)" by auto
  then have "b \<noteq> a" using u by blast
  then show "b \<in> fst ` L - {a}" using k(1) by force
qed

locale allocator =
  fixes rep :: "'m \<Rightarrow> (nat \<times> nat) set \<Rightarrow> bool" and foreign :: "nat \<Rightarrow> bool" and peek :: "'m \<Rightarrow> nat \<Rightarrow> 'b"
    and alloc :: "nat \<Rightarrow> 'm \<Rightarrow> nat option \<times> 'm" and dealloc :: "nat \<Rightarrow> 'm \<Rightarrow> 'm" and poke :: "nat \<Rightarrow> 'b \<Rightarrow> 'm \<Rightarrow> 'm" and limit :: nat
  assumes disjoint: "rep m R \<Longrightarrow> (a, s) \<in> R \<Longrightarrow> (b, t) \<in> R \<Longrightarrow> (a, s) \<noteq> (b, t) \<Longrightarrow> {a..<a + s} \<inter> {b..<b + t} = {}"
    and owned: "rep m R \<Longrightarrow> (a, s) \<in> R \<Longrightarrow> 0 < s \<and> (\<forall>x \<in> {a..<a + s}. \<not> foreign x)"
    and alloc_none: "rep m R \<Longrightarrow> n \<le> limit \<Longrightarrow> alloc n m = (None, m') \<Longrightarrow> m' = m"
    and alloc_some: "rep m R \<Longrightarrow> n \<le> limit \<Longrightarrow> alloc n m = (Some a, m') \<Longrightarrow>
      \<exists>s. n \<le> s \<and> (a, s) \<notin> R \<and> rep m' (insert (a, s) R) \<and> (\<forall>x. foreign x \<or> x \<in> covered R \<longrightarrow> peek m' x = peek m x)"
    and dealloc: "rep m R \<Longrightarrow> (a, s) \<in> R \<Longrightarrow>
      rep (dealloc a m) (R - {(a, s)}) \<and> (\<forall>x. foreign x \<or> x \<in> covered (R - {(a, s)}) \<longrightarrow> peek (dealloc a m) x = peek m x)"
    and poke: "rep m R \<Longrightarrow> (a, s) \<in> R \<Longrightarrow> x \<in> {a..<a + s} \<Longrightarrow>
      rep (poke x v m) R \<and> (\<forall>y. foreign y \<or> y \<in> covered R \<longrightarrow> peek (poke x v m) y = (if y = x then v else peek m y))"

text \<open>The clients: they ask for blocks, give blocks back that they hold, and write to bytes of blocks they hold.
  A state is the memory, the blocks that are held (address and requested size) and what was written to them.\<close>

inductive client :: "(nat \<Rightarrow> 'm \<Rightarrow> nat option \<times> 'm) \<Rightarrow> (nat \<Rightarrow> 'm \<Rightarrow> 'm) \<Rightarrow> (nat \<Rightarrow> 'b \<Rightarrow> 'm \<Rightarrow> 'm) \<Rightarrow> nat \<Rightarrow>
    'm \<times> (nat \<times> nat) set \<times> (nat \<rightharpoonup> 'b) \<Rightarrow> 'm \<times> (nat \<times> nat) set \<times> (nat \<rightharpoonup> 'b) \<Rightarrow> bool"
  for alloc dealloc poke limit where
  get: "alloc n m = (Some a, m') \<Longrightarrow> n \<le> limit \<Longrightarrow>
    client alloc dealloc poke limit (m, L, V) (m', insert (a, n) L, V |` (- {a..<a + n}))"
| refused: "alloc n m = (None, m') \<Longrightarrow> n \<le> limit \<Longrightarrow> client alloc dealloc poke limit (m, L, V) (m', L, V)"
| drop: "(a, n) \<in> L \<Longrightarrow> client alloc dealloc poke limit (m, L, V) (dealloc a m, L - {(a, n)}, V |` (- {a..<a + n}))"
| put: "(a, n) \<in> L \<Longrightarrow> x \<in> {a..<a + n} \<Longrightarrow> client alloc dealloc poke limit (m, L, V) (poke x v m, L, V(x \<mapsto> v))"

context allocator
begin

text \<open>Every block that is held has room for what was asked, the blocks are the allocated ones, and their bytes are
  as written.\<close>

definition serves :: "'m \<Rightarrow> 'm \<Rightarrow> (nat \<times> nat) set \<Rightarrow> (nat \<rightharpoonup> 'b) \<Rightarrow> (nat \<times> nat) set \<Rightarrow> bool" where
  "serves m0 m L V R \<longleftrightarrow> rep m R \<and> fst ` L = fst ` R \<and> (\<forall>a n k. (a, n) \<in> L \<longrightarrow> (a, k) \<in> L \<longrightarrow> n = k) \<and> (\<forall>a n. (a, n) \<in> L \<longrightarrow> (\<exists>s. (a, s) \<in> R \<and> n \<le> s)) \<and>
     dom V \<subseteq> covered L \<and> (\<forall>x v. V x = Some v \<longrightarrow> peek m x = v) \<and> (\<forall>x. foreign x \<longrightarrow> peek m x = peek m0 x)"

lemma same_start: "rep m R \<Longrightarrow> (a, s) \<in> R \<Longrightarrow> (a, t) \<in> R \<Longrightarrow> s = t"
proof (rule ccontr)
  assume r: "rep m R" "(a, s) \<in> R" "(a, t) \<in> R" and "s \<noteq> t"
  then have "{a..<a + s} \<inter> {a..<a + t} = {}" using disjoint [OF r] by simp
  moreover have "0 < s" "0 < t" using owned r by blast+
  ultimately show False by auto
qed

lemma covered_sub: "(\<And>a n. (a, n) \<in> L \<Longrightarrow> \<exists>s. (a, s) \<in> R \<and> n \<le> s) \<Longrightarrow> covered L \<subseteq> covered R"
  by (fastforce simp: covered_def)

lemma servesI:
  assumes "rep m R" "fst ` L = fst ` R" "\<And>a n k. (a, n) \<in> L \<Longrightarrow> (a, k) \<in> L \<Longrightarrow> n = k" "\<And>a n. (a, n) \<in> L \<Longrightarrow> \<exists>s. (a, s) \<in> R \<and> n \<le> s"
    "dom V \<subseteq> covered L" "\<And>x v. V x = Some v \<Longrightarrow> peek m x = v" "\<And>x. foreign x \<Longrightarrow> peek m x = peek m0 x"
  shows "serves m0 m L V R"
  unfolding serves_def using assms by blast

lemma serves_get:
  assumes ok: "serves m0 m L V R" and n: "n \<le> limit" and a: "alloc n m = (Some a, m')"
  shows "\<exists>R'. serves m0 m' (insert (a, n) L) (V |` (- {a..<a + n})) R'"
proof -
  have r: "rep m R" "fst ` L = fst ` R" "\<And>a n k. (a, n) \<in> L \<Longrightarrow> (a, k) \<in> L \<Longrightarrow> n = k" "\<And>a n. (a, n) \<in> L \<Longrightarrow> \<exists>s. (a, s) \<in> R \<and> n \<le> s" "dom V \<subseteq> covered L"
    "\<And>x v. V x = Some v \<Longrightarrow> peek m x = v" "\<And>x. foreign x \<Longrightarrow> peek m x = peek m0 x" using ok unfolding serves_def by blast+
  obtain s where s: "n \<le> s" "(a, s) \<notin> R" "rep m' (insert (a, s) R)" "\<And>x. foreign x \<or> x \<in> covered R \<Longrightarrow> peek m' x = peek m x"
    using alloc_some [OF r(1) n a] by blast
  have new: "a \<notin> fst ` R"
  proof
    assume "a \<in> fst ` R"
    then obtain t where "(a, t) \<in> R" by force
    then show False using same_start [OF s(3), of a s t] s(2) by auto
  qed
  then have nl: "(a, k) \<notin> L" for k using r(2) by force
  have cov: "covered L \<subseteq> covered R" by (rule covered_sub [OF r(4)])
  have "serves m0 m' (insert (a, n) L) (V |` (- {a..<a + n})) (insert (a, s) R)"
  proof (rule servesI)
    show "k = l" if "(b, k) \<in> insert (a, n) L" "(b, l) \<in> insert (a, n) L" for b k l using that r(3) nl by auto
    show "\<exists>t. (b, t) \<in> insert (a, s) R \<and> k \<le> t" if "(b, k) \<in> insert (a, n) L" for b k using that r(4) [of b k] s(1) by auto
    have "covered L \<subseteq> covered (insert (a, n) L)" by (auto simp: covered_def)
    then show "dom (V |` (- {a..<a + n})) \<subseteq> covered (insert (a, n) L)" using r(5) by auto
    show "peek m' x = v" if "(V |` (- {a..<a + n})) x = Some v" for x v
    proof -
      have "V x = Some v" using that by (auto simp: restrict_map_def split: if_splits)
      then have "x \<in> covered R" "peek m x = v" using r(5,6) cov by auto
      then show ?thesis using s(4) [of x] by simp
    qed
  qed (use s r(2,7) in auto)
  then show ?thesis by blast
qed

lemma serves_drop:
  assumes ok: "serves m0 m L V R" and a: "(a, n) \<in> L"
  shows "\<exists>R'. serves m0 (dealloc a m) (L - {(a, n)}) (V |` (- {a..<a + n})) R'"
proof -
  have r: "rep m R" "fst ` L = fst ` R" "\<And>a n k. (a, n) \<in> L \<Longrightarrow> (a, k) \<in> L \<Longrightarrow> n = k" "\<And>a n. (a, n) \<in> L \<Longrightarrow> \<exists>s. (a, s) \<in> R \<and> n \<le> s" "dom V \<subseteq> covered L"
    "\<And>x v. V x = Some v \<Longrightarrow> peek m x = v" "\<And>x. foreign x \<Longrightarrow> peek m x = peek m0 x" using ok unfolding serves_def by blast+
  obtain s where s: "(a, s) \<in> R" using r(4) [OF a] by blast
  let ?L = "L - {(a, n)}" let ?R = "R - {(a, s)}"
  have d: "rep (dealloc a m) ?R" "\<And>x. foreign x \<or> x \<in> covered ?R \<Longrightarrow> peek (dealloc a m) x = peek m x" using dealloc [OF r(1) s] by auto
  have sub: "\<exists>t. (b, t) \<in> ?R \<and> k \<le> t" if "(b, k) \<in> ?L" for b k
  proof -
    have "b \<noteq> a" using that a r(3) by auto
    then show ?thesis using r(4) [of b k] that by auto
  qed
  have LR: "fst ` ?L = fst ` L - {a}" "fst ` ?R = fst ` R - {a}"
    using drop_start [of a L n] drop_start [of a R s] r(3) [OF a] same_start [OF r(1) s] by auto
  have dom: "dom (V |` (- {a..<a + n})) \<subseteq> covered ?L"
  proof
    fix x assume "x \<in> dom (V |` (- {a..<a + n}))"
    then have "x \<in> covered L" "x \<notin> {a..<a + n}" using r(5) by (auto simp: restrict_map_def split: if_splits)
    then show "x \<in> covered ?L" by (auto simp: covered_def)
  qed
  have "covered ?L \<subseteq> covered ?R" by (rule covered_sub [OF sub])
  moreover have "V x = Some v" if "(V |` (- {a..<a + n})) x = Some v" for x v
    using that by (auto simp: restrict_map_def split: if_splits)
  ultimately have pk: "peek (dealloc a m) x = v" if "(V |` (- {a..<a + n})) x = Some v" for x v
    using that dom d(2) [of x] r(6) [of x v] by blast
  have "serves m0 (dealloc a m) ?L (V |` (- {a..<a + n})) ?R"
  proof (rule servesI)
    show "k = l" if "(b, k) \<in> ?L" "(b, l) \<in> ?L" for b k l using that r(3) by blast
  qed (use d r(2,7) LR sub dom pk in auto)
  then show ?thesis by blast
qed

lemma serves_put:
  assumes ok: "serves m0 m L V R" and a: "(a, n) \<in> L" "x \<in> {a..<a + n}"
  shows "serves m0 (poke x v m) L (V(x \<mapsto> v)) R"
proof -
  have r: "rep m R" "fst ` L = fst ` R" "\<And>a n k. (a, n) \<in> L \<Longrightarrow> (a, k) \<in> L \<Longrightarrow> n = k" "\<And>a n. (a, n) \<in> L \<Longrightarrow> \<exists>s. (a, s) \<in> R \<and> n \<le> s" "dom V \<subseteq> covered L"
    "\<And>x v. V x = Some v \<Longrightarrow> peek m x = v" "\<And>x. foreign x \<Longrightarrow> peek m x = peek m0 x" using ok unfolding serves_def by blast+
  obtain s where s: "(a, s) \<in> R" "n \<le> s" using r(4) [OF a(1)] by blast
  then have x: "x \<in> {a..<a + s}" using a(2) by auto
  note p = poke [OF r(1) s(1) x, of v]
  have cov: "covered L \<subseteq> covered R" by (rule covered_sub [OF r(4)])
  have xl: "x \<in> covered L" using a by (rule coveredI)
  have nf: "\<not> foreign x" using owned [OF r(1) s(1)] x by blast
  show ?thesis
  proof (rule servesI)
    show "peek (poke x v m) y = w" if "(V(x \<mapsto> v)) y = Some w" for y w
      using that p r(5) r(6) [of y w] cov xl by (auto split: if_splits)
    show "peek (poke x v m) y = peek m0 y" if "foreign y" for y using p r(7) [OF that] that nf by auto
  qed (use p r xl in auto)
qed

lemma step_serves:
  assumes "serves m0 m L V R" and "client alloc dealloc poke limit (m, L, V) (m', L', V')"
  shows "\<exists>R'. serves m0 m' L' V' R'"
  using assms(2)
proof cases
  case (get n a)
  then show ?thesis using serves_get [OF assms(1)] by simp
next
  case (refused n)
  have "rep m R" using assms(1) by (simp add: serves_def)
  then have "m' = m" using alloc_none refused by blast
  then show ?thesis using refused assms(1) by blast
next
  case (drop a n)
  then show ?thesis using serves_drop [OF assms(1)] by simp
next
  case (put a n x v)
  then show ?thesis using serves_put [OF assms(1)] by blast
qed

text \<open>Whatever the clients do: blocks that are held do not overlap, hold what was written, and nothing else changes.\<close>

lemma clients_served:
  assumes "rep m {}" and "(client alloc dealloc poke limit)\<^sup>*\<^sup>* (m, {}, Map.empty) (m', L, V)"
  shows "\<exists>R. serves m m' L V R"
proof -
  have start: "serves m m {} Map.empty {}" using assms(1) by (simp add: serves_def)
  have "case t of (m', L, V) \<Rightarrow> \<exists>R. serves m m' L V R" if "(client alloc dealloc poke limit)\<^sup>*\<^sup>* (m, {}, Map.empty) t" for t
    using that
  proof (induction rule: rtranclp_induct)
    case base
    then show ?case using start by auto
  next
    case (step t u)
    then show ?case using step_serves by (cases t; cases u) fastforce
  qed
  then show ?thesis using assms(2) by fastforce
qed

lemma serves_apart:
  assumes "serves m0 m L V R" and "(a, n) \<in> L" and "(b, k) \<in> L" and "(a, n) \<noteq> (b, k)"
  shows "{a..<a + n} \<inter> {b..<b + k} = {}"
proof -
  have r: "rep m R" "\<And>a n k. (a, n) \<in> L \<Longrightarrow> (a, k) \<in> L \<Longrightarrow> n = k" and sz: "\<And>a n. (a, n) \<in> L \<Longrightarrow> \<exists>s. (a, s) \<in> R \<and> n \<le> s" using assms(1) unfolding serves_def by blast+
  obtain s t where st: "(a, s) \<in> R" "n \<le> s" "(b, t) \<in> R" "k \<le> t" using sz [OF assms(2)] sz [OF assms(3)] by blast
  have "a \<noteq> b" using assms(2-4) r(2) by blast
  then have "{a..<a + s} \<inter> {b..<b + t} = {}" using disjoint [OF r(1) st(1,3)] by simp
  then show ?thesis using st(2,4) by fastforce
qed

end

section \<open>The heap of the kernel is an allocator\<close>

text \<open>The array at \<open>c\<close> with \<open>t\<close> bytes of blocks behind the control structure, its blocks \<open>R\<close>, and the calls as clients see them.\<close>

definition heap_blocks :: "nat \<Rightarrow> nat \<Rightarrow> mem \<Rightarrow> (nat \<times> nat) set \<Rightarrow> bool" where
  "heap_blocks c t m R \<longleftrightarrow> (\<exists>bl. heap m c (c + 3184) bl \<and> span bl = t \<and> regions (c + 3184) bl = R)"

definition heap_foreign :: "nat \<Rightarrow> nat \<Rightarrow> nat \<Rightarrow> bool" where
  "heap_foreign c t x \<longleftrightarrow> x < 4294967296 \<and> (x < c \<or> c + t + 3192 \<le> x)"

definition client_alloc :: "nat \<Rightarrow> nat \<Rightarrow> mem \<Rightarrow> nat option \<times> mem" where
  "client_alloc c n m = (case kmalloc (of_nat c) (of_nat n) m of (a, m') \<Rightarrow> (if a = 0 then None else Some (unat a), m'))"

definition client_free :: "nat \<Rightarrow> nat \<Rightarrow> mem \<Rightarrow> mem" where
  "client_free c a m = kfree (of_nat c) (of_nat a) m"

definition client_poke :: "nat \<Rightarrow> byte \<Rightarrow> mem \<Rightarrow> mem" where
  "client_poke x v m = m(of_nat x := v)"

abbreviation client_limit :: nat where "client_limit \<equiv> 4294967292"

lemma span_give: "n \<le> s \<Longrightarrow> span (give s n) = s + 4"
  by (auto simp: give_def)

lemma span_release: "span (release xs s ys) = span xs + s + 4 + span ys"
proof -
  obtain xs' s1 where l: "join_left xs s = (xs', s1)" by fastforce
  obtain s2 ys' where r: "join_right s1 ys = (s2, ys')" by fastforce
  show ?thesis using join_left_span [OF l] join_right_span [OF r] by (simp add: release_def l r)
qed

lemma covered_regions: "covered (regions p bl) = used p bl"
  by (auto simp: covered_def regions_used) fastforce

lemma heap_sizes: "heap m c p bl \<Longrightarrow> sizes bl \<and> p + span bl + 8 \<le> 4294967296 \<and> c + 3184 \<le> p"
  by (simp add: heap_def pool_def)

lemma heap_peek:
  assumes "heap m c (c + 3184) bl" and "kept m1 m2 c (c + 3184) bl" and "span bl = t" and "heap_foreign c t x \<or> x \<in> used (c + 3184) bl"
  shows "m2 (of_nat x) = m1 (of_nat x)"
proof -
  have z: "sizes bl" "c + 3184 + span bl + 8 \<le> 4294967296" using heap_sizes [OF assms(1)] by auto
  have "x < 4294967296" using assms(4) used_range [OF z(1), of x "c + 3184"] z(2) by (auto simp: heap_foreign_def)
  then show ?thesis using assms(2-4) by (auto simp: kept_def heap_foreign_def)
qed

lemma blocks_alloc:
  assumes ok: "heap_blocks c t m R" and n: "n \<le> client_limit" and r: "kmalloc (of_nat c) (of_nat n) m = (ptr, m')"
  shows "if ptr = 0 then m' = m
    else \<exists>s. n \<le> s \<and> (unat ptr, s) \<notin> R \<and> heap_blocks c t m' (insert (unat ptr, s) R) \<and>
      (\<forall>x. heap_foreign c t x \<or> x \<in> covered R \<longrightarrow> m' (of_nat x) = m (of_nat x))"
proof -
  let ?p = "c + 3184"
  obtain bl where bl: "heap m c ?p bl" "span bl = t" "regions ?p bl = R" using ok by (auto simp: heap_blocks_def)
  have un: "unat (of_nat n :: u32) = n" using n by (intro unat_of_nat32) simp
  then have sz: "(of_nat n :: u32) \<le> 0xFFFFFFFC" using n by (simp add: word_le_nat_alt)
  note h = malloc_heap [OF bl(1) sz r [unfolded kmalloc_def] refl]
  show ?thesis
  proof (cases "ptr = 0")
    case False
    then obtain xs s ys k where x: "bl = xs @ (s, True) # ys" "ptr = of_nat (?p + span xs + 8)" "n \<le> k" "k \<le> s"
      "heap m' c ?p (xs @ give s k @ ys)" "kept m m' c ?p bl" using h un by auto
    let ?q = "?p + span xs"
    have z: "sizes bl" "?p + span bl + 8 \<le> 4294967296" using heap_sizes [OF bl(1)] by auto
    have u: "unat ptr = ?q + 8" using z(2) x(1,2) by (simp add: unat_of_nat32 del: of_nat_add)
    obtain w where w: "w = k \<or> w = s" "regions ?p (xs @ give s k @ ys) = insert (?q + 8, w) R"
      using regions_give [OF x(1), of k ?p] bl(3) by blast
    have zz: "sizes xs" "sizes ys" "12 \<le> s" using z(1) x(1) by simp_all
    have "(?q + 8, w) \<notin> R" using regions_fresh [OF zz(1,2) refl zz(3), of ?p w] bl(3) x(1) by (auto simp: add_ac)
    moreover have "n \<le> w" using w(1) x(3,4) by auto
    moreover have "span (xs @ give s k @ ys) = t" using x(1,4) bl(2) span_give by simp
    then have "heap_blocks c t m' (insert (?q + 8, w) R)" using x(5) w(2) by (auto simp: heap_blocks_def)
    moreover have "m' (of_nat y) = m (of_nat y)" if "heap_foreign c t y \<or> y \<in> covered R" for y
      using heap_peek [OF bl(1) x(6) bl(2)] that bl(3) covered_regions by metis
    ultimately show ?thesis using False u by auto
  qed (use h in simp)
qed

lemma blocks_free:
  assumes ok: "heap_blocks c t m R" and a: "(a, s) \<in> R"
  shows "heap_blocks c t (client_free c a m) (R - {(a, s)})"
    and "heap_foreign c t x \<or> x \<in> covered (R - {(a, s)}) \<Longrightarrow> client_free c a m (of_nat x) = m (of_nat x)"
proof -
  let ?p = "c + 3184"
  obtain bl where bl: "heap m c ?p bl" "span bl = t" "regions ?p bl = R" using ok by (auto simp: heap_blocks_def)
  obtain xs ys where x: "bl = xs @ (s, False) # ys" "a = ?p + span xs + 8" using regions_at [of a s ?p bl] a bl(3) by blast
  have m': "client_free c a m = tlsf_free (of_nat c) (of_nat (?p + span xs + 8)) m" using x(2) by (simp add: client_free_def kfree_def)
  note f = free_heap [OF bl(1) [unfolded x(1)] m']
  have sp: "span (release xs s ys) = t" using span_release bl(2) x(1) by simp
  have z: "sizes xs" "sizes ys" "12 \<le> s" using heap_sizes [OF bl(1)] x(1) by simp_all
  have "R - {(a, s)} = regions ?p xs \<union> regions (?p + span xs + s + 4) ys"
    using regions_fresh [OF z(1,2) refl z(3), of ?p s] bl(3) x by (auto simp: add_ac)
  then have rg: "regions ?p (release xs s ys) = R - {(a, s)}" using regions_release by simp
  show "heap_blocks c t (client_free c a m) (R - {(a, s)})" using f(1) sp rg by (auto simp: heap_blocks_def)
  show "client_free c a m (of_nat x) = m (of_nat x)" if "heap_foreign c t x \<or> x \<in> covered (R - {(a, s)})"
    using heap_peek [OF f sp] that rg covered_regions by metis
qed

lemma blocks_poke:
  assumes ok: "heap_blocks c t m R" and a: "(a, s) \<in> R" "x \<in> {a..<a + s}"
  shows "heap_blocks c t (client_poke x v m) R"
    and "heap_foreign c t y \<or> y \<in> covered R \<Longrightarrow> client_poke x v m (of_nat y) = (if y = x then v else m (of_nat y))"
proof -
  let ?p = "c + 3184"
  obtain bl where bl: "heap m c ?p bl" "span bl = t" "regions ?p bl = R" using ok by (auto simp: heap_blocks_def)
  have z: "sizes bl" "?p + span bl + 8 \<le> 4294967296" using heap_sizes [OF bl(1)] by auto
  have u: "y < 4294967296" if "y \<in> used ?p bl" for y using used_range [OF z(1) that] z(2) by simp
  have x: "x \<in> used ?p bl" using coveredI [OF a] bl(3) covered_regions by metis
  have pk: "client_poke x v m (of_nat y) = (if y = x then v else m (of_nat y))" if "y < 4294967296" for y
    using of_nat_eq32 [OF that u [OF x]] by (simp add: client_poke_def)
  have "pool (rd (client_poke x v m)) c ?p bl (frees ?p bl)"
  proof (rule pool_write [where m = m])
    show "client_poke x v m (of_nat a) = m (of_nat a)" if "a < 4294967296" "a \<notin> used ?p bl" for a using pk [OF that(1)] that(2) x by auto
  qed (use bl(1) in \<open>simp_all add: heap_def\<close>)
  then have "heap (client_poke x v m) c ?p bl" using bl(1) by (simp add: heap_def)
  then show "heap_blocks c t (client_poke x v m) R" using bl by (auto simp: heap_blocks_def)
  show "client_poke x v m (of_nat y) = (if y = x then v else m (of_nat y))" if "heap_foreign c t y \<or> y \<in> covered R"
    using that u covered_regions bl(3) by (intro pk) (metis heap_foreign_def)
qed

interpretation kernel: allocator "heap_blocks c t" "heap_foreign c t" "\<lambda>m x. m (of_nat x)" "client_alloc c" "client_free c" client_poke client_limit for c t
proof unfold_locales
  fix m R a s b u assume "heap_blocks c t m R" "(a, s) \<in> R" "(b, u) \<in> R" "(a, s) \<noteq> (b, u)"
  then show "{a..<a + s} \<inter> {b..<b + u} = {}" using regions_disjoint heap_sizes by (fastforce simp: heap_blocks_def)
next
  fix m R a s assume "heap_blocks c t m R" "(a, s) \<in> R"
  then obtain bl where h: "heap m c (c + 3184) bl" "span bl = t" "(a, s) \<in> regions (c + 3184) bl" by (auto simp: heap_blocks_def)
  then show "0 < s \<and> (\<forall>x \<in> {a..<a + s}. \<not> heap_foreign c t x)"
    using regions_range [of bl a s "c + 3184"] heap_sizes [OF h(1)] by (auto simp: heap_foreign_def)
next
  fix m R n m' assume a: "heap_blocks c t m R" "n \<le> client_limit" "client_alloc c n m = (None, m')"
  obtain ptr m1 where k: "kmalloc (of_nat c) (of_nat n) m = (ptr, m1)" by fastforce
  show "m' = m" using blocks_alloc [OF a(1,2) k] a(3) k by (auto simp: client_alloc_def split: if_splits)
next
  fix m R n a m' assume a: "heap_blocks c t m R" "n \<le> client_limit" "client_alloc c n m = (Some a, m')"
  obtain ptr m1 where k: "kmalloc (of_nat c) (of_nat n) m = (ptr, m1)" by fastforce
  then have "ptr \<noteq> 0" "a = unat ptr" "m1 = m'" using a(3) by (auto simp: client_alloc_def split: if_splits)
  then show "\<exists>s. n \<le> s \<and> (a, s) \<notin> R \<and> heap_blocks c t m' (insert (a, s) R) \<and>
      (\<forall>x. heap_foreign c t x \<or> x \<in> covered R \<longrightarrow> m' (of_nat x) = m (of_nat x))" using blocks_alloc [OF a(1,2) k] by simp
next
  fix m R a s assume "heap_blocks c t m R" "(a, s) \<in> R"
  then show "heap_blocks c t (client_free c a m) (R - {(a, s)}) \<and>
      (\<forall>x. heap_foreign c t x \<or> x \<in> covered (R - {(a, s)}) \<longrightarrow> client_free c a m (of_nat x) = m (of_nat x))"
    using blocks_free by blast
next
  fix m R a s x v assume "heap_blocks c t m R" "(a, s) \<in> R" "x \<in> {a..<a + s}"
  then show "heap_blocks c t (client_poke x v m) R \<and>
      (\<forall>y. heap_foreign c t y \<or> y \<in> covered R \<longrightarrow> client_poke x v m (of_nat y) = (if y = x then v else m (of_nat y)))"
    using blocks_poke by blast
qed

text \<open>When every block has been given back, the heap is one free block again.\<close>

lemma heap_drained:
  assumes "heap_blocks c t m {}" and "4 < t"
  shows "heap m c (c + 3184) [(t - 4, True)]"
proof -
  obtain bl where bl: "heap m c (c + 3184) bl" "span bl = t" "regions (c + 3184) bl = {}" using assms(1) by (auto simp: heap_blocks_def)
  have "snd b" if "b \<in> set bl" for b using that bl(3) by (auto simp: in_set_conv_decomp split: if_splits)
  then have "length bl \<le> 1" using bl(1) by (cases bl rule: remdups_adj.cases) (auto simp: heap_def coalesced_def)
  moreover have "bl \<noteq> []" using bl(2) assms(2) by auto
  ultimately obtain b where "bl = [b]" by (cases bl) auto
  then have "bl = [(t - 4, True)]" using bl(2) \<open>\<And>b. b \<in> set bl \<Longrightarrow> snd b\<close> by (auto simp: prod_eq_iff)
  then show ?thesis using bl(1) by simp
qed

text \<open>C2: The heap of the kernel is safe. From initialisation on, whatever blocks are requested, given back and
  written to, in any order: blocks that are held do not overlap and lie inside the array, every byte written to a
  held block is still there, no byte outside of the array changes, and when all blocks have been given back the
  heap is a single free block of 4996 bytes again.\<close>

theorem kernel_heap_safe:
  assumes c: "4 dvd c" "0 < c" "c + 8192 \<le> 4294967296" and i: "kmalloc_init (of_nat c) m0 = (ok, m)"
    and r: "(client (client_alloc c) (client_free c) client_poke client_limit)\<^sup>*\<^sup>* (m, {}, Map.empty) (m', L, V)"
  shows "ok \<and>
    (\<forall>a n. (a, n) \<in> L \<longrightarrow> c + 3192 \<le> a \<and> a + n \<le> c + 8192) \<and>
    (\<forall>a n b k. (a, n) \<in> L \<longrightarrow> (b, k) \<in> L \<longrightarrow> (a, n) \<noteq> (b, k) \<longrightarrow> {a..<a + n} \<inter> {b..<b + k} = {}) \<and>
    (\<forall>x v. V x = Some v \<longrightarrow> m' (of_nat x) = v) \<and>
    (\<forall>x < 4294967296. x < c \<or> c + 8192 \<le> x \<longrightarrow> m' (of_nat x) = m0 (of_nat x)) \<and>
    (L = {} \<longrightarrow> heap m' c (c + 3184) [(4996, True)])"
proof -
  note k = kmalloc_init_heap [OF c i]
  have "heap_blocks c 5000 m {}" unfolding heap_blocks_def using k(2) by (intro exI [of _ "[(4996, True)]"]) simp
  then obtain R where R: "kernel.serves c 5000 m m' L V R" using kernel.clients_served r by blast
  note s = R [unfolded kernel.serves_def]
  obtain bl where bl: "heap m' c (c + 3184) bl" "span bl = 5000" "regions (c + 3184) bl = R" using s by (auto simp: heap_blocks_def)
  have in_array: "c + 3192 \<le> a \<and> a + n \<le> c + 8192" if l: "(a, n) \<in> L" for a n
  proof -
    obtain t where "(a, t) \<in> R" "n \<le> t" using s l by blast
    then show ?thesis using regions_range [of bl a t "c + 3184"] heap_sizes [OF bl(1)] bl(2,3) by auto
  qed
  have out: "m' (of_nat x) = m0 (of_nat x)" if x: "x < 4294967296" "x < c \<or> c + 8192 \<le> x" for x
  proof -
    have "heap_foreign c 5000 x" using x by (auto simp: heap_foreign_def)
    then have "m' (of_nat x) = m (of_nat x)" using s by blast
    moreover have "m (of_nat x) = m0 (of_nat x)" using k(3) x by (auto simp: kept_def)
    ultimately show ?thesis by simp
  qed
  have dr: "heap m' c (c + 3184) [(4996, True)]" if "L = {}"
  proof -
    have "R = {}" using s that by auto
    then show ?thesis using heap_drained [of c 5000 m'] s by auto
  qed
  have val: "m' (of_nat x) = v" if "V x = Some v" for x v using s that by blast
  show ?thesis using k(1) in_array out dr val kernel.serves_apart [OF R] by blast
qed

section \<open>The operations\<close>

definition fresh_heap :: mem where
  "fresh_heap = snd (kmalloc_init 4096 (\<lambda>_. 0))"

definition used_heap :: mem where
  "used_heap = snd (tlsf_malloc 4096 100 fresh_heap)"

lemma fresh_init: "kmalloc_init 4096 (\<lambda>_. 0) = (True, fresh_heap)" and fresh_heap_ok: "heap fresh_heap 4096 7280 [(4996, True)]"
proof -
  obtain ok m where k: "kmalloc_init (of_nat 4096) (\<lambda>_. 0) = (ok, m)" by fastforce
  note h = kmalloc_init_heap [OF _ _ _ k]
  have "ok" "heap m 4096 7280 [(4996, True)]" using h(1,2) by simp_all
  moreover have "m = fresh_heap" using k by (simp add: fresh_heap_def)
  ultimately show "kmalloc_init 4096 (\<lambda>_. 0) = (True, fresh_heap)" "heap fresh_heap 4096 7280 [(4996, True)]" using k by simp_all
qed

lemma adjust_100: "adjust_request_size 100 ALIGN_SIZE = 100"
  by (simp add: adjust_request_size_def align_up_def)

lemma used_heap_ok: "tlsf_malloc 4096 100 fresh_heap = (7288, used_heap)" "heap used_heap 4096 7280 [(100, False), (4892, True)]"
proof -
  obtain ptr where r: "tlsf_malloc (of_nat 4096) 100 fresh_heap = (ptr, used_heap)" by (simp add: used_heap_def prod_eq_iff)
  note h = malloc_heap [OF fresh_heap_ok _ r refl]
  have "ptr = 7288 \<and> heap used_heap 4096 7280 [(100, False), (4892, True)]"
    using h by (auto simp: adjust_100 Cons_eq_append_conv give_def split: if_splits)
  then show "tlsf_malloc 4096 100 fresh_heap = (7288, used_heap)" "heap used_heap 4096 7280 [(100, False), (4892, True)]" using r by simp_all
qed

text \<open>C5: Allocation. In a heap in good order, a request either fails and changes nothing, and then every free block is
  smaller than the request and a thirty-second of it, or is served by a free block that is large enough: the block
  is cut to the request when the rest can hold a block of its own, the heap is again in good order, and all bytes in
  use and outside of the heap are as before.\<close>

theorem tlsf_malloc_correct:
  assumes "heap m c p bl" and "sz \<le> 0xFFFFFFFC" and "tlsf_malloc (of_nat c) sz m = (ptr, m')"
    and "n = unat (adjust_request_size sz ALIGN_SIZE)"
  shows "if ptr = 0 then m' = m \<and> (n = 0 \<or> (\<forall>s. (s, True) \<in> set bl \<longrightarrow> s < n + n div 32))
    else \<exists>xs s ys. bl = xs @ (s, True) # ys \<and> ptr = of_nat (p + span xs + 8) \<and> 0 < n \<and> unat sz \<le> n \<and> n \<le> s \<and>
      heap m' c p (xs @ give s n @ ys) \<and> kept m m' c p bl"
  using assms by (rule malloc_heap)

theorem tlsf_malloc_correct_witness:
  "tlsf_malloc 4096 100 fresh_heap = (7288, used_heap) \<and> heap used_heap 4096 7280 [(100, False), (4892, True)] \<and>
   kept fresh_heap used_heap 4096 7280 [(4996, True)]"
  using tlsf_malloc_correct [OF fresh_heap_ok, of 100 7288 used_heap 100] used_heap_ok
  by (auto simp: adjust_100 Cons_eq_append_conv)

text \<open>C6: Release. Giving back a block joins it with the free blocks on either side, leaves the heap in good order, and
  changes no byte of the other blocks in use or outside of the heap.\<close>

theorem tlsf_free_correct:
  assumes "heap m c p (xs @ (s, False) # ys)"
  shows "heap (tlsf_free (of_nat c) (of_nat (p + span xs + 8)) m) c p (release xs s ys) \<and>
    kept m (tlsf_free (of_nat c) (of_nat (p + span xs + 8)) m) c p (release xs s ys)"
  using free_heap [OF assms refl] by blast

theorem tlsf_free_correct_witness: "heap (tlsf_free 4096 7288 used_heap) 4096 7280 [(4996, True)]"
  using tlsf_free_correct [of used_heap 4096 7280 "[]" 100 "[(4892, True)]"] used_heap_ok(2)
  by (simp add: release_def join_left_def join_right_def first_def)

theorem kernel_heap_safe_witness:
  "client_poke 7290 65 used_heap 7290 = 65 \<and> client_poke 7290 65 used_heap 64 = 0"
proof -
  let ?step = "client (client_alloc 4096) (client_free 4096) client_poke client_limit"
  have "client_alloc 4096 100 fresh_heap = (Some 7288, used_heap)"
    using used_heap_ok(1) by (simp add: client_alloc_def kmalloc_def)
  then have 1: "?step (fresh_heap, {}, Map.empty) (used_heap, insert (7288, 100) {}, Map.empty |` (- {7288..<7288 + 100}))"
    by (rule client.get) simp
  have 2: "?step (used_heap, {(7288, 100)}, Map.empty) (client_poke 7290 65 used_heap, {(7288, 100)}, Map.empty(7290 \<mapsto> 65))"
    by (rule client.put [of 7288 100]) simp_all
  have r: "?step\<^sup>*\<^sup>* (fresh_heap, {}, Map.empty) (client_poke 7290 65 used_heap, {(7288, 100)}, Map.empty(7290 \<mapsto> 65))"
    using 1 2 by (auto intro: rtranclp_trans)
  have "kmalloc_init (of_nat 4096) (\<lambda>_. 0) = (True, fresh_heap)" using fresh_init by simp
  note s = kernel_heap_safe [OF _ _ _ this r]
  have v: "\<forall>x v. (Map.empty(7290 \<mapsto> 65)) x = Some v \<longrightarrow> client_poke 7290 65 used_heap (of_nat x) = v"
    and f: "\<forall>x < 4294967296. x < 4096 \<or> 4096 + 8192 \<le> x \<longrightarrow> client_poke 7290 65 used_heap (of_nat x) = 0" using s by simp_all
  show ?thesis using v [rule_format, of 7290 65] f [rule_format, of 64] by simp
qed

end
