(* ===== verification/TlsfRealloc.thy ===== *)
theory TlsfRealloc
  imports KernelHeap
begin

text \<open>
  Changing the size of a block (\<open>tlsf_realloc\<close>): a block is cut in place (\<open>shrink\<close>), takes in the free block
  behind it (\<open>grow\<close>), or is copied to a new block. \<open>reallocated\<close> is the contract of the call.
\<close>

unbundle bit_operations_syntax

section \<open>Shrinking a block in place\<close>

text \<open>A used block of size \<open>s\<close> in front of \<open>ys\<close> is cut to \<open>n\<close>; what is cut off joins a free block behind it.\<close>

definition shrink :: "nat \<Rightarrow> nat \<Rightarrow> block list \<Rightarrow> block list" where
  "shrink s n ys = (if n + 16 \<le> s then (case join_right (s - n - 4) ys of (t, ys') \<Rightarrow> (n, False) # (t, True) # ys') else (s, False) # ys)"

lemma split_used:
  assumes ok: "pool (rd m) c p (xs @ (s, False) # ys) F" and q: "q = p + span xs" "q \<notin> F" and n: "12 \<le> n" "4 dvd n" "n + 16 \<le> s"
    and r: "r = q + n + 4" and sp: "block_split (of_nat q) (of_nat n) m = (r', m1)" and m2: "m2 = block_set_prev_used r' m1"
  shows "r' = of_nat r" and "pool (rd m2) c p (xs @ (n, False) # (s - n - 4, True) # ys) F"
    and "w \<noteq> q + 4 \<Longrightarrow> w < r + 4 \<or> q + s + 12 \<le> w \<Longrightarrow> rd m2 w = rd m w"
proof -
  obtain prev pf where a: "foldl after (0, False, p) xs = (prev, pf, q)" "4 dvd s" "word_addr (q + 4)" "word_addr (q + s + 8)"
    by (rule pool_at [OF ok q(1)]) (rule that; assumption)
  note x = split_rd [OF ok q(1) n a(1) sp r]
  show "r' = of_nat r" by (rule x(1))
  obtain j where h1: "rd m1 = (rd m)(q + 4 := hdr n False pf, r + 4 := hdr (s - n - 4) True j,
           q + s + 4 := of_nat r, q + s + 8 := hdr (fst (first ys)) (snd (first ys)) True)" using x(2) by blast
  have wr: "word_addr (r + 4)" using n r a(3,4) by (auto simp: word_addr_def)
  have rs: "4 dvd s - n - 4" using n a(2) by (simp add: dvd_diff_nat)
  have "rd m2 = (rd m1)(r + 4 := hdr (s - n - 4) True False)"
    unfolding m2 x(1) block_ops_rd(4) [OF wr] using h1 n r hdr_ops(7) [OF rs, of True j] by simp
  then have h2: "rd m2 = (rd m)(q + 4 := hdr n False pf, r := rd m r, r + 4 := hdr (s - n - 4) True False,
           q + s + 4 := of_nat r, q + s + 8 := hdr (fst (first ys)) (snd (first ys)) True)"
    unfolding h1 using n r by (intro ext) simp
  show "pool (rd m2) c p (xs @ (n, False) # (s - n - 4, True) # ys) F" by (rule pool_split [OF ok q n r a(1) h2]) simp
  show "rd m2 w = rd m w" if "w \<noteq> q + 4" "w < r + 4 \<or> q + s + 12 \<le> w" using that h2 n r by auto
qed

lemma trim_used:
  assumes ok: "pool (rd m) c p (xs @ (s, False) # ys) (frees p xs \<union> frees (q + s + 4) ys)" and q: "q = p + span xs"
    and n: "12 \<le> n" "4 dvd n" "n < 2 ^ 30" and m': "m' = block_trim_used (of_nat c) (of_nat q) (of_nat n) m"
  shows "pool (rd m') c p (xs @ shrink s n ys) (frees p (xs @ shrink s n ys))" and "kept m m' c p (xs @ shrink s n ys)"
proof -
  let ?F = "frees p xs \<union> frees (q + s + 4) ys"
  have z: "sizes xs" "sizes ys" "12 \<le> s" "4 dvd p" "4 dvd c" using ok by (simp_all add: pool_def)
  have qF: "q \<notin> ?F" using frees_middle(1,2) [OF z(1,2) q] by simp
  have "pool (rd m') c p (xs @ shrink s n ys) (frees p (xs @ shrink s n ys)) \<and> kept m m' c p (xs @ shrink s n ys)"
  proof (cases "n + 16 \<le> s")
    case False
    then have "m' = m" using can_split [OF ok q n(3)] m' by (simp add: block_trim_used_def)
    then show ?thesis using ok False q by (simp add: shrink_def kept_def add_ac)
  next
    case True
    define r where "r = q + n + 4"
    obtain r' m1 where sp: "block_split (of_nat q) (of_nat n) m = (r', m1)" by fastforce
    define m2 where "m2 = block_set_prev_used r' m1"
    obtain b3 m3 where m3: "block_merge_next (of_nat c) r' m2 = (b3, m3)" by fastforce
    have m'3: "m' = block_insert (of_nat c) b3 m3"
      using m' can_split [OF ok q n(3)] True sp m3 by (simp add: block_trim_used_def m2_def)
    note u = split_used [OF ok q qF n(1,2) True r_def sp m2_def]
    let ?xs = "xs @ [(n, False)]" let ?rs = "s - n - 4"
    have e: "r = p + span ?xs" "r + ?rs = q + s" "frees p ?xs = frees p xs" using q r_def True by simp_all
    obtain t ys' where j: "join_right ?rs ys = (t, ys')" by fastforce
    have ok2: "pool (rd m2) c p (?xs @ (?rs, True) # ys) (frees p ?xs \<union> frees (r + ?rs + 4) ys)" using u(2) e by simp
    note mn = merge_next [OF ok2 e(1) m3 [unfolded u(1)] j]
    then have b3: "b3 = of_nat r" "pool (rd m3) c p (?xs @ (t, True) # ys') (frees p ?xs \<union> frees (r + t + 4) ys')" "?rs \<le> t" by simp_all
    note ins = insert_block [OF b3(2) e(1) m'3 [unfolded b3(1)]]
    have sh: "xs @ shrink s n ys = ?xs @ (t, True) # ys'" using True j by (simp add: shrink_def)
    have "kept m m' c p (?xs @ [(t, True)] @ ys')"
    proof (rule kept_frame [where G = "frees p (?xs @ (t, True) # ys')"])
      fix w assume w: "w \<notin> list_words c (frees p (?xs @ (t, True) # ys'))" "w < r + 4 \<or> r + span [(t, True)] + 8 \<le> w"
        "w \<in> used p ?xs \<or> w \<notin> used p ?xs \<and> (w < c \<or> r + span [(t, True)] \<le> w)"
      have "w \<notin> list_words c (frees p ?xs \<union> frees (r + ?rs + 4) ys)"
      proof (rule list_words_outside [OF w(1)])
        show "x \<in> frees p (?xs @ (t, True) # ys') \<or> r \<le> x \<and> x + 12 < r + t + 12" if "x \<in> frees p ?xs \<union> frees (r + ?rs + 4) ys" for x
          using that join_right_span [OF j] e(1) z(2) by (auto simp: add_ac)
      qed (use w(2) in auto)
      moreover have "w \<noteq> q + 4"
        using w(3) used_range [OF z(1), of w p] q r_def ok by (auto simp: pool_def)
      ultimately show "rd m' w = rd m w" using ins(2) [OF w(1)] mn u(3) [of w] w(2) b3(3) e(2) by auto
    qed (use ins(1) e in auto)
    then show ?thesis using ins(1) sh by simp
  qed
  then show "pool (rd m') c p (xs @ shrink s n ys) (frees p (xs @ shrink s n ys))" "kept m m' c p (xs @ shrink s n ys)" by blast+
qed

section \<open>Growing a block in place\<close>

lemma grow:
  assumes ok: "pool (rd m) c p (xs @ (s, False) # (t, True) # ys) (frees p xs \<union> frees (q + s + 4) ((t, True) # ys))" and q: "q = p + span xs"
    and m': "m' = block_mark_as_used (of_nat q) (snd (block_merge_next (of_nat c) (of_nat q) m))" and nx: "nx = q + (s + t + 4) + 4"
  shows "pool (rd m') c p (xs @ (s + t + 4, False) # ys) (frees p xs \<union> frees nx ys)"
    and "kept m m' c p (xs @ (s, False) # (t, True) # ys)"
proof -
  define r where "r = q + s + 4"
  let ?F = "frees p xs \<union> frees r ((t, True) # ys)" let ?G = "frees p xs \<union> frees nx ys"
  note ok = ok [folded r_def]
  obtain prev pf where a: "foldl after (0, False, p) xs = (prev, pf, q)" "rd m (q + 4) = hdr s False pf" "pf \<longrightarrow> rd m q = of_nat prev" "12 \<le> s" "4 dvd s"
    "word_addr (q + 4)" "word_addr (q + s + 8)" "header (rd m) (q, False, q + s + 4) (first ((t, True) # ys))"
    by (rule pool_at [OF ok q]) (rule that; assumption)
  have z: "sizes xs" "sizes ys" "12 \<le> t" "4 dvd t" using ok by (simp_all add: pool_def)
  have wn: "word_addr (r + 4)" using a(7) by (simp add: r_def add_ac)
  have hr: "rd m (r + 4) = hdr t True False" using header_flag [OF a(8)] by (simp add: first_def r_def)
  have nxt: "block_next m (of_nat q) = of_nat r" using block_reads(4) [OF a(6,2,5)] by (simp add: r_def)
  define m1 where "m1 = block_remove (of_nat c) (of_nat r) m"
  obtain b2 m2 where m2: "block_absorb (of_nat q) (of_nat r) m1 = (b2, m2)" by fastforce
  have m'2: "m' = block_mark_as_used (of_nat q) m2"
    using m' m2 block_reads(2) [OF wn hr z(4)] unfolding block_merge_next_def Let_def nxt m1_def by simp
  have mem: "r \<in> ?F" by simp
  note rm = pool_remove [OF ok mem m1_def]
  have rG: "r \<notin> frees p xs" "r \<notin> frees nx ys" "q \<notin> frees p xs" "q \<notin> frees nx ys"
    using frees_range [OF z(1), of r p] frees_range [OF z(2), of r nx] frees_range [OF z(1), of q p] frees_range [OF z(2), of q nx] q r_def nx by auto
  have e: "r + t + 4 = nx" using nx r_def by simp
  have "?F - {r} = ?G" using rG e by auto
  then have ok1: "pool (rd m1) c p (xs @ (s, False) # (t, True) # ys) ?G" using rm(1) by simp
  note x = absorb_rd [OF ok1 q r_def a(1) m2]
  have ok2: "pool (rd m1) c p ((xs @ [(s, False)]) @ (t, True) # ys) ?G" using ok1 by simp
  have rq: "r = p + span (xs @ [(s, False)])" using q r_def by simp
  obtain d: "4 dvd fst (first ys)" and "word_addr (r + t + 8)"
    by (rule pool_at [OF ok2 rq]) (rule that; assumption)
  then have wnx: "word_addr (nx + 4)" by (simp add: add_ac e [symmetric])
  have h2: "rd m2 (q + 4) = hdr (s + t + 4) False pf" "rd m2 (nx + 4) = hdr (fst (first ys)) (snd (first ys)) True"
    using x(2) [unfolded e] header_flag [OF x(5) [unfolded e]] nx by simp_all
  have n2: "block_next m2 (of_nat q) = of_nat nx" using block_reads(4) [OF a(6) h2(1) x(3)] nx by simp
  have far: "q + 4 \<noteq> nx + 4" using nx by simp
  have "rd m' = (rd m2)(nx + 4 := hdr (fst (first ys)) (snd (first ys)) False, q + 4 := hdr (s + t + 4) False pf)"
    unfolding m'2 block_mark_as_used_def Let_def n2 block_ops_rd(2) [OF a(6)] block_ops_rd(4) [OF wnx]
    by (simp only: fun_upd_other [OF far] h2 hdr_ops(6) [OF x(3)] hdr_ops(7) [OF d])
  then have h': "rd m' = (rd m1)(q + 4 := hdr (s + t + 4) False pf, nx := of_nat q, nx + 4 := hdr (fst (first ys)) (snd (first ys)) False)"
    using x(2) e nx by (auto simp: fun_eq_iff)
  have m1q: "pf \<longrightarrow> rd m1 q = of_nat prev"
    by (rule pool_at [OF ok1 q]) (use a(1) in auto)
  have "pool (rd m') c p (xs @ [(s + t + 4, False)] @ ys) ?G"
  proof (rule pool_replace [where mid = "[(s, False), (t, True)]" and h = "rd m1"])
    show "chain (rd m') (foldl after (0, False, p) xs) [(s + t + 4, False)]" using a(1) m1q h' nx by simp
    show "header (rd m') (foldl after (0, False, p) (xs @ [(s + t + 4, False)])) (first ys)"
      using a(1) h' nx by (auto intro!: header_intro)
    show "rd m' w = rd m1 w" if "w < q + 4 \<or> q + span [(s, False), (t, True)] + 8 \<le> w" for w using that h' nx by auto
  qed (use ok1 q r_def rG x(3,4) a(4) in \<open>auto simp: add_ac\<close>)
  then show "pool (rd m') c p (xs @ (s + t + 4, False) # ys) ?G" by simp
  have "kept m m' c p ((xs @ [(s, False)]) @ [(t, True)] @ ys)"
  proof (rule kept_frame [where G = ?F, OF _ rq])
    fix w assume w: "w \<notin> list_words c ?F" "w < r + 4 \<or> r + span [(t, True)] + 8 \<le> w"
      "w \<in> used p (xs @ [(s, False)]) \<or> w \<notin> used p (xs @ [(s, False)]) \<and> (w < c \<or> r + span [(t, True)] \<le> w)"
    have "w \<noteq> q + 4" using w(3) used_range [OF z(1), of w p] q r_def ok by (auto simp: pool_def)
    then show "rd m' w = rd m w" using rm(2) [OF w(1)] h' w(2) e r_def by auto
  qed (use ok2 q r_def in \<open>auto simp: add_ac\<close>)
  then show "kept m m' c p (xs @ (s, False) # (t, True) # ys)" by simp
qed

section \<open>Reallocation\<close>

lemma coalesced_shrink: "coalesced (xs @ (s, False) # ys) \<Longrightarrow> coalesced (xs @ shrink s n ys)"
  using coalesced_release [of "[]" ys "s - n - 4"]
  by (auto simp: shrink_def coalesced_split release_def join_left_def coalesced_Cons coalesced_def [of "[]"] split: prod.splits)

lemma shrink_shape:
  assumes "n \<le> s"
  shows "\<exists>w zs. n \<le> w \<and> w \<le> s \<and> shrink s n ys = (w, False) # zs \<and> span zs + w = span ys + s \<and> regions (q + w + 4) zs = regions (q + s + 4) ys"
proof (cases "n + 16 \<le> s")
  case True
  obtain t ys' where j: "join_right (s - n - 4) ys = (t, ys')" by fastforce
  have "regions (q + n + 4) ((t, True) # ys') = regions (q + s + 4) ys" using join_right_span [OF j] True by (auto simp: add_ac)
  moreover have "span ((t, True) # ys') + n = span ys + s" using join_right_span [OF j] True by auto
  moreover have "shrink s n ys = (n, False) # (t, True) # ys'" using True j by (simp add: shrink_def)
  ultimately show ?thesis using assms by blast
qed (use assms in \<open>auto simp: shrink_def\<close>)

text \<open>A block of a heap after it was cut to \<open>n\<close>.\<close>

lemma trim_heap:
  assumes ok: "pool (rd m) c p (xs @ (s, False) # ys) (frees p xs \<union> frees (q + s + 4) ys)" and co: "coalesced (xs @ (s, False) # ys)" and q: "q = p + span xs"
    and n: "12 \<le> n" "4 dvd n" "n < 2 ^ 30" "n \<le> s" and m': "m' = block_trim_used (of_nat c) (of_nat q) (of_nat n) m"
  shows "\<exists>bl w. heap m' c p bl \<and> span bl = span xs + s + 4 + span ys \<and> n \<le> w \<and> w \<le> s \<and>
    regions p bl = insert (q + 8, w) (regions p xs \<union> regions (q + s + 4) ys) \<and> kept m m' c p bl"
proof -
  note t = trim_used [OF ok q n(1-3) m']
  obtain w zs where w: "n \<le> w" "w \<le> s" "shrink s n ys = (w, False) # zs" "span zs + w = span ys + s" "regions (q + w + 4) zs = regions (q + s + 4) ys"
    using shrink_shape [OF n(4)] by blast
  have "heap m' c p (xs @ shrink s n ys)" using t(1) coalesced_shrink [OF co] by (simp add: heap_def)
  moreover have "regions p (xs @ shrink s n ys) = insert (q + 8, w) (regions p xs \<union> regions (q + s + 4) ys)"
    using w(3,5) q by (auto simp: add_ac)
  moreover have "span (xs @ shrink s n ys) = span xs + s + 4 + span ys" using w(3,4) by simp
  ultimately show ?thesis using w(1,2) t(2) by blast
qed

text \<open>A memory that differs only in bytes of allocated blocks holds the same blocks.\<close>

lemma blocks_write:
  assumes ok: "heap_blocks c t m R" and w: "\<And>a. a < 4294967296 \<Longrightarrow> a \<notin> covered R \<Longrightarrow> m' (of_nat a) = m (of_nat a)"
  shows "heap_blocks c t m' R"
proof -
  obtain bl where bl: "heap m c (c + 3184) bl" "span bl = t" "regions (c + 3184) bl = R" using ok by (auto simp: heap_blocks_def)
  have "pool (rd m') c (c + 3184) bl (frees (c + 3184) bl)"
    by (rule pool_write [where m = m]) (use bl w covered_regions in \<open>auto simp: heap_def\<close>)
  then have "heap m' c (c + 3184) bl" using bl(1) by (simp add: heap_def)
  then show ?thesis using bl by (auto simp: heap_blocks_def)
qed

lemma blocks_range:
  assumes "heap_blocks c t m R" and "(a, s) \<in> R"
  shows "a + s < 4294967296" and "12 \<le> s" and "s < 2 ^ 30" and "0 < a"
proof -
  obtain bl where bl: "heap m c (c + 3184) bl" "regions (c + 3184) bl = R" using assms(1) by (auto simp: heap_blocks_def)
  note z = heap_sizes [OF bl(1)]
  obtain xs ys where "bl = xs @ (s, False) # ys" using regions_at [of a s "c + 3184" bl] bl(2) assms(2) by blast
  then show "s < 2 ^ 30" using z by simp
  show "a + s < 4294967296" "12 \<le> s" "0 < a" using regions_range [of bl a s "c + 3184"] z bl(2) assms(2) by auto
qed

text \<open>What reallocation of the block \<open>(a, s)\<close> to \<open>sz\<close> bytes has to do when it returns \<open>r\<close>.\<close>

definition reallocated :: "nat \<Rightarrow> nat \<Rightarrow> mem \<Rightarrow> mem \<Rightarrow> (nat \<times> nat) set \<Rightarrow> nat \<Rightarrow> nat \<Rightarrow> u32 \<Rightarrow> u32 \<Rightarrow> bool" where
  "reallocated c t m m' R a s sz r \<longleftrightarrow>
     (\<exists>w. unat sz \<le> w \<and> (unat r, w) \<notin> R - {(a, s)} \<and> heap_blocks c t m' (insert (unat r, w) (R - {(a, s)})) \<and>
        (\<forall>i < min s (unat sz). m' (of_nat (unat r + i)) = m (of_nat (a + i))) \<and>
        (\<forall>x. heap_foreign c t x \<or> x \<in> covered (R - {(a, s)}) \<longrightarrow> m' (of_nat x) = m (of_nat x)))"

lemma memcpy_apart:
  assumes "unat n = k" and "a + k \<le> b \<or> b + k \<le> a" and "a + k \<le> 4294967295" and "b + k \<le> 4294967295" and x: "x < 4294967296"
  shows "memcpy m (of_nat b) (of_nat a) n (of_nat x) = (if b \<le> x \<and> x < b + k then m (of_nat (a + (x - b))) else m (of_nat x))"
proof -
  have u: "unat (of_nat a :: u32) = a" "unat (of_nat b :: u32) = b" using assms(3,4) by (simp_all add: unat_of_nat32)
  have "disjoint_range (of_nat a) k (of_nat b :: u32) k" using u assms(2-4) by (intro disjoint_rangeI_nat) auto
  then have e: "memcpy m (of_nat b) (of_nat a) n = store_bytes m (of_nat b) (load_bytes m (of_nat a) k)"
    using memcpy_eq [of "of_nat a" n "of_nat b" m] assms(1) by simp
  have l: "length (load_bytes m (of_nat a) k) \<le> 4294967296" using assms(4) by simp
  have at: "store_bytes m (of_nat b) (load_bytes m (of_nat a) k) (of_nat x) =
      (if unat (of_nat x - of_nat b :: u32) < k then m (of_nat a + (of_nat x - of_nat b)) else m (of_nat x))"
    unfolding store_bytes_apply [OF l] by simp
  show ?thesis
  proof (cases "b \<le> x")
    case True
    then have "(of_nat x - of_nat b :: u32) = of_nat (x - b)" by (simp add: of_nat_diff)
    moreover have "unat (of_nat (x - b) :: u32) = x - b" using x by (intro unat_of_nat32) simp
    ultimately show ?thesis unfolding e at using True by (auto simp: add_diff_eq)
  next
    case False
    then have d: "(of_nat x - of_nat b :: u32) = of_nat (4294967296 + x - b)" using assms(4) by (simp add: of_nat_diff)
    have "unat (of_nat (4294967296 + x - b) :: u32) = 4294967296 + x - b" using False by (intro unat_of_nat32) simp
    then have "\<not> unat (of_nat x - of_nat b :: u32) < k" unfolding d using assms(4) by linarith
    then show ?thesis unfolding e at using False by simp
  qed
qed

lemma realloc_move:
  assumes ok: "heap_blocks c t m R" and a: "(a, s) \<in> R" and sz: "sz \<le> 0xFFFFFFFC"
    and r: "tlsf_malloc (of_nat c) sz m = (r, m1)" "r \<noteq> 0"
    and m': "m' = tlsf_free (of_nat c) (of_nat a) (memcpy m1 r (of_nat a) (min (of_nat s) sz))"
  shows "reallocated c t m m' R a s sz r"
proof -
  have n: "unat sz \<le> client_limit" using sz by (simp add: word_le_nat_alt)
  have k: "kmalloc (of_nat c) (of_nat (unat sz)) m = (r, m1)" using r(1) by (simp add: kmalloc_def)
  obtain w where w: "unat sz \<le> w" "(unat r, w) \<notin> R" "heap_blocks c t m1 (insert (unat r, w) R)"
    "\<And>x. heap_foreign c t x \<or> x \<in> covered R \<Longrightarrow> m1 (of_nat x) = m (of_nat x)" using blocks_alloc [OF ok n k] r(2) by auto
  let ?R = "insert (unat r, w) R" let ?k = "min s (unat sz)"
  have ra: "a + s < 4294967296" "s < 2 ^ 30" using blocks_range [OF ok a] by auto
  have rr: "unat r + w < 4294967296" "0 < w" using blocks_range [OF w(3), of "unat r" w] by auto
  have ne: "(unat r, w) \<noteq> (a, s)" using w(2) a by auto
  have dj: "{a..<a + s} \<inter> {unat r..<unat r + w} = {}" using kernel.disjoint [OF w(3), of a s "unat r" w] a ne by auto
  have uk: "unat (min (of_nat s) sz) = ?k" using ra(2) by (simp add: min_def word_le_nat_alt unat_of_nat32)
  have "a + s \<le> unat r \<or> unat r + w \<le> a" using dj rr(2) blocks_range(2) [OF ok a] by (cases "a \<le> unat r") auto
  then have ap: "a + ?k \<le> unat r \<or> unat r + ?k \<le> a" "a + ?k \<le> 4294967295" "unat r + ?k \<le> 4294967295" using ra(1) rr(1) w(1) by auto
  define m2 where "m2 = memcpy m1 r (of_nat a) (min (of_nat s) sz)"
  have cp: "m2 (of_nat x) = (if unat r \<le> x \<and> x < unat r + ?k then m1 (of_nat (a + (x - unat r))) else m1 (of_nat x))" if "x < 4294967296" for x
    using memcpy_apart [OF uk ap that, of m1] by (simp add: m2_def)
  have out: "m2 (of_nat x) = m1 (of_nat x)" if "x < 4294967296" "x \<notin> {unat r..<unat r + w}" for x using cp [OF that(1)] that(2) w(1) by auto
  have inn: "m2 (of_nat (unat r + i)) = m1 (of_nat (a + i))" if "i < ?k" for i using cp [of "unat r + i"] that ap(3) by simp
  have b2: "heap_blocks c t m2 ?R" by (rule blocks_write [OF w(3)]) (use out in \<open>auto simp: covered_def\<close>)
  have aR: "(a, s) \<in> ?R" using a by simp
  have m'2: "m' = client_free c a m2" by (simp add: m' client_free_def kfree_def m2_def)
  note f = blocks_free [OF b2 aR, folded m'2]
  have R': "?R - {(a, s)} = insert (unat r, w) (R - {(a, s)})" using ne by auto
  have "m' (of_nat (unat r + i)) = m (of_nat (a + i))" if "i < ?k" for i
  proof -
    have "unat r + i \<in> covered (?R - {(a, s)})" by (rule coveredI [of "unat r" w]) (use that w(1) R' in auto)
    then have "m' (of_nat (unat r + i)) = m2 (of_nat (unat r + i))" using f(2) by blast
    moreover have "a + i \<in> covered R" by (rule coveredI [OF a]) (use that in auto)
    ultimately show ?thesis using inn [OF that] w(4) [of "a + i"] by simp
  qed
  moreover have "m' (of_nat x) = m (of_nat x)" if x: "heap_foreign c t x \<or> x \<in> covered (R - {(a, s)})" for x
  proof -
    have "m' (of_nat x) = m2 (of_nat x)" using f(2) [of x] x R' by (auto simp: covered_def)
    moreover have "x < 4294967296 \<and> x \<notin> {unat r..<unat r + w}"
    proof (cases "heap_foreign c t x")
      case True
      then show ?thesis using kernel.owned [OF w(3), of "unat r" w] by (auto simp: heap_foreign_def)
    next
      case False
      then obtain b u where b: "(b, u) \<in> R" "x \<in> {b..<b + u}" using x by (auto simp: covered_def)
      then have "(b, u) \<noteq> (unat r, w)" using w(2) by auto
      then have "{b..<b + u} \<inter> {unat r..<unat r + w} = {}" using kernel.disjoint [OF w(3), of b u "unat r" w] b(1) by blast
      then show ?thesis using b(2) blocks_range(1) [OF ok b(1)] by auto
    qed
    moreover have "m1 (of_nat x) = m (of_nat x)" using x by (intro w(4)) (auto simp: covered_def)
    ultimately show ?thesis using out [of x] by simp
  qed
  ultimately show ?thesis unfolding reallocated_def using w(1,2) f(1) R' by (intro exI [of _ w]) auto
qed

lemma realloc_stay:
  assumes h: "heap m c (c + 3184) bl" "bl = xs @ (s, False) # ys" "span bl = t" "regions (c + 3184) bl = R" and q: "q = c + 3184 + span xs"
    and h': "heap m' c (c + 3184) bl'" "span bl' = t" "regions (c + 3184) bl' = insert (q + 8, w) (regions (c + 3184) xs \<union> regions (q + s + 4) ys)"
    and k: "kept m m1 c (c + 3184) bl" "kept m1 m' c (c + 3184) bl'" and w: "unat sz \<le> w"
  shows "reallocated c t m m' R (q + 8) s sz (of_nat (q + 8))"
proof -
  let ?a = "q + 8"
  have b: "heap_blocks c t m R" using h by (auto simp: heap_blocks_def)
  have aR: "(?a, s) \<in> R" using h(2,4) q by (auto simp: add_ac)
  have ua: "unat (of_nat ?a :: u32) = ?a" using blocks_range(1) [OF b aR] by (intro unat_of_nat32) simp
  have z: "sizes xs" "sizes ys" "12 \<le> s" using heap_sizes [OF h(1)] h(2) by simp_all
  note fresh = regions_fresh [OF z(1,2) q z(3)]
  have R': "R - {(?a, s)} = regions (c + 3184) xs \<union> regions (q + s + 4) ys" using h(2,4) q fresh by (auto simp: add_ac)
  have u1: "x \<in> used (c + 3184) bl" if "x \<in> covered (insert (?a, s) (R - {(?a, s)}))" for x
    using that aR h(4) covered_regions [of "c + 3184" bl] by (metis insert_Diff)
  have u2: "x \<in> used (c + 3184) bl'" if "x \<in> covered (insert (?a, w) (R - {(?a, s)}))" for x
    using that h'(3) R' covered_regions [of "c + 3184" bl'] by simp
  have both: "m' (of_nat x) = m (of_nat x)" if "heap_foreign c t x \<or> x \<in> covered (insert (?a, s) (R - {(?a, s)})) \<and> x \<in> covered (insert (?a, w) (R - {(?a, s)}))" for x
    using heap_peek [OF h(1) k(1) h(3), of x] heap_peek [OF h'(1) k(2) h'(2), of x] that u1 u2 by metis
  have "m' (of_nat (?a + i)) = m (of_nat (?a + i))" if "i < min s (unat sz)" for i
  proof -
    have "?a + i \<in> covered (insert (?a, s) (R - {(?a, s)}))" by (rule coveredI [of ?a s]) (use that in auto)
    moreover have "?a + i \<in> covered (insert (?a, w) (R - {(?a, s)}))" by (rule coveredI [of ?a w]) (use that w in auto)
    ultimately show ?thesis using both by blast
  qed
  moreover have "m' (of_nat x) = m (of_nat x)" if "heap_foreign c t x \<or> x \<in> covered (R - {(?a, s)})" for x
    by (rule both) (use that in \<open>auto simp: covered_def\<close>)
  moreover have "heap_blocks c t m' (insert (?a, w) (R - {(?a, s)}))" using h' R' by (auto simp: heap_blocks_def)
  moreover have "(?a, w) \<notin> R - {(?a, s)}" unfolding R' using fresh by simp
  ultimately show ?thesis unfolding reallocated_def ua using w by (intro exI [of _ w]) simp
qed

text \<open>The pieces of the code: what is read of the block and of the one behind it.\<close>

lemma realloc_unfold:
  assumes ok: "pool (rd m) c p (xs @ (s, False) # ys) F" and q: "q = p + span xs" and sz: "sz \<noteq> 0" and n: "n = unat (adjust_request_size sz ALIGN_SIZE)" "n < 2 ^ 30"
  shows "tlsf_realloc (of_nat c) (of_nat (q + 8)) sz m =
    (if s < n \<and> (\<not> snd (first ys) \<or> s + fst (first ys) + 4 < n)
     then case tlsf_malloc (of_nat c) sz m of (p, m1) \<Rightarrow>
            if p \<noteq> 0 then (p, tlsf_free (of_nat c) (of_nat (q + 8)) (memcpy m1 p (of_nat (q + 8)) (min (of_nat s) sz))) else (p, m1)
     else (of_nat (q + 8), block_trim_used (of_nat c) (of_nat q) (of_nat n)
            (if s < n then block_mark_as_used (of_nat q) (snd (block_merge_next (of_nat c) (of_nat q) m)) else m)))"
proof -
  obtain pf where a: "rd m (q + 4) = hdr s False pf" "4 dvd s" "s < 2 ^ 30" "word_addr (q + 4)" "header (rd m) (q, False, q + s + 4) (first ys)"
    "4 dvd fst (first ys)" "word_addr (q + s + 8)" by (rule pool_at [OF ok q]) (rule that; assumption)
  let ?t = "fst (first ys)"
  have t: "?t < 2 ^ 30" using ok by (cases ys) (auto simp: pool_def first_def)
  have wn: "word_addr (q + s + 4 + 4)" using a(7) by (simp add: add_ac)
  have rd: "block_from_ptr (of_nat (q + 8)) = of_nat q" "block_next m (of_nat q) = of_nat (q + s + 4)" "block_size m (of_nat q) = of_nat s"
    "block_size m (of_nat (q + s + 4)) = of_nat ?t" "block_is_free m (of_nat (q + s + 4)) = snd (first ys)"
    using block_reads [OF a(4,1,2)] block_reads [OF wn header_flag [OF a(5)] a(6)] by (simp_all add: block_from_ptr_def)
  have "q + 8 < 4294967296" using ok q by (simp add: pool_def)
  then have p0: "(of_nat (q + 8) :: u32) \<noteq> 0" using of_nat_eq32 [of "q + 8" 0] by auto
  have u: "unat (of_nat s :: u32) = s" "unat (of_nat (s + ?t + 4) :: u32) = s + ?t + 4" using a(3) t by (intro unat_of_nat32; simp)+
  have cb: "(of_nat s + of_nat ?t + 4 :: u32) = of_nat (s + ?t + 4)" by simp
  have cmp: "adjust_request_size sz ALIGN_SIZE > (of_nat s :: u32) \<longleftrightarrow> s < n"
    "adjust_request_size sz ALIGN_SIZE > (of_nat (s + ?t + 4) :: u32) \<longleftrightarrow> s + ?t + 4 < n"
    by (simp_all only: word_less_nat_alt u n(1))
  have "of_nat n = adjust_request_size sz ALIGN_SIZE" using n(1) by simp
  then show ?thesis unfolding tlsf_realloc_def Let_def rd cb cmp using p0 sz by (auto simp del: of_nat_add)
qed

lemma realloc_in_place:
  assumes h: "heap m c (c + 3184) bl" "bl = xs @ (s, False) # ys" "span bl = t" "regions (c + 3184) bl = R" and q: "q = c + 3184 + span xs"
    and n: "12 \<le> n" "4 dvd n" "n < 2 ^ 30" "unat sz \<le> n" and st: "\<not> (s < n \<and> (\<not> snd (first ys) \<or> s + fst (first ys) + 4 < n))"
    and m': "m' = block_trim_used (of_nat c) (of_nat q) (of_nat n)
            (if s < n then block_mark_as_used (of_nat q) (snd (block_merge_next (of_nat c) (of_nat q) m)) else m)"
  shows "reallocated c t m m' R (q + 8) s sz (of_nat (q + 8))"
proof -
  let ?p = "c + 3184"
  have pl: "pool (rd m) c ?p (xs @ (s, False) # ys) (frees ?p xs \<union> frees (q + s + 4) ys)" and co: "coalesced (xs @ (s, False) # ys)"
    using heap_parts [OF h(1)] h(2) q by (simp_all add: add_ac)
  show ?thesis
  proof (cases "s < n")
    case False
    obtain bl' w where b: "heap m' c ?p bl'" "span bl' = span xs + s + 4 + span ys" "n \<le> w"
      "regions ?p bl' = insert (q + 8, w) (regions ?p xs \<union> regions (q + s + 4) ys)" "kept m m' c ?p bl'"
      using trim_heap [OF pl co q n(1-3) _, of m'] m' False by auto
    have "span bl' = t" using b(2) h(2,3) by simp
    moreover have "kept m m c ?p bl" by (simp add: kept_def)
    ultimately show ?thesis using realloc_stay [OF h q b(1) _ b(4) _ b(5)] n(4) b(3) by simp
  next
    case True
    then obtain u ys' where y: "ys = (u, True) # ys'" "n \<le> s + u + 4" using st first_free [of ys] by (auto simp: first_def)
    define m1 where "m1 = block_mark_as_used (of_nat q) (snd (block_merge_next (of_nat c) (of_nat q) m))"
    note g = grow [OF pl [unfolded y(1)] q m1_def refl]
    have co1: "coalesced (xs @ (s + u + 4, False) # ys')" using co y(1) by (simp add: coalesced_split coalesced_Cons)
    obtain bl' w where b: "heap m' c ?p bl'" "span bl' = span xs + (s + u + 4) + 4 + span ys'" "n \<le> w"
      "regions ?p bl' = insert (q + 8, w) (regions ?p xs \<union> regions (q + (s + u + 4) + 4) ys')" "kept m1 m' c ?p bl'"
      using trim_heap [OF g(1) co1 q n(1-3) y(2), of m'] m' True by (auto simp: m1_def)
    have "span bl' = t" using b(2) h(2,3) y(1) by simp
    moreover have "regions (q + (s + u + 4) + 4) ys' = regions (q + s + 4) ys" using y(1) by (simp add: add_ac)
    moreover have "kept m m1 c ?p bl" using g(2) h(2) y(1) by simp
    ultimately show ?thesis using realloc_stay [OF h q b(1) _ _ _ b(5)] b(3,4) n(4) by simp
  qed
qed

text \<open>C7: Reallocation. A block of the heap that is reallocated to a size the allocator can serve either stays as
  it is, when the request fails, or is replaced by a block of at least the size asked, at the same or a new address,
  that holds the same bytes up to the smaller of the two sizes; all other blocks and all bytes outside of the heap
  are as before and the heap stays in good order.\<close>

theorem tlsf_realloc_correct:
  assumes ok: "heap_blocks c t m R" and a: "(a, s) \<in> R" and sz: "0 < sz" "sz \<le> 0xFFFFFFFC" "adjust_request_size sz ALIGN_SIZE \<noteq> 0"
    and r: "tlsf_realloc (of_nat c) (of_nat a) sz m = (r, m')"
  shows "if r = 0 then m' = m else reallocated c t m m' R a s sz r"
proof -
  let ?p = "c + 3184"
  obtain bl where bl: "heap m c ?p bl" "span bl = t" "regions ?p bl = R" using ok by (auto simp: heap_blocks_def)
  obtain xs ys where x: "bl = xs @ (s, False) # ys" "a = ?p + span xs + 8" using regions_at [of a s ?p bl] a bl(3) by blast
  define q where "q = ?p + span xs"
  define n where "n = unat (adjust_request_size sz ALIGN_SIZE)"
  note adj = adjusted [OF refl sz(3,2), folded n_def]
  have pl: "pool (rd m) c ?p (xs @ (s, False) # ys) (frees ?p bl)" using heap_parts [OF bl(1)] x(1) by simp
  have sz0: "sz \<noteq> 0" using sz(1) by auto
  note u = realloc_unfold [OF pl q_def sz0 n_def adj(1)]
  have aq: "a = q + 8" using x(2) q_def by simp
  show ?thesis
  proof (cases "s < n \<and> (\<not> snd (first ys) \<or> s + fst (first ys) + 4 < n)")
    case True
    obtain r1 m1 where k: "tlsf_malloc (of_nat c) sz m = (r1, m1)" by fastforce
    have res: "(r, m') = (if r1 \<noteq> 0 then (r1, tlsf_free (of_nat c) (of_nat a) (memcpy m1 r1 (of_nat a) (min (of_nat s) sz))) else (r1, m1))"
      using r u True k aq by (auto simp del: of_nat_add split: if_splits)
    show ?thesis
    proof (cases "r1 = 0")
      case True
      have "kmalloc (of_nat c) (of_nat (unat sz)) m = (r1, m1)" using k by (simp add: kmalloc_def)
      moreover have "unat sz \<le> client_limit" using sz(2) by (simp add: word_le_nat_alt)
      ultimately have "m1 = m" using blocks_alloc [OF ok] True by metis
      then show ?thesis using res True by simp
    next
      case False
      then show ?thesis using res realloc_move [OF ok a sz(2) k False] by simp
    qed
  next
    case False
    then have res: "r = of_nat (q + 8)" "m' = block_trim_used (of_nat c) (of_nat q) (of_nat n)
        (if s < n then block_mark_as_used (of_nat q) (snd (block_merge_next (of_nat c) (of_nat q) m)) else m)"
      using r u aq by (auto simp del: of_nat_add)
    have "reallocated c t m m' R a s sz r"
      using realloc_in_place [OF bl(1) x(1) bl(2,3) q_def adj(4,2,1,3) False res(2)] aq res(1) by simp
    moreover have "r \<noteq> 0" using res(1) blocks_range(1) [OF ok a] aq of_nat_eq32 [of "q + 8" 0] by auto
    ultimately show ?thesis by simp
  qed
qed

lemma used_heap_blocks: "heap_blocks 4096 5000 used_heap {(7288, 100)}"
  unfolding heap_blocks_def using used_heap_ok(2) by (intro exI [of _ "[(100, False), (4892, True)]"]) simp

theorem tlsf_realloc_correct_witness:
  "case tlsf_realloc 4096 7288 200 used_heap of (r, m') \<Rightarrow>
     if r = 0 then m' = used_heap else reallocated 4096 5000 used_heap m' {(7288, 100)} 7288 100 200 r"
proof -
  obtain r m' where k: "tlsf_realloc (of_nat 4096) (of_nat 7288) 200 used_heap = (r, m')" by fastforce
  have "if r = 0 then m' = used_heap else reallocated 4096 5000 used_heap m' {(7288, 100)} 7288 100 200 r"
    by (rule tlsf_realloc_correct [OF used_heap_blocks _ _ _ _ k]) (simp_all add: adjust_request_size_def align_up_def)
  then show ?thesis using k by simp
qed

text \<open>C36: A size the allocator cannot serve is not noticed by reallocation: the adjusted size is 0, the block seems
  large enough, and the call returns the old address as if it had succeeded, where it should return the null
  pointer.\<close>

theorem tlsf_realloc_too_large:
  assumes ok: "heap_blocks c t m R" and a: "(a, s) \<in> R" and sz: "0x40000000 \<le> sz" "sz \<le> 0xFFFFFFFC"
  shows "fst (tlsf_realloc (of_nat c) (of_nat a) sz m) = of_nat a \<and> (of_nat a :: u32) \<noteq> 0 \<and> s < unat sz"
proof -
  let ?p = "c + 3184"
  obtain bl where bl: "heap m c ?p bl" "regions ?p bl = R" using ok by (auto simp: heap_blocks_def)
  obtain xs ys where x: "bl = xs @ (s, False) # ys" "a = ?p + span xs + 8" using regions_at [of a s ?p bl] a bl(2) by blast
  define q where "q = ?p + span xs"
  have pl: "pool (rd m) c ?p (xs @ (s, False) # ys) (frees ?p bl)" using heap_parts [OF bl(1)] x(1) by simp
  have sz0: "sz \<noteq> 0" using sz(1) by auto
  have un: "unat sz \<ge> 2 ^ 30" using sz(1) by (simp add: word_le_nat_alt)
  have "adjust_request_size sz ALIGN_SIZE = 0"
  proof (rule ccontr)
    assume "adjust_request_size sz ALIGN_SIZE \<noteq> 0"
    then show False using adjusted(1,3) [OF refl _ sz(2)] un by fastforce
  qed
  then have "tlsf_realloc (of_nat c) (of_nat (q + 8)) sz m = (of_nat (q + 8), block_trim_used (of_nat c) (of_nat q) (of_nat 0) m)"
    using realloc_unfold [OF pl q_def sz0, of 0] by (simp del: of_nat_add)
  then show ?thesis using x(2) q_def blocks_range [OF ok a] un of_nat_eq32 [of a 0] by (auto simp del: of_nat_add)
qed

theorem tlsf_realloc_too_large_witness: "fst (tlsf_realloc 4096 7288 0x40000000 used_heap) = 7288"
  using tlsf_realloc_too_large [OF used_heap_blocks, of 7288 100 "0x40000000"] by simp

end
