(* ===== verification/UserHeap.thy ===== *)
theory UserHeap
  imports TlsfRealloc UserMem
begin

text \<open>
  The allocator of the user library (lib/malloc.c): the entry points that replace \<open>malloc\<close>, \<open>realloc\<close>, \<open>calloc\<close> and
  \<open>free\<close> of the C library. They place one heap between the program break and a fixed address, on the first call, and
  leave the work to the allocator of the kernel. The heap is an instance of \<open>allocator\<close>, of theory KernelHeap.
\<close>

section \<open>The allocator entry points\<close>

text \<open>\<open>mempool\<close> with the break of the kernel and the memory.\<close>

record user_mem =
  um_mempool :: addr
  um_brk :: brk_state
  um_mem :: mem

text \<open>The system calls 34 to 37 are the allocator itself.\<close>

abbreviation sys_malloc_init :: "addr \<Rightarrow> u32 \<Rightarrow> mem \<Rightarrow> addr \<times> mem" where "sys_malloc_init \<equiv> tlsf_create_with_pool"
abbreviation sys_malloc :: "addr \<Rightarrow> u32 \<Rightarrow> mem \<Rightarrow> addr \<times> mem" where "sys_malloc \<equiv> tlsf_malloc"
abbreviation sys_realloc :: "addr \<Rightarrow> addr \<Rightarrow> u32 \<Rightarrow> mem \<Rightarrow> addr \<times> mem" where "sys_realloc \<equiv> tlsf_realloc"
abbreviation sys_free :: "addr \<Rightarrow> addr \<Rightarrow> mem \<Rightarrow> mem" where "sys_free \<equiv> tlsf_free"

text \<open>\<open>MEMTOP - 2048\<close>\<close>

abbreviation DEFAULT_BRK :: addr where "DEFAULT_BRK \<equiv> 0x21400"

definition setup_malloc :: "addr \<Rightarrow> addr \<Rightarrow> user_mem \<Rightarrow> bool \<times> user_mem" where
  "setup_malloc gp user_sp u =
     (let (pool, b1) = SYS_brk gp user_sp 0 (um_brk u);
          (actual_brk, b2) = SYS_brk gp user_sp DEFAULT_BRK b1;
          bytes = actual_brk - pool;
          u1 = u\<lparr>um_mempool := pool, um_brk := b2\<rparr>
      in if actual_brk > pool
         then case sys_malloc_init pool bytes (um_mem u1) of (p, m) \<Rightarrow>
                if p \<noteq> 0 then (True, u1\<lparr>um_mem := m\<rparr>) else (False, u1\<lparr>um_mem := m, um_mempool := 0\<rparr>)
         else (False, u1\<lparr>um_mempool := 0\<rparr>))"

definition setup_malloc_pool :: "addr \<Rightarrow> u32 \<Rightarrow> user_mem \<Rightarrow> bool \<times> user_mem" where
  "setup_malloc_pool a sz u =
     (case sys_malloc_init a sz (um_mem u) of (p, m) \<Rightarrow>
        if p \<noteq> 0 then (True, u\<lparr>um_mem := m, um_mempool := a\<rparr>) else (False, u\<lparr>um_mem := m\<rparr>))"

text \<open>\<open>if(!mempool) { if(!setup_malloc()) return NULL; }\<close>\<close>

definition with_pool :: "addr \<Rightarrow> addr \<Rightarrow> (user_mem \<Rightarrow> addr \<times> user_mem) \<Rightarrow> user_mem \<Rightarrow> addr \<times> user_mem" where
  "with_pool gp user_sp f u =
     (if um_mempool u = 0
      then case setup_malloc gp user_sp u of (ok, u1) \<Rightarrow> if ok then f u1 else (0, u1)
      else f u)"

definition malloc_r :: "addr \<Rightarrow> addr \<Rightarrow> u32 \<Rightarrow> user_mem \<Rightarrow> addr \<times> user_mem" where
  "malloc_r gp user_sp sz =
     with_pool gp user_sp (\<lambda>u. case sys_malloc (um_mempool u) sz (um_mem u) of (p, m) \<Rightarrow> (p, u\<lparr>um_mem := m\<rparr>))"

definition realloc_r :: "addr \<Rightarrow> addr \<Rightarrow> addr \<Rightarrow> u32 \<Rightarrow> user_mem \<Rightarrow> addr \<times> user_mem" where
  "realloc_r gp user_sp ptr sz =
     with_pool gp user_sp (\<lambda>u. case sys_realloc (um_mempool u) ptr sz (um_mem u) of (p, m) \<Rightarrow> (p, u\<lparr>um_mem := m\<rparr>))"

definition calloc_r :: "addr \<Rightarrow> addr \<Rightarrow> u32 \<Rightarrow> u32 \<Rightarrow> user_mem \<Rightarrow> addr \<times> user_mem" where
  "calloc_r gp user_sp nmemb sz =
     with_pool gp user_sp (\<lambda>u.
       let bytes = nmemb * sz in
       case sys_malloc (um_mempool u) bytes (um_mem u) of (p, m) \<Rightarrow>
         (p, u\<lparr>um_mem := (if p \<noteq> 0 then memset m p 0 bytes else m)\<rparr>))"

definition free_r :: "addr \<Rightarrow> user_mem \<Rightarrow> user_mem" where
  "free_r ptr u = u\<lparr>um_mem := sys_free (um_mempool u) ptr (um_mem u)\<rparr>"

section \<open>The user heap is an allocator\<close>

definition user_blocks :: "nat \<Rightarrow> nat \<Rightarrow> user_mem \<Rightarrow> (nat \<times> nat) set \<Rightarrow> bool" where
  "user_blocks c t u R \<longleftrightarrow> um_mempool u = of_nat c \<and> (of_nat c :: u32) \<noteq> 0 \<and> heap_blocks c t (um_mem u) R"

definition user_alloc :: "addr \<Rightarrow> addr \<Rightarrow> nat \<Rightarrow> user_mem \<Rightarrow> nat option \<times> user_mem" where
  "user_alloc gp sp n u = (case malloc_r gp sp (of_nat n) u of (p, u') \<Rightarrow> (if p = 0 then None else Some (unat p), u'))"

definition user_free :: "nat \<Rightarrow> user_mem \<Rightarrow> user_mem" where
  "user_free a u = free_r (of_nat a) u"

definition user_poke :: "nat \<Rightarrow> byte \<Rightarrow> user_mem \<Rightarrow> user_mem" where
  "user_poke x v u = u\<lparr>um_mem := client_poke x v (um_mem u)\<rparr>"

lemma user_alloc_eq:
  assumes "um_mempool u = of_nat c" and "um_mempool u \<noteq> 0"
  shows "user_alloc gp sp n u = (case client_alloc c n (um_mem u) of (r, m) \<Rightarrow> (r, u\<lparr>um_mem := m\<rparr>))"
  using assms by (simp add: user_alloc_def malloc_r_def with_pool_def client_alloc_def kmalloc_def split: prod.splits)

lemma user_free_eq: "um_mempool u = of_nat c \<Longrightarrow> user_free a u = u\<lparr>um_mem := client_free c a (um_mem u)\<rparr>"
  by (simp add: user_free_def free_r_def client_free_def kfree_def)

interpretation user: allocator "user_blocks c t" "heap_foreign c t" "\<lambda>u x. um_mem u (of_nat x)" "user_alloc gp sp" user_free user_poke client_limit for c t gp sp
proof unfold_locales
  fix u R a s b k assume "user_blocks c t u R" "(a, s) \<in> R" "(b, k) \<in> R" "(a, s) \<noteq> (b, k)"
  then show "{a..<a + s} \<inter> {b..<b + k} = {}" using kernel.disjoint unfolding user_blocks_def by blast
next
  fix u R a s assume "user_blocks c t u R" "(a, s) \<in> R"
  then show "0 < s \<and> (\<forall>x \<in> {a..<a + s}. \<not> heap_foreign c t x)" using kernel.owned unfolding user_blocks_def by blast
next
  fix u R n u' assume a: "user_blocks c t u R" "n \<le> client_limit" "user_alloc gp sp n u = (None, u')"
  then obtain m where "client_alloc c n (um_mem u) = (None, m)" "u' = u\<lparr>um_mem := m\<rparr>"
    using user_alloc_eq [of u c gp sp n] by (auto simp: user_blocks_def split: prod.splits)
  moreover from this have "m = um_mem u" using kernel.alloc_none [of c t "um_mem u" R n m] a by (simp add: user_blocks_def)
  ultimately show "u' = u" by simp
next
  fix u R n a u' assume a: "user_blocks c t u R" "n \<le> client_limit" "user_alloc gp sp n u = (Some a, u')"
  then obtain m where m: "client_alloc c n (um_mem u) = (Some a, m)" "u' = u\<lparr>um_mem := m\<rparr>"
    using user_alloc_eq [of u c gp sp n] by (auto simp: user_blocks_def split: prod.splits)
  then show "\<exists>s. n \<le> s \<and> (a, s) \<notin> R \<and> user_blocks c t u' (insert (a, s) R) \<and>
      (\<forall>x. heap_foreign c t x \<or> x \<in> covered R \<longrightarrow> um_mem u' (of_nat x) = um_mem u (of_nat x))"
    using kernel.alloc_some [of c t "um_mem u" R n a m] a by (auto simp: user_blocks_def)
next
  fix u R a s assume a: "user_blocks c t u R" "(a, s) \<in> R"
  then show "user_blocks c t (user_free a u) (R - {(a, s)}) \<and>
      (\<forall>x. heap_foreign c t x \<or> x \<in> covered (R - {(a, s)}) \<longrightarrow> um_mem (user_free a u) (of_nat x) = um_mem u (of_nat x))"
    using kernel.dealloc [of c t "um_mem u" R a s] user_free_eq [of u c a] by (simp add: user_blocks_def)
next
  fix u R a s x v assume a: "user_blocks c t u R" "(a, s) \<in> R" "x \<in> {a..<a + s}"
  then show "user_blocks c t (user_poke x v u) R \<and>
      (\<forall>y. heap_foreign c t y \<or> y \<in> covered R \<longrightarrow> um_mem (user_poke x v u) (of_nat y) = (if y = x then v else um_mem u (of_nat y)))"
    using kernel.poke [of c t "um_mem u" R a s x v] by (simp add: user_blocks_def user_poke_def)
qed

section \<open>The first allocation sets the heap up\<close>

lemma setup_malloc_eq:
  assumes "0 < low_brk gp (um_brk u)" and "cur_brk gp (um_brk u) < DEFAULT_BRK" and "DEFAULT_BRK \<le> sp - 1024"
    and "tlsf_create_with_pool (cur_brk gp (um_brk u)) (DEFAULT_BRK - cur_brk gp (um_brk u)) (um_mem u) = (p, m)" and "p \<noteq> 0"
  shows "setup_malloc gp sp u =
    (True, u\<lparr>um_mempool := cur_brk gp (um_brk u), um_brk := \<lparr>program_brk = DEFAULT_BRK, min_brk = low_brk gp (um_brk u)\<rparr>, um_mem := m\<rparr>)"
proof -
  let ?b = "um_brk u" let ?c = "cur_brk gp ?b" let ?l = "low_brk gp ?b"
  have first: "SYS_brk gp sp 0 ?b = (?c, \<lparr>program_brk = ?c, min_brk = ?l\<rparr>)" using assms(1) by (auto simp: SYS_brk_eq Let_def)
  have "?l \<le> DEFAULT_BRK" by (rule order.trans [OF low_le_cur less_imp_le [OF assms(2)]])
  then have second: "SYS_brk gp sp DEFAULT_BRK \<lparr>program_brk = ?c, min_brk = ?l\<rparr> = (DEFAULT_BRK, \<lparr>program_brk = DEFAULT_BRK, min_brk = ?l\<rparr>)"
    using assms(3) by (simp add: SYS_brk_eq Let_def)
  show ?thesis using assms(2,4,5) by (simp add: setup_malloc_def first second)
qed

text \<open>What \<open>setup_malloc\<close> leaves: an empty heap from the old break \<open>c\<close> up to the default break.\<close>

lemma setup_malloc_heap:
  assumes "c = unat (cur_brk gp (um_brk u))" and "0 < low_brk gp (um_brk u)" and "4 dvd c" and "c + 3208 \<le> 136192"
    and "DEFAULT_BRK \<le> sp - 1024"
  obtains u1 where "setup_malloc gp sp u = (True, u1)" and "user_blocks c (133000 - c) u1 {}" and "um_mempool u1 \<noteq> 0"
    and "\<And>x. heap_foreign c (133000 - c) x \<Longrightarrow> um_mem u1 (of_nat x) = um_mem u (of_nat x)"
proof -
  have c: "of_nat c = cur_brk gp (um_brk u)" using assms(1) by simp
  have "0 < cur_brk gp (um_brk u)" using assms(2) low_le_cur [of gp "um_brk u"] by (rule less_le_trans)
  then have pos: "0 < c" using assms(1) by (simp add: word_less_nat_alt)
  have lt: "cur_brk gp (um_brk u) < DEFAULT_BRK" using assms(1,4) by (simp add: word_less_nat_alt)
  have sz: "(of_nat (136192 - c) :: u32) = DEFAULT_BRK - cur_brk gp (um_brk u)" using assms(4) c by (simp add: of_nat_diff)
  obtain p m where r: "tlsf_create_with_pool (of_nat c) (of_nat (136192 - c)) (um_mem u) = (p, m)" by fastforce
  have "4 dvd 132996 - c" using assms(3) by (intro dvd_diff_nat) simp_all
  then have mod4: "132996 - c = (136192 - c - 3196) - (136192 - c - 3196) mod 4" by (simp add: mod_eq_0_iff_dvd)
  have b: "c + (136192 - c) \<le> 4294967296" "12 \<le> 132996 - c" "132996 - c < 2 ^ 30" using assms(4) by simp_all
  note h = create_heap [OF assms(3) pos b(1) mod4 b(2,3) r]
  let ?u = "u\<lparr>um_mempool := cur_brk gp (um_brk u), um_brk := \<lparr>program_brk = DEFAULT_BRK, min_brk = low_brk gp (um_brk u)\<rparr>, um_mem := m\<rparr>"
  have "setup_malloc gp sp u = (True, ?u)" using setup_malloc_eq [OF assms(2) lt assms(5)] r h(2) c sz by simp
  moreover have "user_blocks c (133000 - c) ?u {}"
    unfolding user_blocks_def heap_blocks_def using h c b(2) by (auto intro!: exI [of _ "[(132996 - c, True)]"])
  moreover have "um_mempool ?u \<noteq> 0" using h(1,2) c by simp
  moreover have "um_mem ?u (of_nat x) = um_mem u (of_nat x)" if "heap_foreign c (133000 - c) x" for x
    using h(4) that b(2) by (auto simp: kept_def heap_foreign_def)
  ultimately show thesis by (rule that)
qed

lemma user_alloc_first:
  assumes "um_mempool u = 0" and "setup_malloc gp sp u = (True, u1)" and "um_mempool u1 \<noteq> 0"
  shows "user_alloc gp sp n u = user_alloc gp sp n u1"
  using assms by (simp add: user_alloc_def malloc_r_def with_pool_def)

text \<open>A run that starts before the heap exists is, after its first request, a run from the heap that is set up.\<close>

lemma client_run_first:
  assumes same: "\<And>n. alloc n m = alloc n m1" and r: "(client alloc dealloc poke limit)\<^sup>*\<^sup>* (m, {}, Map.empty) (m', L, V)"
  shows "(m', L, V) = (m, {}, Map.empty) \<or> (client alloc dealloc poke limit)\<^sup>*\<^sup>* (m1, {}, Map.empty) (m', L, V)"
  using r
proof (cases rule: converse_rtranclpE)
  case (step y)
  from step(1) have "client alloc dealloc poke limit (m1, {}, Map.empty) y"
  proof cases
    case (get n a m2)
    then show ?thesis using client.get [of alloc n m1 a m2 limit dealloc poke "{}" Map.empty] same by simp
  next
    case (refused n m2)
    then show ?thesis using client.refused [of alloc n m1 m2 limit dealloc poke "{}" Map.empty] same by simp
  qed simp_all
  then show ?thesis using step(2) by (blast intro: converse_rtranclp_into_rtranclp)
qed simp

section \<open>Properties\<close>

text \<open>C32: The heap of a user program. A program whose break \<open>c\<close> is a multiple of four and leaves room for the
  allocator below the default break of 0x21400, with its stack above that, and that calls \<open>malloc\<close> and \<open>free\<close> in any order,
  frees only blocks it holds and writes only inside them: the first call of \<open>malloc\<close> sets the heap up; the blocks it holds
  never overlap, lie between \<open>c + 3192\<close> and the default break, and keep what the program wrote to them; and no
  byte below \<open>c\<close> or from the default break on is ever changed by the library or the allocator.\<close>

theorem user_heap_safe:
  assumes u: "um_mempool u0 = 0" and c: "c = unat (cur_brk gp (um_brk u0))" "0 < low_brk gp (um_brk u0)" "4 dvd c" "c + 3208 \<le> 136192"
    and sp: "DEFAULT_BRK \<le> sp - 1024"
    and r: "(client (user_alloc gp sp) user_free user_poke client_limit)\<^sup>*\<^sup>* (u0, {}, Map.empty) (u', L, V)"
  shows "fst (setup_malloc gp sp u0) \<and>
    (\<forall>a n. (a, n) \<in> L \<longrightarrow> c + 3192 \<le> a \<and> a + n \<le> unat DEFAULT_BRK) \<and>
    (\<forall>a n b k. (a, n) \<in> L \<longrightarrow> (b, k) \<in> L \<longrightarrow> (a, n) \<noteq> (b, k) \<longrightarrow> {a..<a + n} \<inter> {b..<b + k} = {}) \<and>
    (\<forall>x v. V x = Some v \<longrightarrow> um_mem u' (of_nat x) = v) \<and>
    (\<forall>x < 4294967296. x < c \<or> unat DEFAULT_BRK \<le> x \<longrightarrow> um_mem u' (of_nat x) = um_mem u0 (of_nat x))"
proof -
  obtain u1 where u1: "setup_malloc gp sp u0 = (True, u1)" "user_blocks c (133000 - c) u1 {}" "um_mempool u1 \<noteq> 0"
    and f: "\<And>x. heap_foreign c (133000 - c) x \<Longrightarrow> um_mem u1 (of_nat x) = um_mem u0 (of_nat x)"
    using setup_malloc_heap [OF c sp] by blast
  from client_run_first [OF user_alloc_first [OF u u1(1,3)] r] show ?thesis
  proof
    assume "(u', L, V) = (u0, {}, Map.empty)"
    then show ?thesis using u1(1) by simp
  next
    assume "(client (user_alloc gp sp) user_free user_poke client_limit)\<^sup>*\<^sup>* (u1, {}, Map.empty) (u', L, V)"
    then obtain R where R: "user.serves c (133000 - c) u1 u' L V R" using user.clients_served u1(2) by blast
    note s = R [unfolded user.serves_def]
    obtain bl where bl: "heap (um_mem u') c (c + 3184) bl" "span bl = 133000 - c" "regions (c + 3184) bl = R"
      using s by (auto simp: user_blocks_def heap_blocks_def)
    have inside: "c + 3192 \<le> a \<and> a + n \<le> unat DEFAULT_BRK" if l: "(a, n) \<in> L" for a n
    proof -
      obtain t where "(a, t) \<in> R" "n \<le> t" using s l by blast
      then show ?thesis using regions_range [of bl a t "c + 3184"] heap_sizes [OF bl(1)] bl(2,3) c(4) by auto
    qed
    have out: "um_mem u' (of_nat x) = um_mem u0 (of_nat x)" if x: "x < 4294967296" "x < c \<or> unat DEFAULT_BRK \<le> x" for x
    proof -
      have h: "heap_foreign c (133000 - c) x" using x c(4) by (auto simp: heap_foreign_def)
      then have "um_mem u' (of_nat x) = um_mem u1 (of_nat x)" using s by blast
      then show ?thesis using f [OF h] by simp
    qed
    have val: "um_mem u' (of_nat x) = v" if "V x = Some v" for x v using s that by blast
    show ?thesis using u1(1) inside out val user.serves_apart [OF R] by simp
  qed
qed

text \<open>A program with its break at 0x12000 and its stack at the top of the memory, before and after its first
  \<open>malloc\<close>.\<close>

definition demo_user :: user_mem where
  "demo_user = \<lparr>um_mempool = 0, um_brk = demo_brk, um_mem = (\<lambda>_. 0)\<rparr>"

definition demo_used :: user_mem where
  "demo_used = snd (malloc_r 0x11000 0x21C00 100 demo_user)"

lemma demo_brks: "low_brk 0x11000 (um_brk demo_user) = 73728" "cur_brk 0x11000 (um_brk demo_user) = 73728"
  by (simp_all add: low_brk_def cur_brk_def demo_user_def demo_brk_def max_def)

lemma demo_malloc: "user_alloc 0x11000 0x21C00 100 demo_user = (Some 76920, demo_used)"
proof -
  obtain u1 where u1: "setup_malloc 0x11000 0x21C00 demo_user = (True, u1)" "user_blocks 73728 59272 u1 {}" "um_mempool u1 \<noteq> 0"
    using setup_malloc_heap [of 73728 "0x11000" demo_user "0x21C00"] demo_brks by auto
  have pool: "um_mempool u1 = 73728" and h: "heap (um_mem u1) 73728 76912 [(59268, True)]"
    using u1(2) heap_drained [of 73728 59272 "um_mem u1"] by (simp_all add: user_blocks_def)
  have d: "um_mempool demo_user = 0" by (simp add: demo_user_def)
  obtain ptr m where r: "tlsf_malloc (of_nat 73728) 100 (um_mem u1) = (ptr, m)" by fastforce
  have "ptr = 76920" using malloc_heap [OF h _ r refl] by (auto simp: adjust_100 Cons_eq_append_conv split: if_splits)
  then have "malloc_r 0x11000 0x21C00 100 demo_user = (76920, u1\<lparr>um_mem := m\<rparr>)"
    using u1(1) r d by (simp add: malloc_r_def with_pool_def pool)
  then show ?thesis by (simp add: user_alloc_def demo_used_def)
qed

theorem user_heap_safe_witness:
  "um_mem (user_poke 76921 65 demo_used) 76921 = 65 \<and> um_mem (user_poke 76921 65 demo_used) 0x21400 = 0"
proof -
  let ?step = "client (user_alloc 0x11000 0x21C00) user_free user_poke client_limit"
  have 1: "?step (demo_user, {}, Map.empty) (demo_used, insert (76920, 100) {}, Map.empty |` (- {76920..<76920 + 100}))"
    using demo_malloc by (rule client.get) simp
  have 2: "?step (demo_used, {(76920, 100)}, Map.empty) (user_poke 76921 65 demo_used, {(76920, 100)}, Map.empty(76921 \<mapsto> 65))"
    by (rule client.put [of 76920 100]) simp_all
  have r: "?step\<^sup>*\<^sup>* (demo_user, {}, Map.empty) (user_poke 76921 65 demo_used, {(76920, 100)}, Map.empty(76921 \<mapsto> 65))"
    using 1 2 by (auto intro: rtranclp_trans)
  have d: "um_mempool demo_user = 0" "\<And>x. um_mem demo_user x = 0" by (simp_all add: demo_user_def)
  note s = user_heap_safe [OF d(1) _ _ _ _ _ r, of 73728]
  have v: "\<forall>x v. (Map.empty(76921 \<mapsto> 65)) x = Some v \<longrightarrow> um_mem (user_poke 76921 65 demo_used) (of_nat x) = v"
    and f: "\<forall>x < 4294967296. x < 73728 \<or> 136192 \<le> x \<longrightarrow> um_mem (user_poke 76921 65 demo_used) (of_nat x) = 0"
    using s d(2) by (simp_all add: demo_brks)
  show ?thesis using v [rule_format, of 76921 65] f [rule_format, of 136192] by simp
qed

text \<open>\<open>calloc\<close> clears the block it has asked for. The size it asks for is the product of its arguments reduced to
  32 bits: a product of 4294967296 or more yields a block that is smaller than the caller wanted.\<close>

lemma calloc_clears:
  assumes "um_mempool u \<noteq> 0" and "malloc_r gp sp (nmemb * sz) u = (p, u1)" and "p \<noteq> 0"
  shows "calloc_r gp sp nmemb sz u = (p, u1\<lparr>um_mem := memset (um_mem u1) p 0 (nmemb * sz)\<rparr>)"
    and "load_bytes (memset (um_mem u1) p 0 (nmemb * sz)) p (unat (nmemb * sz)) = replicate (unat (nmemb * sz)) 0"
    and "unat (nmemb * sz) = unat nmemb * unat sz mod 4294967296"
proof -
  show "calloc_r gp sp nmemb sz u = (p, u1\<lparr>um_mem := memset (um_mem u1) p 0 (nmemb * sz)\<rparr>)"
    using assms by (auto simp: calloc_r_def malloc_r_def with_pool_def split: prod.splits)
  have "unat (nmemb * sz) \<le> 4294967296" using unat_lt32 [of "nmemb * sz"] by linarith
  then show "load_bytes (memset (um_mem u1) p 0 (nmemb * sz)) p (unat (nmemb * sz)) = replicate (unat (nmemb * sz)) 0"
    by (simp add: memset_correct load_store_same)
  show "unat (nmemb * sz) = unat nmemb * unat sz mod 4294967296" by (simp add: unat_word_ariths)
qed

end
