(* ===== verification/FatCalls.thy ===== *)
theory FatCalls
  imports Disk
begin

text \<open>
  FatFs as code that calls the disk functions. The settings of system/ffconf.h leave FatFs (system/ff.c) no other
  way into the kernel: its file name buffer is static (\<open>FF_USE_LFN\<close> is 1), it keeps no time and takes
  no locks. Between two calls of \<open>disk_initialize\<close>, \<open>disk_status\<close>, \<open>disk_read\<close>, \<open>disk_write\<close> and
  \<open>disk_ioctl\<close> a function of FatFs computes on its own variables and its arguments; it is a \<open>fat_prog\<close>, a tree of
  disk calls whose branches are the answers. For whatever such code FatFs consists of, the kernel invariant
  holds in every state that system calls reach. Mounting follows \<open>f_mount\<close> and
  the beginning of \<open>mount_volume\<close> of ff.c.
\<close>

section \<open>Code over the disk functions\<close>

text \<open>\<open>'v\<close> are the variables of FatFs.\<close>

datatype ('v, 'r) fat_prog =
    Return 'r
  | GetVols "'v \<Rightarrow> ('v, 'r) fat_prog"
  | SetVols 'v "('v, 'r) fat_prog"
  | Disk_initialize byte "byte \<Rightarrow> ('v, 'r) fat_prog"
  | Disk_status byte "byte \<Rightarrow> ('v, 'r) fat_prog"
  | Disk_read byte "byte list" u32 u32 "DRESULT \<Rightarrow> byte list \<Rightarrow> ('v, 'r) fat_prog"
  | Disk_write byte "byte list" u32 u32 "DRESULT \<Rightarrow> ('v, 'r) fat_prog"
  | Disk_ioctl byte byte "DRESULT \<Rightarrow> byte list \<Rightarrow> ('v, 'r) fat_prog"

primrec run_fat ::
  "('f, 'l, 'd, 'v, 's) platform \<Rightarrow> ('v, 'r) fat_prog \<Rightarrow> ('f, 'l, 'd, 'v, 's) kernel \<Rightarrow> fault + ('r \<times> ('f, 'l, 'd, 'v, 's) kernel)" where
  "run_fat pl (Return r) k = Inr (r, k)"
| "run_fat pl (GetVols p) k = run_fat pl (p (k_vols k)) k"
| "run_fat pl (SetVols v p) k = run_fat pl p (k\<lparr>k_vols := v\<rparr>)"
| "run_fat pl (Disk_initialize d p) k = bindE (disk_initialize pl d k) (\<lambda>(st, k1). run_fat pl (p st) k1)"
| "run_fat pl (Disk_status d p) k = run_fat pl (p (disk_status d k)) k"
| "run_fat pl (Disk_read d buf sector count p) k =
     bindE (disk_read pl d buf sector count k) (\<lambda>(res, bs, k1). run_fat pl (p res bs) k1)"
| "run_fat pl (Disk_write d buf sector count p) k =
     bindE (disk_write pl d buf sector count k) (\<lambda>(res, k1). run_fat pl (p res) k1)"
| "run_fat pl (Disk_ioctl d cmd p) k = bindE (disk_ioctl pl d cmd k) (\<lambda>(res, out, k1). run_fat pl (p res out) k1)"

text \<open>The functions of the API, with the objects they change as part of their results.\<close>

record ('l, 'd, 'v) fat_code =
  c_open :: "'l \<Rightarrow> string \<Rightarrow> byte \<Rightarrow> ('v, FRESULT \<times> 'l) fat_prog"
  c_read :: "'l \<Rightarrow> byte list \<Rightarrow> ('v, FRESULT \<times> byte list \<times> u32 \<times> 'l) fat_prog"
  c_write :: "'l \<Rightarrow> byte list \<Rightarrow> ('v, FRESULT \<times> u32 \<times> 'l) fat_prog"
  c_close :: "'l \<Rightarrow> ('v, FRESULT \<times> 'l) fat_prog"
  c_lseek :: "'l \<Rightarrow> u32 \<Rightarrow> ('v, FRESULT \<times> 'l) fat_prog"
  c_tell :: "'l \<Rightarrow> u32"
  c_size :: "'l \<Rightarrow> u32"
  c_opendir :: "'d \<Rightarrow> string \<Rightarrow> ('v, FRESULT \<times> 'd) fat_prog"
  c_closedir :: "'d \<Rightarrow> ('v, FRESULT \<times> 'd) fat_prog"
  c_readdir :: "'d \<Rightarrow> ('v, FRESULT \<times> FILINFO \<times> 'd) fat_prog"
  c_stat :: "string \<Rightarrow> ('v, FRESULT \<times> FILINFO) fat_prog"
  c_unlink :: "string \<Rightarrow> ('v, FRESULT) fat_prog"
  c_mkdir :: "string \<Rightarrow> ('v, FRESULT) fat_prog"
  c_chdir :: "string \<Rightarrow> ('v, FRESULT) fat_prog"
  c_mount :: "nat option \<Rightarrow> string \<Rightarrow> byte \<Rightarrow> ('v, FRESULT) fat_prog"

definition fatfs_of :: "('f, 'l, 'd, 'v, 's) platform \<Rightarrow> ('l, 'd, 'v) fat_code \<Rightarrow> ('f, 'l, 'd, 'v, 's) fatfs" where
  "fatfs_of pl c = \<lparr>
     f_open = (\<lambda>fp path b k. bindE (run_fat pl (c_open c fp path b) k) (\<lambda>((r, fp1), k1). Inr (r, fp1, k1))),
     f_read = (\<lambda>fp buf k. bindE (run_fat pl (c_read c fp buf) k) (\<lambda>((r, bs, n, fp1), k1). Inr (r, bs, n, fp1, k1))),
     f_write = (\<lambda>fp buf k. bindE (run_fat pl (c_write c fp buf) k) (\<lambda>((r, n, fp1), k1). Inr (r, n, fp1, k1))),
     f_close = (\<lambda>fp k. bindE (run_fat pl (c_close c fp) k) (\<lambda>((r, fp1), k1). Inr (r, fp1, k1))),
     f_lseek = (\<lambda>fp off k. bindE (run_fat pl (c_lseek c fp off) k) (\<lambda>((r, fp1), k1). Inr (r, fp1, k1))),
     f_tell = c_tell c, f_size = c_size c,
     f_opendir = (\<lambda>d path k. bindE (run_fat pl (c_opendir c d path) k) (\<lambda>((r, d1), k1). Inr (r, d1, k1))),
     f_closedir = (\<lambda>d k. bindE (run_fat pl (c_closedir c d) k) (\<lambda>((r, d1), k1). Inr (r, d1, k1))),
     f_readdir = (\<lambda>d k. bindE (run_fat pl (c_readdir c d) k) (\<lambda>((r, fi, d1), k1). Inr (r, fi, d1, k1))),
     f_stat = (\<lambda>path k. bindE (run_fat pl (c_stat c path) k) (\<lambda>((r, fi), k1). Inr (r, fi, k1))),
     f_unlink = (\<lambda>path. run_fat pl (c_unlink c path)), f_mkdir = (\<lambda>path. run_fat pl (c_mkdir c path)),
     f_chdir = (\<lambda>path. run_fat pl (c_chdir c path)), f_mount = (\<lambda>fs path opt. run_fat pl (c_mount c fs path opt))\<rparr>"

text \<open>
  The disk functions of the flash disk are clients of the system calls, which call FatFs again when the
  descriptor they are given is that of a file. The stack bounds how deep that goes: with no room left
  a call of FatFs is a fault.
\<close>

definition no_stack :: "('l, 'd, 'v) fat_code \<Rightarrow> ('f, 'l, 'd, 'v, 's) fatfs" where
  "no_stack c = \<lparr>f_open = (\<lambda>fp path b k. Inl Out_Of_Bounds), f_read = (\<lambda>fp buf k. Inl Out_Of_Bounds),
     f_write = (\<lambda>fp buf k. Inl Out_Of_Bounds), f_close = (\<lambda>fp k. Inl Out_Of_Bounds),
     f_lseek = (\<lambda>fp off k. Inl Out_Of_Bounds), f_tell = c_tell c, f_size = c_size c,
     f_opendir = (\<lambda>d path k. Inl Out_Of_Bounds), f_closedir = (\<lambda>d k. Inl Out_Of_Bounds),
     f_readdir = (\<lambda>d k. Inl Out_Of_Bounds), f_stat = (\<lambda>path k. Inl Out_Of_Bounds),
     f_unlink = (\<lambda>path k. Inl Out_Of_Bounds), f_mkdir = (\<lambda>path k. Inl Out_Of_Bounds),
     f_chdir = (\<lambda>path k. Inl Out_Of_Bounds), f_mount = (\<lambda>fs path opt k. Inl Out_Of_Bounds)\<rparr>"

primrec fat_platform ::
  "'f flash_hw \<Rightarrow> 's sd_hw \<Rightarrow> ('l, 'd, 'v) fat_code \<Rightarrow> nat \<Rightarrow> ('f, 'l, 'd, 'v, 's) platform" where
  "fat_platform fh sh c 0 = \<lparr>pl_flash = fh, pl_fat = no_stack c, pl_sd = sh\<rparr>"
| "fat_platform fh sh c (Suc n) = \<lparr>pl_flash = fh, pl_fat = fatfs_of (fat_platform fh sh c n) c, pl_sd = sh\<rparr>"

section \<open>Mounting a volume\<close>

abbreviation STA_PROTECT :: byte where "STA_PROTECT \<equiv> 4"

text \<open>The beginning of \<open>mount_volume\<close>; \<open>search\<close> is the rest, the search for a FAT volume on the drive of the file
  system object.\<close>

definition mount_volume ::
  "(nat \<Rightarrow> ('x ff_state_scheme, FRESULT) fat_prog) \<Rightarrow> string \<Rightarrow> byte \<Rightarrow> ('x ff_state_scheme, FRESULT) fat_prog" where
  "mount_volume search path mode =
     GetVols (\<lambda>st. case get_ldnumber (CurrVol st) path of
       (None, _) \<Rightarrow> Return FR_INVALID_DRIVE
     | (Some vol, _) \<Rightarrow> (case FatFs st ! vol of
         None \<Rightarrow> Return FR_NOT_ENABLED
       | Some fs \<Rightarrow>
           let mode1 = mode AND NOT FA_READ;
               attempt = SetVols (st\<lparr>fs_type := (fs_type st)(fs := 0)\<rparr>) (Disk_initialize (fs_pdrv st fs) (\<lambda>stat.
                 if stat AND STA_NOINIT \<noteq> 0 then Return FR_NOT_READY
                 else if mode1 \<noteq> 0 \<and> stat AND STA_PROTECT \<noteq> 0 then Return FR_WRITE_PROTECTED
                 else search fs))
           in if fs_type st fs \<noteq> 0
              then Disk_status (fs_pdrv st fs) (\<lambda>stat.
                if stat AND STA_NOINIT = 0
                then Return (if mode1 \<noteq> 0 \<and> stat AND STA_PROTECT \<noteq> 0 then FR_WRITE_PROTECTED else FR_OK)
                else attempt)
              else attempt))"

definition f_mount_code ::
  "(nat \<Rightarrow> ('x ff_state_scheme, FRESULT) fat_prog) \<Rightarrow> nat option \<Rightarrow> string \<Rightarrow> byte \<Rightarrow> ('x ff_state_scheme, FRESULT) fat_prog" where
  "f_mount_code search fs path opt =
     GetVols (\<lambda>st. case f_mount_register fs path st of
       None \<Rightarrow> Return FR_INVALID_DRIVE
     | Some st1 \<Rightarrow> SetVols st1 (if opt = 0 then Return FR_OK else mount_volume search path 0))"

section \<open>The disk functions leave open descriptors alone\<close>

lemma fat_keeps_same: "kernel_inv k' \<Longrightarrow> k_fdtab k' = k_fdtab k \<Longrightarrow> fat_keeps_result k k'"
  by (simp add: fat_keeps_result_def)

lemma fat_keeps_trans: "fat_keeps_result k k1 \<Longrightarrow> fat_keeps_result k1 k2 \<Longrightarrow> fat_keeps_result k k2"
  by (auto simp: fat_keeps_result_def)

lemma open_device_keeps:
  assumes "kernel_inv k" and "open_device devname fl k = (rc, k')"
  shows "fat_keeps_result k k'"
proof -
  have r: "open_result devname k (rc, k')" using open_device_result [OF assms(1), of devname fl] assms(2) by simp
  have "k_fdtab k' ! i = k_fdtab k ! i" if "i \<in> fds_used (k_fdtab k)" for i
    using open_device_entries [OF assms(2)] kernel_alloc(3) [OF assms(1)] that by metis
  then show ?thesis using r by (auto simp: open_result_def fat_keeps_result_def split: if_splits)
qed

lemma SYS_read_keeps:
  assumes ff: "fat_keeps (pl_fat pl)" and k: "kernel_inv k" and r: "SYS_read pl fd buf k = Inr (rc, buf', k')"
  shows "fat_keeps_result k k'"
proof -
  consider "k' = k" | c where "fd_read pl c fd buf k = Inr (rc, buf', k')"
    using r by (auto simp: SYS_read_def bindE_Inr_iff split: if_splits option.splits)
  then show ?thesis
  proof cases
    case 1
    then show ?thesis using k by (simp add: fat_keeps_same)
  next
    case (2 c)
    note inv = fd_read_inv [OF ff k 2]
    show ?thesis
    proof (cases "c = Fileio_func")
      case True
      then show ?thesis using 2 fileio_keeps(1) [OF ff k] by (simp add: fd_read_def)
    next
      case False
      then have "k_fdtab k' = k_fdtab k" using 2 by (cases c) (auto simp: fd_read_def bindE_Inr_iff rgbled_read_def)
      then show ?thesis using inv by (rule fat_keeps_same [rotated])
    qed
  qed
qed

lemma SYS_write_keeps:
  assumes ff: "fat_keeps (pl_fat pl)" and k: "kernel_inv k" and r: "SYS_write pl fd buf k = Inr (rc, k')"
  shows "fat_keeps_result k k'"
proof -
  consider "k' = k" | c where "fd_write pl c fd buf k = Inr (rc, k')"
    using r by (auto simp: SYS_write_def bindE_Inr_iff split: if_splits option.splits)
  then show ?thesis
  proof cases
    case 1
    then show ?thesis using k by (simp add: fat_keeps_same)
  next
    case (2 c)
    note inv = fd_write_inv [OF ff k 2]
    show ?thesis
    proof (cases "c = Fileio_func")
      case True
      then show ?thesis using 2 fileio_keeps(2) [OF ff k] by (simp add: fd_write_def)
    next
      case False
      then have "k_fdtab k' = k_fdtab k"
        using 2 by (cases c) (auto simp: fd_write_def bindE_Inr_iff console_write_def rgbled_write_def)
      then show ?thesis using inv by (rule fat_keeps_same [rotated])
    qed
  qed
qed

lemma SYS_lseek_keeps:
  assumes ff: "fat_keeps (pl_fat pl)" and k: "kernel_inv k" and r: "SYS_lseek pl fd off wh k = Inr (rc, k')"
  shows "fat_keeps_result k k'"
proof -
  consider "k' = k" | c op where "fd_lseek pl c = Some op" "op fd off wh k = Inr (rc, k')"
    using r by (auto simp: SYS_lseek_def bindE_Inr_iff split: if_splits option.splits)
  then show ?thesis
  proof cases
    case 1
    then show ?thesis using k by (simp add: fat_keeps_same)
  next
    case (2 c op)
    note inv = fd_lseek_inv [OF ff k 2]
    show ?thesis
    proof (cases "c = Fileio_func")
      case True
      then show ?thesis using 2 fileio_keeps(4) [OF ff k] by (simp add: fd_lseek_def)
    next
      case False
      then have "k_fdtab k' = k_fdtab k" using 2 by (cases c) (auto simp: fd_lseek_def split: prod.splits)
      then show ?thesis using inv by (rule fat_keeps_same [rotated])
    qed
  qed
qed

lemma disk_initialize_keeps:
  assumes k: "kernel_inv k" and r: "disk_initialize pl d k = Inr (st, k')"
  shows "fat_keeps_result k k'"
proof (cases "d = DEV_SPIFLASH")
  case True
  obtain rc k1 where o: "open_device ''spiflash'' O_RDWR k = (rc, k1)" by fastforce
  have "fat_keeps_result k k1" by (rule open_device_keeps [OF k o])
  then have "fat_keeps_result k (k1\<lparr>k_flash_fd := rc\<rparr>)" by (simp add: fat_keeps_result_def)
  then show ?thesis using r True o k fat_keeps_same [OF k refl]
    by (auto simp: disk_initialize_def intflash_init_def SYS_open_def bindE_Inr_iff split: if_splits)
next
  case False
  then have "kernel_inv k' \<and> k_fdtab k' = k_fdtab k"
    using r k by (auto simp: disk_initialize_def split: if_splits prod.splits)
  then show ?thesis by (simp add: fat_keeps_same)
qed

lemma disk_read_keeps:
  assumes ff: "fat_keeps (pl_fat pl)" and k: "kernel_inv k" and r: "disk_read pl d buf sector count k = Inr (res, bs, k')"
  shows "fat_keeps_result k k'"
proof (cases "d = DEV_SPIFLASH \<and> \<not> k_flash_fd k < 0")
  case True
  then obtain rc k1 p where l: "SYS_lseek pl (k_flash_fd k) p SEEK_SET k = Inr (rc, k1)"
    and t: "k' = k1 \<or> (\<exists>b rc b'. SYS_read pl (k_flash_fd k1) b k1 = Inr (rc, b', k'))"
    using r by (auto simp: disk_read_def intflash_read_def bindE_Inr_iff Let_def split: if_splits) blast
  have 1: "fat_keeps_result k k1" by (rule SYS_lseek_keeps [OF ff k l])
  then show ?thesis using t SYS_read_keeps [OF ff fat_keeps_resultD [OF 1]] fat_keeps_trans [OF 1] by blast
next
  case False
  then have "kernel_inv k' \<and> k_fdtab k' = k_fdtab k"
    using r k by (auto simp: disk_read_def intflash_read_def split: if_splits prod.splits)
  then show ?thesis by (simp add: fat_keeps_same)
qed

lemma disk_write_keeps:
  assumes ff: "fat_keeps (pl_fat pl)" and k: "kernel_inv k" and r: "disk_write pl d buf sector count k = Inr (res, k')"
  shows "fat_keeps_result k k'"
proof (cases "d = DEV_SPIFLASH \<and> \<not> k_flash_fd k < 0")
  case True
  then obtain rc k1 p where l: "SYS_lseek pl (k_flash_fd k) p SEEK_SET k = Inr (rc, k1)"
    and t: "k' = k1 \<or> (\<exists>b rc. SYS_write pl (k_flash_fd k1) b k1 = Inr (rc, k'))"
    using r by (auto simp: disk_write_def intflash_write_def bindE_Inr_iff Let_def split: if_splits) blast
  have 1: "fat_keeps_result k k1" by (rule SYS_lseek_keeps [OF ff k l])
  then show ?thesis using t SYS_write_keeps [OF ff fat_keeps_resultD [OF 1]] fat_keeps_trans [OF 1] by blast
next
  case False
  then have "kernel_inv k' \<and> k_fdtab k' = k_fdtab k"
    using r k by (auto simp: disk_write_def intflash_write_def split: if_splits prod.splits option.splits)
  then show ?thesis by (simp add: fat_keeps_same)
qed

lemma disk_ioctl_keeps:
  assumes k: "kernel_inv k" and r: "disk_ioctl pl d cmd k = Inr (res, out, k')"
  shows "fat_keeps_result k k'"
proof -
  have "kernel_inv k' \<and> k_fdtab k' = k_fdtab k"
    using r k by (auto simp: disk_ioctl_def intflash_ioctl_def intflash_sync_def bindE_Inr_iff
        intro: kernel_inv_flash dest!: ofds_sync split: if_splits prod.splits)
  then show ?thesis by (simp add: fat_keeps_same)
qed

section \<open>Every function of FatFs keeps the invariant\<close>

lemma run_fat_keeps:
  assumes ff: "fat_keeps (pl_fat pl)"
  shows "kernel_inv k \<Longrightarrow> run_fat pl p k = Inr (r, k') \<Longrightarrow> fat_keeps_result k k'"
proof (induction p arbitrary: k)
  case (SetVols v p)
  have "fat_keeps_result (k\<lparr>k_vols := v\<rparr>) k'" using SetVols by simp
  then show ?case by (simp add: fat_keeps_result_def)
next
  case (Disk_initialize d p)
  then obtain st k1 where d: "disk_initialize pl d k = Inr (st, k1)" "run_fat pl (p st) k1 = Inr (r, k')"
    by (auto simp: bindE_Inr_iff)
  have 1: "fat_keeps_result k k1" by (rule disk_initialize_keeps [OF Disk_initialize.prems(1) d(1)])
  show ?case using Disk_initialize.IH [OF _ fat_keeps_resultD [OF 1] d(2)] fat_keeps_trans [OF 1] by simp
next
  case (Disk_read d buf sector count p)
  then obtain res bs k1 where d: "disk_read pl d buf sector count k = Inr (res, bs, k1)" "run_fat pl (p res bs) k1 = Inr (r, k')"
    by (auto simp: bindE_Inr_iff)
  have 1: "fat_keeps_result k k1" by (rule disk_read_keeps [OF ff Disk_read.prems(1) d(1)])
  show ?case using Disk_read.IH [OF _ _ fat_keeps_resultD [OF 1] d(2)] fat_keeps_trans [OF 1] by blast
next
  case (Disk_write d buf sector count p)
  then obtain res k1 where d: "disk_write pl d buf sector count k = Inr (res, k1)" "run_fat pl (p res) k1 = Inr (r, k')"
    by (auto simp: bindE_Inr_iff)
  have 1: "fat_keeps_result k k1" by (rule disk_write_keeps [OF ff Disk_write.prems(1) d(1)])
  show ?case using Disk_write.IH [OF _ fat_keeps_resultD [OF 1] d(2)] fat_keeps_trans [OF 1] by simp
next
  case (Disk_ioctl d cmd p)
  then obtain res out k1 where d: "disk_ioctl pl d cmd k = Inr (res, out, k1)" "run_fat pl (p res out) k1 = Inr (r, k')"
    by (auto simp: bindE_Inr_iff)
  have 1: "fat_keeps_result k k1" by (rule disk_ioctl_keeps [OF Disk_ioctl.prems(1) d(1)])
  show ?case using Disk_ioctl.IH [OF _ _ fat_keeps_resultD [OF 1] d(2)] fat_keeps_trans [OF 1] by blast
qed (auto simp: fat_keeps_same)

lemma fatfs_of_keeps: "fat_keeps (pl_fat pl) \<Longrightarrow> fat_keeps (fatfs_of pl c)"
  unfolding fat_keeps_def [of "fatfs_of pl c"]
  by (intro allI impI conjI) (auto simp: fatfs_of_def bindE_Inr_iff dest: run_fat_keeps)

lemma fat_platform_keeps: "fat_keeps (pl_fat (fat_platform fh sh c n))"
proof (induction n)
  case 0
  show ?case by (simp add: fat_keeps_def no_stack_def)
next
  case (Suc n)
  then show ?case using fatfs_of_keeps by simp
qed

section \<open>The system calls as a state machine\<close>

text \<open>The calls of \<open>sys_step\<close> on descriptors, and those on volumes, paths and directories.\<close>

inductive kernel_step ::
  "('f, 'l, 'd, 'v, 's) platform \<Rightarrow> ('f, 'l, 'd, 'v, 's) kernel \<Rightarrow> ('f, 'l, 'd, 'v, 's) kernel \<Rightarrow> bool"
  for pl where
  descriptor: "sys_step pl k k' \<Longrightarrow> kernel_step pl k k'"
| mount: "SYS_mount (pl_fat pl) src fstype k = Inr (rc, k') \<Longrightarrow> kernel_step pl k k'"
| umount: "SYS_umount pl target k = Inr (rc, k') \<Longrightarrow> kernel_step pl k k'"
| stat: "SYS_stat (pl_fat pl) path k = Inr (rc, st, k') \<Longrightarrow> kernel_step pl k k'"
| unlink: "SYS_unlink (pl_fat pl) path k = Inr (rc, k') \<Longrightarrow> kernel_step pl k k'"
| mkdir: "SYS_mkdir (pl_fat pl) path k = Inr (rc, k') \<Longrightarrow> kernel_step pl k k'"
| chdir: "SYS_chdir (pl_fat pl) path k = Inr (rc, k') \<Longrightarrow> kernel_step pl k k'"
| opendir: "SYS_opendir (pl_fat pl) path k = Inr (rc, k') \<Longrightarrow> kernel_step pl k k'"
| closedir: "SYS_closedir (pl_fat pl) dh k = Inr (rc, k') \<Longrightarrow> kernel_step pl k k'"
| readdir: "SYS_readdir (pl_fat pl) dh d k = Inr (rc, d', k') \<Longrightarrow> kernel_step pl k k'"

lemma kernel_inv_put_dir [simp]: "kernel_inv (put_dir i d k) = kernel_inv k"
  by (simp add: put_dir_def)

lemma SYS_umount_inv:
  assumes ff: "fat_keeps (pl_fat pl)" and k: "kernel_inv k" and r: "SYS_umount pl target k = Inr (rc, k')"
  shows "kernel_inv k'"
proof -
  obtain res k1 where m: "f_mount (pl_fat pl) None target 0 k = Inr (res, k1)"
    and t: "k' = k1 \<or> intflash_release pl k1 = Inr k'"
    using r by (auto simp: SYS_umount_def bindE_Inr_iff split: if_splits)
  have k1: "kernel_inv k1" by (rule fat_keeps_resultD [OF fat_keepsD(13) [OF ff k m]])
  show ?thesis using t k1 SYS_close_inv [OF ff k1] by (auto simp: intflash_release_def bindE_Inr_iff split: if_splits)
qed

lemma kernel_step_inv:
  assumes "kernel_step pl k k'" and ff: "fat_keeps (pl_fat pl)" and k: "kernel_inv k"
  shows "kernel_inv k'"
  using assms(1)
proof cases
  case descriptor
  then show ?thesis by (rule sys_step_inv [OF _ ff k])
next
  case (umount target rc)
  then show ?thesis by (rule SYS_umount_inv [OF ff k])
qed (use k in \<open>auto simp: SYS_mount_def SYS_stat_def SYS_unlink_def SYS_mkdir_def SYS_chdir_def path_op_def
  SYS_opendir_def SYS_closedir_def SYS_readdir_def bindE_Inr_iff Let_def
  dest!: fat_keepsD(6-) [OF ff k] fat_keeps_resultD split: if_splits option.splits\<close>)

section \<open>Properties\<close>

text \<open>C3: The kernel invariant holds in every state the system reaches: from start-up, through any
  sequence of the system calls on descriptors, volumes, paths and directories and of network interrupts, every
  descriptor in use has a driver, the standard descriptors stay the console, and the flash
  driver's list holds exactly the descriptors open on the flash device, each once. Nothing is assumed of FatFs but that it is code which
  calls the disk functions: the disk functions open the flash device and use its descriptor through
  the same system calls, nested as deep as the stack allows.\<close>

theorem kernel_inv_reachable:
  assumes "fl_list (k_flash k0) = replicate MAX_FLASH_FDS \<lparr>ofd_fd = 0, ofd_fileptr = 0\<rparr>"
    and "(kernel_step (fat_platform fh sh c n))\<^sup>*\<^sup>* (fd_init k0) k"
  shows "kernel_inv k"
  using assms(2)
  by (induction rule: rtranclp_induct) (auto intro: fd_init_inv(1) [OF assms(1)] kernel_step_inv fat_platform_keeps)

text \<open>A FatFs that initialises the flash disk and reads its first sector to open a file, and does not find it.\<close>

definition demo_code :: "(unit, unit, unit) fat_code" where
  "demo_code = \<lparr>c_open = (\<lambda>fp path b. Disk_initialize 0 (\<lambda>st. Disk_read 0 (replicate 512 0) 0 1 (\<lambda>res bs. Return (FR_NO_FILE, fp)))),
     c_read = (\<lambda>fp buf. Return (FR_INVALID_OBJECT, buf, 0, fp)), c_write = (\<lambda>fp buf. Return (FR_INVALID_OBJECT, 0, fp)),
     c_close = (\<lambda>fp. Return (FR_INVALID_OBJECT, fp)), c_lseek = (\<lambda>fp off. Return (FR_INVALID_OBJECT, fp)),
     c_tell = (\<lambda>fp. 0), c_size = (\<lambda>fp. 0), c_opendir = (\<lambda>d path. Return (FR_NO_PATH, d)),
     c_closedir = (\<lambda>d. Return (FR_INVALID_OBJECT, d)),
     c_readdir = (\<lambda>d. Return (FR_INVALID_OBJECT, \<lparr>fi_fsize = 0, fi_fattrib = 0, fi_fname = []\<rparr>, d)),
     c_stat = (\<lambda>path. Return (FR_NO_FILE, \<lparr>fi_fsize = 0, fi_fattrib = 0, fi_fname = []\<rparr>)),
     c_unlink = (\<lambda>path. Return FR_NO_FILE), c_mkdir = (\<lambda>path. Return FR_DENIED), c_chdir = (\<lambda>path. Return FR_NO_PATH),
     c_mount = (\<lambda>fs path opt. Return FR_NO_FILESYSTEM)\<rparr>"

lemma demo_file_slot:
  "\<exists>tab. fd_alloc (k_fdtab (fd_init boot_kernel)) = Some (3, tab) \<and>
     (\<exists>k2. open_device ''spiflash'' O_RDWR ((fd_init boot_kernel)\<lparr>k_fdtab := tab[3 := (tab ! 3)\<lparr>fd_fdfunc := Some Fileio_func\<rparr>]\<rparr>) = (4, k2))"
  using flags_set [of O_RDONLY] flags_set [of O_WRONLY]
  by (simp add: open_device_def open_table_def fd_alloc_def for_find.simps fd_init_fdtab cons_FD_def zero_FD_def
      spiflash_open_def new_fd_def fd_init_flash boot_fl_list numeral_3_eq_3 Let_def)

lemma fd_init_rest: "k_flash_fd (fd_init k) = k_flash_fd k" "k_fhnd (fd_init k) = k_fhnd k"
  by (simp_all add: fd_init_def open_device_def open_table_def open_console_def Let_def split: option.splits prod.splits)

lemma demo_file_open:
  "\<exists>k. SYS_open (fat_platform nor_chip ref_sd demo_code 1) ''hello'' 0 (fd_init boot_kernel) = Inr (- ENOENT, k)"
proof -
  let ?pl = "fat_platform nor_chip ref_sd demo_code 0 :: (nor, unit, unit, unit, sdcard) platform"
  obtain tab where a: "fd_alloc (k_fdtab (fd_init boot_kernel)) = Some (3, tab)"
    and o: "\<exists>k2. open_device ''spiflash'' O_RDWR ((fd_init boot_kernel)\<lparr>k_fdtab := tab[3 := (tab ! 3)\<lparr>fd_fdfunc := Some Fileio_func\<rparr>]\<rparr>) = (4, k2)"
    using demo_file_slot by blast
  define k1 where "k1 = (fd_init boot_kernel)\<lparr>k_fdtab := tab[3 := (tab ! 3)\<lparr>fd_fdfunc := Some Fileio_func\<rparr>]\<rparr>"
  obtain k2 where o: "open_device ''spiflash'' O_RDWR k1 = (4, k2)" using o unfolding k1_def by blast
  have "3 < length tab" "fd_flags (tab ! 3) = FLAG_ALLOCATED" "fd_fd (tab ! 3) = int 3"
    using kernel_alloc [OF demo_inv a] fdtab_length [OF demo_inv] by simp_all
  then have inv: "kernel_inv k1" unfolding k1_def
    by (intro kernel_inv_enter [OF demo_inv a, of Fileio_func]) simp_all
  have fl: "flash_inv id (k_flash k1)" using boot_flash_inv by (simp add: k1_def)
  have fd: "k_flash_fd k1 < 0" using boot_flash_fd by (simp add: k1_def)
  have "open_result ''spiflash'' k1 (4, k2)" using open_device_result [OF inv, of "''spiflash''" O_RDWR] o by simp
  then have m: "flash_mounted id (k2\<lparr>k_flash_fd := 4\<rparr>)"
    using open_device_flash(1) [OF o fl]
    by (auto simp: open_result_def flash_mounted_def flash_open_def flash_fds_def device_class_def)
  have chip: "nor_flash (pl_flash ?pl) id" by (simp add: nor_chip_ok)
  obtain k3 where r: "intflash_read ?pl (replicate 512 0) (of_nat 0) (of_nat 1) (k2\<lparr>k_flash_fd := 4\<rparr>) =
      Inr (RES_OK, blocks_get 0 1 (flash_sectors id (k2\<lparr>k_flash_fd := 4\<rparr>)), k3)"
    using intflash_read_sectors [OF chip m, of 1 0 "replicate 512 0"] by auto
  have "run_fat ?pl (c_open demo_code () ''hello'' b) k1 = Inr ((FR_NO_FILE, ()), k3)" for b
    using fd o r by (simp add: demo_code_def disk_initialize_def disk_read_def intflash_init_def SYS_open_def)
  then have "f_open (pl_fat (fat_platform nor_chip ref_sd demo_code 1)) () ''hello'' b k1 = Inr (FR_NO_FILE, (), k3)" for b
    by (simp add: fatfs_of_def)
  moreover have "get_fhnd 3 k1 = Inr ()" by (simp add: get_fhnd_def k1_def fd_init_rest boot_kernel_def)
  ultimately show ?thesis using a
    by (simp add: SYS_open_def fileio_open_def k1_def [symmetric] fatfs_to_errno_def Let_def)
qed

theorem kernel_inv_reachable_witness:
  "\<exists>k. SYS_open (fat_platform nor_chip ref_sd demo_code 1) ''hello'' 0 (fd_init boot_kernel) = Inr (- ENOENT, k) \<and> kernel_inv k"
proof -
  obtain k where k: "SYS_open (fat_platform nor_chip ref_sd demo_code 1) ''hello'' 0 (fd_init boot_kernel) = Inr (- ENOENT, k)"
    using demo_file_open by blast
  then have "kernel_step (fat_platform nor_chip ref_sd demo_code 1) (fd_init boot_kernel) k"
    by (intro kernel_step.descriptor) (rule sys_step.sys_open)
  then show ?thesis using kernel_inv_reachable [OF boot_fl_list r_into_rtranclp] k by blast
qed

text \<open>C37: Mounting the SD card mounts the internal flash. \<open>SYS_mount\<close> gives FatFs a drive string
  without a colon and there is one volume, so \<open>f_mount\<close> registers the file system object of the card for volume 0, in place of
  and invalidating the object that was registered there; the drive it then initialises, and on which it
  looks for a file system, is the flash disk.\<close>

theorem mount_sd_is_flash:
  assumes "CurrVol (k_vols k) = 0" and "length (FatFs (k_vols k)) = FF_VOLUMES"
  shows "\<exists>st. FatFs st = [Some 1] \<and> fs_pdrv st 1 = DEV_SPIFLASH \<and>
    (\<forall>f. FatFs (k_vols k) = [Some f] \<longrightarrow> fs_type st f = 0) \<and>
    SYS_mount (fatfs_of pl (c\<lparr>c_mount := f_mount_code search\<rparr>)) ''sd'' ''fatfs'' k =
      bindE (disk_initialize pl DEV_SPIFLASH (k\<lparr>k_vols := st\<rparr>)) (\<lambda>(stat, k1).
        if stat AND STA_NOINIT \<noteq> 0 then Inr (fatfs_to_errno FR_NOT_READY, k1)
        else bindE (run_fat pl (search 1) k1) (\<lambda>(res, k2). Inr (fatfs_to_errno res, k2)))"
proof -
  define v where "v = k_vols k"
  have "get_ldnumber 0 ''1'' = (Some 0, ''1'')" by (simp add: get_ldnumber_def IsTerminator_def)
  moreover obtain reg where "FatFs v = [reg]" using assms(2) unfolding v_def by (cases "FatFs (k_vols k)") auto
  ultimately obtain st where st: "f_mount_register (Some 1) ''1'' v = Some st" "FatFs st = [Some 1]" "fs_pdrv st 1 = DEV_SPIFLASH"
      "CurrVol st = 0" "fs_type st 1 = 0" "\<forall>f. FatFs v = [Some f] \<longrightarrow> fs_type st f = 0"
    using assms(1) unfolding v_def [symmetric] by (cases reg) (auto simp: f_mount_register_def Let_def)
  have t: "st\<lparr>fs_type := (fs_type st)(1 := 0)\<rparr> = st" using st(5) by (cases st) (simp add: fun_upd_idem_iff)
  have "SYS_mount (fatfs_of pl (c\<lparr>c_mount := f_mount_code search\<rparr>)) ''sd'' ''fatfs'' k =
      bindE (disk_initialize pl DEV_SPIFLASH (k\<lparr>k_vols := st\<rparr>)) (\<lambda>(stat, k1).
        if stat AND STA_NOINIT \<noteq> 0 then Inr (fatfs_to_errno FR_NOT_READY, k1)
        else bindE (run_fat pl (search 1) k1) (\<lambda>(res, k2). Inr (fatfs_to_errno res, k2)))"
    using st t \<open>get_ldnumber 0 ''1'' = (Some 0, ''1'')\<close>
    by (cases "disk_initialize pl DEV_SPIFLASH (k\<lparr>k_vols := st\<rparr>)")
      (auto simp: SYS_mount_def fatfs_of_def f_mount_code_def mount_volume_def v_def)
  then show ?thesis using st unfolding v_def by blast
qed

text \<open>A kernel with the flash file system mounted, no descriptor left for the flash disk, and a FatFs that finds no
  file system.\<close>

definition mount_kernel :: "(nor, unit, unit, ff_state, sdcard) kernel" where
  "mount_kernel = \<lparr>k_fdtab = replicate 16 (cons_FD 0 0), k_console = k_console boot_kernel, k_led = k_led boot_kernel,
     k_flash = k_flash boot_kernel, k_econet = econet_demo, k_events = [], k_fhnd = [], k_dhnd = [], k_flash_fd = -1,
     k_vols = \<lparr>FatFs = [Some 0], CurrVol = 0, fs_pdrv = (\<lambda>f. 0), fs_type = (\<lambda>f. 3)\<rparr>, k_sdpart = k_sdpart boot_kernel,
     k_sd = ref_card\<rparr>"

definition mount_code :: "(unit, unit, ff_state) fat_code" where
  "mount_code = \<lparr>c_open = (\<lambda>fp path b. Return (FR_NO_FILE, fp)), c_read = (\<lambda>fp buf. Return (FR_INVALID_OBJECT, buf, 0, fp)),
     c_write = (\<lambda>fp buf. Return (FR_INVALID_OBJECT, 0, fp)), c_close = (\<lambda>fp. Return (FR_INVALID_OBJECT, fp)),
     c_lseek = (\<lambda>fp off. Return (FR_INVALID_OBJECT, fp)), c_tell = (\<lambda>fp. 0), c_size = (\<lambda>fp. 0),
     c_opendir = (\<lambda>d path. Return (FR_NO_PATH, d)), c_closedir = (\<lambda>d. Return (FR_INVALID_OBJECT, d)),
     c_readdir = (\<lambda>d. Return (FR_INVALID_OBJECT, \<lparr>fi_fsize = 0, fi_fattrib = 0, fi_fname = []\<rparr>, d)),
     c_stat = (\<lambda>path. Return (FR_NO_FILE, \<lparr>fi_fsize = 0, fi_fattrib = 0, fi_fname = []\<rparr>)),
     c_unlink = (\<lambda>path. Return FR_NO_FILE), c_mkdir = (\<lambda>path. Return FR_DENIED), c_chdir = (\<lambda>path. Return FR_NO_PATH),
     c_mount = f_mount_code (\<lambda>fs. Return FR_NO_FILESYSTEM)\<rparr>"

theorem mount_sd_is_flash_witness:
  "\<exists>k'. SYS_mount (fatfs_of (fat_platform nor_chip ref_sd mount_code 0) mount_code) ''sd'' ''fatfs'' mount_kernel =
      Inr (fatfs_to_errno FR_NOT_READY, k') \<and> k_flash_fd k' = - EMFILE \<and> FatFs (k_vols k') = [Some 1]"
proof -
  let ?pl = "fat_platform nor_chip ref_sd mount_code 0 :: (nor, unit, unit, ff_state, sdcard) platform"
  have v: "CurrVol (k_vols mount_kernel) = 0" "length (FatFs (k_vols mount_kernel)) = FF_VOLUMES"
    by (simp_all add: mount_kernel_def)
  have c: "mount_code\<lparr>c_mount := f_mount_code (\<lambda>fs. Return FR_NO_FILESYSTEM)\<rparr> = mount_code" by (simp add: mount_code_def)
  have full: "fd_alloc (k_fdtab mount_kernel) = None"
    using flags_set [of 0] by (simp add: fd_alloc_def for_find_None mount_kernel_def cons_FD_def option.case_eq_if)
  have "disk_initialize ?pl DEV_SPIFLASH (mount_kernel\<lparr>k_vols := st\<rparr>) = Inr (STA_NOINIT, mount_kernel\<lparr>k_vols := st, k_flash_fd := - EMFILE\<rparr>)" for st
    using full by (simp add: disk_initialize_def intflash_init_def SYS_open_def open_device_def) (simp add: mount_kernel_def)
  then show ?thesis
    using mount_sd_is_flash [OF v, where pl = ?pl and c = mount_code and search = "\<lambda>fs. Return FR_NO_FILESYSTEM"] unfolding c by auto
qed

end
