(* ===== verification/Spec2Isabelle.thy ===== *)
theory Spec2Isabelle
  imports FileServer Monitor InitProg UserHeap FatCalls
begin

text \<open>
  \<^bold>\<open>A verification library for the FileStick operating system\<close>

  FileStick is a small operating system for an Econet file server on a RISC-V (rv32imc) soft
  core: a kernel (src/system) with a console, an LED, an SPI flash chip, an Econet interface and
  FatFs volumes behind POSIX-style calls, an init process with a command line (src/init), a file
  server (src/fileserver), a network monitor (src/monitor) and the user-side library (src/lib).

  \<^bold>\<open>Theories\<close>

  \<^item> \<open>FS_Prelude\<close>: machine integers, byte-addressed memory with loads and stores, little-endian
    words, faults as values (\<open>fault + 'a\<close>), errno values, search loops.
  \<^item> \<open>CStrings\<close>: system/memcpy.c, memset.c, memcmp.c, strlen.c, strchr.c, strcmp.c, strncmp.c,
    strlcpy.c, strtok.c on memory, each with its meaning on lists.
  \<^item> \<open>FdTable\<close>: the descriptor table of system/fd.c, and the locale \<open>slot_pool\<close>, the contract of
    an allocator of numbered slots; the table and the directory handles are its
    instances, and the open list of the flash driver is shown to meet it.
  \<^item> \<open>SpiFlash\<close>: system/spi\_flashdev.c with system/spi\_flash.S. State \<open>flash_dev\<close> is the static
    data of the driver; the SPI controller, chip and allocator are the parameter \<open>flash_hw\<close>, with
    the hypothesis \<open>nor_flash\<close> (the chip obeys the NOR command set and every operation ends).
    The theorems relate the buffered device to one array of bytes, \<open>flash_view\<close>.
  \<^item> \<open>Console\<close>: system/console.c in both build variants, system/console\_rx.S, serial\_putc.S and
    rgbled.c. The locale \<open>fed_queue\<close> states what an interrupt-fed buffer promises when each arriving
    byte changes the contents in a given way, \<open>bounded_queue\<close> is the case where it is appended; the ring
    buffer is an instance of the one in interactive mode, where keys edit the line, and of the other in raw mode.
  \<^item> \<open>RawEconet\<close>: system/raw\_econet.c and system/econet\_rx.S. Interrupts are events; a call that
    waits consumes the events that happen meanwhile, and events marked as late happen between the steps of
    the code after the wait, where interrupts are enabled. The transmit buffer has its 2048 bytes.
  \<^item> \<open>FileIO\<close>: the kernel state and system/file.c, directory.c, file\_ops.c and mount.c over the
    parameter \<open>fatfs\<close>, the API of FatFs.
  \<^item> \<open>Syscalls\<close>: system/dev\_open.c and system/fd.c: opening devices and the dispatch of the
    descriptor calls, with the kernel invariant and that the calls keep it.
  \<^item> \<open>BlockDevice\<close>: the locale \<open>block_device\<close>, what a disk promises about single sectors, and
    what follows for sequences of writes.
  \<^item> \<open>SdCard\<close>: system/sd\_io.c, sd\_ldio.c and spi.S: the command protocol with a card, the
    partition table, sectors of the partition; the card is a parameter.
  \<^item> \<open>Disk\<close>: system/flashdisc.c, diskio.c and the selection of volumes of ff.c; both drives are
    instances of \<open>block_device\<close>.
  \<^item> \<open>FatCalls\<close>: FatFs as arbitrary code over the disk functions (\<open>fat_prog\<close>), \<open>f_mount\<close> and the
    beginning of \<open>mount_volume\<close> of ff.c as such code, and the kernel invariant over all reachable states.
  \<^item> \<open>UserMem\<close>: system/brk.c and lib/sbrk.c.
  \<^item> \<open>ElfLoad\<close>: system/elfload.c and exit.c: header checks, segment copying, the argument stack.
  \<^item> \<open>Supervisor\<close>: system/printk.c, hexdump.c and super\_shell.c.
  \<^item> \<open>Poll\<close>: system/poll.c and time.c.
  \<^item> \<open>Xmodem\<close>: init/xmodem\_server.c, the receiver of files. The locale \<open>checksum\<close> states what makes
    a register-based checksum find damage; the 16-bit CRC is its instance.
  \<^item> \<open>UserLib\<close>: lib/ioctl.c, lib/readdir.c and the error convention of the other wrappers; the
    record \<open>uproc\<close> is a user program with the machine below it.
  \<^item> \<open>Tlsf\<close>: system/tlsf.c and kmalloc.c, every operation on the words of the memory; the bit searches, the
    size classes, and that the search finds a block that fits.
  \<^item> \<open>TlsfLists\<close>, \<open>TlsfPool\<close>, \<open>TlsfHeap\<close>: the free lists as a set of blocks, the row of blocks as a list of
    sizes and flags, and the heap as a whole with creation, allocation and release.
  \<^item> \<open>KernelHeap\<close>: the locale \<open>allocator\<close>, what an allocator promises its clients, with everything clients
    may do as a step relation; the kernel heap is its instance.
  \<^item> \<open>TlsfRealloc\<close>: changing the size of a block.
  \<^item> \<open>UserHeap\<close>: lib/malloc.c, the heap of a user program above its break; the second instance of \<open>allocator\<close>.
  \<^item> \<open>FileServer\<close>: fileserver/message.c, starcmd.c and main.c.
  \<^item> \<open>Monitor\<close>: monitor/decoder.c and monitor.c.
  \<^item> \<open>InitProg\<close>: init/cli.c, icommands.c, configure.c, conffile.c, peekpoke.c and main.c.

  \<^bold>\<open>How the parts fit together\<close>

  The user programs call the kernel through the wrappers of \<open>UserLib\<close>; the system calls of \<open>Syscalls\<close>
  find the driver of a descriptor and call the operations of \<open>Console\<close>, \<open>SpiFlash\<close>, \<open>RawEconet\<close>
  and \<open>FileIO\<close>; FatFs, behind \<open>FileIO\<close>, reaches the disks of \<open>Disk\<close>, which use the flash device again
  through the system calls and the card through \<open>SdCard\<close>; \<open>FatCalls\<close> closes this circle. \<open>ElfLoad\<close> reads programs through the system
  calls and hands the memory above them to \<open>UserMem\<close>, where \<open>UserHeap\<close> places the heap of the program.

  \<^bold>\<open>What is shown\<close>

  Data: what is written to the flash device, to a disk or over the network is what is read back, and
  nothing else changes (flash, disks, Econet, XMODEM). State: the invariants of the descriptor
  table, the Econet driver and the XMODEM receiver hold in every reachable state, whatever interrupts
  happen in between and whatever FatFs does with its disks. Memory: the blocks of the kernel heap and of the heap of a program never overlap and keep what their owners
  wrote, through any sequence of requests and releases; the heap is always a row of blocks without free
  neighbours, indexed by size class, and a request fails only when no free block is clearly larger. Progress: waits end under the stated behaviour of the hardware (SD card, poll,
  XMODEM). Errors: refused programs, exhausted tables and damaged packets change nothing. Input: lines are
  edited, split and dispatched as typed. The remaining properties record where the code does not do
  what it means to, such as descriptor 16, the transmit buffer or reallocation to a huge size.

  \<^bold>\<open>Modelling\<close>

  A C operation is a function on the record of the state it works on. It returns \<open>Inl\<close> of a
  fault when the C code would leave its arrays, follow a null pointer, read an uninitialised
  variable or wait for ever; return values are integers as the C code returns them, 32-bit
  arithmetic is on words. Caller buffers are byte lists: a read is given the old contents and
  returns the new ones. Strings above the memory level are character lists; the lemmas of
  \<open>CStrings\<close> relate the C comparisons and the tokenizer to lists. Loops that end by themselves are
  recursive functions; loops that wait for hardware are partial functions whose undefined value is
  the fault \<open>Blocks_Forever\<close>, and the theorems prove that they end. No fuel is used.

  \<^bold>\<open>Not modelled\<close>

  FatFs (ff.c, ffunicode.c) apart from mounting and nanoprintf are third-party code. The functions of FatFs are
  a parameter; where a theorem needs that they leave the kernel alone, they are code over the disk functions
  and the theorem derives it. The memory the flash driver takes for its
  buffers is part of its parameter \<open>flash_hw\<close>. The self-checks and walkers of tlsf.c
  only read. For \<open>tlsf_memalign\<close> and \<open>tlsf_remove_pool\<close>, which nothing calls, there is a model and no theorem. The register dump and the crash
  message only print. Timing of the UART transmitter, the register saving of the interrupt entry,
  boot code, the Verilog, the host simulator (simlib) and the test programs are outside the model, as is
  what user programs print with \<open>printf\<close>, apart from the monitor and the reports of the configure
  command.
\<close>

end
